(* ===== verification/Rust_Prelude.thy ===== *)
theory Rust_Prelude
  imports Main "HOL-Library.AList" "HOL-Library.Word"
begin

text \<open>
  Shared ground of the development: the ways a Rust function can stop (\<open>panic\<close>), fallible
  computations as values of a sum type, the integer operations the sources use with their
  overflow behaviour, indexing with its range check, loops over slices, and the generic
  interface \<open>transition_system\<close> through which every component lifts its one-step
  invariant to all reachable states.
\<close>

named_theorems panic_simps \<open>unfolding of the fallible primitives\<close>

section \<open>Panics and fallible results\<close>

datatype panic =
    IndexOutOfBounds
  | ArithOverflow
  | DivideByZero
  | ExpectFailed string
  | AssertFailed string
  | NoReturn

text \<open>\<open>NoReturn\<close> is the outcome of a call that does not end; the theorems about its callers show that it does not occur.\<close>

definition or_diverge :: "(panic + 'a) option \<Rightarrow> panic + 'a" where
  "or_diverge r = (case r of None \<Rightarrow> Inl NoReturn | Some x \<Rightarrow> x)"

lemma or_diverge_Some [simp]: "or_diverge (Some x) = x"
  by (simp add: or_diverge_def)

type_synonym 'a res = "panic + 'a"

definition and_then :: "'e + 'a \<Rightarrow> ('a \<Rightarrow> 'e + 'b) \<Rightarrow> 'e + 'b" where
  "and_then m f = (case m of Inl e \<Rightarrow> Inl e | Inr x \<Rightarrow> f x)"

lemma and_then_Inl [simp]: "and_then (Inl e) f = Inl e"
  by (simp add: and_then_def)

lemma and_then_Inr [simp]: "and_then (Inr x) f = f x"
  by (simp add: and_then_def)

lemma and_then_eq_Inr:
  "and_then m f = Inr y \<longleftrightarrow> (\<exists>x. m = Inr x \<and> f x = Inr y)"
  by (cases m) auto

lemma and_then_cong [fundef_cong]:
  assumes "m = m'" and "\<And>x. m' = Inr x \<Longrightarrow> f x = g x"
  shows "and_then m f = and_then m' g"
  using assms by (cases m') auto

text \<open>
  \<open>returns m Q\<close>: the computation finishes without an error and its value satisfies \<open>Q\<close>.
  It is the total-correctness weakest precondition of the sum type.
\<close>

definition returns :: "'e + 'a \<Rightarrow> ('a \<Rightarrow> bool) \<Rightarrow> bool" where
  "returns m Q = (case m of Inl _ \<Rightarrow> False | Inr x \<Rightarrow> Q x)"

lemma returns_Inr [simp]: "returns (Inr x) Q \<longleftrightarrow> Q x"
  by (simp add: returns_def)

lemma returns_Inl [simp]: "returns (Inl e) Q \<longleftrightarrow> False"
  by (simp add: returns_def)

lemma returns_and_then [simp]:
  "returns (and_then m f) Q \<longleftrightarrow> returns m (\<lambda>x. returns (f x) Q)"
  by (cases m) simp_all

lemma returns_iff: "returns m Q \<longleftrightarrow> (\<exists>x. m = Inr x \<and> Q x)"
  by (cases m) auto

lemma returnsE:
  assumes "returns m Q"
  obtains x where "m = Inr x" and "Q x"
  using assms by (auto simp: returns_iff)

lemma returns_mono: "returns m P \<Longrightarrow> (\<And>x. P x \<Longrightarrow> Q x) \<Longrightarrow> returns m Q"
  by (cases m) auto

lemma returns_conj: "returns m P \<Longrightarrow> returns m Q \<Longrightarrow> returns m (\<lambda>x. P x \<and> Q x)"
  by (cases m) auto

lemma returns_if:
  "returns (if b then m else m') Q \<longleftrightarrow> (if b then returns m Q else returns m' Q)"
  by simp

text \<open>
  \<open>yields m Q\<close> is the partial counterpart: a value, if there is one, satisfies \<open>Q\<close>. It carries the
  frame lemmas (fields an operation never writes).
\<close>

definition yields :: "'e + 'a \<Rightarrow> ('a \<Rightarrow> bool) \<Rightarrow> bool" where
  "yields m Q = (case m of Inl _ \<Rightarrow> True | Inr x \<Rightarrow> Q x)"

lemma yields_simps [simp]:
  "yields (Inr x) Q \<longleftrightarrow> Q x"
  "yields (Inl e) Q"
  "yields m (\<lambda>_. True)"
  by (simp_all add: yields_def split: sum.split)

lemma yields_and_then [simp]:
  "yields (and_then m f) Q \<longleftrightarrow> yields m (\<lambda>x. yields (f x) Q)"
  by (cases m) simp_all

lemma yields_bind: "(\<And>x. m = Inr x \<Longrightarrow> yields (f x) Q) \<Longrightarrow> yields (and_then m f) Q"
  by (cases m) auto

lemma returns_bind: "returns m P \<Longrightarrow> (\<And>x. m = Inr x \<Longrightarrow> P x \<Longrightarrow> returns (f x) Q) \<Longrightarrow> returns (and_then m f) Q"
  by (cases m) auto

lemma yieldsD: "yields m Q \<Longrightarrow> m = Inr x \<Longrightarrow> Q x"
  by simp

lemma yields_mono: "yields m P \<Longrightarrow> (\<And>x. P x \<Longrightarrow> Q x) \<Longrightarrow> yields m Q"
  by (cases m) auto

section \<open>Integers\<close>

text \<open>
  Unsigned machine integers are natural numbers whose width is written out where the source
  checks it. \<open>sub_plain\<close> and \<open>add_plain\<close> are the operators \<open>-\<close> and \<open>+\<close>: with overflow
  checks (the debug profile) they panic, without them (the release profile) they wrap.
\<close>

definition u32_max :: nat where
  "u32_max = 4294967295"

definition u64_max :: nat where
  "u64_max = 18446744073709551615"

definition usize_max :: nat where
  "usize_max = 18446744073709551615"

definition i64_max :: nat where
  "i64_max = 9223372036854775807"

lemmas int_max_defs = u32_max_def u64_max_def usize_max_def i64_max_def

text \<open>The casts \<open>as i64\<close> and \<open>as i32\<close> keep the low bits.\<close>

definition as_i64 :: "nat \<Rightarrow> int" where
  "as_i64 n = sint (word_of_nat n :: 64 word)"

definition as_i32 :: "nat \<Rightarrow> int" where
  "as_i32 n = sint (word_of_nat n :: 32 word)"

lemma as_i64_small: "n \<le> i64_max \<Longrightarrow> as_i64 n = int n"
  by (simp add: as_i64_def i64_max_def sint_uint uint_nat unat_of_nat signed_take_bit_int_eq_self
      word_of_nat_eq_0_iff take_bit_nat_eq_self)

lemma as_i32_small: "n < 2 ^ 31 \<Longrightarrow> as_i32 n = int n"
  by (simp add: as_i32_def sint_uint uint_nat unat_of_nat signed_take_bit_int_eq_self take_bit_nat_eq_self)

definition checked_add :: "nat \<Rightarrow> nat \<Rightarrow> nat \<Rightarrow> nat option" where
  "checked_add m a b = (if a + b \<le> m then Some (a + b) else None)"

definition checked_mul :: "nat \<Rightarrow> nat \<Rightarrow> nat \<Rightarrow> nat option" where
  "checked_mul m a b = (if a * b \<le> m then Some (a * b) else None)"

definition checked_sub :: "nat \<Rightarrow> nat \<Rightarrow> nat option" where
  "checked_sub a b = (if b \<le> a then Some (a - b) else None)"

definition expect :: "string \<Rightarrow> 'a option \<Rightarrow> 'a res" where
  "expect msg x = (case x of None \<Rightarrow> Inl (ExpectFailed msg) | Some y \<Rightarrow> Inr y)"

definition sub_plain :: "bool \<Rightarrow> nat \<Rightarrow> nat \<Rightarrow> nat \<Rightarrow> nat res" where
  "sub_plain checks m a b =
     (if b \<le> a then Inr (a - b)
      else if checks then Inl ArithOverflow
      else Inr (m + 1 + a - b))"

definition add_plain :: "bool \<Rightarrow> nat \<Rightarrow> nat \<Rightarrow> nat \<Rightarrow> nat res" where
  "add_plain checks m a b =
     (if a + b \<le> m then Inr (a + b)
      else if checks then Inl ArithOverflow
      else Inr ((a + b) mod (m + 1)))"

definition mul_plain :: "bool \<Rightarrow> nat \<Rightarrow> nat \<Rightarrow> nat \<Rightarrow> nat res" where
  "mul_plain checks m a b =
     (if a * b \<le> m then Inr (a * b)
      else if checks then Inl ArithOverflow
      else Inr ((a * b) mod (m + 1)))"

text \<open>Division panics on zero in both profiles.\<close>

definition div_res :: "nat \<Rightarrow> nat \<Rightarrow> nat res" where
  "div_res a b = (if b = 0 then Inl DivideByZero else Inr (a div b))"

definition div_ceil :: "nat \<Rightarrow> nat \<Rightarrow> nat" where
  "div_ceil a b = (if a mod b = 0 then a div b else a div b + 1)"

definition div_ceil_res :: "nat \<Rightarrow> nat \<Rightarrow> nat res" where
  "div_ceil_res a b = (if b = 0 then Inl DivideByZero else Inr (div_ceil a b))"

definition assert_that :: "string \<Rightarrow> bool \<Rightarrow> unit res" where
  "assert_that msg b = (if b then Inr () else Inl (AssertFailed msg))"

lemma expect_Some [simp]: "expect msg (Some x) = Inr x"
  by (simp add: expect_def)

lemma expect_None [simp]: "expect msg None = Inl (ExpectFailed msg)"
  by (simp add: expect_def)

lemma assert_that_True [simp]: "b \<Longrightarrow> assert_that msg b = Inr ()"
  by (simp add: assert_that_def)

lemma sub_plain_ok [simp]: "b \<le> a \<Longrightarrow> sub_plain c m a b = Inr (a - b)"
  by (simp add: sub_plain_def)

lemma add_plain_ok [simp]: "a + b \<le> m \<Longrightarrow> add_plain c m a b = Inr (a + b)"
  by (simp add: add_plain_def)

lemma mul_plain_ok [simp]: "a * b \<le> m \<Longrightarrow> mul_plain c m a b = Inr (a * b)"
  by (simp add: mul_plain_def)

lemma div_res_ok [simp]: "0 < b \<Longrightarrow> div_res a b = Inr (a div b)"
  by (simp add: div_res_def)

lemma div_ceil_res_ok [simp]: "0 < b \<Longrightarrow> div_ceil_res a b = Inr (div_ceil a b)"
  by (simp add: div_ceil_res_def)

lemma checked_sub_ok [simp]: "b \<le> a \<Longrightarrow> checked_sub a b = Some (a - b)"
  by (simp add: checked_sub_def)

lemma checked_add_ok [simp]: "a + b \<le> m \<Longrightarrow> checked_add m a b = Some (a + b)"
  by (simp add: checked_add_def)

declare expect_def [panic_simps] and assert_that_def [panic_simps]
  and sub_plain_def [panic_simps] and add_plain_def [panic_simps] and mul_plain_def [panic_simps]
  and div_res_def [panic_simps] and div_ceil_res_def [panic_simps]
  and checked_add_def [panic_simps] and checked_sub_def [panic_simps]
  and checked_mul_def [panic_simps]

lemma div_ceil_zero [simp]: "div_ceil 0 b = 0"
  by (simp add: div_ceil_def)

lemma div_ceil_split:
  assumes "0 < b"
  obtains q r where "a = q * b + r" and "r < b" and "div_ceil a b = (if r = 0 then q else Suc q)"
proof
  show "a = a div b * b + a mod b" by simp
  show "a mod b < b" using assms by simp
  show "div_ceil a b = (if a mod b = 0 then a div b else Suc (a div b))"
    by (simp add: div_ceil_def)
qed

lemma le_div_ceil_mult: "0 < b \<Longrightarrow> a \<le> div_ceil a b * b"
  by (rule div_ceil_split [of b a]) auto

lemma div_ceil_least:
  assumes "0 < b" and "a \<le> k * b"
  shows "div_ceil a b \<le> k"
proof -
  obtain q r where qr: "a = q * b + r" "r < b" "div_ceil a b = (if r = 0 then q else Suc q)"
    using div_ceil_split [OF assms(1), of a] by metis
  show ?thesis
  proof (cases "r = 0")
    case True
    then show ?thesis using qr assms by simp
  next
    case False
    then have "q * b < k * b" using qr assms by linarith
    then show ?thesis using qr by auto
  qed
qed

lemma div_ceil_mono: "0 < b \<Longrightarrow> a \<le> a' \<Longrightarrow> div_ceil a b \<le> div_ceil a' b"
  by (rule div_ceil_least) (auto intro: order_trans [OF _ le_div_ceil_mult])

section \<open>Indexing and loops over slices\<close>

definition get_at :: "'a list \<Rightarrow> nat \<Rightarrow> 'a res" where
  "get_at xs i = (if i < length xs then Inr (xs ! i) else Inl IndexOutOfBounds)"

definition set_at :: "'a list \<Rightarrow> nat \<Rightarrow> 'a \<Rightarrow> 'a list res" where
  "set_at xs i v = (if i < length xs then Inr (xs[i := v]) else Inl IndexOutOfBounds)"

definition subslice :: "'a list \<Rightarrow> nat \<Rightarrow> nat \<Rightarrow> 'a list" where
  "subslice xs a b = take (b - a) (drop a xs)"

lemma get_at_ok [simp]: "i < length xs \<Longrightarrow> get_at xs i = Inr (xs ! i)"
  by (simp add: get_at_def)

lemma set_at_ok [simp]: "i < length xs \<Longrightarrow> set_at xs i v = Inr (xs[i := v])"
  by (simp add: set_at_def)

lemma nth_list_update_if:
  "xs[i := v] ! j = (if i = j \<and> i < length xs then v else xs ! j)"
  by (cases "i < length xs") (auto simp: nth_list_update list_update_beyond)

fun fold_res :: "('a \<Rightarrow> 's \<Rightarrow> 'e + 's) \<Rightarrow> 'a list \<Rightarrow> 's \<Rightarrow> 'e + 's" where
  "fold_res f [] s = Inr s"
| "fold_res f (x # xs) s = and_then (f x s) (fold_res f xs)"

lemma fold_res_cong [fundef_cong]:
  "xs = ys \<Longrightarrow> s = t \<Longrightarrow> (\<And>x s. x \<in> set ys \<Longrightarrow> f x s = g x s) \<Longrightarrow> fold_res f xs s = fold_res g ys t"
  by (induction ys arbitrary: xs s t) (auto intro!: and_then_cong)

lemma fold_res_append:
  "fold_res f (xs @ ys) s = and_then (fold_res f xs s) (fold_res f ys)"
  by (induction xs arbitrary: s) (auto simp: and_then_def split: sum.splits)

text \<open>The loop rule: an invariant indexed by the elements already processed.\<close>

lemma returns_fold_res:
  assumes "I [] s"
    and "\<And>done x rest s. xs = done @ x # rest \<Longrightarrow> I done s \<Longrightarrow>
           returns (f x s) (I (done @ [x]))"
  shows "returns (fold_res f xs s) (I xs)"
proof -
  have "returns (fold_res f rest s) (I xs)"
    if "xs = pre @ rest" and "I pre s" for pre rest s
    using that
  proof (induction rest arbitrary: pre s)
    case Nil
    then show ?case by simp
  next
    case (Cons x rest)
    have "returns (f x s) (I (pre @ [x]))"
      using Cons.prems by (intro assms(2)) auto
    then show ?case
      using Cons.IH [of "pre @ [x]"] Cons.prems(1) by (auto elim!: returns_mono)
  qed
  then show ?thesis using assms(1) by (metis append_Nil)
qed

section \<open>Results\<close>

text \<open>
  A function that returns \<open>Result\<close> and may also panic has the type \<open>('e, 'a) result\<close>, a value of the error
  or the success type under a possible panic. \<open>try_then\<close> is the operator \<open>?\<close> of a function that only
  reads its state; \<open>try_state\<close> is \<open>?\<close> in a function that threads a mutable state, which keeps the state
  at the point of the error.
\<close>

type_synonym ('e, 'a) result = "('e + 'a) res"
type_synonym ('e, 'a, 's) stateful = "(('e + 'a) \<times> 's) res"

abbreviation okay :: "'a \<Rightarrow> ('e, 'a) result" where
  "okay x \<equiv> Inr (Inr x)"

abbreviation bail :: "'e \<Rightarrow> ('e, 'a) result" where
  "bail e \<equiv> Inr (Inl e)"

definition ok_or :: "'e \<Rightarrow> 'a option \<Rightarrow> ('e, 'a) result" where
  "ok_or e x = (case x of None \<Rightarrow> bail e | Some y \<Rightarrow> okay y)"

definition try_then :: "('e, 'a) result \<Rightarrow> ('a \<Rightarrow> ('e, 'b) result) \<Rightarrow> ('e, 'b) result" where
  "try_then m f = and_then m (\<lambda>x. case x of Inl e \<Rightarrow> bail e | Inr y \<Rightarrow> f y)"

definition try_state :: "('e, 'a, 's) stateful \<Rightarrow> ('a \<Rightarrow> 's \<Rightarrow> ('e, 'b, 's) stateful) \<Rightarrow> ('e, 'b, 's) stateful" where
  "try_state m f = and_then m (\<lambda>(x, s). case x of Inl e \<Rightarrow> Inr (Inl e, s) | Inr y \<Rightarrow> f y s)"

lemma try_then_simps [simp]:
  "try_then (okay x) f = f x"
  "try_then (bail e) f = bail e"
  "try_then (Inl p) f = Inl p"
  by (simp_all add: try_then_def)

lemma try_state_simps [simp]:
  "try_state (Inr (Inr x, s)) f = f x s"
  "try_state (Inr (Inl e, s)) f = Inr (Inl e, s)"
  "try_state (Inl p) f = Inl p"
  by (simp_all add: try_state_def)

lemma try_then_cong [fundef_cong]:
  assumes "m = m'" and "\<And>x. m' = okay x \<Longrightarrow> f x = g x"
  shows "try_then m f = try_then m' g"
  using assms by (auto simp: try_then_def intro!: and_then_cong split: sum.splits)

lemma try_then_ok: "try_then m f = okay y \<longleftrightarrow> (\<exists>x. m = okay x \<and> f x = okay y)"
proof (cases m)
  case (Inr v)
  then show ?thesis by (cases v) simp_all
qed simp

lemma ok_or_ok [simp]: "ok_or e x = okay y \<longleftrightarrow> x = Some y"
  by (simp add: ok_or_def split: option.splits)

lemma ok_or_Some [simp]: "ok_or e (Some y) = okay y"
  by (simp add: ok_or_def)

lemma ok_or_None [simp]: "ok_or e None = bail e"
  by (simp add: ok_or_def)

fun map_res :: "('a \<Rightarrow> 'e + 'b) \<Rightarrow> 'a list \<Rightarrow> 'e + 'b list" where
  "map_res f [] = Inr []"
| "map_res f (x # xs) = and_then (f x) (\<lambda>y. and_then (map_res f xs) (\<lambda>ys. Inr (y # ys)))"

lemma map_res_pure: "(\<And>x. x \<in> set xs \<Longrightarrow> f x = Inr (g x)) \<Longrightarrow> map_res f xs = Inr (map g xs)"
  by (induction xs) auto

fun map_result :: "('a \<Rightarrow> ('e, 'b) result) \<Rightarrow> 'a list \<Rightarrow> ('e, 'b list) result" where
  "map_result f [] = okay []"
| "map_result f (x # xs) = try_then (f x) (\<lambda>y. try_then (map_result f xs) (\<lambda>ys. okay (y # ys)))"

lemma map_result_pure: "(\<And>x. x \<in> set xs \<Longrightarrow> f x = okay (g x)) \<Longrightarrow> map_result f xs = okay (map g xs)"
  by (induction xs) auto

text \<open>\<open>Vec::pop\<close> takes the last element.\<close>

definition vec_pop :: "'a list \<Rightarrow> ('a \<times> 'a list) option" where
  "vec_pop xs = (if xs = [] then None else Some (last xs, butlast xs))"

lemma vec_pop_cases:
  obtains "xs = []" "vec_pop xs = None" | y ys where "xs = ys @ [y]" "vec_pop xs = Some (y, ys)"
  by (cases xs rule: rev_cases) (auto simp: vec_pop_def)

section \<open>Association lists\<close>

lemma map_of_alist_update [simp]: "map_of (AList.update k v al) = (map_of al)(k \<mapsto> v)"
  by (rule update_conv')

lemma map_of_alist_delete [simp]: "map_of (AList.delete k al) = (map_of al)(k := None)"
  by (rule delete_conv')

lemma dom_map_of_list: "dom (map_of al) = fst ` set al"
  by (simp add: dom_map_of_conv_image_fst)

lemma map_of_eq_Some_in: "distinct (map fst al) \<Longrightarrow> map_of al k = Some v \<longleftrightarrow> (k, v) \<in> set al"
  by (auto intro: map_of_is_SomeI dest: map_of_SomeD)

lemma length_as_card: "distinct (map fst al) \<Longrightarrow> length al = card (dom (map_of al))"
  by (metis dom_map_of_list distinct_card length_map list.set_map)

section \<open>Counting over block ids\<close>

lemma card_insert_set:
  "finite A \<Longrightarrow> B = insert x A \<Longrightarrow> x \<notin> A \<Longrightarrow> card B = card A + 1"
  by simp

lemma card_remove_set:
  "finite A \<Longrightarrow> x \<in> A \<Longrightarrow> B = A - {x} \<Longrightarrow> card B = card A - 1"
  by simp

section \<open>Transition systems and their invariants\<close>

text \<open>
  A component is a set of initial states, a step relation and an invariant. The locale's
  laws are what each component proves of its own operations; the reachability and trace
  lemmas are proved here once.
\<close>

inductive reachable_from :: "('s \<Rightarrow> bool) \<Rightarrow> ('s \<Rightarrow> 'l \<Rightarrow> 's \<Rightarrow> bool) \<Rightarrow> 's \<Rightarrow> bool"
  for init step where
  reach_init: "init s \<Longrightarrow> reachable_from init step s"
| reach_step: "reachable_from init step s \<Longrightarrow> step s l t \<Longrightarrow> reachable_from init step t"

locale transition_system =
  fixes init :: "'s \<Rightarrow> bool"
    and step :: "'s \<Rightarrow> 'l \<Rightarrow> 's \<Rightarrow> bool"
    and inv :: "'s \<Rightarrow> bool"
  assumes inv_init: "init s \<Longrightarrow> inv s"
    and inv_step: "inv s \<Longrightarrow> step s l t \<Longrightarrow> inv t"
begin

lemma reachable_inv: "reachable_from init step s \<Longrightarrow> inv s"
  by (induction rule: reachable_from.induct) (auto intro: inv_init inv_step)

lemma reachable_step_inv:
  "reachable_from init step s \<Longrightarrow> step s l t \<Longrightarrow> inv s \<and> inv t"
  by (blast intro: reachable_inv inv_step)

end

text \<open>
  A system that hands out claims stamped with a clock: a claim in force carries a stamp from the past, and a step only
  adds claims stamped with the present or the future. Then a claim that was given up never comes back.
\<close>

locale stamped_system = transition_system init step inv
  for init :: "'s \<Rightarrow> bool" and step :: "'s \<Rightarrow> 'l \<Rightarrow> 's \<Rightarrow> bool" and inv :: "'s \<Rightarrow> bool" +
  fixes stamps :: "'s \<Rightarrow> ('k \<times> nat) set"
    and clock :: "'s \<Rightarrow> nat"
  assumes clock_mono: "inv s \<Longrightarrow> step s l t \<Longrightarrow> clock s \<le> clock t"
    and stamp_old: "inv s \<Longrightarrow> (k, g) \<in> stamps s \<Longrightarrow> g < clock s"
    and stamp_new: "inv s \<Longrightarrow> step s l t \<Longrightarrow> (k, g) \<in> stamps t \<Longrightarrow> (k, g) \<in> stamps s \<or> clock s \<le> g"
begin

lemma later_inv: "inv s \<Longrightarrow> reachable_from (\<lambda>x. x = s) step t \<Longrightarrow> inv t"
  by (rotate_tac, induction rule: reachable_from.induct) (auto intro: inv_step)

lemma gone_stays_gone:
  assumes "inv s" and "(k, g) \<notin> stamps s" and "g < clock s" and "reachable_from (\<lambda>x. x = s) step t"
  shows "(k, g) \<notin> stamps t"
proof -
  have "inv t \<and> (k, g) \<notin> stamps t \<and> g < clock t"
    using assms(4)
  proof (induction rule: reachable_from.induct)
    case (reach_init x)
    then show ?case using assms(1-3) by simp
  next
    case (reach_step x l t)
    then show ?case using inv_step clock_mono stamp_new by (meson leD order_less_le_trans)
  qed
  then show ?thesis by simp
qed

end

end
