(* ===== verification/Block_Hash.thy ===== *)
theory Block_Hash
  imports Rust_Prelude
begin

text \<open>
  Content hashes of KV cache blocks (\<open>paged_attention/block_hash.rs\<close>): the chained block
  hash, the extra keys of multimodal spans and adapters, the full and the incremental
  computation, and the clamp that keeps a prefix hit out of noncausal spans.

  \<open>DefaultHasher\<close> is a parameter: \<open>hasher\<close> maps the sequence of \<open>Hasher::write_*\<close> calls to
  the finished 64-bit value. What the source decides is that sequence, and it is modelled as
  \<open>Hash\<close> and \<open>derive(Hash)\<close> produce it (\<open>block_writes\<close>).
\<close>

section \<open>Data\<close>

type_synonym token = nat

datatype BlockHash = BlockHash (hash_value: "64 word")

record BlockHashWithGroupId =
  block_hash :: BlockHash
  group_id :: nat

datatype MultimodalKind = Image | Audio | Video

datatype MultimodalAttentionPolicy = Causal | NonCausal

datatype ExtraHashKey =
    MultiModalHash MultimodalKind nat nat nat nat int MultimodalAttentionPolicy
      \<comment> \<open>kind, item index, hash, span offset, span length, block relative offset, policy\<close>
  | AdapterGeneration "nat list"
  | CacheSalt string

definition adapter_generation_key :: "nat list option \<Rightarrow> ExtraHashKey option" where
  "adapter_generation_key generation = map_option AdapterGeneration generation"

record MultimodalSpan =
  kind :: MultimodalKind
  item_start :: nat
  item_end :: nat
  hashes :: "nat list"
  offset :: nat
  span_len :: nat
  attention_policy :: MultimodalAttentionPolicy
  splittable :: bool

definition span_end :: "MultimodalSpan \<Rightarrow> nat" where
  "span_end f = offset f + span_len f"

definition overlaps :: "MultimodalSpan \<Rightarrow> nat \<Rightarrow> nat \<Rightarrow> bool" where
  "overlaps f start stop \<longleftrightarrow> offset f < stop \<and> span_end f > start"

definition noncausal_mm_ranges :: "MultimodalSpan list \<Rightarrow> nat option \<Rightarrow> (nat \<times> nat) list" where
  "noncausal_mm_ranges features max_range_len =
     map (\<lambda>f. (offset f, span_end f))
       (filter (\<lambda>f. case max_range_len of None \<Rightarrow> True | Some m \<Rightarrow> span_len f \<le> m)
         (filter (\<lambda>f. attention_policy f = NonCausal) features))"

section \<open>What is fed to the hasher\<close>

datatype hash_write =
    WriteU64 nat
  | WriteUsize nat
  | WriteI64 int
  | WriteDiscriminant nat
  | WriteU32Slice "nat list"
  | WriteBytes "nat list"
  | WriteStr string

fun kind_discr :: "MultimodalKind \<Rightarrow> nat" where
  "kind_discr Image = 0"
| "kind_discr Audio = 1"
| "kind_discr Video = 2"

fun policy_discr :: "MultimodalAttentionPolicy \<Rightarrow> nat" where
  "policy_discr Causal = 0"
| "policy_discr NonCausal = 1"

fun key_writes :: "ExtraHashKey \<Rightarrow> hash_write list" where
  "key_writes (MultiModalHash k i h off len rel pol) =
     [WriteDiscriminant 0, WriteDiscriminant (kind_discr k), WriteUsize i, WriteU64 h,
      WriteUsize off, WriteUsize len, WriteI64 rel, WriteDiscriminant (policy_discr pol)]"
| "key_writes (AdapterGeneration bytes) =
     [WriteDiscriminant 1, WriteUsize (length bytes), WriteBytes bytes]"
| "key_writes (CacheSalt salt) = [WriteDiscriminant 2, WriteStr salt]"

definition NONE_HASH_SEED :: nat where
  "NONE_HASH_SEED = 0"

fun parent_seed :: "BlockHash option \<Rightarrow> nat" where
  "parent_seed (Some parent) = unat (hash_value parent)"
| "parent_seed None = NONE_HASH_SEED"

definition block_writes ::
    "BlockHash option \<Rightarrow> token list \<Rightarrow> ExtraHashKey list option \<Rightarrow> hash_write list" where
  "block_writes parent block_tokens extra_keys =
     WriteU64 (parent_seed parent)
     # WriteUsize (length block_tokens) # WriteU32Slice block_tokens
     # (case extra_keys of None \<Rightarrow> [] | Some keys \<Rightarrow> concat (map key_writes keys))"

definition hash_block_tokens ::
    "(hash_write list \<Rightarrow> 64 word) \<Rightarrow> BlockHash option \<Rightarrow> token list \<Rightarrow> ExtraHashKey list option
      \<Rightarrow> BlockHash" where
  "hash_block_tokens hasher parent_hash block_tokens extra_keys =
     BlockHash (hasher (block_writes parent_hash block_tokens extra_keys))"

section \<open>Extra keys of a block\<close>

definition MAX_MM_EXTRA_KEYS_PER_BLOCK :: nat where
  "MAX_MM_EXTRA_KEYS_PER_BLOCK = 32"

definition mm_key :: "nat \<Rightarrow> MultimodalSpan \<Rightarrow> nat \<Rightarrow> nat \<Rightarrow> ExtraHashKey" where
  "mm_key block_start f i h =
     MultiModalHash (kind f) (item_start f + i) h (offset f) (span_len f)
       (as_i64 (offset f) - as_i64 block_start) (attention_policy f)"

text \<open>The inner loop over a feature's hashes; the flag says that the cap was reached.\<close>

fun push_feature_keys ::
    "nat \<Rightarrow> MultimodalSpan \<Rightarrow> nat \<Rightarrow> nat list \<Rightarrow> ExtraHashKey list \<Rightarrow> ExtraHashKey list \<times> bool" where
  "push_feature_keys block_start f i [] keys = (keys, False)"
| "push_feature_keys block_start f i (h # hs) keys =
     (let keys' = keys @ [mm_key block_start f i h]
      in if length keys' \<ge> MAX_MM_EXTRA_KEYS_PER_BLOCK then (keys', True)
         else push_feature_keys block_start f (Suc i) hs keys')"

fun mm_extra_keys_loop ::
    "nat \<Rightarrow> nat \<Rightarrow> MultimodalSpan list \<Rightarrow> ExtraHashKey list \<Rightarrow> ExtraHashKey list" where
  "mm_extra_keys_loop block_start block_end [] keys = keys"
| "mm_extra_keys_loop block_start block_end (f # fs) keys =
     (if overlaps f block_start block_end then
        (let (keys', full) = push_feature_keys block_start f 0 (hashes f) keys
         in if full then keys' else mm_extra_keys_loop block_start block_end fs keys')
      else mm_extra_keys_loop block_start block_end fs keys)"

definition generate_mm_extra_keys ::
    "nat \<Rightarrow> nat \<Rightarrow> MultimodalSpan list \<Rightarrow> ExtraHashKey list" where
  "generate_mm_extra_keys block_start_token block_size mm_features =
     mm_extra_keys_loop block_start_token (block_start_token + block_size) mm_features []"

section \<open>Clamping a prefix hit\<close>

text \<open>One pass of the \<open>for\<close> loop: the hit length and the \<open>changed\<close> flag.\<close>

fun clamp_pass :: "nat \<Rightarrow> MultimodalSpan list \<Rightarrow> nat \<Rightarrow> bool \<Rightarrow> nat \<times> bool" where
  "clamp_pass bs [] hit changed = (hit, changed)"
| "clamp_pass bs (f # fs) hit changed =
     (if attention_policy f \<noteq> NonCausal then clamp_pass bs fs hit changed
      else
        (let span_block_start = (offset f div bs) * bs;
             span_block_end = div_ceil (span_end f) bs * bs
         in if hit > span_block_start \<and> hit < span_block_end
            then clamp_pass bs fs span_block_start True
            else clamp_pass bs fs hit changed))"

lemma clamp_pass_le: "fst (clamp_pass bs fs hit c) \<le> hit"
  by (induction bs fs hit c rule: clamp_pass.induct)
    (auto simp: Let_def intro: order.trans [OF _ less_imp_le])

lemma clamp_pass_changed:
  "snd (clamp_pass bs fs hit c) \<Longrightarrow> \<not> c \<Longrightarrow> fst (clamp_pass bs fs hit c) < hit"
proof (induction bs fs hit c rule: clamp_pass.induct)
  case (2 bs f fs hit changed)
  show ?case
  proof (cases "attention_policy f = NonCausal \<and> hit > (offset f div bs) * bs
      \<and> hit < div_ceil (span_end f) bs * bs")
    case True
    then show ?thesis
      using clamp_pass_le [of bs fs "(offset f div bs) * bs" True] by (simp add: Let_def)
  next
    case False
    then show ?thesis using 2 by (auto simp: Let_def split: if_splits)
  qed
qed simp

function clamp_loop :: "nat \<Rightarrow> MultimodalSpan list \<Rightarrow> nat \<Rightarrow> nat" where
  "clamp_loop bs fs hit =
     (if snd (clamp_pass bs fs hit False)
      then clamp_loop bs fs (fst (clamp_pass bs fs hit False))
      else fst (clamp_pass bs fs hit False))"
  by pat_completeness auto
termination
  by (relation "measure (\<lambda>(bs, fs, hit). hit)") (auto intro: clamp_pass_changed)

declare clamp_loop.simps [simp del]

definition clamp_prefix_cache_hit_len :: "nat \<Rightarrow> nat \<Rightarrow> MultimodalSpan list \<Rightarrow> nat" where
  "clamp_prefix_cache_hit_len hit_len block_size mm_features =
     (if hit_len = 0 \<or> block_size = 0 then hit_len
      else clamp_loop block_size mm_features hit_len)"

section \<open>Hashes of a token sequence\<close>

definition block_extra_keys ::
    "nat \<Rightarrow> nat \<Rightarrow> MultimodalSpan list \<Rightarrow> ExtraHashKey list \<Rightarrow> ExtraHashKey list option" where
  "block_extra_keys start block_size mm_features extra_keys_base =
     (let extra_keys = extra_keys_base @ generate_mm_extra_keys start block_size mm_features
      in if extra_keys = [] then None else Some extra_keys)"

text \<open>The loop body shared by the full and the incremental computation.\<close>

fun hash_blocks_from ::
    "(hash_write list \<Rightarrow> 64 word) \<Rightarrow> token list \<Rightarrow> nat \<Rightarrow> MultimodalSpan list \<Rightarrow> ExtraHashKey list
      \<Rightarrow> nat list \<Rightarrow> BlockHash option \<Rightarrow> BlockHash list" where
  "hash_blocks_from hasher tokens block_size mm_features base [] parent = []"
| "hash_blocks_from hasher tokens block_size mm_features base (block_idx # rest) parent =
     (let start = block_idx * block_size;
          block_tokens = subslice tokens start (start + block_size);
          extra = block_extra_keys start block_size mm_features base;
          hash = hash_block_tokens hasher parent block_tokens extra
      in hash # hash_blocks_from hasher tokens block_size mm_features base rest (Some hash))"

definition compute_block_hashes ::
    "(hash_write list \<Rightarrow> 64 word) \<Rightarrow> token list \<Rightarrow> nat \<Rightarrow> MultimodalSpan list \<Rightarrow> ExtraHashKey list
      \<Rightarrow> BlockHash list res" where
  "compute_block_hashes hasher tokens block_size mm_features extra_keys_base =
     (if block_size = 0 then Inl DivideByZero
      else Inr (hash_blocks_from hasher tokens block_size mm_features extra_keys_base
                  [0..<length tokens div block_size] None))"

definition compute_new_block_hashes ::
    "(hash_write list \<Rightarrow> 64 word) \<Rightarrow> token list \<Rightarrow> nat \<Rightarrow> BlockHash list \<Rightarrow> MultimodalSpan list
      \<Rightarrow> ExtraHashKey list \<Rightarrow> BlockHash list res" where
  "compute_new_block_hashes hasher tokens block_size existing_hashes mm_features extra_keys_base =
     (if block_size = 0 then Inl DivideByZero
      else
        (let num_full_blocks = length tokens div block_size
         in if num_full_blocks \<le> length existing_hashes then Inr []
            else Inr (hash_blocks_from hasher tokens block_size mm_features extra_keys_base
                        [length existing_hashes..<num_full_blocks]
                        (if existing_hashes = [] then None else Some (last existing_hashes)))))"

section \<open>Extra keys: the capped loop is a prefix of the uncapped list\<close>

definition feature_keys :: "nat \<Rightarrow> MultimodalSpan \<Rightarrow> ExtraHashKey list" where
  "feature_keys block_start f = map2 (mm_key block_start f) [0..<length (hashes f)] (hashes f)"

lemma push_feature_keys_eq:
  assumes "length keys < MAX_MM_EXTRA_KEYS_PER_BLOCK"
  shows "push_feature_keys s f i hs keys =
    (take MAX_MM_EXTRA_KEYS_PER_BLOCK (keys @ map2 (mm_key s f) [i..<i + length hs] hs),
     MAX_MM_EXTRA_KEYS_PER_BLOCK \<le> length keys + length hs)"
  using assms
proof (induction hs arbitrary: i keys)
  case Nil
  then show ?case by simp
next
  case (Cons h hs)
  have upt: "[i..<Suc (i + length hs)] = i # [Suc i..<Suc (i + length hs)]"
    by (rule upt_conv_Cons) simp
  show ?case
  proof (cases "length keys + 1 \<ge> MAX_MM_EXTRA_KEYS_PER_BLOCK")
    case True
    with Cons.prems have "MAX_MM_EXTRA_KEYS_PER_BLOCK - length keys = 1"
      and "MAX_MM_EXTRA_KEYS_PER_BLOCK = Suc (length keys)" by simp_all
    then show ?thesis by (simp add: upt del: upt_Suc)
  next
    case False
    then show ?thesis
      using Cons.IH [of "keys @ [mm_key s f i h]" "Suc i"] by (simp add: upt del: upt_Suc)
  qed
qed

lemma mm_extra_keys_loop_eq:
  assumes "length keys < MAX_MM_EXTRA_KEYS_PER_BLOCK"
  shows "mm_extra_keys_loop s e fs keys =
    take MAX_MM_EXTRA_KEYS_PER_BLOCK
      (keys @ concat (map (feature_keys s) (filter (\<lambda>f. overlaps f s e) fs)))"
  using assms
proof (induction fs arbitrary: keys)
  case Nil
  then show ?case by simp
next
  case (Cons f fs)
  show ?case
  proof (cases "overlaps f s e")
    case False
    then show ?thesis using Cons by simp
  next
    case True
    have push: "push_feature_keys s f 0 (hashes f) keys =
      (take MAX_MM_EXTRA_KEYS_PER_BLOCK (keys @ feature_keys s f),
       MAX_MM_EXTRA_KEYS_PER_BLOCK \<le> length keys + length (hashes f))"
      by (simp add: push_feature_keys_eq [OF Cons.prems] feature_keys_def)
    have len: "length (feature_keys s f) = length (hashes f)"
      by (simp add: feature_keys_def)
    show ?thesis
      using True push len Cons.IH [of "keys @ feature_keys s f"] by simp
  qed
qed

lemma generate_mm_extra_keys_eq:
  "generate_mm_extra_keys start bs fs =
     take MAX_MM_EXTRA_KEYS_PER_BLOCK
       (concat (map (feature_keys start) (filter (\<lambda>f. overlaps f start (start + bs)) fs)))"
  by (simp add: generate_mm_extra_keys_def mm_extra_keys_loop_eq MAX_MM_EXTRA_KEYS_PER_BLOCK_def)

section \<open>The hasher input determines the block\<close>

lemma kind_discr_inject [simp]: "kind_discr k = kind_discr k' \<longleftrightarrow> k = k'"
  by (cases k; cases k') simp_all

lemma policy_discr_inject [simp]: "policy_discr p = policy_discr p' \<longleftrightarrow> p = p'"
  by (cases p; cases p') simp_all

lemma key_writes_append_inject:
  "key_writes k @ xs = key_writes k' @ ys \<longleftrightarrow> k = k' \<and> xs = ys"
  by (cases k; cases k') auto

lemma key_writes_not_Nil [simp]: "key_writes k \<noteq> []"
  by (cases k) simp_all

lemma keys_writes_inject:
  "concat (map key_writes ks) = concat (map key_writes ks') \<Longrightarrow> ks = ks'"
proof (induction ks arbitrary: ks')
  case Nil
  then show ?case by (cases ks') simp_all
next
  case (Cons k ks)
  then show ?case by (cases ks') (auto simp: key_writes_append_inject)
qed

abbreviation keys_of :: "ExtraHashKey list option \<Rightarrow> ExtraHashKey list" where
  "keys_of extra \<equiv> (case extra of None \<Rightarrow> [] | Some keys \<Rightarrow> keys)"

lemma block_writes_inject:
  "block_writes p ts e = block_writes p' ts' e' \<longleftrightarrow>
     parent_seed p = parent_seed p' \<and> ts = ts' \<and> keys_of e = keys_of e'"
  by (auto simp: block_writes_def split: option.splits intro: keys_writes_inject
      dest: keys_writes_inject [of "[]", simplified] keys_writes_inject)

lemma block_extra_keys_keys_of [simp]:
  "keys_of (block_extra_keys s bs fs base) = base @ generate_mm_extra_keys s bs fs"
  by (simp add: block_extra_keys_def Let_def)

section \<open>The hash chain\<close>

definition block_input ::
    "BlockHash list \<Rightarrow> token list \<Rightarrow> nat \<Rightarrow> MultimodalSpan list \<Rightarrow> ExtraHashKey list \<Rightarrow> nat
      \<Rightarrow> hash_write list" where
  "block_input hs tokens bs fs base i =
     block_writes (if i = 0 then None else Some (hs ! (i - 1)))
       (subslice tokens (i * bs) (i * bs + bs)) (block_extra_keys (i * bs) bs fs base)"

lemma length_hash_blocks_from [simp]:
  "length (hash_blocks_from h ts bs fs base is p) = length is"
  by (induction "is" arbitrary: p) (simp_all add: Let_def)

lemma hash_blocks_from_eq_Nil [simp]:
  "hash_blocks_from h ts bs fs base is p = [] \<longleftrightarrow> is = []"
  by (metis length_hash_blocks_from length_0_conv)

lemma hash_blocks_from_append:
  "hash_blocks_from h ts bs fs base (is @ js) p =
     (let xs = hash_blocks_from h ts bs fs base is p
      in xs @ hash_blocks_from h ts bs fs base js (if is = [] then p else Some (last xs)))"
  by (induction "is" arbitrary: p) (auto simp: Let_def)

lemma hash_blocks_from_nth:
  "i < length is \<Longrightarrow>
   hash_blocks_from h ts bs fs base is p ! i =
     hash_block_tokens h
       (if i = 0 then p else Some (hash_blocks_from h ts bs fs base is p ! (i - 1)))
       (subslice ts (is ! i * bs) (is ! i * bs + bs)) (block_extra_keys (is ! i * bs) bs fs base)"
proof (induction "is" arbitrary: p i)
  case Nil
  then show ?case by simp
next
  case (Cons k ks)
  then show ?case by (cases i) (auto simp: Let_def nth_Cons')
qed

lemma compute_block_hashes_chain:
  assumes "compute_block_hashes h ts bs fs base = Inr hs"
  shows "0 < bs" and "length hs = length ts div bs"
    and "\<And>i. i < length hs \<Longrightarrow> hs ! i = BlockHash (h (block_input hs ts bs fs base i))"
  using assms
  by (auto simp: compute_block_hashes_def block_input_def hash_block_tokens_def
      hash_blocks_from_nth split: if_splits)

lemma slice_eq_take_cong:
  assumes "take (i * bs) ts = take (i * bs) ts'"
    and "subslice ts (i * bs) (i * bs + bs) = subslice ts' (i * bs) (i * bs + bs)"
  shows "take (Suc i * bs) ts = take (Suc i * bs) ts'"
  using assms take_add [of "i * bs" bs ts] take_add [of "i * bs" bs ts']
  by (simp add: subslice_def add.commute)

lemma slice_take_cong: "b \<le> m \<Longrightarrow> subslice (take m ts) a b = subslice ts a b"
  by (simp add: subslice_def drop_take min_absorb1 diff_le_mono)

lemma hash_blocks_from_take:
  assumes "\<forall>i \<in> set is. i * bs + bs \<le> m"
  shows "hash_blocks_from h (take m ts) bs fs base is p = hash_blocks_from h ts bs fs base is p"
  using assms by (induction "is" arbitrary: p) (simp_all add: Let_def slice_take_cong)

section \<open>The clamp\<close>

definition inside_noncausal :: "nat \<Rightarrow> MultimodalSpan list \<Rightarrow> nat \<Rightarrow> bool" where
  "inside_noncausal bs fs x \<longleftrightarrow>
     (\<exists>f \<in> set fs. attention_policy f = NonCausal \<and>
        (offset f div bs) * bs < x \<and> x < div_ceil (span_end f) bs * bs)"

lemma inside_noncausal_Nil [simp]: "\<not> inside_noncausal bs [] x"
  by (simp add: inside_noncausal_def)

lemma inside_noncausal_Cons [simp]:
  "inside_noncausal bs (f # fs) x \<longleftrightarrow>
     attention_policy f = NonCausal \<and> (offset f div bs) * bs < x
       \<and> x < div_ceil (span_end f) bs * bs \<or>
     inside_noncausal bs fs x"
  by (simp add: inside_noncausal_def)

lemma clamp_pass_keeps_safe:
  "x \<le> hit \<Longrightarrow> \<not> inside_noncausal bs fs x \<Longrightarrow> x \<le> fst (clamp_pass bs fs hit c)"
  by (induction bs fs hit c rule: clamp_pass.induct) (auto simp: Let_def not_less)

lemma clamp_pass_dvd: "bs dvd hit \<Longrightarrow> bs dvd fst (clamp_pass bs fs hit c)"
  by (induction bs fs hit c rule: clamp_pass.induct) (auto simp: Let_def)

lemma clamp_pass_changed_stays: "c \<Longrightarrow> snd (clamp_pass bs fs hit c)"
  by (induction bs fs hit c rule: clamp_pass.induct) (auto simp: Let_def)

lemma clamp_pass_unchanged:
  "\<not> snd (clamp_pass bs fs hit c) \<Longrightarrow>
   fst (clamp_pass bs fs hit c) = hit \<and> \<not> inside_noncausal bs fs hit"
proof (induction bs fs hit c rule: clamp_pass.induct)
  case (2 bs f fs hit changed)
  then show ?case
    by (cases "attention_policy f = NonCausal")
      (simp_all add: Let_def clamp_pass_changed_stays split: if_splits)
qed simp

lemma clamp_loop_spec:
  "clamp_loop bs fs hit \<le> hit \<and> \<not> inside_noncausal bs fs (clamp_loop bs fs hit) \<and>
   (\<forall>x \<le> hit. \<not> inside_noncausal bs fs x \<longrightarrow> x \<le> clamp_loop bs fs hit) \<and>
   (bs dvd hit \<longrightarrow> bs dvd clamp_loop bs fs hit)"
proof (induction bs fs hit rule: clamp_loop.induct)
  case (1 bs fs hit)
  let ?h = "fst (clamp_pass bs fs hit False)"
  show ?case
  proof (cases "snd (clamp_pass bs fs hit False)")
    case True
    have safe: "x \<le> ?h" if "x \<le> hit" and "\<not> inside_noncausal bs fs x" for x
      using that by (rule clamp_pass_keeps_safe)
    show ?thesis
      using "1" [OF True] True safe clamp_pass_le [of bs fs hit False]
        clamp_pass_dvd [of bs hit fs False]
      by (auto simp: clamp_loop.simps [of bs fs hit])
  next
    case False
    then show ?thesis
      using clamp_pass_unchanged [of bs fs hit False] by (simp add: clamp_loop.simps [of bs fs hit])
  qed
qed

section \<open>Properties\<close>

text \<open>
  C18. The prefix cache is sound up to hasher collisions. If two sequences (any tokens, any
  multimodal spans, any adapter keys) produce the same block hash at positions \<open>i\<close> and
  \<open>j\<close>, the hasher has no collision on the inputs of the two sequences and no block hash
  equals the seed, then the positions agree, the token prefixes up to the end of that block agree,
  and so do the extra keys of every block up to it.
\<close>

theorem equal_block_hash_equal_prefix:
  assumes "compute_block_hashes hasher ts bs fs base = Inr hs"
    and "compute_block_hashes hasher ts' bs fs' base' = Inr hs'"
    and "inj_on hasher (block_input hs ts bs fs base ` {..<length hs} \<union>
                        block_input hs' ts' bs fs' base' ` {..<length hs'})"
    and "\<forall>h \<in> set hs \<union> set hs'. unat (hash_value h) \<noteq> NONE_HASH_SEED"
    and "i < length hs" and "j < length hs'" and "hs ! i = hs' ! j"
  shows "i = j \<and> take (Suc i * bs) ts = take (Suc i * bs) ts' \<and>
    (\<forall>k \<le> i. base @ generate_mm_extra_keys (k * bs) bs fs =
               base' @ generate_mm_extra_keys (k * bs) bs fs')"
proof -
  have nz: "unat (hash_value (hs ! k)) \<noteq> NONE_HASH_SEED" if "Suc k < length hs" for k
    using that assms(4) by (simp add: Suc_lessD)
  have nz': "NONE_HASH_SEED \<noteq> unat (hash_value (hs' ! k))" if "Suc k < length hs'" for k
    using that assms(4) by (metis Suc_lessD UnI2 nth_mem)
  show ?thesis
    using assms(5-7)
  proof (induction i arbitrary: j)
    case (0 j)
    note step = compute_block_hashes_chain(3) [OF assms(1) 0(1)]
      compute_block_hashes_chain(3) [OF assms(2) 0(2)]
    have eq: "block_input hs ts bs fs base 0 = block_input hs' ts' bs fs' base' j"
      using step 0 by (intro inj_onD [OF assms(3)]) auto
    have "j = 0"
      using eq 0(2) nz' by (cases j) (auto simp: block_input_def block_writes_inject)
    then show ?case
      using eq by (auto simp: block_input_def block_writes_inject subslice_def)
  next
    case (Suc i j)
    note step = compute_block_hashes_chain(3) [OF assms(1) Suc.prems(1)]
      compute_block_hashes_chain(3) [OF assms(2) Suc.prems(2)]
    have eq: "block_input hs ts bs fs base (Suc i) = block_input hs' ts' bs fs' base' j"
      using step Suc.prems by (intro inj_onD [OF assms(3)]) auto
    obtain j' where j: "j = Suc j'"
      using eq Suc.prems(1) nz by (cases j) (auto simp: block_input_def block_writes_inject)
    have "hs ! i = hs' ! j'"
      using eq j
      by (auto simp: block_input_def block_writes_inject intro!: BlockHash.expand unsigned_word_eqI)
    with Suc.IH [of j'] Suc.prems j
    have IH: "i = j'" "take (Suc i * bs) ts = take (Suc i * bs) ts'"
      "\<forall>k \<le> i. base @ generate_mm_extra_keys (k * bs) bs fs =
                 base' @ generate_mm_extra_keys (k * bs) bs fs'"
      by auto
    show ?case
      using IH eq j slice_eq_take_cong [of "Suc i" bs ts ts']
      by (auto simp: block_input_def block_writes_inject le_Suc_eq)
  qed
qed

definition sample_hasher :: "hash_write list \<Rightarrow> 64 word" where
  "sample_hasher ws =
     (case ws of
        WriteU64 p # WriteUsize n # WriteU32Slice (t # _) # _ \<Rightarrow> of_nat (p * 10 + t)
      | _ \<Rightarrow> 0)"

lemmas hash_eval =
  compute_block_hashes_def hash_block_tokens_def block_writes_def block_extra_keys_def
  generate_mm_extra_keys_def sample_hasher_def subslice_def NONE_HASH_SEED_def Let_def

theorem equal_block_hash_equal_prefix_witness:
  "take (Suc 0 * 1) [5, 6] = take (Suc 0 * 1) [5, 7 :: nat] \<and>
   compute_block_hashes sample_hasher [5, 6] 1 [] [] = Inr [BlockHash 5, BlockHash 56] \<and>
   compute_block_hashes sample_hasher [5, 7] 1 [] [] = Inr [BlockHash 5, BlockHash 57]"
proof -
  have a: "compute_block_hashes sample_hasher [5, 6] 1 [] [] = Inr [BlockHash 5, BlockHash 56]"
    and b: "compute_block_hashes sample_hasher [5, 7] 1 [] [] = Inr [BlockHash 5, BlockHash 57]"
    by (simp_all add: hash_eval upt_rec)
  have inj: "inj_on sample_hasher
      (block_input [BlockHash 5, BlockHash 56] [5, 6] 1 [] [] ` {..<length [BlockHash 5, BlockHash 56]}
     \<union> block_input [BlockHash 5, BlockHash 57] [5, 7] 1 [] [] ` {..<length [BlockHash 5, BlockHash 57]})"
    by (simp add: lessThan_Suc block_input_def hash_eval insert_Diff_if)
  show ?thesis
    using equal_block_hash_equal_prefix [OF a b inj, of 0 0] a b
    by (simp add: NONE_HASH_SEED_def)
qed

text \<open>Hashing in two parts, the second one after more tokens have arrived.\<close>

lemma grown_hashes:
  assumes "0 < bs" and "m \<le> length ts"
  shows "\<exists>old new. compute_block_hashes hasher (take m ts) bs fs base = Inr old \<and>
    compute_new_block_hashes hasher ts bs old fs base = Inr new \<and>
    compute_block_hashes hasher ts bs fs base = Inr (old @ new)"
proof -
  let ?k = "m div bs" and ?n = "length ts div bs"
  let ?old = "hash_blocks_from hasher ts bs fs base [0..<?k] None"
  have kn: "?k \<le> ?n" using assms(2) by (rule div_le_mono)
  have fit: "i * bs + bs \<le> m" if "i < ?k" for i
  proof -
    have "Suc i * bs \<le> ?k * bs" using that by (intro mult_le_mono1) simp
    also have "\<dots> \<le> m" by simp
    finally show ?thesis by (simp add: add.commute)
  qed
  have old: "compute_block_hashes hasher (take m ts) bs fs base = Inr ?old"
    using assms fit by (simp add: compute_block_hashes_def min_absorb2 hash_blocks_from_take)
  have split: "[0..<?n] = [0..<?k] @ [?k..<?n]"
    using kn by (metis le_Suc_ex upt_add_eq_append zero_le)
  let ?new = "hash_blocks_from hasher ts bs fs base [?k..<?n]
    (if ?old = [] then None else Some (last ?old))"
  have full: "compute_block_hashes hasher ts bs fs base = Inr (?old @ ?new)"
    using assms(1) by (simp add: compute_block_hashes_def split hash_blocks_from_append Let_def)
  have "compute_new_block_hashes hasher ts bs ?old fs base = Inr ?new"
    using assms(1) kn by (auto simp: compute_new_block_hashes_def Let_def)
  then show ?thesis using old full by blast
qed

text \<open>
  C26. The incremental computation is the full one: extending the hashes of a shorter
  token sequence by \<open>compute_new_block_hashes\<close> on the grown sequence gives exactly the
  hashes \<open>compute_block_hashes\<close> computes from scratch.
\<close>

theorem incremental_hashes_eq_full:
  assumes "0 < bs" and "m \<le> length ts"
  shows "\<exists>old new. compute_block_hashes hasher (take m ts) bs fs base = Inr old \<and>
    compute_new_block_hashes hasher ts bs old fs base = Inr new \<and>
    compute_block_hashes hasher ts bs fs base = Inr (old @ new)"
  by (rule grown_hashes [OF assms])

theorem incremental_hashes_eq_full_witness:
  "\<exists>old new. compute_block_hashes sample_hasher (take 3 [1, 2, 3, 4, 5]) 2 [] [] = Inr old \<and>
    compute_new_block_hashes sample_hasher [1, 2, 3, 4, 5] 2 old [] [] = Inr new \<and>
    compute_block_hashes sample_hasher [1, 2, 3, 4, 5] 2 [] [] = Inr (old @ new)"
  by (rule incremental_hashes_eq_full) simp_all


definition sample_image :: MultimodalSpan where
  "sample_image = \<lparr>kind = Image, item_start = 0, item_end = 1, hashes = [7], offset = 6,
     span_len = 8, attention_policy = NonCausal, splittable = False\<rparr>"


text \<open>
  Multimodal items that start after a block never change that block's extra keys, so
  appending media to a conversation keeps the hashes of the earlier blocks; and a block never
  has more than the capped number of keys.
\<close>

theorem later_media_keep_block_keys:
  assumes "\<forall>f \<in> set later. start + bs \<le> offset f"
  shows "generate_mm_extra_keys start bs (fs @ later) = generate_mm_extra_keys start bs fs \<and>
    length (generate_mm_extra_keys start bs fs) \<le> MAX_MM_EXTRA_KEYS_PER_BLOCK"
proof -
  have "filter (\<lambda>f. overlaps f start (start + bs)) later = []"
    using assms by (auto simp: filter_empty_conv overlaps_def)
  then show ?thesis by (simp add: generate_mm_extra_keys_eq)
qed

theorem later_media_keep_block_keys_witness:
  "generate_mm_extra_keys 4 4 ([sample_image] @ [sample_image\<lparr>offset := 20\<rparr>]) =
     [MultiModalHash Image 0 7 6 8 2 NonCausal]"
proof -
  have "generate_mm_extra_keys 4 4 [sample_image] = [MultiModalHash Image 0 7 6 8 2 NonCausal]"
    by (simp add: generate_mm_extra_keys_def overlaps_def sample_image_def span_end_def mm_key_def
        MAX_MM_EXTRA_KEYS_PER_BLOCK_def as_i64_def Let_def)
  then show ?thesis
    using later_media_keep_block_keys [of "[sample_image\<lparr>offset := 20\<rparr>]" 4 4 "[sample_image]"]
    by (simp add: sample_image_def)
qed

end
