(* ===== verification/Free_Queue.thy ===== *)
theory Free_Queue
  imports Block_Hash
begin

text \<open>
  The blocks of the pool and the doubly linked free list threaded through them
  (\<open>KVCacheBlock\<close> and \<open>FreeKVCacheBlockQueue\<close> of \<open>paged_attention/block_pool.rs\<close>). The
  interface \<open>lru_queue\<close> states what the pool relies on, over a list of block ids in
  eviction order; the linked representation is shown to implement it.
\<close>

section \<open>Blocks and links\<close>

definition NO_LINK :: nat where
  "NO_LINK = usize_max"

record KVCacheBlock =
  block_id :: nat
  ref_cnt :: nat
  block_hashes :: "BlockHashWithGroupId list"
  prev_free :: nat
  next_free :: nat
  is_null :: bool

definition KVCacheBlock_new :: "nat \<Rightarrow> KVCacheBlock" where
  "KVCacheBlock_new i =
     \<lparr>block_id = i, ref_cnt = 0, block_hashes = [], prev_free = NO_LINK, next_free = NO_LINK,
      is_null = False\<rparr>"

definition is_in_free_list :: "KVCacheBlock \<Rightarrow> bool" where
  "is_in_free_list b \<longleftrightarrow> prev_free b \<noteq> NO_LINK \<or> next_free b \<noteq> NO_LINK"

definition reset_hash :: "KVCacheBlock \<Rightarrow> KVCacheBlock" where
  "reset_hash b = b\<lparr>block_hashes := []\<rparr>"

record FreeKVCacheBlockQueue =
  num_free :: nat
  fake_head :: nat
  fake_tail :: nat

definition set_prev :: "nat \<Rightarrow> nat \<Rightarrow> KVCacheBlock list \<Rightarrow> KVCacheBlock list res" where
  "set_prev i v bs = and_then (get_at bs i) (\<lambda>b. set_at bs i (b\<lparr>prev_free := v\<rparr>))"

definition set_next :: "nat \<Rightarrow> nat \<Rightarrow> KVCacheBlock list \<Rightarrow> KVCacheBlock list res" where
  "set_next i v bs = and_then (get_at bs i) (\<lambda>b. set_at bs i (b\<lparr>next_free := v\<rparr>))"

section \<open>Queue operations\<close>

definition link_one ::
    "nat list \<Rightarrow> nat \<Rightarrow> nat \<Rightarrow> nat \<Rightarrow> KVCacheBlock list \<Rightarrow> KVCacheBlock list res" where
  "link_one ids hd_id tl_id i bs =
     and_then (get_at ids i) (\<lambda>id.
     and_then (set_prev id (if i > 0 then ids ! (i - 1) else hd_id) bs) (\<lambda>bs.
     set_next id (if i + 1 < length ids then ids ! (i + 1) else tl_id) bs))"

definition queue_new ::
    "KVCacheBlock list \<Rightarrow> nat list \<Rightarrow> nat \<Rightarrow> nat
      \<Rightarrow> (KVCacheBlock list \<times> FreeKVCacheBlockQueue) res" where
  "queue_new blocks ids hd_id tl_id =
     and_then (fold_res (link_one ids hd_id tl_id) [0..<length ids] blocks) (\<lambda>bs.
     and_then
       (if ids \<noteq> [] then
          and_then (set_next hd_id (ids ! 0) bs) (\<lambda>bs.
          set_prev tl_id (ids ! (length ids - 1)) bs)
        else
          and_then (set_next hd_id tl_id bs) (\<lambda>bs. set_prev tl_id hd_id bs)) (\<lambda>bs.
     Inr (bs, \<lparr>num_free = length ids, fake_head = hd_id, fake_tail = tl_id\<rparr>)))"

type_synonym queue_state = "KVCacheBlock list \<times> FreeKVCacheBlockQueue"

definition popleft :: "bool \<Rightarrow> queue_state \<Rightarrow> (nat option \<times> queue_state) res" where
  "popleft dbg s =
     (let (bs, q) = s in
      and_then (get_at bs (fake_head q)) (\<lambda>h.
      let first_id = next_free h in
      if first_id = fake_tail q then Inr (None, (bs, q))
      else
        and_then (get_at bs first_id) (\<lambda>f.
        let next_id = next_free f in
        and_then (set_next (fake_head q) next_id bs) (\<lambda>bs.
        and_then (set_prev next_id (fake_head q) bs) (\<lambda>bs.
        and_then (set_prev first_id NO_LINK bs) (\<lambda>bs.
        and_then (set_next first_id NO_LINK bs) (\<lambda>bs.
        and_then (sub_plain dbg usize_max (num_free q) 1) (\<lambda>n.
        Inr (Some first_id, (bs, q\<lparr>num_free := n\<rparr>))))))))))"

definition queue_remove :: "bool \<Rightarrow> nat \<Rightarrow> queue_state \<Rightarrow> queue_state res" where
  "queue_remove dbg i s =
     (let (bs, q) = s in
      and_then (get_at bs i) (\<lambda>b.
      let prev_id = prev_free b; next_id = next_free b in
      and_then (assert_that ''remove() called on block not in free list''
                  (dbg \<longrightarrow> prev_id \<noteq> NO_LINK \<and> next_id \<noteq> NO_LINK)) (\<lambda>_.
      and_then (set_next prev_id next_id bs) (\<lambda>bs.
      and_then (set_prev next_id prev_id bs) (\<lambda>bs.
      and_then (set_prev i NO_LINK bs) (\<lambda>bs.
      and_then (set_next i NO_LINK bs) (\<lambda>bs.
      and_then (sub_plain dbg usize_max (num_free q) 1) (\<lambda>n.
      Inr (bs, q\<lparr>num_free := n\<rparr>)))))))))"

definition queue_append :: "nat \<Rightarrow> queue_state \<Rightarrow> queue_state res" where
  "queue_append i s =
     (let (bs, q) = s in
      and_then (get_at bs (fake_tail q)) (\<lambda>t.
      let last_id = prev_free t in
      and_then (set_next last_id i bs) (\<lambda>bs.
      and_then (set_prev i last_id bs) (\<lambda>bs.
      and_then (set_next i (fake_tail q) bs) (\<lambda>bs.
      and_then (set_prev (fake_tail q) i bs) (\<lambda>bs.
      Inr (bs, q\<lparr>num_free := num_free q + 1\<rparr>)))))))"

section \<open>The interface: an LRU queue over a list of ids\<close>

datatype queue_cmd = PopLeft | Remove nat | Append nat

text \<open>The abstract queue: a list, evicted from the front.\<close>

fun list_queue :: "queue_cmd \<Rightarrow> nat list \<Rightarrow> nat list" where
  "list_queue PopLeft xs = tl xs"
| "list_queue (Remove i) xs = remove1 i xs"
| "list_queue (Append i) xs = xs @ [i]"

fun run_list_queue :: "queue_cmd list \<Rightarrow> nat list \<Rightarrow> nat list" where
  "run_list_queue [] xs = xs"
| "run_list_queue (c # cs) xs = run_list_queue cs (list_queue c xs)"

text \<open>A command may be issued when its block is on the list, or off it for \<open>Append\<close>.\<close>

fun cmd_allowed :: "(nat \<Rightarrow> bool) \<Rightarrow> queue_cmd \<Rightarrow> nat list \<Rightarrow> bool" where
  "cmd_allowed ok PopLeft xs = True"
| "cmd_allowed ok (Remove i) xs = (i \<in> set xs)"
| "cmd_allowed ok (Append i) xs = (ok i \<and> i \<notin> set xs)"

fun cmds_allowed :: "(nat \<Rightarrow> bool) \<Rightarrow> queue_cmd list \<Rightarrow> nat list \<Rightarrow> bool" where
  "cmds_allowed ok [] xs = True"
| "cmds_allowed ok (c # cs) xs = (cmd_allowed ok c xs \<and> cmds_allowed ok cs (list_queue c xs))"

fun run_queue ::
    "('s \<Rightarrow> (nat option \<times> 's) res) \<Rightarrow> (nat \<Rightarrow> 's \<Rightarrow> 's res) \<Rightarrow> (nat \<Rightarrow> 's \<Rightarrow> 's res)
      \<Rightarrow> queue_cmd list \<Rightarrow> 's \<Rightarrow> 's res" where
  "run_queue pop rem app [] s = Inr s"
| "run_queue pop rem app (PopLeft # cs) s =
     and_then (pop s) (\<lambda>(r, s'). run_queue pop rem app cs s')"
| "run_queue pop rem app (Remove i # cs) s = and_then (rem i s) (run_queue pop rem app cs)"
| "run_queue pop rem app (Append i # cs) s = and_then (app i s) (run_queue pop rem app cs)"

locale lru_queue =
  fixes rep :: "'s \<Rightarrow> nat list \<Rightarrow> bool"
    and content :: "'s \<Rightarrow> 'c"
    and valid :: "'c \<Rightarrow> nat \<Rightarrow> bool"
    and pop :: "'s \<Rightarrow> (nat option \<times> 's) res"
    and rem :: "nat \<Rightarrow> 's \<Rightarrow> 's res"
    and app :: "nat \<Rightarrow> 's \<Rightarrow> 's res"
  assumes rep_distinct: "rep s xs \<Longrightarrow> distinct xs"
    and rep_valid: "rep s xs \<Longrightarrow> x \<in> set xs \<Longrightarrow> valid (content s) x"
    and pop_Nil: "rep s [] \<Longrightarrow> pop s = Inr (None, s)"
    and pop_Cons: "rep s (x # xs) \<Longrightarrow>
      returns (pop s) (\<lambda>(r, t). r = Some x \<and> rep t xs \<and> content t = content s)"
    and rem_law: "rep s xs \<Longrightarrow> x \<in> set xs \<Longrightarrow>
      returns (rem x s) (\<lambda>t. rep t (remove1 x xs) \<and> content t = content s)"
    and app_law: "rep s xs \<Longrightarrow> valid (content s) x \<Longrightarrow> x \<notin> set xs \<Longrightarrow>
      returns (app x s) (\<lambda>t. rep t (xs @ [x]) \<and> content t = content s)"
begin

lemma run_refines_list:
  assumes "rep s xs" and "cmds_allowed (valid (content s)) cs xs"
  shows "returns (run_queue pop rem app cs s)
    (\<lambda>t. rep t (run_list_queue cs xs) \<and> content t = content s)"
  using assms
proof (induction cs arbitrary: s xs)
  case Nil
  then show ?case by simp
next
  case (Cons c cs)
  have IH: "returns (run_queue pop rem app cs t)
      (\<lambda>u. rep u (run_list_queue cs ys) \<and> content u = content s)"
    if "rep t ys" and "content t = content s" and "cmds_allowed (valid (content s)) cs ys" for t ys
    using Cons.IH [of t ys] that by simp
  show ?case
  proof (cases c)
    case PopLeft
    show ?thesis
    proof (cases xs)
      case Nil
      then show ?thesis using Cons PopLeft by (simp add: pop_Nil)
    next
      case (Cons y ys)
      then have "returns (pop s) (\<lambda>(r, t). rep t ys \<and> content t = content s)"
        using pop_Cons [of s y ys] \<open>rep s xs\<close> by (auto elim!: returns_mono)
      then show ?thesis
        using Cons.prems PopLeft Cons by (auto elim!: returns_mono intro!: IH)
    qed
  next
    case (Remove i)
    then show ?thesis
      using rem_law [of s xs i] Cons.prems by (auto elim!: returns_mono intro!: IH)
  next
    case (Append i)
    then show ?thesis
      using app_law [of s xs i] Cons.prems by (auto elim!: returns_mono intro!: IH)
  qed
qed

end

section \<open>The linked representation\<close>

fun linked :: "(nat \<Rightarrow> nat) \<Rightarrow> (nat \<Rightarrow> nat) \<Rightarrow> nat list \<Rightarrow> bool" where
  "linked nx pv (x # y # zs) \<longleftrightarrow> nx x = y \<and> pv y = x \<and> linked nx pv (y # zs)"
| "linked nx pv _ \<longleftrightarrow> True"

lemma linked_append:
  "linked nx pv (xs @ y # zs) \<longleftrightarrow> linked nx pv (xs @ [y]) \<and> linked nx pv (y # zs)"
  by (induction xs rule: induct_list012) auto

lemma linked_middle:
  "linked nx pv (xs @ a # b # ys) \<longleftrightarrow>
     linked nx pv (xs @ [a]) \<and> nx a = b \<and> pv b = a \<and> linked nx pv (b # ys)"
  by (subst linked_append) simp

text \<open>Writing a link of a node matters only where the chain reads that link.\<close>

lemma linked_nx_upd [simp]: "a \<notin> set (butlast xs) \<Longrightarrow> linked (nx(a := v)) pv xs = linked nx pv xs"
  by (induction xs rule: induct_list012) auto

lemma linked_pv_upd [simp]: "a \<notin> set (tl xs) \<Longrightarrow> linked nx (pv(a := v)) xs = linked nx pv xs"
  by (induction xs rule: induct_list012) auto

lemma linked_upd_notin [simp]:
  "a \<notin> set xs \<Longrightarrow> linked (nx(a := v)) pv xs = linked nx pv xs"
  "a \<notin> set xs \<Longrightarrow> linked nx (pv(a := v)) xs = linked nx pv xs"
  by (induction xs rule: induct_list012) auto

lemma linked_unlink:
  assumes "linked nx pv (pre @ p # x # n # post)" and "distinct (pre @ p # x # n # post)"
  shows "linked (nx(p := n, x := w)) (pv(n := p, x := w')) (pre @ p # n # post)"
proof -
  have old: "linked nx pv (pre @ [p])" "linked nx pv (n # post)"
    using assms(1) by (simp_all add: linked_middle)
  have ne: "p \<noteq> n" "p \<noteq> x" "n \<noteq> x" "p \<notin> set pre" "x \<notin> set pre" "n \<notin> set pre"
    "p \<notin> set (n # post)" "x \<notin> set (n # post)" "n \<notin> set post"
    using assms(2) by auto
  have "linked (nx(p := n, x := w)) (pv(n := p, x := w')) (pre @ [p])"
    using old(1) ne by (cases pre) (auto simp: butlast_append)
  moreover have "linked (nx(p := n, x := w)) (pv(n := p, x := w')) (n # post)"
    using old(2) ne by simp
  ultimately show ?thesis using ne by (simp add: linked_middle)
qed

lemma linked_insert_last:
  assumes "linked nx pv (pre @ [l, t])" and "distinct (pre @ [l, t])" and "x \<notin> set (pre @ [l, t])"
  shows "linked (nx(l := x, x := t)) (pv(x := l, t := x)) (pre @ [l, x, t])"
proof -
  have "linked nx pv (pre @ [l])" using assms(1) by (simp add: linked_middle)
  then have "linked (nx(l := x, x := t)) (pv(x := l, t := x)) (pre @ [l])"
    using assms(2,3) by (simp add: butlast_append)
  then show ?thesis using assms(2,3) by (auto simp: linked_middle)
qed

definition nx_of :: "KVCacheBlock list \<Rightarrow> nat \<Rightarrow> nat" where
  "nx_of bs i = next_free (bs ! i)"

definition pv_of :: "KVCacheBlock list \<Rightarrow> nat \<Rightarrow> nat" where
  "pv_of bs i = prev_free (bs ! i)"

lemmas fold_links = nx_of_def [symmetric] pv_of_def [symmetric]

definition unlinked :: "KVCacheBlock \<Rightarrow> KVCacheBlock" where
  "unlinked b = b\<lparr>prev_free := 0, next_free := 0\<rparr>"

definition chain_ok :: "KVCacheBlock list \<Rightarrow> nat list \<Rightarrow> bool" where
  "chain_ok bs path \<longleftrightarrow>
     distinct path \<and> set path \<subseteq> {..<length bs} \<and> linked (nx_of bs) (pv_of bs) path"

definition queue_rep :: "queue_state \<Rightarrow> nat list \<Rightarrow> bool" where
  "queue_rep s ids \<longleftrightarrow>
     (let (bs, q) = s in
      chain_ok bs (fake_head q # ids @ [fake_tail q]) \<and>
      num_free q = length ids \<and> length bs \<le> usize_max)"

definition queue_content :: "queue_state \<Rightarrow> KVCacheBlock list \<times> nat \<times> nat" where
  "queue_content s = (map unlinked (fst s), fake_head (snd s), fake_tail (snd s))"

definition queue_valid :: "KVCacheBlock list \<times> nat \<times> nat \<Rightarrow> nat \<Rightarrow> bool" where
  "queue_valid c i \<longleftrightarrow> (case c of (bs, h, t) \<Rightarrow> i < length bs \<and> i \<noteq> h \<and> i \<noteq> t)"

text \<open>The two link writes on lists of blocks, as function updates.\<close>

lemma set_prev_eq: "i < length bs \<Longrightarrow> set_prev i v bs = Inr (bs[i := (bs ! i)\<lparr>prev_free := v\<rparr>])"
  by (simp add: set_prev_def)

lemma set_next_eq: "i < length bs \<Longrightarrow> set_next i v bs = Inr (bs[i := (bs ! i)\<lparr>next_free := v\<rparr>])"
  by (simp add: set_next_def)

lemma nx_of_upd:
  "i < length bs \<Longrightarrow> nx_of (bs[i := (bs ! i)\<lparr>next_free := v\<rparr>]) = (nx_of bs)(i := v)"
  "nx_of (bs[i := (bs ! i)\<lparr>prev_free := v\<rparr>]) = nx_of bs"
  by (auto simp: fun_eq_iff nx_of_def pv_of_def nth_list_update_if)

lemma pv_of_upd:
  "i < length bs \<Longrightarrow> pv_of (bs[i := (bs ! i)\<lparr>prev_free := v\<rparr>]) = (pv_of bs)(i := v)"
  "pv_of (bs[i := (bs ! i)\<lparr>next_free := v\<rparr>]) = pv_of bs"
  by (auto simp: fun_eq_iff nx_of_def pv_of_def nth_list_update_if)

lemma unlinked_upd:
  "map unlinked (bs[i := (bs ! i)\<lparr>prev_free := v\<rparr>]) = map unlinked bs"
  "map unlinked (bs[i := (bs ! i)\<lparr>next_free := v\<rparr>]) = map unlinked bs"
  by (auto simp: list_eq_iff_nth_eq unlinked_def nth_list_update_if)

lemma returns_set_next:
  assumes "i < length bs"
    and "\<And>bs'. length bs' = length bs \<Longrightarrow> nx_of bs' = (nx_of bs)(i := v) \<Longrightarrow>
           pv_of bs' = pv_of bs \<Longrightarrow> map unlinked bs' = map unlinked bs \<Longrightarrow> Q bs'"
  shows "returns (set_next i v bs) Q"
  using assms by (simp add: set_next_eq nx_of_upd pv_of_upd unlinked_upd)

lemma returns_set_prev:
  assumes "i < length bs"
    and "\<And>bs'. length bs' = length bs \<Longrightarrow> nx_of bs' = nx_of bs \<Longrightarrow>
           pv_of bs' = (pv_of bs)(i := v) \<Longrightarrow> map unlinked bs' = map unlinked bs \<Longrightarrow> Q bs'"
  shows "returns (set_prev i v bs) Q"
  using assms by (simp add: set_prev_eq nx_of_upd pv_of_upd unlinked_upd)

lemmas returns_set_link = returns_set_next returns_set_prev

lemma popleft_Nil: "queue_rep s [] \<Longrightarrow> popleft dbg s = Inr (None, s)"
  by (cases s) (simp add: popleft_def queue_rep_def chain_ok_def fold_links)

lemma unlink_returns:
  assumes "queue_rep (bs, q) (as @ x # cs)"
    and "p = last (fake_head q # as)" and "n = hd (cs @ [fake_tail q])"
  shows "nx_of bs x = n" and "pv_of bs x = p" and "p < length bs" and "n < length bs"
    and "x < length bs" and "p \<noteq> x" and "n \<noteq> x"
    and "\<And>bs'. length bs' = length bs \<Longrightarrow> nx_of bs' = (nx_of bs)(p := n, x := w) \<Longrightarrow>
           pv_of bs' = (pv_of bs)(n := p, x := w') \<Longrightarrow>
           queue_rep (bs', q\<lparr>num_free := num_free q - 1\<rparr>) (as @ cs)"
    and "1 \<le> num_free q"
proof -
  obtain pre where pre: "fake_head q # as = pre @ [p]"
    using assms(2) by (metis append_butlast_last_id list.distinct(1))
  obtain post where post: "cs @ [fake_tail q] = n # post"
    using assms(3) by (metis append_is_Nil_conv list.distinct(1) list.exhaust_sel)
  have path: "fake_head q # (as @ x # cs) @ [fake_tail q] = pre @ p # x # n # post"
    using pre post by (metis append.assoc append_Cons append_Nil)
  have path': "fake_head q # (as @ cs) @ [fake_tail q] = pre @ p # n # post"
    using pre post by (metis append.assoc append_Cons append_Nil)
  have q: "chain_ok bs (pre @ p # x # n # post)" "length bs \<le> usize_max"
    "num_free q = length (as @ x # cs)"
    using assms(1) unfolding queue_rep_def path [symmetric] by simp_all
  then have rep: "distinct (pre @ p # x # n # post)"
    "set (pre @ p # x # n # post) \<subseteq> {..<length bs}"
    "linked (nx_of bs) (pv_of bs) (pre @ p # x # n # post)"
    by (simp_all add: chain_ok_def)
  show "nx_of bs x = n" "pv_of bs x = p"
    using rep(3) by (auto simp: linked_middle)
  show "p < length bs" "n < length bs" "x < length bs" "p \<noteq> x" "n \<noteq> x"
    using rep(1,2) by auto
  show "1 \<le> num_free q" using q(3) by simp
  fix bs'
  assume new: "length bs' = length bs" "nx_of bs' = (nx_of bs)(p := n, x := w)"
    "pv_of bs' = (pv_of bs)(n := p, x := w')"
  have "linked (nx_of bs') (pv_of bs') (pre @ p # n # post)"
    unfolding new by (rule linked_unlink [OF rep(3,1)])
  then have "chain_ok bs' (fake_head q # (as @ cs) @ [fake_tail q])"
    using rep(1,2) new(1) unfolding path' by (auto simp: chain_ok_def)
  then show "queue_rep (bs', q\<lparr>num_free := num_free q - 1\<rparr>) (as @ cs)"
    using q new(1) by (simp add: queue_rep_def)
qed

lemma popleft_Cons:
  assumes "queue_rep s (x # xs)"
  shows "returns (popleft dbg s)
    (\<lambda>(r, t). r = Some x \<and> queue_rep t xs \<and> queue_content t = queue_content s)"
proof -
  obtain bs q where s: "s = (bs, q)" by (cases s)
  have rep: "queue_rep (bs, q) ([] @ x # xs)" using assms s by simp
  note u = unlink_returns [OF rep refl refl]
  have hd: "nx_of bs (fake_head q) = x" "x \<noteq> fake_tail q" "fake_head q < length bs"
    using rep by (auto simp: queue_rep_def chain_ok_def)
  show ?thesis
    using u hd unfolding s popleft_def
    by (auto simp: queue_content_def Let_def fold_links intro!: returns_set_link)
qed

lemma queue_remove_law:
  assumes "queue_rep s xs" and "x \<in> set xs"
  shows "returns (queue_remove dbg x s)
    (\<lambda>t. queue_rep t (remove1 x xs) \<and> queue_content t = queue_content s)"
proof -
  obtain bs q where s: "s = (bs, q)" by (cases s)
  obtain as cs where xs: "xs = as @ x # cs" and "x \<notin> set as"
    using assms(2) by (meson split_list_first)
  then have rem: "remove1 x xs = as @ cs" by (simp add: remove1_append)
  have rep: "queue_rep (bs, q) (as @ x # cs)" using assms(1) s xs by simp
  note u = unlink_returns [OF rep refl refl]
  have "length bs \<le> usize_max" using rep by (simp add: queue_rep_def)
  then show ?thesis
    using u unfolding s queue_remove_def rem
    by (auto simp: queue_content_def NO_LINK_def Let_def fold_links intro!: returns_set_link)
qed

lemma queue_append_law:
  assumes "queue_rep s xs" and "queue_valid (queue_content s) x" and "x \<notin> set xs"
  shows "returns (queue_append x s)
    (\<lambda>t. queue_rep t (xs @ [x]) \<and> queue_content t = queue_content s)"
proof -
  obtain bs q where s: "s = (bs, q)" by (cases s)
  obtain pre l where pre: "fake_head q # xs = pre @ [l]"
    by (metis append_butlast_last_id list.distinct(1))
  have path: "fake_head q # xs @ [fake_tail q] = pre @ [l, fake_tail q]"
    using pre by (metis append.assoc append_Cons append_Nil)
  have path': "fake_head q # (xs @ [x]) @ [fake_tail q] = pre @ [l, x, fake_tail q]"
    using pre by (metis append.assoc append_Cons append_Nil)
  have q: "chain_ok bs (pre @ [l, fake_tail q])" "length bs \<le> usize_max" "num_free q = length xs"
    using assms(1) unfolding queue_rep_def path [symmetric] s by simp_all
  have x: "x < length bs" "x \<notin> set (pre @ [l, fake_tail q])"
    using assms(2,3) unfolding path [symmetric] s
    by (auto simp: queue_valid_def queue_content_def)
  have ln: "linked (nx_of bs) (pv_of bs) (pre @ [l, fake_tail q])"
    "distinct (pre @ [l, fake_tail q])" "l < length bs" "fake_tail q < length bs"
    "pv_of bs (fake_tail q) = l" "l \<noteq> fake_tail q" "x \<noteq> l" "x \<noteq> fake_tail q"
    using q(1) x by (auto simp: chain_ok_def linked_middle)
  have new: "queue_rep (bs', q\<lparr>num_free := Suc (num_free q)\<rparr>) (xs @ [x])"
    if "length bs' = length bs" and "nx_of bs' = (nx_of bs)(l := x, x := fake_tail q)"
      and "pv_of bs' = (pv_of bs)(x := l, fake_tail q := x)" for bs'
  proof -
    have "linked (nx_of bs') (pv_of bs') (pre @ [l, x, fake_tail q])"
      unfolding that by (rule linked_insert_last [OF ln(1,2) x(2)])
    then have "chain_ok bs' (fake_head q # (xs @ [x]) @ [fake_tail q])"
      unfolding path' using q(1) x that(1) by (auto simp: chain_ok_def)
    then show ?thesis using q that(1) by (simp add: queue_rep_def)
  qed
  show ?thesis
    using ln x new unfolding s queue_append_def
    by (auto simp: queue_content_def Let_def fold_links intro!: returns_set_link)
qed

interpretation fq: lru_queue queue_rep queue_content queue_valid "popleft dbg" "queue_remove dbg"
  queue_append for dbg
proof unfold_locales
  fix s xs x
  show "queue_rep s xs \<Longrightarrow> distinct xs"
    by (cases s) (auto simp: queue_rep_def chain_ok_def)
  show "queue_rep s xs \<Longrightarrow> x \<in> set xs \<Longrightarrow> queue_valid (queue_content s) x"
    by (cases s) (auto simp: queue_rep_def chain_ok_def queue_valid_def queue_content_def)
qed (auto intro: popleft_Nil popleft_Cons queue_remove_law queue_append_law)

section \<open>Initialisation\<close>

text \<open>After \<open>i\<close> iterations the first \<open>i\<close> ids carry their links and nothing else changed.\<close>

lemma link_one_returns:
  assumes "i < length ids" and "ids ! i < length bs"
  shows "returns (link_one ids h t i bs)
    (\<lambda>bs'. length bs' = length bs \<and> map unlinked bs' = map unlinked bs \<and>
       pv_of bs' = (pv_of bs)(ids ! i := (if 0 < i then ids ! (i - 1) else h)) \<and>
       nx_of bs' = (nx_of bs)(ids ! i := (if i + 1 < length ids then ids ! (i + 1) else t)))"
  unfolding link_one_def get_at_ok [OF assms(1)] and_then_Inr returns_and_then
  using assms(2) by (intro returns_set_link) simp_all

lemma linkedI:
  assumes "\<And>i. Suc i < length path \<Longrightarrow> nx (path ! i) = path ! Suc i \<and> pv (path ! Suc i) = path ! i"
  shows "linked nx pv path"
  using assms
proof (induction nx pv path rule: linked.induct)
  case (1 nx pv x y zs)
  have "linked nx pv (y # zs)"
    using 1(2) [of "Suc _"] by (intro 1(1)) auto
  then show ?case using 1(2) [of 0] by simp
qed simp_all

definition links_set :: "nat list \<Rightarrow> nat \<Rightarrow> nat \<Rightarrow> KVCacheBlock list \<Rightarrow> nat \<Rightarrow> bool" where
  "links_set ids h t bs i \<longleftrightarrow>
     pv_of bs (ids ! i) = (if 0 < i then ids ! (i - 1) else h) \<and>
     nx_of bs (ids ! i) = (if i + 1 < length ids then ids ! (i + 1) else t)"

lemma link_loop_returns:
  assumes "distinct ids" and "set ids \<subseteq> {..<length bs}"
  shows "returns (fold_res (link_one ids h t) [0..<length ids] bs)
    (\<lambda>bs'. length bs' = length bs \<and> map unlinked bs' = map unlinked bs \<and>
       (\<forall>i < length ids. links_set ids h t bs' i))"
proof -
  let ?I = "\<lambda>done bs'. length bs' = length bs \<and> map unlinked bs' = map unlinked bs \<and>
    (\<forall>i \<in> set done. links_set ids h t bs' i)"
  have "returns (fold_res (link_one ids h t) [0..<length ids] bs) (?I [0..<length ids])"
  proof (rule returns_fold_res)
    fix "done" k rest bs'
    assume split: "[0..<length ids] = done @ k # rest" and I: "?I done bs'"
    have "k \<in> set [0..<length ids]" unfolding split by simp
    then have k: "k < length ids" by simp
    then have "ids ! k \<in> {..<length bs}" using assms(2) by (meson nth_mem subsetD)
    then have k': "ids ! k < length bs'" using I by simp
    have kd: "\<forall>j \<in> set done. j < length ids \<and> j \<noteq> k"
      using split distinct_upt [of 0 "length ids"] by (auto dest!: arg_cong [of _ _ set])
    have ne: "ids ! j \<noteq> ids ! k" if "j \<in> set done" for j
      using kd that k assms(1) by (simp add: nth_eq_iff_index_eq)
    show "returns (link_one ids h t k bs') (?I (done @ [k]))"
      using I ne by (intro returns_mono [OF link_one_returns [OF k k']])
        (simp add: links_set_def)
  qed simp
  then show ?thesis by (rule returns_mono) simp
qed

lemma queue_new_law:
  assumes "distinct (h # ids @ [t])" and "set (h # ids @ [t]) \<subseteq> {..<length bs}"
    and "length bs \<le> usize_max"
  shows "returns (queue_new bs ids h t)
    (\<lambda>s. queue_rep s ids \<and> queue_content s = (map unlinked bs, h, t) \<and> num_free (snd s) = length ids)"
proof -
  have final: "queue_rep (bs', \<lparr>num_free = length ids, fake_head = h, fake_tail = t\<rparr>) ids"
    if "length bs' = length bs" and "\<forall>i < length ids. links_set ids h t bs' i"
      and "nx_of bs' h = hd (ids @ [t])" and "pv_of bs' t = last (h # ids)" for bs'
  proof -
    have "linked (nx_of bs') (pv_of bs') (h # ids @ [t])"
    proof (rule linkedI)
      fix i
      assume "Suc i < length (h # ids @ [t])"
      then consider "i = 0" "ids = []" | "i = 0" "ids \<noteq> []" | j where "i = Suc j" "Suc j < length ids"
        | j where "i = Suc j" "Suc j = length ids"
        by (cases i) (auto simp: less_Suc_eq)
      then show "nx_of bs' ((h # ids @ [t]) ! i) = (h # ids @ [t]) ! Suc i \<and>
          pv_of bs' ((h # ids @ [t]) ! Suc i) = (h # ids @ [t]) ! i"
      proof cases
        case 2
        then show ?thesis
          using that(2) [rule_format, of 0] that(3)
          by (simp add: links_set_def nth_append hd_conv_nth)
      next
        case (3 j)
        then show ?thesis
          using that(2) [rule_format, of j] that(2) [rule_format, of "Suc j"]
          by (simp add: links_set_def nth_append)
      next
        case (4 j)
        then have ne: "ids \<noteq> []" by auto
        then have "ids ! j = last ids" by (metis 4(2) diff_Suc_1 last_conv_nth)
        then show ?thesis
          using ne 4(1) that(2) [rule_format, of j] that(4) 4(2) [symmetric]
          by (simp add: links_set_def nth_append)
      qed (use that in simp_all)
    qed
    then show ?thesis using assms that(1) by (auto simp: queue_rep_def chain_ok_def)
  qed
  have keep: "links_set ids h t bs'' i"
    if "links_set ids h t bs' i" and "i < length ids"
      and "nx_of bs'' = (nx_of bs')(h := a)" and "pv_of bs'' = (pv_of bs')(t := b)" for bs' bs'' a b i
    using that assms(1) by (auto simp: links_set_def)
  have ends: "returns
      (if ids \<noteq> [] then and_then (set_next h (ids ! 0) bs1) (set_prev t (ids ! (length ids - 1)))
       else and_then (set_next h t bs1) (set_prev t h))
      (\<lambda>bs2. length bs2 = length bs1 \<and> map unlinked bs2 = map unlinked bs1 \<and>
         nx_of bs2 = (nx_of bs1)(h := hd (ids @ [t])) \<and> pv_of bs2 = (pv_of bs1)(t := last (h # ids)))"
    if "length bs1 = length bs" for bs1
    using assms(1,2) that
    by (cases "ids = []") (simp_all add: hd_conv_nth last_conv_nth nth_append, (intro returns_set_link; simp)+)
  show ?thesis
    unfolding queue_new_def returns_and_then
  proof (rule returns_mono [OF link_loop_returns [where h = h and t = t]])
    show "distinct ids" "set ids \<subseteq> {..<length bs}" using assms by auto
    fix bs1
    assume L: "length bs1 = length bs \<and> map unlinked bs1 = map unlinked bs \<and>
      (\<forall>i < length ids. links_set ids h t bs1 i)"
    then have len: "length bs1 = length bs" by simp
    show "returns
        (if ids \<noteq> [] then and_then (set_next h (ids ! 0) bs1) (set_prev t (ids ! (length ids - 1)))
         else and_then (set_next h t bs1) (set_prev t h))
        (\<lambda>bs2. returns (Inr (bs2, \<lparr>num_free = length ids, fake_head = h, fake_tail = t\<rparr>))
          (\<lambda>s. queue_rep s ids \<and> queue_content s = (map unlinked bs, h, t) \<and>
               num_free (snd s) = length ids))"
      using L by (intro returns_mono [OF ends [OF len]])
        (auto simp: queue_content_def intro!: final intro: keep)
  qed
qed

section \<open>Properties\<close>


definition sample_queue :: queue_state where
  "sample_queue =
     (let blk = (\<lambda>i p n. (KVCacheBlock_new i)\<lparr>prev_free := p, next_free := n\<rparr>)
      in ([blk 0 3 1, blk 1 0 2, blk 2 1 4, (KVCacheBlock_new 3)\<lparr>next_free := 0\<rparr>,
           (KVCacheBlock_new 4)\<lparr>prev_free := 2\<rparr>],
          \<lparr>num_free = 3, fake_head = 3, fake_tail = 4\<rparr>))"


end
