(* ===== verification/Hash_Index.thy ===== *)
theory Hash_Index
  imports Free_Queue
begin

text \<open>
  The map from block hashes to cached blocks (\<open>BlockHashToBlockMap\<close> of
  \<open>paged_attention/block_pool.rs\<close>). A std \<open>HashMap\<close> is an association list with distinct keys;
  the order in which a map or a set is iterated is not specified by std, so wherever the source
  iterates, the order is the environment's: \<open>iter_ids\<close> and \<open>iter_hashes\<close> rearrange the
  entries in any way. The environment also says whether the build has debug assertions (and with
  them overflow checks).
\<close>

record rt_env =
  debug_assertions :: bool
  iter_hashes :: "BlockHash list \<Rightarrow> BlockHash list"
  iter_ids :: "nat list \<Rightarrow> nat list"

definition env_ok :: "rt_env \<Rightarrow> bool" where
  "env_ok env \<longleftrightarrow>
     (\<forall>xs. set (iter_hashes env xs) = set xs \<and> (distinct xs \<longrightarrow> distinct (iter_hashes env xs))) \<and>
     (\<forall>xs. set (iter_ids env xs) = set xs)"

definition debug_env :: rt_env where
  "debug_env = \<lparr>debug_assertions = True, iter_hashes = id, iter_ids = id\<rparr>"

definition release_env :: rt_env where
  "release_env = \<lparr>debug_assertions = False, iter_hashes = id, iter_ids = id\<rparr>"

lemma env_ok_samples [simp]: "env_ok debug_env" "env_ok release_env"
  by (simp_all add: env_ok_def debug_env_def release_env_def)

lemma set_iter_ids [simp]: "env_ok env \<Longrightarrow> set (iter_ids env xs) = set xs"
  by (simp add: env_ok_def)

lemma set_iter_hashes [simp]: "env_ok env \<Longrightarrow> set (iter_hashes env xs) = set xs"
  by (simp add: env_ok_def)

lemma distinct_iter_hashes [simp]:
  "env_ok env \<Longrightarrow> distinct xs \<Longrightarrow> distinct (iter_hashes env xs)"
  unfolding env_ok_def by blast

section \<open>Model\<close>

datatype CachedBlocks = Single nat | Multiple "(nat \<times> nat) list"

record BlockHashToBlockMap =
  cache :: "(BlockHashWithGroupId \<times> CachedBlocks) list"
  collisions :: "64 word"

definition index_new :: BlockHashToBlockMap where
  "index_new = \<lparr>cache = [], collisions = 0\<rparr>"

definition index_contains :: "BlockHashToBlockMap \<Rightarrow> BlockHashWithGroupId \<Rightarrow> nat \<Rightarrow> bool" where
  "index_contains m key b =
     (case map_of (cache m) key of
        Some (Single i) \<Rightarrow> i = b
      | Some (Multiple ids) \<Rightarrow> map_of ids b \<noteq> None
      | None \<Rightarrow> False)"

definition hkey :: "BlockHash \<Rightarrow> nat \<Rightarrow> BlockHashWithGroupId" where
  "hkey h g = \<lparr>block_hash = h, group_id = g\<rparr>"

definition index_get_common ::
    "rt_env \<Rightarrow> BlockHashToBlockMap \<Rightarrow> BlockHash \<Rightarrow> nat list \<Rightarrow> nat option" where
  "index_get_common env m h kv_cache_group_ids =
     (case kv_cache_group_ids of
        [] \<Rightarrow> None
      | first_group_id # remaining_group_ids \<Rightarrow>
          (let is_common = (\<lambda>b. list_all (\<lambda>g. index_contains m (hkey h g) b) remaining_group_ids)
           in case map_of (cache m) (hkey h first_group_id) of
                None \<Rightarrow> None
              | Some (Single i) \<Rightarrow> (if is_common i then Some i else None)
              | Some (Multiple ids) \<Rightarrow> List.find is_common (iter_ids env (map fst ids))))"

definition index_insert ::
    "BlockHashWithGroupId \<Rightarrow> nat \<Rightarrow> BlockHashToBlockMap \<Rightarrow> BlockHashToBlockMap" where
  "index_insert key b m =
     (case map_of (cache m) key of
        None \<Rightarrow> m\<lparr>cache := AList.update key (Single b) (cache m)\<rparr>
      | Some (Single existing) \<Rightarrow>
          m\<lparr>collisions := (if existing \<noteq> b then collisions m + 1 else collisions m),
            cache := AList.update key
              (Multiple (AList.update b b (AList.update existing existing []))) (cache m)\<rparr>
      | Some (Multiple ids) \<Rightarrow>
          m\<lparr>collisions := (if map_of ids b = None then collisions m + 1 else collisions m),
            cache := AList.update key (Multiple (AList.update b b ids)) (cache m)\<rparr>)"

definition index_pop ::
    "BlockHashWithGroupId \<Rightarrow> nat \<Rightarrow> BlockHashToBlockMap \<Rightarrow> nat option \<times> BlockHashToBlockMap" where
  "index_pop key b m =
     (case map_of (cache m) key of
        None \<Rightarrow> (None, m)
      | Some entry \<Rightarrow>
          (let removed = AList.delete key (cache m)
           in case entry of
                Single i \<Rightarrow>
                  (if i = b then (Some i, m\<lparr>cache := removed\<rparr>)
                   else (None, m\<lparr>cache := AList.update key (Single i) removed\<rparr>))
              | Multiple ids \<Rightarrow>
                  (let result = map_of ids b; ids' = AList.delete b ids
                   in if length ids' = 1
                      then (result, m\<lparr>cache := AList.update key (Single (snd (hd ids'))) removed\<rparr>)
                      else if ids' \<noteq> []
                      then (result, m\<lparr>cache := AList.update key (Multiple ids') removed\<rparr>)
                      else (result, m\<lparr>cache := removed\<rparr>))))"

definition index_len :: "BlockHashToBlockMap \<Rightarrow> nat" where
  "index_len m = length (cache m)"

definition collision_count :: "BlockHashToBlockMap \<Rightarrow> 64 word" where
  "collision_count m = collisions m"

definition index_clear :: "BlockHashToBlockMap \<Rightarrow> BlockHashToBlockMap" where
  "index_clear m = m\<lparr>cache := []\<rparr>"

section \<open>The interface: a relation between keys and blocks\<close>

locale block_index =
  fixes inv :: "'m \<Rightarrow> bool"
    and contains :: "'m \<Rightarrow> 'k \<Rightarrow> nat \<Rightarrow> bool"
    and ins :: "'k \<Rightarrow> nat \<Rightarrow> 'm \<Rightarrow> 'm"
    and pop :: "'k \<Rightarrow> nat \<Rightarrow> 'm \<Rightarrow> nat option \<times> 'm"
  assumes inv_ins: "inv m \<Longrightarrow> inv (ins k b m)"
    and contains_ins: "inv m \<Longrightarrow> contains (ins k b m) k' b' \<longleftrightarrow> contains m k' b' \<or> k' = k \<and> b' = b"
    and inv_pop: "inv m \<Longrightarrow> inv (snd (pop k b m))"
    and contains_pop: "inv m \<Longrightarrow>
      contains (snd (pop k b m)) k' b' \<longleftrightarrow> contains m k' b' \<and> \<not> (k' = k \<and> b' = b)"
    and pop_result: "inv m \<Longrightarrow> fst (pop k b m) = (if contains m k b then Some b else None)"
begin

text \<open>Evicting a block pops all of its keys in turn.\<close>

lemma pop_all:
  assumes "inv m"
  shows "inv (fold (\<lambda>k m. snd (pop k b m)) ks m)"
    and "contains (fold (\<lambda>k m. snd (pop k b m)) ks m) k' b' \<longleftrightarrow>
      contains m k' b' \<and> \<not> (k' \<in> set ks \<and> b' = b)"
proof -
  have "inv (fold (\<lambda>k m. snd (pop k b m)) ks m) \<and>
    (contains (fold (\<lambda>k m. snd (pop k b m)) ks m) k' b' \<longleftrightarrow>
      contains m k' b' \<and> \<not> (k' \<in> set ks \<and> b' = b))"
    using assms by (induction ks arbitrary: m) (auto simp: inv_pop contains_pop)
  then show "inv (fold (\<lambda>k m. snd (pop k b m)) ks m)"
    and "contains (fold (\<lambda>k m. snd (pop k b m)) ks m) k' b' \<longleftrightarrow>
      contains m k' b' \<and> \<not> (k' \<in> set ks \<and> b' = b)"
    by auto
qed

lemma pop_after_ins:
  "inv m \<Longrightarrow> \<not> contains m k b \<Longrightarrow> contains (snd (pop k b (ins k b m))) k' b' = contains m k' b'"
  by (auto simp: contains_pop contains_ins inv_ins)

end

section \<open>The hash map implements it\<close>

definition ids_ok :: "(nat \<times> nat) list \<Rightarrow> bool" where
  "ids_ok ids \<longleftrightarrow> distinct (map fst ids) \<and> ids \<noteq> [] \<and> (\<forall>i j. map_of ids i = Some j \<longrightarrow> j = i)"

definition index_ok :: "BlockHashToBlockMap \<Rightarrow> bool" where
  "index_ok m \<longleftrightarrow> distinct (map fst (cache m)) \<and>
     (\<forall>k ids. map_of (cache m) k = Some (Multiple ids) \<longrightarrow> ids_ok ids)"

lemma ids_ok_update: "ids_ok ids \<or> ids = [] \<Longrightarrow> ids_ok (AList.update b b ids)"
  by (auto simp: ids_ok_def distinct_update split: if_splits)

lemma ids_ok_delete: "ids_ok ids \<Longrightarrow> AList.delete b ids \<noteq> [] \<Longrightarrow> ids_ok (AList.delete b ids)"
  by (auto simp: ids_ok_def distinct_delete split: if_splits)

lemma ids_ok_single:
  assumes "ids_ok ids" and "length (AList.delete b ids) = 1"
  obtains i where "AList.delete b ids = [(i, i)]" and "i \<noteq> b"
proof -
  obtain i j where del: "AList.delete b ids = [(i, j)]"
    using assms(2) by (auto simp: length_Suc_conv)
  have "map_of (AList.delete b ids) i = Some j" using del by simp
  then have "i \<noteq> b" "map_of ids i = Some j" by (auto split: if_splits)
  then show thesis using that del assms(1) by (auto simp: ids_ok_def)
qed

lemma index_ok_new: "index_ok index_new"
  by (simp add: index_ok_def index_new_def)

lemma index_ok_clear: "index_ok (index_clear m)"
  by (simp add: index_ok_def index_clear_def)

lemma index_contains_new [simp]: "\<not> index_contains index_new k b"
  by (simp add: index_contains_def index_new_def)

lemma index_contains_clear [simp]: "\<not> index_contains (index_clear m) k b"
  by (simp add: index_contains_def index_clear_def)

lemma index_ok_insert:
  assumes "index_ok m"
  shows "index_ok (index_insert key b m)"
  using assms
  by (auto simp: index_ok_def index_insert_def distinct_update ids_ok_update
      simp del: AList.update.simps map_of_eq_Some_iff
      split: option.splits CachedBlocks.splits if_splits)

lemma index_contains_insert:
  assumes "index_ok m"
  shows "index_contains (index_insert key b m) k' b' \<longleftrightarrow>
    index_contains m k' b' \<or> k' = key \<and> b' = b"
  by (auto simp: index_insert_def index_contains_def split: option.splits CachedBlocks.splits)

lemma index_ok_pop:
  assumes "index_ok m"
  shows "index_ok (snd (index_pop key b m))"
  using assms
  by (auto simp: index_ok_def index_pop_def Let_def distinct_update distinct_delete ids_ok_delete
      simp del: map_of_eq_Some_iff split: option.splits CachedBlocks.splits if_splits)

lemma delete_contains:
  "map_of (AList.delete b ids) b' \<noteq> None \<longleftrightarrow> map_of ids b' \<noteq> None \<and> b' \<noteq> b"
  by simp

lemma index_contains_pop:
  assumes "index_ok m"
  shows "index_contains (snd (index_pop key b m)) k' b' \<longleftrightarrow>
    index_contains m k' b' \<and> \<not> (k' = key \<and> b' = b)"
proof (cases "map_of (cache m) key")
  case None
  then show ?thesis by (auto simp: index_pop_def index_contains_def)
next
  case (Some entry)
  show ?thesis
  proof (cases entry)
    case (Single i)
    then show ?thesis using Some by (auto simp: index_pop_def index_contains_def Let_def)
  next
    case (Multiple ids)
    then have ok: "ids_ok ids" using assms Some by (simp add: index_ok_def)
    show ?thesis
    proof (cases "length (AList.delete b ids) = 1")
      case True
      then obtain i where del: "AList.delete b ids = [(i, i)]" "i \<noteq> b"
        using ids_ok_single [OF ok] by blast
      have "map_of ids c \<noteq> None \<and> c \<noteq> b \<longleftrightarrow> c = i" for c
        using delete_contains [of b ids c] unfolding del by (auto split: if_splits)
      then show ?thesis
        using Some Multiple del by (auto simp: index_pop_def index_contains_def Let_def)
    next
      case False
      have "AList.delete b ids = [] \<Longrightarrow> c \<noteq> b \<Longrightarrow> map_of ids c = None" for c
        using delete_contains [of b ids c] by auto
      then show ?thesis
        using Some Multiple False by (auto simp: index_pop_def index_contains_def Let_def)
    qed
  qed
qed

lemma index_pop_result:
  assumes "index_ok m"
  shows "fst (index_pop key b m) = (if index_contains m key b then Some b else None)"
  using assms
  by (auto simp: index_pop_def index_contains_def Let_def index_ok_def ids_ok_def
      simp del: map_of_eq_Some_iff split: option.splits CachedBlocks.splits)

interpretation hidx: block_index index_ok index_contains index_insert index_pop
  by unfold_locales
    (simp_all add: index_ok_insert index_contains_insert index_ok_pop index_contains_pop
      index_pop_result)

section \<open>Common blocks\<close>

lemma find_Some_iff: "List.find P xs = Some x \<Longrightarrow> P x \<and> x \<in> set xs"
  by (auto simp: List.find_Some_iff)

lemma index_get_common_sound:
  assumes "env_ok env" and "index_get_common env m h gs = Some b"
  shows "gs \<noteq> [] \<and> (\<forall>g \<in> set gs. index_contains m (hkey h g) b)"
  using assms
  by (auto simp: index_get_common_def index_contains_def list_all_iff Let_def weak_map_of_SomeI
      split: list.splits option.splits CachedBlocks.splits if_splits dest!: find_Some_iff)

lemma index_get_common_complete:
  assumes "env_ok env" and "gs \<noteq> []" and "\<forall>g \<in> set gs. index_contains m (hkey h g) b"
  shows "index_get_common env m h gs \<noteq> None"
proof -
  obtain g rest where gs: "gs = g # rest" using assms(2) by (cases gs) auto
  have first: "index_contains m (hkey h g) b" using assms(3) gs by simp
  show ?thesis
  proof (cases "map_of (cache m) (hkey h g)")
    case None
    then show ?thesis using first by (simp add: index_contains_def)
  next
    case (Some entry)
    show ?thesis
    proof (cases entry)
      case (Single i)
      then show ?thesis
        using Some first assms(3) gs
        by (simp add: index_get_common_def index_contains_def list_all_iff)
    next
      case (Multiple ids)
      then have "b \<in> fst ` set ids"
        using Some first by (simp add: index_contains_def map_of_eq_None_iff)
      then have "List.find (\<lambda>b. list_all (\<lambda>g. index_contains m (hkey h g) b) rest)
          (iter_ids env (map fst ids)) \<noteq> None"
        using assms(1,3) gs by (simp add: find_None_iff list_all_iff) blast
      then show ?thesis using Some Multiple gs by (simp add: index_get_common_def)
    qed
  qed
qed

end
