(* ===== verification/Retention.thy ===== *)
theory Retention
  imports Hash_Index
begin

text \<open>
  Retained prefixes (\<open>PrefixBlockRetention\<close>, its leases and its revocation monitor in
  \<open>paged_attention/block_pool.rs\<close>). The state behind \<open>Arc<Mutex<_>>\<close> and its atomics is one record;
  every operation is one critical section. A lease shares an \<open>Arc<AtomicBool>\<close> with its entry:
  \<open>active_flags\<close> is the store of those cells and \<open>active_cell\<close> the address.
\<close>

section \<open>Model\<close>

record RetainedPrefixEntry =
  entry_hashes :: "BlockHash list"
  active_cell :: nat

record PrefixBlockRetention =
  entries :: "(nat \<times> RetainedPrefixEntry) list"
  hash_ref_counts :: "(BlockHash \<times> nat) list"
  next_id :: nat
  revision :: nat
  published_revision :: nat
  published_revocation_epoch :: "64 word"
  enabled :: bool
  active_flags :: "nat \<Rightarrow> bool"

record PrefixBlockRetentionLease =
  lease_id :: nat
  lease_cell :: nat

record PrefixBlockRetentionRevocationMonitor =
  observed_epoch :: "64 word"

definition retention_default :: PrefixBlockRetention where
  "retention_default =
     \<lparr>entries = [], hash_ref_counts = [], next_id = 0, revision = 0, published_revision = 0,
      published_revocation_epoch = 0, enabled = False, active_flags = (\<lambda>_. False)\<rparr>"

definition take_pending ::
    "PrefixBlockRetention \<Rightarrow> PrefixBlockRetentionRevocationMonitor
      \<Rightarrow> bool \<times> PrefixBlockRetentionRevocationMonitor" where
  "take_pending r m =
     (observed_epoch m \<noteq> published_revocation_epoch r,
      m\<lparr>observed_epoch := published_revocation_epoch r\<rparr>)"

definition bump_revision :: "PrefixBlockRetention \<Rightarrow> PrefixBlockRetention res" where
  "bump_revision r =
     and_then (expect ''prefix block retention revision overflow''
                 (checked_add u64_max (revision r) 1)) (\<lambda>v.
     Inr (r\<lparr>revision := v, published_revision := v\<rparr>))"

text \<open>The loop of \<open>remove_entry\<close> over the entry's hashes in reverse.\<close>

fun release_counts ::
    "BlockHash list \<Rightarrow> (BlockHash \<times> nat) list \<Rightarrow> BlockHash list
      \<Rightarrow> ((BlockHash \<times> nat) list \<times> BlockHash list) res" where
  "release_counts [] counts released = Inr (counts, released)"
| "release_counts (h # hs) counts released =
     and_then (expect ''retained prefix hash refcount disappeared'' (map_of counts h)) (\<lambda>c.
     and_then (expect ''retained prefix hash refcount underflow'' (checked_sub c 1)) (\<lambda>c'.
     if c' = 0 then release_counts hs (AList.delete h counts) (released @ [h])
     else release_counts hs (AList.update h c' counts) released))"

definition remove_entry ::
    "nat \<Rightarrow> PrefixBlockRetention \<Rightarrow> (BlockHash list option \<times> PrefixBlockRetention) res" where
  "remove_entry i r =
     (case map_of (entries r) i of
        None \<Rightarrow> Inr (None, r)
      | Some entry \<Rightarrow>
          and_then (release_counts (rev (entry_hashes entry)) (hash_ref_counts r) []) (\<lambda>(counts, released).
          and_then (bump_revision
             (r\<lparr>entries := AList.delete i (entries r), hash_ref_counts := counts,
                active_flags := (active_flags r)(active_cell entry := False)\<rparr>)) (\<lambda>r'.
          Inr (Some released, r'))))"

definition revoke_oldest ::
    "PrefixBlockRetention \<Rightarrow> (BlockHash list option \<times> PrefixBlockRetention) res" where
  "revoke_oldest r =
     (case entries r of
        [] \<Rightarrow> Inr (None, r)
      | (i, _) # _ \<Rightarrow> remove_entry i r)"

fun revoke_ids ::
    "nat list \<Rightarrow> PrefixBlockRetention \<Rightarrow> BlockHash list
      \<Rightarrow> (BlockHash list \<times> PrefixBlockRetention) res" where
  "revoke_ids [] r released = Inr (released, r)"
| "revoke_ids (i # is) r released =
     and_then (remove_entry i r) (\<lambda>(res, r').
       revoke_ids is r' (case res of None \<Rightarrow> released | Some hs \<Rightarrow> released @ hs))"

definition revoke_all ::
    "PrefixBlockRetention \<Rightarrow> ((nat \<times> BlockHash list) \<times> PrefixBlockRetention) res" where
  "revoke_all r =
     (let ids = map fst (entries r)
      in and_then (revoke_ids ids r []) (\<lambda>(released, r'). Inr ((length ids, released), r')))"

definition retention_enable :: "PrefixBlockRetention \<Rightarrow> PrefixBlockRetention" where
  "retention_enable r = r\<lparr>enabled := True\<rparr>"

definition revocation_monitor ::
    "PrefixBlockRetention \<Rightarrow> PrefixBlockRetentionRevocationMonitor" where
  "revocation_monitor r = \<lparr>observed_epoch = published_revocation_epoch r\<rparr>"

definition publish_revocation :: "PrefixBlockRetention \<Rightarrow> PrefixBlockRetention" where
  "publish_revocation r = r\<lparr>published_revocation_epoch := published_revocation_epoch r + 1\<rparr>"

fun unique_hashes :: "BlockHash list \<Rightarrow> BlockHash list \<Rightarrow> BlockHash list" where
  "unique_hashes [] acc = acc"
| "unique_hashes (h # hs) acc = unique_hashes hs (if h \<in> set acc then acc else acc @ [h])"

fun retain_counts :: "BlockHash list \<Rightarrow> (BlockHash \<times> nat) list \<Rightarrow> (BlockHash \<times> nat) list res" where
  "retain_counts [] counts = Inr counts"
| "retain_counts (h # hs) counts =
     and_then (expect ''retained prefix hash refcount overflow''
                 (checked_add usize_max (case map_of counts h of None \<Rightarrow> 0 | Some c \<Rightarrow> c) 1)) (\<lambda>c.
     retain_counts hs (AList.update h c counts))"

definition retain ::
    "BlockHash list \<Rightarrow> PrefixBlockRetention
      \<Rightarrow> (PrefixBlockRetentionLease \<times> PrefixBlockRetention) res" where
  "retain hs r =
     and_then (assert_that ''prefix block retention must be enabled before use'' (enabled r)) (\<lambda>_.
     let unique = unique_hashes hs []; i = next_id r in
     and_then (expect ''prefix block retention lease ID overflow'' (checked_add u64_max i 1)) (\<lambda>n.
     and_then (retain_counts unique (hash_ref_counts r)) (\<lambda>counts.
     and_then (bump_revision
        (r\<lparr>next_id := n, hash_ref_counts := counts,
           entries := AList.update i \<lparr>entry_hashes = unique, active_cell = i\<rparr> (entries r),
           active_flags := (active_flags r)(i := True)\<rparr>)) (\<lambda>r'.
     Inr (\<lparr>lease_id = i, lease_cell = i\<rparr>, r')))))"

definition lease_is_active :: "PrefixBlockRetention \<Rightarrow> PrefixBlockRetentionLease \<Rightarrow> bool" where
  "lease_is_active r l = active_flags r (lease_cell l)"

definition lease_touch ::
    "PrefixBlockRetentionLease \<Rightarrow> PrefixBlockRetention \<Rightarrow> PrefixBlockRetention" where
  "lease_touch l r =
     (if \<not> lease_is_active r l then r
      else
        (case map_of (entries r) (lease_id l) of
           None \<Rightarrow> r
         | Some entry \<Rightarrow>
             r\<lparr>entries := AList.update (lease_id l) entry (AList.delete (lease_id l) (entries r))\<rparr>))"

definition lease_drop ::
    "PrefixBlockRetentionLease \<Rightarrow> PrefixBlockRetention \<Rightarrow> PrefixBlockRetention res" where
  "lease_drop l r = and_then (remove_entry (lease_id l) r) (\<lambda>(_, r'). Inr r')"

section \<open>Invariant\<close>

definition holders :: "(nat \<times> RetainedPrefixEntry) list \<Rightarrow> BlockHash \<Rightarrow> nat" where
  "holders es h = length (filter (\<lambda>(_, e). h \<in> set (entry_hashes e)) es)"

definition counts_ok :: "(nat \<times> RetainedPrefixEntry) list \<Rightarrow> (BlockHash \<times> nat) list \<Rightarrow> bool" where
  "counts_ok es counts \<longleftrightarrow> distinct (map fst counts) \<and>
     (\<forall>h. map_of counts h = (if holders es h = 0 then None else Some (holders es h)))"

definition entries_ok :: "nat \<Rightarrow> (nat \<times> RetainedPrefixEntry) list \<Rightarrow> bool" where
  "entries_ok n es \<longleftrightarrow> distinct (map fst es) \<and>
     (\<forall>(i, e) \<in> set es. i < n \<and> distinct (entry_hashes e) \<and> active_cell e = i)"

definition ret_ok :: "PrefixBlockRetention \<Rightarrow> bool" where
  "ret_ok r \<longleftrightarrow>
     entries_ok (next_id r) (entries r) \<and> counts_ok (entries r) (hash_ref_counts r) \<and>
     published_revision r = revision r \<and> next_id r \<le> u64_max \<and>
     (\<forall>i. active_flags r i \<longleftrightarrow> i \<in> fst ` set (entries r)) \<and>
     (\<not> enabled r \<longrightarrow> entries r = [] \<and> revision r = 0)"

abbreviation leased :: "PrefixBlockRetention \<Rightarrow> BlockHash set" where
  "leased r \<equiv> dom (map_of (hash_ref_counts r))"

lemma ret_ok_default: "ret_ok retention_default"
  by (simp add: ret_ok_def retention_default_def entries_ok_def counts_ok_def holders_def)

lemma holders_Nil [simp]: "holders [] h = 0"
  by (simp add: holders_def)

lemma holders_append [simp]: "holders (es @ es') h = holders es h + holders es' h"
  by (simp add: holders_def)

lemma holders_Cons [simp]:
  "holders ((i, e) # es) h = (if h \<in> set (entry_hashes e) then 1 else 0) + holders es h"
  by (simp add: holders_def)

lemma holders_delete:
  assumes "map_of es i = Some e" and "distinct (map fst es)"
  shows "holders es h = (if h \<in> set (entry_hashes e) then 1 else 0) + holders (AList.delete i es) h"
  using assms
proof (induction es)
  case Nil
  then show ?case by simp
next
  case (Cons p es)
  obtain j f where p: "p = (j, f)" by (cases p)
  show ?case
  proof (cases "j = i")
    case True
    then have "i \<notin> fst ` set es" using Cons.prems(2) p by auto
    then show ?thesis using Cons.prems(1) p True by simp
  next
    case False
    then show ?thesis using Cons p by auto
  qed
qed

lemma update_fresh: "i \<notin> fst ` set es \<Longrightarrow> AList.update i e es = es @ [(i, e)]"
  by (induction es) auto

lemma holders_pos_iff: "0 < holders es h \<longleftrightarrow> (\<exists>(i, e) \<in> set es. h \<in> set (entry_hashes e))"
  by (auto simp: holders_def filter_empty_conv)

lemma holders_le_length: "holders es h \<le> length es"
  by (simp add: holders_def)

lemma entries_length_le: "entries_ok n es \<Longrightarrow> length es \<le> n"
proof -
  assume ok: "entries_ok n es"
  then have "fst ` set es \<subseteq> {..<n}" by (auto simp: entries_ok_def)
  then have "card (fst ` set es) \<le> n" using card_mono [of "{..<n}"] by force
  then show ?thesis
    using ok by (metis entries_ok_def distinct_card length_map list.set_map)
qed

section \<open>Laws of the operations\<close>

lemma release_counts_returns:
  assumes "distinct hs" and "\<forall>h \<in> set hs. \<exists>c. map_of counts h = Some (Suc c)"
    and "distinct (map fst counts)"
  shows "returns (release_counts hs counts released)
    (\<lambda>(counts', released'). distinct (map fst counts') \<and>
       (\<forall>h. map_of counts' h =
          (if h \<in> set hs then (if map_of counts h = Some 1 then None
             else map_option (\<lambda>c. c - 1) (map_of counts h)) else map_of counts h)) \<and>
       released' = released @ filter (\<lambda>h. map_of counts h = Some 1) hs)"
  using assms
proof (induction hs arbitrary: counts released)
  case Nil
  then show ?case by simp
next
  case (Cons x xs)
  obtain c where c: "map_of counts x = Some (Suc c)" using Cons.prems by auto
  define counts1 where
    "counts1 = (if c = 0 then AList.delete x counts else AList.update x c counts)"
  have one: "map_of counts1 = (map_of counts)(x := if c = 0 then None else Some c)"
    and dist: "distinct (map fst counts1)"
    using Cons.prems(3) by (simp_all add: counts1_def distinct_delete distinct_update)
  have xs: "x \<notin> set xs" "distinct xs" using Cons.prems(1) by auto
  have same: "h \<in> set xs \<Longrightarrow> map_of counts1 h = map_of counts h" for h
    using xs by (auto simp: one)
  have step: "release_counts (x # xs) counts released =
      release_counts xs counts1 (if c = 0 then released @ [x] else released)"
    by (simp add: c counts1_def)
  have ex: "\<forall>h \<in> set xs. \<exists>c. map_of counts1 h = Some (Suc c)"
    using Cons.prems(2) same by auto
  have filt: "filter (\<lambda>h. map_of counts1 h = Some 1) xs = filter (\<lambda>h. map_of counts h = Some 1) xs"
    using same by (auto intro: filter_cong)
  show ?case
    unfolding step
    by (rule returns_mono [OF Cons.IH [OF xs(2) ex dist, unfolded filt]]) (use xs c in \<open>auto simp: one\<close>)
qed

lemma counts_ok_Some1: "counts_ok es counts \<Longrightarrow> map_of counts h = Some 1 \<longleftrightarrow> holders es h = 1"
  by (auto simp: counts_ok_def simp del: map_of_eq_Some_iff)

lemma leased_iff: "ret_ok r \<Longrightarrow> h \<in> leased r \<longleftrightarrow> 0 < holders (entries r) h"
  by (auto simp: ret_ok_def counts_ok_def simp del: map_of_eq_Some_iff split: if_splits)

lemma bump_revision_ok [simp]:
  "revision r < u64_max \<Longrightarrow>
   bump_revision r = Inr (r\<lparr>revision := Suc (revision r), published_revision := Suc (revision r)\<rparr>)"
  by (simp add: bump_revision_def)

lemma remove_entry_None: "map_of (entries r) i = None \<Longrightarrow> remove_entry i r = Inr (None, r)"
  by (simp add: remove_entry_def)

definition removed_entry ::
    "PrefixBlockRetention \<Rightarrow> nat \<Rightarrow> BlockHash list \<Rightarrow> PrefixBlockRetention \<Rightarrow> bool" where
  "removed_entry r i released r' \<longleftrightarrow>
     ret_ok r' \<and> entries r' = AList.delete i (entries r) \<and> revision r' = Suc (revision r) \<and>
     enabled r' = enabled r \<and> next_id r' = next_id r \<and> distinct released \<and>
     set released \<subseteq> leased r \<and> leased r' = leased r - set released \<and>
     published_revocation_epoch r' = published_revocation_epoch r"

lemma set_alist_delete: "set (AList.delete i es) = {p \<in> set es. fst p \<noteq> i}"
  by (auto simp: AList.delete_eq)

lemma fst_set_alist_delete: "fst ` set (AList.delete i es) = fst ` set es - {i}"
  by (simp add: dom_map_of_list [symmetric])

lemma entries_ok_delete: "entries_ok n es \<Longrightarrow> entries_ok n (AList.delete i es)"
  by (auto simp: entries_ok_def distinct_delete set_alist_delete)

lemma remove_entry_Some:
  assumes "ret_ok r" and "map_of (entries r) i = Some e" and "revision r < u64_max"
  shows "returns (remove_entry i r)
    (\<lambda>(res, r'). \<exists>released. res = Some released \<and> removed_entry r i released r')"
proof -
  let ?es = "entries r" and ?cs = "hash_ref_counts r"
  have ok: "entries_ok (next_id r) ?es" "counts_ok ?es ?cs" "distinct (map fst ?es)"
    using assms(1) by (auto simp: ret_ok_def entries_ok_def)
  have e: "(i, e) \<in> set ?es" "distinct (entry_hashes e)" "active_cell e = i"
    using ok(1) map_of_SomeD [OF assms(2)] by (auto simp: entries_ok_def)
  have del: "holders ?es h =
      (if h \<in> set (entry_hashes e) then 1 else 0) + holders (AList.delete i ?es) h" for h
    by (rule holders_delete [OF assms(2) ok(3)])
  have cnt: "map_of ?cs h = (if holders ?es h = 0 then None else Some (holders ?es h))" for h
    using ok(2) by (simp add: counts_ok_def)
  have pos: "\<forall>h \<in> set (rev (entry_hashes e)). \<exists>c. map_of ?cs h = Some (Suc c)"
    by (simp add: cnt del)
  have dist: "distinct (rev (entry_hashes e))" "distinct (map fst ?cs)"
    using e ok(2) by (auto simp: counts_ok_def)
  have one: "map_of ?cs h = Some 1 \<longleftrightarrow> holders ?es h = 1" for h
    by (rule counts_ok_Some1 [OF ok(2)])
  have final: "removed_entry r i (filter (\<lambda>h. holders ?es h = 1) (rev (entry_hashes e)))
      (r\<lparr>entries := AList.delete i ?es, hash_ref_counts := counts,
         active_flags := (active_flags r)(active_cell e := False),
         revision := Suc (revision r), published_revision := Suc (revision r)\<rparr>)"
    if d: "distinct (map fst counts)" and m: "\<forall>h. map_of counts h =
        (if h \<in> set (entry_hashes e) then (if holders ?es h = 1 then None
           else map_option (\<lambda>c. c - 1) (map_of ?cs h)) else map_of ?cs h)" for counts
  proof -
    have new: "map_of counts h =
        (if holders (AList.delete i ?es) h = 0 then None else Some (holders (AList.delete i ?es) h))"
      for h
      using m del [of h] by (simp add: cnt)
    have "counts_ok (AList.delete i ?es) counts" using d new by (simp add: counts_ok_def)
    moreover have "dom (map_of counts) =
        leased r - set (filter (\<lambda>h. holders ?es h = 1) (rev (entry_hashes e)))"
      using del by (auto simp: new cnt dom_def split: if_splits)
    moreover have "set (filter (\<lambda>h. holders ?es h = 1) (rev (entry_hashes e))) \<subseteq> leased r"
      by (auto simp: dom_def cnt)
    moreover have "\<not> enabled r \<Longrightarrow> False"
      using assms(1) e(1) by (auto simp: ret_ok_def)
    ultimately show ?thesis
      using assms(1) ok(1) e dist(1)
      by (auto simp: removed_entry_def ret_ok_def entries_ok_delete fst_set_alist_delete)
  qed
  show ?thesis
    unfolding remove_entry_def assms(2) option.case returns_and_then
    by (rule returns_mono [OF release_counts_returns [OF dist(1) pos dist(2), of "[]"]])
      (use assms(3) final one in \<open>auto simp: Let_def simp del: map_of_eq_Some_iff\<close>)
qed

lemma remove_entry_ret_ok:
  assumes "ret_ok r" and "revision r < u64_max"
  shows "returns (remove_entry i r)
    (\<lambda>(res, r'). ret_ok r' \<and> entries r' = AList.delete i (entries r) \<and> revision r' \<le> Suc (revision r))"
proof (cases "map_of (entries r) i")
  case None
  then have "AList.delete i (entries r) = entries r" by (simp add: map_of_eq_None_iff)
  then show ?thesis using assms None by (simp add: remove_entry_None)
next
  case (Some e)
  show ?thesis
    by (rule returns_mono [OF remove_entry_Some [OF assms(1) Some assms(2)]])
      (auto simp: removed_entry_def)
qed

lemma revoke_oldest_Nil: "entries r = [] \<Longrightarrow> revoke_oldest r = Inr (None, r)"
  by (simp add: revoke_oldest_def)

lemma revoke_oldest_Cons:
  assumes "ret_ok r" and "entries r = (i, e) # es" and "revision r < u64_max"
  shows "returns (revoke_oldest r)
    (\<lambda>(res, r'). \<exists>released. res = Some released \<and> removed_entry r i released r' \<and> entries r' = es)"
proof -
  have "i \<notin> fst ` set es" using assms(1,2) by (auto simp: ret_ok_def entries_ok_def)
  then have del: "AList.delete i (entries r) = es" by (simp add: assms(2))
  have "returns (remove_entry i r)
      (\<lambda>(res, r'). \<exists>released. res = Some released \<and> removed_entry r i released r')"
    using assms by (intro remove_entry_Some) simp_all
  then have "returns (remove_entry i r) (\<lambda>(res, r'). \<exists>released. res = Some released \<and>
      removed_entry r i released r' \<and> entries r' = es)"
    by (rule returns_mono) (auto simp: removed_entry_def del)
  then show ?thesis by (simp add: revoke_oldest_def assms(2))
qed

lemma revoke_ids_returns:
  assumes "ret_ok r" and "map fst (entries r) = is" and "revision r + length is \<le> u64_max"
  shows "returns (revoke_ids is r acc)
    (\<lambda>(released, r'). ret_ok r' \<and> entries r' = [] \<and> leased r' = {} \<and>
       revision r' = revision r + length is \<and> enabled r' = enabled r \<and> next_id r' = next_id r \<and>
       (\<exists>rel. released = acc @ rel \<and> distinct rel \<and> set rel = leased r))"
  using assms
proof (induction "is" arbitrary: r acc)
  case Nil
  then have "map_of (hash_ref_counts r) h = None" for h
    using leased_iff [of r h] by (cases "map_of (hash_ref_counts r) h") auto
  then have "leased r = {}" by (metis domIff equals0I)
  then show ?case using Nil by simp
next
  case (Cons i "is")
  obtain e es where es: "entries r = (i, e) # es" "map fst es = is"
    using Cons.prems(2) by (cases "entries r") auto
  have "distinct (map fst (entries r))" using Cons.prems(1) by (simp add: ret_ok_def entries_ok_def)
  then have "i \<notin> fst ` set es" by (simp add: es(1))
  then have del: "AList.delete i (entries r) = es" by (simp add: es)
  have "returns (remove_entry i r)
      (\<lambda>(res, r'). \<exists>released. res = Some released \<and> removed_entry r i released r')"
    using Cons.prems es by (intro remove_entry_Some) simp_all
  then obtain rel r' where rm: "remove_entry i r = Inr (Some rel, r')" "removed_entry r i rel r'"
    by (auto elim!: returnsE)
  have "returns (revoke_ids is r' (acc @ rel))
    (\<lambda>(released, r''). ret_ok r'' \<and> entries r'' = [] \<and> leased r'' = {} \<and>
       revision r'' = revision r' + length is \<and> enabled r'' = enabled r' \<and> next_id r'' = next_id r' \<and>
       (\<exists>rel'. released = (acc @ rel) @ rel' \<and> distinct rel' \<and> set rel' = leased r'))"
    using rm(2) es del Cons.prems by (intro Cons.IH) (auto simp: removed_entry_def)
  then show ?case
    using rm by (auto simp: removed_entry_def elim!: returns_mono)
qed

lemma revoke_all_returns:
  assumes "ret_ok r" and "revision r + length (entries r) \<le> u64_max"
  shows "returns (revoke_all r)
    (\<lambda>((n, released), r'). n = length (entries r) \<and> ret_ok r' \<and> entries r' = [] \<and> leased r' = {} \<and>
       revision r' = revision r + length (entries r) \<and> enabled r' = enabled r \<and>
       next_id r' = next_id r \<and> distinct released \<and> set released = leased r)"
  using revoke_ids_returns [OF assms(1) refl, of "[]"] assms(2)
  by (auto simp: revoke_all_def Let_def elim!: returns_mono)

lemma unique_hashes_spec:
  "distinct acc \<Longrightarrow> distinct (unique_hashes hs acc) \<and> set (unique_hashes hs acc) = set acc \<union> set hs"
  by (induction hs arbitrary: acc) auto

lemma retain_counts_returns:
  assumes "distinct hs" and "distinct (map fst counts)"
    and "\<forall>h \<in> set hs. (case map_of counts h of None \<Rightarrow> 0 | Some c \<Rightarrow> c) < usize_max"
  shows "returns (retain_counts hs counts)
    (\<lambda>counts'. distinct (map fst counts') \<and>
       (\<forall>h. map_of counts' h =
          (if h \<in> set hs then Some (Suc (case map_of counts h of None \<Rightarrow> 0 | Some c \<Rightarrow> c))
           else map_of counts h)))"
  using assms
proof (induction hs arbitrary: counts)
  case Nil
  then show ?case by simp
next
  case (Cons x xs)
  let ?c = "case map_of counts x of None \<Rightarrow> 0 | Some c \<Rightarrow> c"
  let ?counts = "AList.update x (Suc ?c) counts"
  have "returns (retain_counts xs ?counts)
    (\<lambda>counts'. distinct (map fst counts') \<and>
       (\<forall>h. map_of counts' h =
          (if h \<in> set xs then Some (Suc (case map_of ?counts h of None \<Rightarrow> 0 | Some c \<Rightarrow> c))
           else map_of ?counts h)))"
    using Cons.prems by (intro Cons.IH) (auto simp: distinct_update)
  moreover have "Suc ?c \<le> usize_max" using Cons.prems(3) by auto
  ultimately show ?case
    using Cons.prems(1) by (auto elim!: returns_mono)
qed

lemma retain_returns:
  assumes "ret_ok r" and "enabled r" and "next_id r < u64_max" and "revision r < u64_max"
  shows "returns (retain hs r)
    (\<lambda>(l, r'). ret_ok r' \<and> lease_id l = next_id r \<and> lease_is_active r' l \<and>
       leased r' = leased r \<union> set hs \<and> enabled r' \<and> revision r' = Suc (revision r) \<and>
       (\<exists>e. entries r' = entries r @ [(next_id r, e)] \<and> set (entry_hashes e) = set hs))"
proof -
  let ?u = "unique_hashes hs []" and ?i = "next_id r"
  have u: "distinct ?u" "set ?u = set hs" using unique_hashes_spec [of "[]" hs] by auto
  have ok: "entries_ok ?i (entries r)" "counts_ok (entries r) (hash_ref_counts r)"
    using assms(1) by (auto simp: ret_ok_def)
  have fresh: "?i \<notin> fst ` set (entries r)" using ok(1) by (auto simp: entries_ok_def)
  have cnt: "(case map_of (hash_ref_counts r) h of None \<Rightarrow> 0 | Some c \<Rightarrow> c) = holders (entries r) h" for h
    using ok(2) by (simp add: counts_ok_def)
  have dist: "distinct (map fst (hash_ref_counts r))" using ok(2) by (simp add: counts_ok_def)
  have "holders (entries r) h < usize_max" for h
    using holders_le_length [of "entries r" h] entries_length_le [OF ok(1)] assms(3)
    by (simp add: int_max_defs)
  then have "returns (retain_counts ?u (hash_ref_counts r))
    (\<lambda>counts'. distinct (map fst counts') \<and>
       (\<forall>h. map_of counts' h =
          (if h \<in> set ?u then Some (Suc (holders (entries r) h)) else map_of (hash_ref_counts r) h)))"
    using retain_counts_returns [OF u(1), of "hash_ref_counts r", unfolded cnt] dist by simp
  then obtain counts where c: "retain_counts ?u (hash_ref_counts r) = Inr counts"
    "distinct (map fst counts)"
    "\<forall>h. map_of counts h =
       (if h \<in> set ?u then Some (Suc (holders (entries r) h)) else map_of (hash_ref_counts r) h)"
    by (auto elim!: returnsE)
  have "counts_ok (entries r @ [(?i, \<lparr>entry_hashes = ?u, active_cell = ?i\<rparr>)]) counts"
    using c ok(2) by (auto simp: counts_ok_def)
  moreover have "dom (map_of counts) = leased r \<union> set hs"
    using c(3) u(2) by (auto simp: dom_def split: if_splits)
  moreover have "entries_ok (Suc ?i) (entries r @ [(?i, \<lparr>entry_hashes = ?u, active_cell = ?i\<rparr>)])"
    using ok(1) fresh u(1) by (auto simp: entries_ok_def)
  ultimately show ?thesis
    using assms c(1) fresh u
    by (auto simp: retain_def Let_def update_fresh ret_ok_def lease_is_active_def)
qed

lemma delete_update_keys:
  "distinct (map fst es) \<Longrightarrow> AList.update i e (AList.delete i es) = AList.delete i es @ [(i, e)]"
  by (rule update_fresh) (simp add: fst_set_alist_delete)

lemma lease_touch_entries:
  assumes "ret_ok r" and "map_of (entries r) (lease_id l) = Some e" and "lease_is_active r l"
  shows "lease_touch l r =
    r\<lparr>entries := AList.delete (lease_id l) (entries r) @ [(lease_id l, e)]\<rparr>"
  using assms by (simp add: lease_touch_def delete_update_keys ret_ok_def entries_ok_def)

lemma lease_touch_ret_ok:
  assumes "ret_ok r"
  shows "ret_ok (lease_touch l r)"
proof (cases "lease_is_active r l")
  case False
  then show ?thesis using assms by (simp add: lease_touch_def)
next
  case active: True
  show ?thesis
  proof (cases "map_of (entries r) (lease_id l)")
    case None
    then show ?thesis using assms active by (simp add: lease_touch_def)
  next
    case (Some e)
    let ?i = "lease_id l" and ?es = "entries r"
    have ok: "entries_ok (next_id r) ?es" "distinct (map fst ?es)" "(?i, e) \<in> set ?es"
      using assms map_of_SomeD [OF Some] by (auto simp: ret_ok_def entries_ok_def)
    have "entries_ok (next_id r) (AList.delete ?i ?es @ [(?i, e)])"
      using ok entries_ok_delete [OF ok(1), of ?i] by (auto simp: entries_ok_def fst_set_alist_delete)
    moreover have "holders (AList.delete ?i ?es @ [(?i, e)]) h = holders ?es h" for h
      using holders_delete [OF Some ok(2), of h] by simp
    moreover have "fst ` set (AList.delete ?i ?es @ [(?i, e)]) = fst ` set ?es"
      using ok(3) by (force simp: fst_set_alist_delete)
    ultimately show ?thesis
      using assms unfolding lease_touch_entries [OF assms Some active]
      by (auto simp: ret_ok_def counts_ok_def)
  qed
qed

section \<open>The component as a transition system\<close>

datatype retention_op =
    REnable | RRetain "BlockHash list" | RTouch nat | RDrop nat | RRevokeOldest | RRevokeAll

text \<open>
  A lease is its id (\<open>lease_cell\<close> is the same number by construction in \<open>retain\<close>). A step happens only
  when its operation returns: an overflow of a 64-bit counter panics instead.
\<close>

abbreviation lease_of :: "nat \<Rightarrow> PrefixBlockRetentionLease" where
  "lease_of i \<equiv> \<lparr>lease_id = i, lease_cell = i\<rparr>"

inductive retention_step ::
    "PrefixBlockRetention \<Rightarrow> retention_op \<Rightarrow> PrefixBlockRetention \<Rightarrow> bool" where
  step_enable: "retention_step r REnable (retention_enable r)"
| step_retain: "retain hs r = Inr (l, r') \<Longrightarrow> retention_step r (RRetain hs) r'"
| step_touch: "retention_step r (RTouch i) (lease_touch (lease_of i) r)"
| step_drop: "lease_drop (lease_of i) r = Inr r' \<Longrightarrow> retention_step r (RDrop i) r'"
| step_oldest: "revoke_oldest r = Inr (res, r') \<Longrightarrow> retention_step r RRevokeOldest (publish_revocation r')"
| step_all: "revoke_all r = Inr (res, r') \<Longrightarrow> retention_step r RRevokeAll (publish_revocation r')"

inductive_cases retention_step_retainE: "retention_step r (RRetain hs) r'"

lemma ret_ok_publish [simp]: "ret_ok (publish_revocation r) = ret_ok r"
  by (simp add: ret_ok_def publish_revocation_def)

lemma ret_ok_enable: "ret_ok r \<Longrightarrow> ret_ok (retention_enable r)"
  by (simp add: ret_ok_def retention_enable_def)

lemma bump_revision_Inr:
  "bump_revision r = Inr r' \<Longrightarrow> revision r < u64_max"
  by (auto simp: bump_revision_def panic_simps split: if_splits)

lemma remove_entry_Inr:
  assumes "ret_ok r" and "remove_entry i r = Inr (res, r')"
  shows "ret_ok r'"
proof (cases "map_of (entries r) i")
  case None
  then show ?thesis using assms by (simp add: remove_entry_None)
next
  case (Some e)
  then have "revision r < u64_max"
    using assms(2) by (auto simp: remove_entry_def and_then_eq_Inr dest!: bump_revision_Inr)
  then show ?thesis using remove_entry_ret_ok [OF assms(1), of i] assms(2) by (auto simp: returns_iff)
qed

lemma revoke_ids_Inr: "ret_ok r \<Longrightarrow> revoke_ids is r acc = Inr (released, r') \<Longrightarrow> ret_ok r'"
  by (induction "is" arbitrary: r acc) (auto simp: and_then_eq_Inr dest: remove_entry_Inr)

lemma retain_Inr:
  assumes "ret_ok r" and "retain hs r = Inr (l, r')"
  shows "ret_ok r'"
proof -
  have "enabled r" "next_id r < u64_max" "revision r < u64_max"
    using assms(2)
    by (auto simp: retain_def Let_def and_then_eq_Inr panic_simps split: if_splits option.splits
        dest!: bump_revision_Inr)
  then show ?thesis using retain_returns [OF assms(1), of hs] assms(2) by (auto simp: returns_iff)
qed

lemma retention_step_ok: "ret_ok r \<Longrightarrow> retention_step r op r' \<Longrightarrow> ret_ok r'"
  by (auto elim!: retention_step.cases simp: ret_ok_enable lease_touch_ret_ok lease_drop_def
      revoke_oldest_def revoke_all_def Let_def and_then_eq_Inr
      split: list.splits dest: retain_Inr remove_entry_Inr revoke_ids_Inr)

interpretation rts: transition_system "\<lambda>r. r = retention_default" retention_step ret_ok
  by unfold_locales (auto simp: ret_ok_default intro: retention_step_ok)

section \<open>Properties\<close>

text \<open>
  C25. In every state the retention registry can reach, through any interleaving of enabling,
  retaining, touching, dropping and revoking: a hash is reference counted exactly when some live entry
  holds it, its count is the number of entries that do, and a lease's shared flag reads true exactly
  while its entry is registered.
\<close>

theorem retention_counts_exact:
  assumes "reachable_from (\<lambda>r. r = retention_default) retention_step r"
  shows "map_of (hash_ref_counts r) h =
      (if holders (entries r) h = 0 then None else Some (holders (entries r) h)) \<and>
    (lease_is_active r (lease_of i) \<longleftrightarrow> i \<in> fst ` set (entries r))"
  using rts.reachable_inv [OF assms] by (simp add: ret_ok_def counts_ok_def lease_is_active_def)

definition sample_hash :: "nat \<Rightarrow> BlockHash" where
  "sample_hash n = BlockHash (of_nat n)"

lemma sample_retained:
  "\<exists>r l. retain [sample_hash 1, sample_hash 2, sample_hash 1] (retention_enable retention_default) = Inr (l, r) \<and>
     holders (entries r) (sample_hash 1) = 1"
  by (simp add: retain_def retention_enable_def retention_default_def sample_hash_def Let_def
      int_max_defs bump_revision_def)

theorem retention_counts_exact_witness:
  "\<exists>r. reachable_from (\<lambda>r. r = retention_default) retention_step r \<and>
     map_of (hash_ref_counts r) (sample_hash 1) = Some 1"
proof -
  obtain r l where r: "retain [sample_hash 1, sample_hash 2, sample_hash 1]
      (retention_enable retention_default) = Inr (l, r)" "holders (entries r) (sample_hash 1) = 1"
    using sample_retained by blast
  have "reachable_from (\<lambda>r. r = retention_default) retention_step (retention_enable retention_default)"
    by (blast intro: reach_init reach_step step_enable)
  then have "reachable_from (\<lambda>r. r = retention_default) retention_step r"
    using step_retain [OF r(1)] by (rule reach_step)
  then show ?thesis using retention_counts_exact [of r "sample_hash 1" 0] r(2) by auto
qed

text \<open>
  Revocation is oldest first and touching a live lease makes it the newest: after
  \<open>lease_touch\<close>, as long as another entry exists, \<open>revoke_oldest\<close> succeeds, revokes one of the
  others, keeps the touched lease active and releases only hashes no remaining entry holds.
\<close>

theorem touched_lease_survives_revocation:
  assumes "ret_ok r" and "lease_is_active r (lease_of i)" and "1 < length (entries r)"
    and "revision r < u64_max"
  shows "\<exists>released r'. revoke_oldest (lease_touch (lease_of i) r) = Inr (Some released, r') \<and>
    lease_is_active r' (lease_of i) \<and> length (entries r') = length (entries r) - 1 \<and>
    (\<forall>h \<in> set released. holders (entries r') h = 0)"
proof -
  obtain e where e: "map_of (entries r) i = Some e"
    using assms(1,2) by (auto simp: ret_ok_def lease_is_active_def dest: weak_map_of_SomeI)
  let ?t = "lease_touch (lease_of i) r" and ?rest = "AList.delete i (entries r)"
  have t: "entries ?t = ?rest @ [(i, e)]" "revision ?t = revision r"
    using lease_touch_entries [OF assms(1) _ assms(2)] e by simp_all
  have ok: "ret_ok ?t" by (rule lease_touch_ret_ok [OF assms(1)])
  have dist: "distinct (map fst (entries r))" using assms(1) by (simp add: ret_ok_def entries_ok_def)
  have "i \<in> fst ` set (entries r)" using e by (metis domI dom_map_of_conv_image_fst)
  then have len: "length ?rest = length (entries r) - 1"
    using dist by (simp add: length_as_card distinct_delete card_Diff_singleton dom_map_of_list)
  then obtain j f es where rest: "?rest = (j, f) # es"
    using assms(3) by (cases ?rest) auto
  have "returns (revoke_oldest ?t)
    (\<lambda>(res, r'). \<exists>released. res = Some released \<and> removed_entry ?t j released r' \<and> entries r' = es @ [(i, e)])"
    using t rest assms(4) by (intro revoke_oldest_Cons [OF ok]) simp_all
  then obtain released r' where rv: "revoke_oldest ?t = Inr (Some released, r')"
    "removed_entry ?t j released r'" "entries r' = es @ [(i, e)]"
    by (auto elim!: returnsE)
  have "\<forall>h \<in> set released. holders (entries r') h = 0"
    using rv(2) leased_iff [of r'] by (auto simp: removed_entry_def)
  moreover have "lease_is_active r' (lease_of i)"
    using rv(2,3) by (auto simp: removed_entry_def ret_ok_def lease_is_active_def)
  ultimately show ?thesis using rv(1,3) len rest by auto
qed

theorem touched_lease_survives_revocation_witness:
  "\<exists>r r' released. length (entries r) = 2 \<and>
     revoke_oldest (lease_touch (lease_of 0) r) = Inr (Some released, r') \<and>
     lease_is_active r' (lease_of 0)"
proof -
  let ?r0 = "retention_enable retention_default"
  have 0: "ret_ok ?r0" by (intro ret_ok_enable ret_ok_default)
  have f: "enabled ?r0" "next_id ?r0 = 0" "revision ?r0 = 0" "entries ?r0 = []"
    by (simp_all add: retention_enable_def retention_default_def)
  obtain l1 r1 where 1: "retain [sample_hash 1] ?r0 = Inr (l1, r1)" "ret_ok r1" "enabled r1"
    "revision r1 = 1" "\<exists>e. entries r1 = [(0, e)]"
    using retain_returns [OF 0, of "[sample_hash 1]"] f by (auto simp: int_max_defs elim!: returnsE)
  have n1: "next_id r1 = 1"
    using 1(1) f by (auto simp: retain_def Let_def and_then_eq_Inr bump_revision_def panic_simps
        int_max_defs)
  obtain l2 r2 where 2: "ret_ok r2" "revision r2 = 2" "\<exists>e e'. entries r2 = [(0, e), (1, e')]"
    using retain_returns [OF 1(2), of "[sample_hash 2]"] 1 n1 by (auto simp: int_max_defs elim!: returnsE)
  have "lease_is_active r2 (lease_of 0)"
    using 2 by (auto simp: ret_ok_def lease_is_active_def)
  moreover have "length (entries r2) = 2" using 2(3) by auto
  ultimately show ?thesis
    using touched_lease_survives_revocation [OF 2(1), of 0] 2(2)
    by (auto simp: int_max_defs)
qed

end
