(* ===== verification/Block_Pool.thy ===== *)
theory Block_Pool
  imports Retention
begin

text \<open>
  The block pool (\<open>BlockPool\<close> of \<open>paged_attention/block_pool.rs\<close>): reference counts, the free
  queue, the prefix cache index and the retained prefixes, kept in step by every operation. Metrics
  and logging are left out. \<open>usize\<close> counters that only count blocks are exact; the checked
  and the wrapping operations of the source are written out.
\<close>

section \<open>State\<close>

record BlockPool =
  blocks :: "KVCacheBlock list"
  free_queue :: FreeKVCacheBlockQueue
  hash_index :: BlockHashToBlockMap
  num_prefix_cached_physical_blocks :: nat
  retention :: PrefixBlockRetention
  applied_retention_revision :: nat
  retained_hashes :: "BlockHash list"
  retained_hash_to_block :: "(BlockHash \<times> nat) list"
  retention_group_ids :: "nat list"
  block_retention_counts :: "nat list"
  num_retained_physical_blocks :: nat
  num_retained_free_blocks :: nat
  enable_caching :: bool
  num_gpu_blocks :: nat
  null_block_id :: nat
  hash_block_size :: nat

abbreviation pool_queue :: "BlockPool \<Rightarrow> queue_state" where
  "pool_queue p \<equiv> (blocks p, free_queue p)"

definition set_queue :: "queue_state \<Rightarrow> BlockPool \<Rightarrow> BlockPool" where
  "set_queue s p = p\<lparr>blocks := fst s, free_queue := snd s\<rparr>"

definition BlockPool_new :: "rt_env \<Rightarrow> nat \<Rightarrow> bool \<Rightarrow> nat \<Rightarrow> BlockPool res" where
  "BlockPool_new env n caching block_size =
     and_then (assert_that ''Must have at least 1 GPU block'' (n > 0)) (\<lambda>_.
     and_then (queue_new (map KVCacheBlock_new [0..<n + 2]) [0..<n] n (n + 1)) (\<lambda>s.
     and_then (popleft (debug_assertions env) s) (\<lambda>(first, s).
     and_then (expect ''Pool should have blocks'' first) (\<lambda>null_id.
     and_then (get_at (fst s) null_id) (\<lambda>b.
     and_then (set_at (fst s) null_id (b\<lparr>is_null := True\<rparr>)) (\<lambda>bs.
     Inr \<lparr>blocks = bs, free_queue = snd s, hash_index = index_new,
          num_prefix_cached_physical_blocks = 0, retention = retention_default,
          applied_retention_revision = 0, retained_hashes = [], retained_hash_to_block = [],
          retention_group_ids = [0], block_retention_counts = replicate (n + 2) 0,
          num_retained_physical_blocks = 0, num_retained_free_blocks = 0,
          enable_caching = caching, num_gpu_blocks = n, null_block_id = null_id,
          hash_block_size = block_size\<rparr>))))))"

definition num_free_blocks :: "BlockPool \<Rightarrow> nat" where
  "num_free_blocks p = num_free (free_queue p) + num_retained_free_blocks p"

definition set_retention_group_ids :: "nat list \<Rightarrow> BlockPool \<Rightarrow> BlockPool res" where
  "set_retention_group_ids gs p =
     and_then (assert_that ''retention groups must be configured before caching blocks''
                 (index_len (hash_index p) = 0)) (\<lambda>_.
     Inr (p\<lparr>retention_group_ids := gs\<rparr>))"

definition num_cached_blocks :: "BlockPool \<Rightarrow> nat" where
  "num_cached_blocks p = index_len (hash_index p)"

definition block_ref_cnt :: "BlockPool \<Rightarrow> nat \<Rightarrow> nat res" where
  "block_ref_cnt p b = and_then (get_at (blocks p) b) (\<lambda>x. Inr (ref_cnt x))"

section \<open>Physical retention of blocks\<close>

definition retain_physical_block :: "rt_env \<Rightarrow> nat \<Rightarrow> BlockPool \<Rightarrow> BlockPool res" where
  "retain_physical_block env b p =
     and_then (get_at (block_retention_counts p) b) (\<lambda>count.
     and_then
       (if count = 0 then
          and_then (get_at (blocks p) b) (\<lambda>x.
          let p = p\<lparr>num_retained_physical_blocks := num_retained_physical_blocks p + 1\<rparr> in
          if ref_cnt x = 0 \<and> \<not> is_null x then
            and_then (queue_remove (debug_assertions env) b (pool_queue p)) (\<lambda>s.
            Inr (set_queue s (p\<lparr>num_retained_free_blocks := num_retained_free_blocks p + 1\<rparr>)))
          else Inr p)
        else Inr p) (\<lambda>p.
     and_then (expect ''physical block retention count overflow'' (checked_add u32_max count 1)) (\<lambda>c.
     and_then (set_at (block_retention_counts p) b c) (\<lambda>cs.
     Inr (p\<lparr>block_retention_counts := cs\<rparr>)))))"

definition release_physical_block :: "nat \<Rightarrow> BlockPool \<Rightarrow> BlockPool res" where
  "release_physical_block b p =
     and_then (get_at (block_retention_counts p) b) (\<lambda>count.
     and_then (expect ''physical block retention count underflow'' (checked_sub count 1)) (\<lambda>c.
     and_then (set_at (block_retention_counts p) b c) (\<lambda>cs.
     let p = p\<lparr>block_retention_counts := cs\<rparr> in
     if c = 0 then
       and_then (expect ''retained physical block count underflow''
                   (checked_sub (num_retained_physical_blocks p) 1)) (\<lambda>n.
       and_then (get_at (blocks p) b) (\<lambda>x.
       let p = p\<lparr>num_retained_physical_blocks := n\<rparr> in
       if ref_cnt x = 0 \<and> \<not> is_null x then
         and_then (expect ''retained free block count underflow''
                     (checked_sub (num_retained_free_blocks p) 1)) (\<lambda>m.
         and_then (queue_append b (pool_queue p)) (\<lambda>s.
         Inr (set_queue s (p\<lparr>num_retained_free_blocks := m\<rparr>))))
       else Inr p))
     else Inr p)))"

definition retained_block_candidate :: "rt_env \<Rightarrow> BlockPool \<Rightarrow> BlockHash \<Rightarrow> nat option" where
  "retained_block_candidate env p h = index_get_common env (hash_index p) h (retention_group_ids p)"

definition reconcile_retained_hash_block :: "rt_env \<Rightarrow> BlockHash \<Rightarrow> BlockPool \<Rightarrow> BlockPool res" where
  "reconcile_retained_hash_block env h p =
     (if map_of (retained_hash_to_block p) h \<noteq> None then Inr p
      else
        (case retained_block_candidate env p h of
           None \<Rightarrow> Inr p
         | Some b \<Rightarrow>
             and_then (retain_physical_block env b p) (\<lambda>p.
             Inr (p\<lparr>retained_hash_to_block := AList.update h b (retained_hash_to_block p)\<rparr>))))"

text \<open>Forget a retained hash: the \<open>if let Some(block_id) = ... .remove(&hash)\<close> of two loops.\<close>

definition forget_retained_hash :: "BlockHash \<Rightarrow> BlockPool \<Rightarrow> BlockPool res" where
  "forget_retained_hash h p =
     (case map_of (retained_hash_to_block p) h of
        None \<Rightarrow> Inr p
      | Some b \<Rightarrow>
          release_physical_block b
            (p\<lparr>retained_hash_to_block := AList.delete h (retained_hash_to_block p)\<rparr>))"

definition sync_retention_locked :: "rt_env \<Rightarrow> BlockPool \<Rightarrow> BlockPool res" where
  "sync_retention_locked env p =
     (let r = retention p in
      if applied_retention_revision p = revision r then Inr p
      else
        (let next_hashes = map fst (hash_ref_counts r);
             removed = filter (\<lambda>h. h \<notin> set next_hashes) (iter_hashes env (retained_hashes p));
             added = filter (\<lambda>h. h \<notin> set (retained_hashes p)) (iter_hashes env next_hashes)
         in and_then (fold_res forget_retained_hash removed p) (\<lambda>p.
            and_then (fold_res (reconcile_retained_hash_block env) added p) (\<lambda>p.
            Inr (p\<lparr>retained_hashes := next_hashes, applied_retention_revision := revision r\<rparr>)))))"

definition sync_retention_if_changed :: "rt_env \<Rightarrow> BlockPool \<Rightarrow> BlockPool res" where
  "sync_retention_if_changed env p =
     (if published_revision (retention p) = applied_retention_revision p then Inr p
      else sync_retention_locked env p)"

text \<open>
  \<open>debug_assert!(self.retained_hashes.remove(hash))\<close>: the removal is part of the asserted
  expression, so a build without debug assertions does not perform it.
\<close>

definition release_retained_hash :: "rt_env \<Rightarrow> BlockHash \<Rightarrow> BlockPool \<Rightarrow> BlockPool res" where
  "release_retained_hash env h p =
     and_then
       (if debug_assertions env then
          and_then (assert_that ''self.retained_hashes.remove(hash)'' (h \<in> set (retained_hashes p))) (\<lambda>_.
          Inr (p\<lparr>retained_hashes := removeAll h (retained_hashes p)\<rparr>))
        else Inr p) (\<lambda>p.
     forget_retained_hash h p)"

definition release_retained_hashes :: "rt_env \<Rightarrow> BlockHash list \<Rightarrow> BlockPool \<Rightarrow> BlockPool res" where
  "release_retained_hashes env hs p = fold_res (release_retained_hash env) hs p"

section \<open>Allocation\<close>

definition maybe_evict_cached_block :: "rt_env \<Rightarrow> nat \<Rightarrow> BlockPool \<Rightarrow> BlockPool res" where
  "maybe_evict_cached_block env b p =
     and_then
       (if debug_assertions env then
          and_then (get_at (block_retention_counts p) b) (\<lambda>c.
          assert_that ''block_retention_counts[block_id] == 0'' (c = 0))
        else Inr ()) (\<lambda>_.
     and_then (get_at (blocks p) b) (\<lambda>x.
     let hs = block_hashes x; p = p\<lparr>blocks := (blocks p)[b := x\<lparr>block_hashes := []\<rparr>]\<rparr> in
     and_then
       (if hs \<noteq> [] then
          and_then (expect ''prefix-cached physical block count underflow''
                      (checked_sub (num_prefix_cached_physical_blocks p) 1)) (\<lambda>n.
          Inr (p\<lparr>num_prefix_cached_physical_blocks := n\<rparr>))
        else Inr p) (\<lambda>p.
     Inr (p\<lparr>hash_index := fold (\<lambda>k m. snd (index_pop k b m)) hs (hash_index p)\<rparr>))))"

definition allocate_one :: "rt_env \<Rightarrow> BlockPool \<Rightarrow> (nat \<times> BlockPool) res" where
  "allocate_one env p =
     and_then (popleft (debug_assertions env) (pool_queue p)) (\<lambda>(first, s).
     and_then (expect ''Should have enough free blocks'' first) (\<lambda>b.
     let p = set_queue s p in
     and_then (if enable_caching p then maybe_evict_cached_block env b p else Inr p) (\<lambda>p.
     and_then (get_at (blocks p) b) (\<lambda>x.
     and_then (assert_that ''ref_cnt == 0'' (debug_assertions env \<longrightarrow> ref_cnt x = 0)) (\<lambda>_.
     Inr (b, p\<lparr>blocks := (blocks p)[b := x\<lparr>ref_cnt := 1\<rparr>]\<rparr>))))))"

fun allocate_free_blocks :: "rt_env \<Rightarrow> nat \<Rightarrow> BlockPool \<Rightarrow> (nat list \<times> BlockPool) res" where
  "allocate_free_blocks env 0 p = Inr ([], p)"
| "allocate_free_blocks env (Suc n) p =
     and_then (allocate_one env p) (\<lambda>(b, p).
     and_then (allocate_free_blocks env n p) (\<lambda>(bs, p). Inr (b # bs, p)))"

lemma release_physical_block_retention:
  "yields (release_physical_block b p) (\<lambda>p'. retention p' = retention p)"
  by (simp add: release_physical_block_def Let_def set_queue_def if_distrib [of "\<lambda>m. yields m _"]
      cong: if_cong)

lemma forget_retained_hash_retention:
  "yields (forget_retained_hash h p) (\<lambda>p'. retention p' = retention p)"
  by (auto simp: forget_retained_hash_def split: option.split
      intro: yields_mono [OF release_physical_block_retention])

lemma release_retained_hash_retention:
  "yields (release_retained_hash env h p) (\<lambda>p'. retention p' = retention p)"
  by (auto simp: release_retained_hash_def assert_that_def
      intro: yields_mono [OF forget_retained_hash_retention])

lemma fold_res_frame:
  assumes "\<And>x s. yields (f x s) (\<lambda>s'. g s' = g s)"
  shows "yields (fold_res f xs s) (\<lambda>s'. g s' = g s)"
proof (induction xs arbitrary: s)
  case (Cons x xs)
  show ?case
    by (auto intro!: yields_mono [OF assms] yields_mono [OF Cons.IH])
qed simp

lemma release_retained_hashes_retention:
  "release_retained_hashes env hs p = Inr p' \<Longrightarrow> retention p' = retention p"
  unfolding release_retained_hashes_def
  by (rule yieldsD [OF fold_res_frame [OF release_retained_hash_retention]])

lemma revoke_oldest_shrinks:
  "revoke_oldest r = Inr (Some hs, r') \<Longrightarrow> length (entries r') < length (entries r)"
  by (auto simp: revoke_oldest_def remove_entry_def and_then_eq_Inr bump_revision_def
      split: list.splits option.splits intro!: le_imp_less_Suc length_delete_le)

text \<open>The pressure loop: revoke the oldest prefix until the queue is long enough.\<close>

function revoke_under_pressure ::
    "rt_env \<Rightarrow> nat \<Rightarrow> nat \<Rightarrow> BlockPool \<Rightarrow> (nat \<times> BlockPool) res" where
  "revoke_under_pressure env n evictions p =
     (if n > num_free (free_queue p) then
        and_then (revoke_oldest (retention p)) (\<lambda>(released, r).
        case released of
          None \<Rightarrow> Inr (evictions, p\<lparr>retention := r\<rparr>)
        | Some hs \<Rightarrow>
            and_then (release_retained_hashes env hs (p\<lparr>retention := r\<rparr>)) (\<lambda>p.
            revoke_under_pressure env n (evictions + 1) p))
      else Inr (evictions, p))"
  by pat_completeness auto
termination
  by (relation "measure (\<lambda>(env, n, e, p). length (entries (retention p)))")
    (auto dest!: release_retained_hashes_retention revoke_oldest_shrinks)

declare revoke_under_pressure.simps [simp del]

definition get_new_blocks :: "rt_env \<Rightarrow> nat \<Rightarrow> BlockPool \<Rightarrow> (nat list option \<times> BlockPool) res" where
  "get_new_blocks env n p =
     (if n > num_free_blocks p then Inr (None, p)
      else if \<not> enabled (retention p) then
        and_then (allocate_free_blocks env n p) (\<lambda>(bs, p). Inr (Some bs, p))
      else
        and_then (sync_retention_locked env p) (\<lambda>p.
        and_then (revoke_under_pressure env n 0 p) (\<lambda>(evictions, p).
        let p = p\<lparr>applied_retention_revision := revision (retention p)\<rparr>;
            p = (if evictions > 0 then p\<lparr>retention := publish_revocation (retention p)\<rparr> else p)
        in if n > num_free (free_queue p) then Inr (None, p)
           else and_then (allocate_free_blocks env n p) (\<lambda>(bs, p). Inr (Some bs, p)))))"

section \<open>Lookup, reuse and release\<close>

definition get_common_cached_block ::
    "rt_env \<Rightarrow> BlockPool \<Rightarrow> BlockHash \<Rightarrow> nat list \<Rightarrow> nat option res" where
  "get_common_cached_block env p h kv_cache_group_ids =
     (if kv_cache_group_ids = [] then Inr None
      else
        and_then
          (case map_of (retained_hash_to_block p) h of
             None \<Rightarrow> Inr None
           | Some b \<Rightarrow>
               and_then (get_at (blocks p) b) (\<lambda>x.
               Inr (if list_all (\<lambda>g. hkey h g \<in> set (block_hashes x)) kv_cache_group_ids
                    then Some b else None))) (\<lambda>found.
        case found of
          Some b \<Rightarrow> Inr (Some b)
        | None \<Rightarrow> Inr (index_get_common env (hash_index p) h kv_cache_group_ids)))"

definition get_cached_block ::
    "rt_env \<Rightarrow> BlockPool \<Rightarrow> BlockHash \<Rightarrow> nat list \<Rightarrow> nat list option res" where
  "get_cached_block env p h kv_cache_group_ids =
     (if kv_cache_group_ids = [] then Inr (Some [])
      else
        and_then (get_common_cached_block env p h kv_cache_group_ids) (\<lambda>found.
        Inr (map_option (\<lambda>b. replicate (length kv_cache_group_ids) b) found)))"

definition touch_one :: "rt_env \<Rightarrow> nat \<Rightarrow> BlockPool \<Rightarrow> BlockPool res" where
  "touch_one env b p =
     and_then (get_at (blocks p) b) (\<lambda>x.
     and_then
       (if ref_cnt x = 0 \<and> \<not> is_null x then
          and_then (get_at (block_retention_counts p) b) (\<lambda>c.
          if c = 0 then
            and_then (queue_remove (debug_assertions env) b (pool_queue p)) (\<lambda>s. Inr (set_queue s p))
          else
            and_then (expect ''retained free block count underflow''
                        (checked_sub (num_retained_free_blocks p) 1)) (\<lambda>m.
            Inr (p\<lparr>num_retained_free_blocks := m\<rparr>)))
        else Inr p) (\<lambda>p.
     and_then (get_at (blocks p) b) (\<lambda>x.
     and_then (add_plain (debug_assertions env) u32_max (ref_cnt x) 1) (\<lambda>c.
     Inr (p\<lparr>blocks := (blocks p)[b := x\<lparr>ref_cnt := c\<rparr>]\<rparr>)))))"

definition touch :: "rt_env \<Rightarrow> nat list \<Rightarrow> BlockPool \<Rightarrow> BlockPool res" where
  "touch env ids p =
     and_then (sync_retention_if_changed env p) (\<lambda>p. fold_res (touch_one env) ids p)"

fun count_releases :: "nat list \<Rightarrow> (nat \<times> nat) list \<Rightarrow> (nat \<times> nat) list res" where
  "count_releases [] counts = Inr counts"
| "count_releases (b # bs) counts =
     and_then (expect ''block release count overflow''
                 (checked_add u32_max (case map_of counts b of None \<Rightarrow> 0 | Some c \<Rightarrow> c) 1)) (\<lambda>c.
     count_releases bs (AList.update b c counts))"

definition check_release :: "(nat \<times> nat) list \<Rightarrow> nat \<Rightarrow> BlockPool \<Rightarrow> BlockPool res" where
  "check_release counts b p =
     (case map_of counts b of
        None \<Rightarrow> Inr p
      | Some c \<Rightarrow>
          and_then (get_at (blocks p) b) (\<lambda>x.
          and_then (assert_that ''ref_cnt underflow'' (ref_cnt x \<ge> c)) (\<lambda>_. Inr p)))"

definition release_one :: "rt_env \<Rightarrow> nat \<Rightarrow> nat \<Rightarrow> BlockPool \<Rightarrow> BlockPool res" where
  "release_one env b c p =
     and_then (get_at (blocks p) b) (\<lambda>x.
     and_then (sub_plain (debug_assertions env) u32_max (ref_cnt x) c) (\<lambda>m.
     let p = p\<lparr>blocks := (blocks p)[b := x\<lparr>ref_cnt := m\<rparr>]\<rparr> in
     if m = 0 \<and> \<not> is_null x then
       and_then (get_at (block_retention_counts p) b) (\<lambda>rc.
       if rc = 0 then and_then (queue_append b (pool_queue p)) (\<lambda>s. Inr (set_queue s p))
       else Inr (p\<lparr>num_retained_free_blocks := num_retained_free_blocks p + 1\<rparr>))
     else Inr p))"

fun release_refs :: "rt_env \<Rightarrow> nat list \<Rightarrow> (nat \<times> nat) list \<Rightarrow> BlockPool \<Rightarrow> BlockPool res" where
  "release_refs env [] counts p = Inr p"
| "release_refs env (b # bs) counts p =
     (case map_of counts b of
        None \<Rightarrow> release_refs env bs counts p
      | Some c \<Rightarrow>
          and_then (release_one env b c p) (release_refs env bs (AList.delete b counts)))"

definition free_blocks :: "rt_env \<Rightarrow> nat list \<Rightarrow> BlockPool \<Rightarrow> BlockPool res" where
  "free_blocks env ordered_block_ids p =
     and_then (sync_retention_if_changed env p) (\<lambda>p.
     and_then (count_releases ordered_block_ids []) (\<lambda>counts.
     and_then (fold_res (check_release counts) (iter_ids env (map fst counts)) p) (\<lambda>p.
     release_refs env ordered_block_ids counts p)))"

section \<open>Caching and reset\<close>

definition cache_one :: "rt_env \<Rightarrow> nat list \<Rightarrow> BlockHash list \<Rightarrow> nat \<Rightarrow> nat \<Rightarrow> BlockPool \<Rightarrow> BlockPool res" where
  "cache_one env ids hs gid idx p =
     and_then (get_at ids idx) (\<lambda>b.
     and_then (get_at (blocks p) b) (\<lambda>x.
     if is_null x then Inr p
     else
       and_then (get_at hs idx) (\<lambda>h.
       let key = hkey h gid in
       if key \<in> set (block_hashes x) then Inr p
       else
         (let p = (if block_hashes x = []
                   then p\<lparr>num_prefix_cached_physical_blocks := num_prefix_cached_physical_blocks p + 1\<rparr>
                   else p);
              p = p\<lparr>blocks := (blocks p)[b := x\<lparr>block_hashes := block_hashes x @ [key]\<rparr>],
                    hash_index := index_insert key b (hash_index p)\<rparr>
          in if h \<in> set (retained_hashes p) then reconcile_retained_hash_block env h p else Inr p))))"

definition cache_full_blocks ::
    "rt_env \<Rightarrow> nat list \<Rightarrow> BlockHash list \<Rightarrow> nat \<Rightarrow> nat \<Rightarrow> nat \<Rightarrow> BlockPool \<Rightarrow> BlockPool res" where
  "cache_full_blocks env ids hs ncached nfull gid p =
     (if \<not> enable_caching p \<or> ncached \<ge> nfull then Inr p
      else
        and_then (sync_retention_if_changed env p) (\<lambda>p.
        and_then (assert_that ''Not enough block hashes'' (length hs \<ge> nfull)) (\<lambda>_.
        fold_res (cache_one env ids hs gid) [ncached..<nfull] p)))"

definition reset_prefix_cache :: "rt_env \<Rightarrow> BlockPool \<Rightarrow> (bool \<times> BlockPool) res" where
  "reset_prefix_cache env p =
     and_then (sub_plain (debug_assertions env) usize_max (num_gpu_blocks p) (num_free_blocks p)) (\<lambda>num_used.
     if num_used \<noteq> 1 then Inr (False, p)
     else
       and_then (sync_retention_locked env p) (\<lambda>p.
       and_then (revoke_all (retention p)) (\<lambda>((evictions, released), r).
       and_then (release_retained_hashes env released (p\<lparr>retention := r\<rparr>)) (\<lambda>p.
       let p = p\<lparr>applied_retention_revision := revision (retention p)\<rparr>;
           p = (if evictions > 0 then p\<lparr>retention := publish_revocation (retention p)\<rparr> else p);
           p = p\<lparr>hash_index := index_clear (hash_index p)\<rparr>
       in and_then (assert_that ''self.retained_hash_to_block.is_empty()''
                      (debug_assertions env \<longrightarrow> retained_hash_to_block p = [])) (\<lambda>_.
          Inr (True, p\<lparr>retained_hash_to_block := [], num_prefix_cached_physical_blocks := 0,
                       blocks := map reset_hash (blocks p)\<rparr>))))))"

end
