(* ===== verification/Pool_Invariant.thy ===== *)
theory Pool_Invariant
  imports Block_Pool
begin

text \<open>
  The invariant of the block pool and its preservation by the internal steps: retaining and
  releasing physical blocks, the synchronisation with the retention registry, and the pressure
  loop. The operations clients call are in \<open>Pool_Theorems\<close>.
\<close>

declare map_of_eq_Some_iff [simp del]

section \<open>Views of a pool\<close>

definition refs :: "BlockPool \<Rightarrow> nat \<Rightarrow> nat" where
  "refs p b = ref_cnt (blocks p ! b)"

definition keys :: "BlockPool \<Rightarrow> nat \<Rightarrow> BlockHashWithGroupId list" where
  "keys p b = block_hashes (blocks p ! b)"

definition holds :: "BlockPool \<Rightarrow> nat \<Rightarrow> nat" where
  "holds p b = block_retention_counts p ! b"

definition real_block :: "BlockPool \<Rightarrow> nat \<Rightarrow> bool" where
  "real_block p b \<longleftrightarrow> b < num_gpu_blocks p \<and> b \<noteq> null_block_id p"

definition idle :: "BlockPool \<Rightarrow> nat set" where
  "idle p = {b. real_block p b \<and> refs p b = 0}"

definition held :: "BlockPool \<Rightarrow> nat set" where
  "held p = {b. b < num_gpu_blocks p + 2 \<and> 0 < holds p b}"

section \<open>The invariant\<close>

definition shape_ok :: "BlockPool \<Rightarrow> bool" where
  "shape_ok p \<longleftrightarrow>
     (let n = num_gpu_blocks p in
      0 < n \<and> length (blocks p) = n + 2 \<and> n + 2 \<le> usize_max \<and>
      length (block_retention_counts p) = n + 2 \<and> null_block_id p < n \<and>
      fake_head (free_queue p) = n \<and> fake_tail (free_queue p) = n + 1 \<and>
      (\<forall>b < n + 2. is_null (blocks p ! b) \<longleftrightarrow> b = null_block_id p))"

text \<open>
  The free queue lists exactly the idle blocks that no retained prefix holds; the two counters of
  retained blocks are exact.
\<close>

definition phys_ok :: "BlockPool \<Rightarrow> bool" where
  "phys_ok p \<longleftrightarrow>
     (\<exists>ids. queue_rep (pool_queue p) ids \<and> set ids = {b \<in> idle p. holds p b = 0}) \<and>
     num_retained_physical_blocks p = card (held p) \<and>
     num_retained_free_blocks p = card (held p \<inter> idle p)"

definition holds_ok :: "BlockPool \<Rightarrow> bool" where
  "holds_ok p \<longleftrightarrow>
     distinct (map fst (retained_hash_to_block p)) \<and>
     (\<forall>b < num_gpu_blocks p + 2.
        holds p b = card {h. map_of (retained_hash_to_block p) h = Some b})"

definition retained_ok :: "BlockPool \<Rightarrow> bool" where
  "retained_ok p \<longleftrightarrow>
     (\<forall>h b. map_of (retained_hash_to_block p) h = Some b \<longrightarrow>
        real_block p b \<and> (\<forall>g \<in> set (retention_group_ids p). hkey h g \<in> set (keys p b)))"

definition cache_ok :: "BlockPool \<Rightarrow> bool" where
  "cache_ok p \<longleftrightarrow>
     index_ok (hash_index p) \<and>
     (\<forall>k b. index_contains (hash_index p) k b \<longleftrightarrow> real_block p b \<and> k \<in> set (keys p b)) \<and>
     (\<forall>b < num_gpu_blocks p + 2. distinct (keys p b) \<and> (keys p b \<noteq> [] \<longrightarrow> real_block p b) \<and>
        (keys p b \<noteq> [] \<longrightarrow> enable_caching p)) \<and>
     num_prefix_cached_physical_blocks p = card {b. b < num_gpu_blocks p + 2 \<and> keys p b \<noteq> []}"

definition core_ok :: "BlockPool \<Rightarrow> bool" where
  "core_ok p \<longleftrightarrow> shape_ok p \<and> phys_ok p \<and> holds_ok p \<and> retained_ok p \<and> cache_ok p"

definition common_block :: "BlockPool \<Rightarrow> BlockHash \<Rightarrow> nat \<Rightarrow> bool" where
  "common_block p h b \<longleftrightarrow>
     retention_group_ids p \<noteq> [] \<and>
     (\<forall>g \<in> set (retention_group_ids p). index_contains (hash_index p) (hkey h g) b)"

text \<open>
  \<open>tracked env p H\<close>: the pool tracks the retained hashes \<open>H\<close>. With debug assertions every tracked
  hash that has a common cached block is physically retained.
\<close>

definition tracked :: "rt_env \<Rightarrow> BlockPool \<Rightarrow> BlockHash set \<Rightarrow> bool" where
  "tracked env p H \<longleftrightarrow>
     dom (map_of (retained_hash_to_block p)) \<subseteq> H \<and>
     (debug_assertions env \<longrightarrow>
        (\<forall>h \<in> H. (\<exists>b. common_block p h b) \<longrightarrow> map_of (retained_hash_to_block p) h \<noteq> None))"

definition retention_sync :: "rt_env \<Rightarrow> BlockPool \<Rightarrow> bool" where
  "retention_sync env p \<longleftrightarrow>
     ret_ok (retention p) \<and> length (hash_ref_counts (retention p)) \<le> u32_max \<and>
     revision (retention p) + length (entries (retention p)) \<le> u64_max \<and>
     distinct (retained_hashes p) \<and> length (retained_hashes p) \<le> u32_max \<and>
     applied_retention_revision p \<le> revision (retention p) \<and>
     (\<not> enabled (retention p) \<longrightarrow> retained_hashes p = []) \<and>
     (applied_retention_revision p = revision (retention p) \<longrightarrow>
        leased (retention p) \<subseteq> set (retained_hashes p) \<and>
        (debug_assertions env \<longrightarrow> set (retained_hashes p) = leased (retention p)))"

definition pool_ok :: "rt_env \<Rightarrow> BlockPool \<Rightarrow> bool" where
  "pool_ok env p \<longleftrightarrow> core_ok p \<and> tracked env p (set (retained_hashes p)) \<and> retention_sync env p"

section \<open>Frames\<close>

text \<open>What an operation may leave alone, as tuples of fields and views.\<close>

definition frame ::
    "BlockPool \<Rightarrow> bool list \<times> nat \<times> nat \<times> nat \<times> bool \<times> nat list \<times> nat \<times> nat \<times> nat" where
  "frame p =
     (map is_null (blocks p), length (block_retention_counts p), num_gpu_blocks p, null_block_id p,
      enable_caching p, retention_group_ids p, hash_block_size p, fake_head (free_queue p),
      fake_tail (free_queue p))"

definition cache_view ::
    "BlockPool \<Rightarrow> (nat \<Rightarrow> BlockHashWithGroupId list) \<times> BlockHashToBlockMap \<times> nat" where
  "cache_view p = (keys p, hash_index p, num_prefix_cached_physical_blocks p)"

definition sync_view :: "BlockPool \<Rightarrow> PrefixBlockRetention \<times> nat \<times> BlockHash list" where
  "sync_view p = (retention p, applied_retention_revision p, retained_hashes p)"

text \<open>The physical retention steps keep all of it, and the reference counts.\<close>

definition same_view :: "BlockPool \<Rightarrow> BlockPool \<Rightarrow> bool" where
  "same_view p p' \<longleftrightarrow>
     frame p' = frame p \<and> cache_view p' = cache_view p \<and> sync_view p' = sync_view p \<and>
     refs p' = refs p"

lemma same_view_refl [simp]: "same_view p p"
  by (simp add: same_view_def)

lemma same_view_trans: "same_view p p' \<Longrightarrow> same_view p' p'' \<Longrightarrow> same_view p p''"
  by (simp add: same_view_def)

lemma nth_beyond: "length xs = length ys \<Longrightarrow> length xs \<le> i \<Longrightarrow> xs ! i = ys ! i"
  by (induction xs ys arbitrary: i rule: list_induct2) (auto simp: nth_Cons split: nat.splits)

lemma unlinked_fields [simp]:
  "ref_cnt (unlinked b) = ref_cnt b" "block_hashes (unlinked b) = block_hashes b"
  "is_null (unlinked b) = is_null b" "block_id (unlinked b) = block_id b"
  by (simp_all add: unlinked_def)

lemma map_unlinked_field:
  assumes "map unlinked bs = map unlinked bs'" and "\<And>b. f (unlinked b) = f b"
  shows "f (bs ! i) = f (bs' ! i)"
proof (cases "i < length bs")
  case True
  then have "unlinked (bs ! i) = unlinked (bs' ! i)"
    using assms(1) by (metis length_map nth_map)
  then show ?thesis by (metis assms(2))
next
  case False
  then show ?thesis
    using assms(1) nth_beyond [of bs bs' i] by (metis length_map not_less)
qed

lemma map_unlinked_is_null:
  assumes "map unlinked bs = map unlinked bs'"
  shows "map is_null bs = map is_null bs'"
proof -
  have "is_null = is_null \<circ> unlinked" by auto
  then show ?thesis by (metis assms list.map_comp)
qed

lemma set_queue_view:
  assumes "queue_content s = queue_content (pool_queue p)"
  shows "same_view p (set_queue s p)"
    and "pool_queue (set_queue s p) = s"
    and "block_retention_counts (set_queue s p) = block_retention_counts p"
    and "retained_hash_to_block (set_queue s p) = retained_hash_to_block p"
    and "num_retained_physical_blocks (set_queue s p) = num_retained_physical_blocks p"
    and "num_retained_free_blocks (set_queue s p) = num_retained_free_blocks p"
proof -
  have "map unlinked (fst s) = map unlinked (blocks p)"
    "fake_head (snd s) = fake_head (free_queue p)" "fake_tail (snd s) = fake_tail (free_queue p)"
    using assms by (auto simp: queue_content_def)
  moreover from this have "ref_cnt (fst s ! i) = ref_cnt (blocks p ! i)"
    and "block_hashes (fst s ! i) = block_hashes (blocks p ! i)" for i
    by (auto intro: map_unlinked_field [of _ _ ref_cnt] map_unlinked_field [of _ _ block_hashes])
  ultimately show "same_view p (set_queue s p)"
    using map_unlinked_is_null [of "fst s" "blocks p"]
    by (simp add: same_view_def frame_def cache_view_def sync_view_def refs_def keys_def set_queue_def
        fun_eq_iff)
qed (simp_all add: set_queue_def)

lemma same_view_fields:
  assumes "same_view p p'"
  shows "num_gpu_blocks p' = num_gpu_blocks p" "real_block p' = real_block p" "refs p' = refs p"
    "keys p' = keys p" "hash_index p' = hash_index p" "idle p' = idle p"
    "retention_group_ids p' = retention_group_ids p" "enable_caching p' = enable_caching p"
    "retention p' = retention p" "retained_hashes p' = retained_hashes p"
    "applied_retention_revision p' = applied_retention_revision p"
    "num_prefix_cached_physical_blocks p' = num_prefix_cached_physical_blocks p"
    "null_block_id p' = null_block_id p"
  using assms
  by (simp_all add: same_view_def frame_def cache_view_def sync_view_def real_block_def idle_def fun_eq_iff)

lemma shape_ok_frame: "frame p' = frame p \<Longrightarrow> shape_ok p' = shape_ok p"
proof -
  assume f: "frame p' = frame p"
  then have n: "map is_null (blocks p') = map is_null (blocks p)" by (simp add: frame_def)
  then have len: "length (blocks p') = length (blocks p)" by (metis length_map)
  have "b < length (blocks p) \<Longrightarrow> is_null (blocks p' ! b) = is_null (blocks p ! b)" for b
    using n len by (metis nth_map)
  then show ?thesis
    using f len by (auto simp: shape_ok_def frame_def Let_def)
qed

lemma cache_ok_view:
  "frame p' = frame p \<Longrightarrow> cache_view p' = cache_view p \<Longrightarrow> cache_ok p' = cache_ok p"
  by (simp add: cache_ok_def cache_view_def frame_def real_block_def)

lemma shape_fields:
  assumes "shape_ok p"
  shows "length (blocks p) = num_gpu_blocks p + 2"
    and "length (block_retention_counts p) = num_gpu_blocks p + 2"
    and "fake_head (free_queue p) = num_gpu_blocks p"
    and "fake_tail (free_queue p) = Suc (num_gpu_blocks p)"
  using assms by (auto simp: shape_ok_def Let_def)

lemma real_block_bounds:
  assumes "shape_ok p" and "real_block p b"
  shows "b < length (blocks p)" and "b < length (block_retention_counts p)"
    and "\<not> is_null (blocks p ! b)" and "b < num_gpu_blocks p + 2" and "b < num_gpu_blocks p"
  using assms by (auto simp: shape_ok_def real_block_def Let_def)

lemma finite_idle [simp]: "finite (idle p)"
  by (rule finite_subset [of _ "{..<num_gpu_blocks p}"]) (auto simp: idle_def real_block_def)

lemma queue_valid_real:
  "shape_ok p \<Longrightarrow> real_block p b \<Longrightarrow> queue_valid (queue_content (pool_queue p)) b"
  by (auto simp: queue_valid_def queue_content_def shape_ok_def real_block_def Let_def)

section \<open>Physical retention\<close>

lemma phys_okE:
  assumes "phys_ok p"
  obtains ids where "queue_rep (pool_queue p) ids" and "set ids = {b \<in> idle p. holds p b = 0}"
    and "distinct ids"
  using assms fq.rep_distinct by (auto simp: phys_ok_def)

lemma finite_held [simp]: "finite (held p)"
  by (simp add: held_def)

lemma same_view_counts:
  "length cs = length (block_retention_counts p) \<Longrightarrow>
     same_view q (p\<lparr>block_retention_counts := cs\<rparr>) = same_view q p"
  "same_view q (p\<lparr>num_retained_physical_blocks := n\<rparr>) = same_view q p"
  "same_view q (p\<lparr>num_retained_free_blocks := n\<rparr>) = same_view q p"
  "same_view q (p\<lparr>retained_hash_to_block := m\<rparr>) = same_view q p"
  by (simp_all add: same_view_def frame_def cache_view_def sync_view_def refs_def keys_def fun_eq_iff)

lemma holds_upd:
  "b < length (block_retention_counts p) \<Longrightarrow> block_retention_counts p' = (block_retention_counts p)[b := v]
    \<Longrightarrow> holds p' = (holds p)(b := v)"
  by (auto simp: holds_def fun_eq_iff)

text \<open>How the accounting moves when the hold count of one real block changes.\<close>

lemma phys_okI:
  assumes "same_view p p'" and "holds p' = (holds p)(b := v)"
    and "queue_rep (pool_queue p') ids'" and "set ids' = {x \<in> idle p. ((holds p)(b := v)) x = 0}"
    and "num_retained_physical_blocks p' = card (held p')"
    and "num_retained_free_blocks p' = card (held p' \<inter> idle p)"
  shows "phys_ok p'"
  using assms(3-) unfolding phys_ok_def same_view_fields [OF assms(1)] assms(2) by blast

lemma held_upd:
  assumes "num_gpu_blocks p' = num_gpu_blocks p" and "holds p' = (holds p)(b := v)" and "b < num_gpu_blocks p + 2"
  shows "held p' = (if v = 0 then held p - {b} else insert b (held p))"
  using assms by (auto simp: held_def)

text \<open>The outcome of a change of one hold count, and when it is reached.\<close>

definition hold_set :: "BlockPool \<Rightarrow> nat \<Rightarrow> nat \<Rightarrow> BlockPool \<Rightarrow> bool" where
  "hold_set p b v p' \<longleftrightarrow>
     phys_ok p' \<and> same_view p p' \<and> holds p' = (holds p)(b := v) \<and>
     retained_hash_to_block p' = retained_hash_to_block p"

lemma hold_setI:
  assumes "same_view p p'" and "block_retention_counts p' = (block_retention_counts p)[b := v]"
    and "shape_ok p" and "real_block p b"
    and "queue_rep (pool_queue p') ids'" and "set ids' = {x \<in> idle p. ((holds p)(b := v)) x = 0}"
    and "num_retained_physical_blocks p' = card (if v = 0 then held p - {b} else insert b (held p))"
    and "num_retained_free_blocks p' =
      card ((if v = 0 then held p - {b} else insert b (held p)) \<inter> idle p)"
    and "retained_hash_to_block p' = retained_hash_to_block p"
  shows "hold_set p b v p'"
proof -
  note bnd = real_block_bounds [OF assms(3,4)]
  have h: "holds p' = (holds p)(b := v)" using bnd assms(2) by (intro holds_upd)
  have "held p' = (if v = 0 then held p - {b} else insert b (held p))"
    using held_upd [OF same_view_fields(1) [OF assms(1)] h] bnd by simp
  then have "phys_ok p'"
    using assms(7,8) by (intro phys_okI [OF assms(1) h assms(5,6)]) simp_all
  then show ?thesis using h assms by (simp add: hold_set_def)
qed

lemma phys_counters:
  assumes "phys_ok p"
  shows "num_retained_physical_blocks p = card (held p)"
    and "num_retained_free_blocks p = card (held p \<inter> idle p)"
  using assms by (simp_all add: phys_ok_def)

lemma Suc_le_card: "finite A \<Longrightarrow> x \<in> A \<Longrightarrow> Suc 0 \<le> card A"
  by (simp add: Suc_le_eq card_gt_0_iff) blast

lemma release_physical_block_effect:
  assumes shape: "shape_ok p" and phys: "phys_ok p" and real: "real_block p b" and pos: "0 < holds p b"
  shows "returns (release_physical_block b p) (hold_set p b (holds p b - 1))"
proof -
  obtain ids where ids: "queue_rep (pool_queue p) ids" "set ids = {b \<in> idle p. holds p b = 0}"
    using phys by (rule phys_okE)
  note bnd = real_block_bounds [OF shape real] and cnt = phys_counters [OF phys]
  let ?c = "holds p b - 1"
  let ?cs = "(block_retention_counts p)[b := ?c]"
  have b: "b \<in> held p" using bnd pos by (simp add: held_def)
  then have pos1: "Suc 0 \<le> card (held p)" "insert b (held p) = held p"
    by (auto intro: Suc_le_card)
  have int: "(held p - {b}) \<inter> idle p = held p \<inter> idle p - {b}" by blast
  consider (keep) "?c \<noteq> 0" | (used) "?c = 0" "refs p b \<noteq> 0" | (idle) "?c = 0" "refs p b = 0" by blast
  then show ?thesis
  proof cases
    case keep
    then have eq: "release_physical_block b p = Inr (p\<lparr>block_retention_counts := ?cs\<rparr>)"
      using bnd pos by (simp add: release_physical_block_def holds_def)
    show ?thesis
      unfolding eq returns_Inr using keep ids cnt pos1
      by (intro hold_setI [where ids' = ids, OF _ _ shape real]) (auto simp: same_view_counts)
  next
    case used
    then have eq: "release_physical_block b p =
        Inr (p\<lparr>block_retention_counts := ?cs, num_retained_physical_blocks := card (held p) - 1\<rparr>)"
      using bnd pos pos1 cnt by (simp add: release_physical_block_def holds_def refs_def)
    have "b \<notin> idle p" using used by (simp add: idle_def)
    then show ?thesis
      unfolding eq returns_Inr using used ids cnt b
      by (intro hold_setI [where ids' = ids, OF _ _ shape real])
        (auto simp: same_view_counts int card_Diff_singleton_if)
  next
    case idle
    then have i: "b \<in> idle p" using real by (simp add: idle_def)
    then have pos2: "Suc 0 \<le> card (held p \<inter> idle p)" using b by (auto intro: Suc_le_card)
    let ?p = "p\<lparr>block_retention_counts := ?cs, num_retained_physical_blocks := card (held p) - 1,
                num_retained_free_blocks := card (held p \<inter> idle p) - 1\<rparr>"
    have eq: "release_physical_block b p =
        and_then (queue_append b (pool_queue p)) (\<lambda>s. Inr (set_queue s ?p))"
      using bnd pos pos1 pos2 cnt idle by (simp add: release_physical_block_def holds_def refs_def)
    have view: "same_view p ?p" by (simp add: same_view_counts)
    have "b \<notin> set ids" using ids(2) pos by simp
    note ap = queue_append_law [OF ids(1) queue_valid_real [OF shape real] this]
    have "hold_set p b ?c (set_queue s ?p)"
      if s: "queue_rep s (ids @ [b]) \<and> queue_content s = queue_content (pool_queue p)" for s
    proof -
      have sv: "queue_content s = queue_content (pool_queue ?p)" using s by simp
      show ?thesis
        by (rule hold_setI [where ids' = "ids @ [b]",
              OF same_view_trans [OF view set_queue_view(1) [OF sv]] _ shape real], unfold set_queue_view [OF sv])
          (use s idle ids i b in \<open>auto simp: int\<close>)
    qed
    then show ?thesis
      unfolding eq returns_and_then returns_Inr by (rule returns_mono [OF ap])
  qed
qed

lemma retain_physical_block_effect:
  assumes shape: "shape_ok p" and phys: "phys_ok p" and real: "real_block p b"
    and room: "holds p b < u32_max"
  shows "returns (retain_physical_block env b p) (hold_set p b (Suc (holds p b)))"
proof -
  obtain ids where ids: "queue_rep (pool_queue p) ids" "set ids = {b \<in> idle p. holds p b = 0}"
    "distinct ids"
    using phys by (rule phys_okE)
  note bnd = real_block_bounds [OF shape real] and cnt = phys_counters [OF phys]
  let ?c = "Suc (holds p b)"
  let ?cs = "(block_retention_counts p)[b := ?c]"
  have mem: "b \<in> held p \<longleftrightarrow> 0 < holds p b" using bnd by (simp add: held_def)
  consider (keep) "holds p b \<noteq> 0" | (used) "holds p b = 0" "refs p b \<noteq> 0"
    | (idle) "holds p b = 0" "refs p b = 0" by blast
  then show ?thesis
  proof cases
    case keep
    then have eq: "retain_physical_block env b p = Inr (p\<lparr>block_retention_counts := ?cs\<rparr>)"
      using bnd room by (simp add: retain_physical_block_def holds_def)
    have "insert b (held p) = held p" using mem keep by auto
    then show ?thesis
      unfolding eq returns_Inr using keep ids cnt
      by (intro hold_setI [where ids' = ids, OF _ _ shape real]) (auto simp: same_view_counts)
  next
    case used
    then have eq: "retain_physical_block env b p =
        Inr (p\<lparr>num_retained_physical_blocks := card (held p) + 1, block_retention_counts := ?cs\<rparr>)"
      using bnd room cnt by (simp add: retain_physical_block_def holds_def refs_def)
    have "b \<notin> idle p" using used by (simp add: idle_def)
    then show ?thesis
      unfolding eq returns_Inr using used ids cnt mem
      by (intro hold_setI [where ids' = ids, OF _ _ shape real]) (auto simp: same_view_counts)
  next
    case idle
    then have i: "b \<in> idle p" using real by (simp add: idle_def)
    then have q: "b \<in> set ids" using ids idle by simp
    let ?p = "p\<lparr>num_retained_physical_blocks := Suc (card (held p)),
                num_retained_free_blocks := Suc (card (held p \<inter> idle p))\<rparr>"
    have eq: "retain_physical_block env b p =
        and_then (queue_remove (debug_assertions env) b (pool_queue p))
          (\<lambda>s. Inr ((set_queue s ?p)\<lparr>block_retention_counts := ?cs\<rparr>))"
      using bnd room cnt idle
      by (cases "queue_remove (debug_assertions env) b (pool_queue p)")
        (simp_all add: retain_physical_block_def holds_def refs_def set_queue_def)
    have view: "same_view p ?p" by (simp add: same_view_counts)
    have "hold_set p b ?c ((set_queue s ?p)\<lparr>block_retention_counts := ?cs\<rparr>)"
      if s: "queue_rep s (remove1 b ids) \<and> queue_content s = queue_content (pool_queue p)" for s
    proof -
      have sv: "queue_content s = queue_content (pool_queue ?p)" using s by simp
      have v: "same_view p ((set_queue s ?p)\<lparr>block_retention_counts := ?cs\<rparr>)"
        using same_view_trans [OF view set_queue_view(1) [OF sv]] same_view_counts(1) [of ?cs "set_queue s ?p" p]
        by (simp add: set_queue_view(3) [OF sv])
      show ?thesis
        by (rule hold_setI [where ids' = "remove1 b ids", OF v _ shape real])
          (use s idle ids i mem set_queue_view [OF sv] in \<open>auto\<close>)
    qed
    then show ?thesis
      unfolding eq returns_and_then returns_Inr by (rule returns_mono [OF queue_remove_law [OF ids(1) q]])
  qed
qed

section \<open>Retained hashes\<close>

text \<open>The retained map after a change at one hash, and the hold counts it implies.\<close>

lemma finite_holders: "finite {h. map_of m h = Some b}"
  by (rule finite_subset [OF _ finite_dom_map_of [of m]]) (auto simp: dom_def)

lemma holders_empty_idle:
  "finite {h. m h = Some b} \<Longrightarrow> m h = Some b \<Longrightarrow> 0 < card {h. m h = Some b}"
  by (auto simp: card_gt_0_iff)

lemma card_holders_delete:
  assumes "finite {x. m x = Some b}" and "m h = Some b"
  shows "card {x. (m(h := None)) x = Some b'} =
    (if b' = b then card {x. m x = Some b} - 1 else card {x. m x = Some b'})"
proof (cases "b' = b")
  case True
  have "{x. (m(h := None)) x = Some b} = {x. m x = Some b} - {h}" by auto
  then show ?thesis using True assms by (simp del: fun_upd_apply)
next
  case False
  then have "{x. (m(h := None)) x = Some b'} = {x. m x = Some b'}" using assms(2) by auto
  then show ?thesis using False by simp
qed

lemma card_holders_insert:
  assumes "finite {x. m x = Some b}" and "m h = None"
  shows "card {x. (m(h \<mapsto> b)) x = Some b'} =
    (if b' = b then Suc (card {x. m x = Some b}) else card {x. m x = Some b'})"
proof (cases "b' = b")
  case True
  have "{x. (m(h \<mapsto> b)) x = Some b} = insert h {x. m x = Some b}" by auto
  then show ?thesis using True assms by (simp del: fun_upd_apply)
next
  case False
  then have "{x. (m(h \<mapsto> b)) x = Some b'} = {x. m x = Some b'}" using assms(2) by auto
  then show ?thesis using False by simp
qed

text \<open>A step that only moves the retained map from the pool's state.\<close>

definition map_set :: "BlockPool \<Rightarrow> (BlockHash \<rightharpoonup> nat) \<Rightarrow> BlockPool \<Rightarrow> bool" where
  "map_set p m p' \<longleftrightarrow> core_ok p' \<and> same_view p p' \<and> map_of (retained_hash_to_block p') = m"

lemma retained_ok_mono:
  assumes "same_view p p'" and "retained_ok p"
    and "\<And>h b. map_of (retained_hash_to_block p') h = Some b \<Longrightarrow>
       map_of (retained_hash_to_block p) h = Some b \<or>
       real_block p b \<and> (\<forall>g \<in> set (retention_group_ids p). hkey h g \<in> set (keys p b))"
  shows "retained_ok p'"
  using assms unfolding retained_ok_def same_view_fields [OF assms(1)] by blast

lemma core_ok_same_view:
  assumes "core_ok p" and "same_view p p'"
  shows "shape_ok p'" and "cache_ok p'"
  using assms shape_ok_frame [of p' p] cache_ok_view [of p' p] by (simp_all add: core_ok_def same_view_def)

lemma forget_retained_hash_effect:
  assumes "core_ok p"
  shows "returns (forget_retained_hash h p) (map_set p ((map_of (retained_hash_to_block p))(h := None)))"
proof (cases "map_of (retained_hash_to_block p) h")
  case None
  then show ?thesis
    using assms by (auto simp: forget_retained_hash_def map_set_def fun_eq_iff)
next
  case (Some b)
  let ?m = "retained_hash_to_block p"
  let ?p = "p\<lparr>retained_hash_to_block := AList.delete h ?m\<rparr>"
  have ok: "shape_ok p" "phys_ok p" "holds_ok p" "retained_ok p" "real_block p b"
    using assms Some by (auto simp: core_ok_def retained_ok_def)
  have v: "same_view p ?p" by (simp add: same_view_counts)
  have hold: "x < num_gpu_blocks p + 2 \<Longrightarrow> holds p x = card {h. map_of ?m h = Some x}" for x
    using ok(3) by (simp add: holds_ok_def)
  have "0 < holds p b"
    unfolding hold [OF real_block_bounds(4) [OF ok(1,5)]]
    by (rule holders_empty_idle [of "map_of ?m", OF finite_holders Some])
  then have "returns (release_physical_block b ?p) (hold_set ?p b (holds ?p b - 1))"
    using ok v by (intro release_physical_block_effect)
      (auto simp: shape_ok_frame [of ?p p] same_view_def phys_ok_def same_view_fields [OF v] held_def holds_def)
  moreover have "map_set p ((map_of ?m)(h := None)) p'" if "hold_set ?p b (holds ?p b - 1) p'" for p'
  proof -
    have p': "phys_ok p'" "same_view p p'" "holds p' = (holds p)(b := holds p b - 1)"
      "retained_hash_to_block p' = AList.delete h ?m"
      using that same_view_trans [OF v] by (auto simp: hold_set_def holds_def)
    have "holds_ok p'"
      unfolding holds_ok_def p'(3,4) map_of_alist_delete same_view_fields [OF p'(2)]
      unfolding card_holders_delete [OF finite_holders Some]
      using ok(3) hold by (simp add: holds_ok_def distinct_delete)
    moreover have "retained_ok p'"
      by (rule retained_ok_mono [OF p'(2) ok(4)]) (auto simp: p'(4) split: if_splits)
    ultimately show ?thesis
      using p' core_ok_same_view [OF assms p'(2)] by (simp add: map_set_def core_ok_def)
  qed
  ultimately show ?thesis
    by (auto simp: forget_retained_hash_def Some elim!: returns_mono)
qed

lemma retained_candidate:
  assumes "core_ok p" and "env_ok env" and "retained_block_candidate env p h = Some b"
  shows "real_block p b" and "\<forall>g \<in> set (retention_group_ids p). hkey h g \<in> set (keys p b)"
  using index_get_common_sound [OF assms(2) assms(3) [unfolded retained_block_candidate_def]] assms(1)
  by (auto simp: core_ok_def cache_ok_def neq_Nil_conv)

lemma candidate_same_view:
  "same_view p p' \<Longrightarrow> retained_block_candidate env p' h = retained_block_candidate env p h"
  by (simp add: retained_block_candidate_def same_view_fields)

lemma candidate_complete:
  "env_ok env \<Longrightarrow> common_block p h b \<Longrightarrow> retained_block_candidate env p h \<noteq> None"
  unfolding retained_block_candidate_def common_block_def by (rule index_get_common_complete) auto

lemma holds_le_retained:
  assumes "core_ok p" and "real_block p b"
  shows "holds p b \<le> card (dom (map_of (retained_hash_to_block p)))"
proof -
  have "holds p b = card {h. map_of (retained_hash_to_block p) h = Some b}"
    using assms real_block_bounds(4) [of p b] by (simp add: core_ok_def holds_ok_def)
  then show ?thesis
    by (auto intro!: card_mono simp: finite_dom_map_of)
qed

lemma reconcile_retained_hash_block_effect:
  assumes core: "core_ok p" and env: "env_ok env"
    and room: "map_of (retained_hash_to_block p) h = None \<Longrightarrow>
      card (dom (map_of (retained_hash_to_block p))) < u32_max"
  shows "returns (reconcile_retained_hash_block env h p)
    (map_set p (if map_of (retained_hash_to_block p) h = None
       then (map_of (retained_hash_to_block p))(h := retained_block_candidate env p h)
       else map_of (retained_hash_to_block p)))"
proof (cases "map_of (retained_hash_to_block p) h = None \<and> retained_block_candidate env p h \<noteq> None")
  case False
  then show ?thesis
    using core by (auto simp: reconcile_retained_hash_block_def map_set_def fun_eq_iff)
next
  case True
  let ?m = "retained_hash_to_block p"
  obtain b where b: "retained_block_candidate env p h = Some b" using True by auto
  have ok: "shape_ok p" "phys_ok p" "holds_ok p" "retained_ok p"
    using core by (auto simp: core_ok_def)
  note cand = retained_candidate [OF core env b]
  have hold: "x < num_gpu_blocks p + 2 \<Longrightarrow> holds p x = card {h. map_of ?m h = Some x}" for x
    using ok(3) by (simp add: holds_ok_def)
  have "holds p b < u32_max" using holds_le_retained [OF core cand(1)] room True by simp
  note ret = retain_physical_block_effect [OF ok(1,2) cand(1) this, of env]
  have "map_set p ((map_of ?m)(h \<mapsto> b))
      (p'\<lparr>retained_hash_to_block := AList.update h b (retained_hash_to_block p')\<rparr>)"
    (is "map_set p _ ?q") if "hold_set p b (Suc (holds p b)) p'" for p'
  proof -
    have p': "phys_ok p'" "same_view p p'" "holds p' = (holds p)(b := Suc (holds p b))"
      "retained_hash_to_block p' = ?m"
      using that by (auto simp: hold_set_def)
    have q: "same_view p ?q" "map_of (retained_hash_to_block ?q) = (map_of ?m)(h \<mapsto> b)"
      "holds ?q = holds p'"
      using p'(2,4) by (simp_all add: same_view_counts holds_def fun_eq_iff)
    have "phys_ok ?q"
      using p'(1) same_view_fields [OF p'(2)] same_view_fields [OF q(1)]
      by (simp add: phys_ok_def held_def q(3))
    moreover have "holds_ok ?q"
      unfolding holds_ok_def q(2,3) p'(3) same_view_fields [OF q(1)]
        card_holders_insert [OF finite_holders conjunct1 [OF True]]
      using ok(3) hold p'(4) by (simp add: holds_ok_def distinct_update)
    moreover have "retained_ok ?q"
      by (rule retained_ok_mono [OF q(1) ok(4)]) (use cand p'(4) in \<open>auto split: if_splits\<close>)
    ultimately show ?thesis
      using core_ok_same_view [OF core q(1)] q(1,2) by (simp add: map_set_def core_ok_def)
  qed
  then show ?thesis
    using True b ret by (auto simp: reconcile_retained_hash_block_def elim!: returns_mono)
qed

text \<open>The two loops over retained hashes.\<close>

lemma map_set_trans: "map_set p m p' \<Longrightarrow> map_set p' m' p'' \<Longrightarrow> map_set p m' p''"
  by (auto simp: map_set_def intro: same_view_trans)

lemma forget_loop:
  assumes "core_ok p"
  shows "returns (fold_res forget_retained_hash hs p)
    (map_set p (map_of (retained_hash_to_block p) |` (- set hs)))"
proof (rule returns_fold_res)
  fix "done" h rest q
  assume "map_set p (map_of (retained_hash_to_block p) |` (- set done)) q"
  moreover then have "core_ok q" "(map_of (retained_hash_to_block q))(h := None) =
      map_of (retained_hash_to_block p) |` (- set (done @ [h]))"
    by (auto simp: map_set_def restrict_map_def fun_eq_iff)
  ultimately show "returns (forget_retained_hash h q)
      (map_set p (map_of (retained_hash_to_block p) |` (- set (done @ [h]))))"
    using forget_retained_hash_effect [of q h] by (auto elim!: returns_mono intro: map_set_trans)
qed (use assms in \<open>simp add: map_set_def\<close>)

lemma reconcile_loop:
  assumes core: "core_ok p" and env: "env_ok env" and "distinct hs"
    and "dom (map_of (retained_hash_to_block p)) \<inter> set hs = {}"
    and "dom (map_of (retained_hash_to_block p)) \<union> set hs \<subseteq> H" and "finite H" and "card H \<le> u32_max"
  shows "returns (fold_res (reconcile_retained_hash_block env) hs p)
    (map_set p (\<lambda>h. if h \<in> set hs then retained_block_candidate env p h
                     else map_of (retained_hash_to_block p) h))"
proof (rule returns_fold_res)
  fix "done" h rest q
  let ?M = "\<lambda>ds h. if h \<in> set ds then retained_block_candidate env p h
    else map_of (retained_hash_to_block p) h"
  assume split: "hs = done @ h # rest" and I: "map_set p (?M done) q"
  then have q: "core_ok q" "same_view p q" "map_of (retained_hash_to_block q) = ?M done"
    by (auto simp: map_set_def)
  have h: "?M done h = None" "h \<in> H" using split assms(3-5) by auto
  have dom: "dom (?M done) \<subseteq> H - {h}"
    using h split assms(5) by (auto simp: dom_def split: if_splits)
  have lt: "card (H - {h}) < u32_max" using h(2) assms(6,7) card_Diff1_less [of H h] by linarith
  then have "card (dom (map_of (retained_hash_to_block q))) < u32_max"
    using card_mono [OF _ dom] assms(6) unfolding q(3) by simp
  moreover have "(map_of (retained_hash_to_block q))(h := retained_block_candidate env q h) = ?M (done @ [h])"
    using candidate_same_view [OF q(2)] by (auto simp: q(3) fun_eq_iff)
  moreover have "map_of (retained_hash_to_block q) h = None" using h by (simp add: q(3))
  ultimately show "returns (reconcile_retained_hash_block env h q) (map_set p (?M (done @ [h])))"
    using reconcile_retained_hash_block_effect [OF q(1) env, of h] map_set_trans [OF I]
    by (auto elim!: returns_mono)
qed (use core in \<open>simp add: map_set_def\<close>)

section \<open>Synchronisation with the registry\<close>

definition data_same :: "BlockPool \<Rightarrow> BlockPool \<Rightarrow> bool" where
  "data_same p p' \<longleftrightarrow> frame p' = frame p \<and> cache_view p' = cache_view p \<and> refs p' = refs p"

lemma data_same_refl [simp]: "data_same p p"
  by (simp add: data_same_def)

lemma data_same_trans: "data_same p p' \<Longrightarrow> data_same p' p'' \<Longrightarrow> data_same p p''"
  by (simp add: data_same_def)

lemma same_view_data: "same_view p p' \<Longrightarrow> data_same p p'"
  by (simp add: same_view_def data_same_def)

lemma data_same_fields:
  assumes "data_same p p'"
  shows "num_gpu_blocks p' = num_gpu_blocks p" "real_block p' = real_block p" "refs p' = refs p"
    "keys p' = keys p" "hash_index p' = hash_index p" "idle p' = idle p"
    "retention_group_ids p' = retention_group_ids p" "enable_caching p' = enable_caching p"
    "num_prefix_cached_physical_blocks p' = num_prefix_cached_physical_blocks p"
    "null_block_id p' = null_block_id p"
  using assms
  by (simp_all add: data_same_def frame_def cache_view_def real_block_def idle_def fun_eq_iff)

text \<open>Fields of the registry side do not enter \<open>core_ok\<close>.\<close>

lemma sync_fields_core [simp]:
  "core_ok (p\<lparr>retention := r\<rparr>) = core_ok p"
  "core_ok (p\<lparr>applied_retention_revision := n\<rparr>) = core_ok p"
  "core_ok (p\<lparr>retained_hashes := hs\<rparr>) = core_ok p"
  by (simp_all add: core_ok_def shape_ok_def phys_ok_def holds_ok_def retained_ok_def cache_ok_def
      held_def idle_def real_block_def refs_def keys_def holds_def)

lemma sync_fields_data [simp]:
  "data_same q (p\<lparr>retention := r\<rparr>) = data_same q p"
  "data_same q (p\<lparr>applied_retention_revision := n\<rparr>) = data_same q p"
  "data_same q (p\<lparr>retained_hashes := hs\<rparr>) = data_same q p"
  by (simp_all add: data_same_def frame_def cache_view_def refs_def keys_def fun_eq_iff)

lemma sync_fields_tracked [simp]:
  "tracked env (p\<lparr>retention := r\<rparr>) H = tracked env p H"
  "tracked env (p\<lparr>applied_retention_revision := n\<rparr>) H = tracked env p H"
  "tracked env (p\<lparr>retained_hashes := hs\<rparr>) H = tracked env p H"
  by (simp_all add: tracked_def common_block_def)

definition synced :: "BlockPool \<Rightarrow> bool" where
  "synced p \<longleftrightarrow> applied_retention_revision p = revision (retention p)"

lemma common_block_same_view: "same_view p p' \<Longrightarrow> common_block p' = common_block p"
  by (simp add: common_block_def same_view_fields fun_eq_iff)

lemma map_fst_counts: "ret_ok r \<Longrightarrow> distinct (map fst (hash_ref_counts r)) \<and> set (map fst (hash_ref_counts r)) = leased r"
  by (simp add: ret_ok_def counts_ok_def dom_map_of_list)

lemma sync_retention_locked_effect:
  assumes "pool_ok env p" and env: "env_ok env"
  shows "returns (sync_retention_locked env p)
    (\<lambda>p'. pool_ok env p' \<and> synced p' \<and> data_same p p' \<and> retention p' = retention p)"
proof (cases "synced p")
  case True
  then show ?thesis using assms by (simp add: sync_retention_locked_def Let_def synced_def)
next
  case False
  let ?r = "retention p" and ?m = "map_of (retained_hash_to_block p)"
  let ?next = "map fst (hash_ref_counts ?r)"
  let ?rem = "filter (\<lambda>h. h \<notin> set ?next) (iter_hashes env (retained_hashes p))"
  let ?add = "filter (\<lambda>h. h \<notin> set (retained_hashes p)) (iter_hashes env ?next)"
  have ok: "core_ok p" "tracked env p (set (retained_hashes p))" "retention_sync env p" "ret_ok ?r"
    using assms by (auto simp: pool_ok_def retention_sync_def)
  note nx = map_fst_counts [OF ok(4)]
  have dm: "dom ?m \<subseteq> set (retained_hashes p)" using ok(2) by (simp add: tracked_def)
  have sz: "card (set ?next) \<le> u32_max"
    using ok(3) card_length [of ?next] by (simp add: retention_sync_def)
  have sets: "set ?rem = set (retained_hashes p) - set ?next" "set ?add = set ?next - set (retained_hashes p)"
    "distinct ?add"
    using env nx by auto
  let ?M = "\<lambda>h. if h \<in> set ?add then retained_block_candidate env p h else (?m |` (- set ?rem)) h"
  have loop2: "returns (fold_res (reconcile_retained_hash_block env) ?add q) (map_set p ?M)"
    if q: "map_set p (?m |` (- set ?rem)) q" for q
  proof -
    have q': "core_ok q" "same_view p q" "map_of (retained_hash_to_block q) = ?m |` (- set ?rem)"
      using q by (auto simp: map_set_def)
    have "dom (map_of (retained_hash_to_block q)) \<subseteq> set ?next \<inter> set (retained_hashes p)"
      using dm unfolding q'(3) sets by auto
    then have "returns (fold_res (reconcile_retained_hash_block env) ?add q)
       (map_set q (\<lambda>h. if h \<in> set ?add then retained_block_candidate env q h
                       else map_of (retained_hash_to_block q) h))"
      using sets(2,3) sz by (intro reconcile_loop [OF q'(1) env, where H = "set ?next"]) auto
    then show ?thesis
      unfolding candidate_same_view [OF q'(2)] q'(3) by (auto elim!: returns_mono intro: map_set_trans [OF q])
  qed
  have final: "pool_ok env (q\<lparr>retained_hashes := ?next, applied_retention_revision := revision ?r\<rparr>)"
    if q: "map_set p ?M q" for q
  proof -
    have q': "core_ok q" "same_view p q" "map_of (retained_hash_to_block q) = ?M"
      using q by (auto simp: map_set_def)
    have "dom ?M \<subseteq> set ?next"
      using dm unfolding sets by (auto simp: restrict_map_def dom_def split: if_splits)
    moreover have "?M h \<noteq> None"
      if "debug_assertions env" "h \<in> set ?next" "common_block p h b" for h b
      using that ok(2) candidate_complete [OF env that(3)] sets
      by (auto simp: tracked_def restrict_map_def)
    ultimately have "tracked env q (set ?next)"
      unfolding tracked_def q'(3) common_block_same_view [OF q'(2)] by blast
    moreover have "retention_sync env (q\<lparr>retained_hashes := ?next, applied_retention_revision := revision ?r\<rparr>)"
      using ok(3,4) nx same_view_fields(9) [OF q'(2)]
      by (auto simp: retention_sync_def ret_ok_def counts_ok_def)
    ultimately show ?thesis using q'(1) by (simp add: pool_ok_def)
  qed
  have run: "sync_retention_locked env p =
     and_then (fold_res forget_retained_hash ?rem p) (\<lambda>p.
     and_then (fold_res (reconcile_retained_hash_block env) ?add p) (\<lambda>p.
     Inr (p\<lparr>retained_hashes := ?next, applied_retention_revision := revision ?r\<rparr>)))"
    using False by (simp add: sync_retention_locked_def synced_def Let_def)
  show ?thesis
    unfolding run returns_and_then returns_Inr
    by (rule returns_mono [OF forget_loop [OF ok(1)]], rule returns_mono [OF loop2], assumption)
      (use final in \<open>auto simp: synced_def map_set_def same_view_fields(9) dest: same_view_data\<close>)
qed

end
