(* ===== verification/Pool_Allocation.thy ===== *)
theory Pool_Allocation
  imports Pool_Invariant
begin

text \<open>
  Allocation from the block pool: releasing the hashes of revoked prefixes, the pressure loop that
  revokes the oldest prefixes until enough blocks are free, eviction of cached blocks, and the effect
  of \<open>get_new_blocks\<close> on the pool.
\<close>

section \<open>Releasing revoked hashes\<close>

definition hashes_released :: "rt_env \<Rightarrow> BlockPool \<Rightarrow> BlockHash list \<Rightarrow> BlockPool \<Rightarrow> bool" where
  "hashes_released env p hs p' \<longleftrightarrow>
     core_ok p' \<and> data_same p p' \<and> retention p' = retention p \<and>
     map_of (retained_hash_to_block p') = map_of (retained_hash_to_block p) |` (- set hs) \<and>
     retained_hashes p' =
       (if debug_assertions env then filter (\<lambda>h. h \<notin> set hs) (retained_hashes p) else retained_hashes p)"

lemma release_retained_hash_step:
  assumes "hashes_released env p hs q" and "debug_assertions env \<longrightarrow> h \<in> set (retained_hashes q)"
  shows "returns (release_retained_hash env h q) (hashes_released env p (hs @ [h]))"
proof -
  let ?q = "if debug_assertions env then q\<lparr>retained_hashes := removeAll h (retained_hashes q)\<rparr> else q"
  have eq: "release_retained_hash env h q = forget_retained_hash h ?q"
    using assms(2) by (simp add: release_retained_hash_def)
  have q: "core_ok ?q" "data_same p ?q" "retention ?q = retention p"
    "map_of (retained_hash_to_block ?q) = map_of (retained_hash_to_block p) |` (- set hs)"
    using assms(1) by (simp_all add: hashes_released_def)
  have "hashes_released env p (hs @ [h]) q'"
    if "map_set ?q ((map_of (retained_hash_to_block ?q))(h := None)) q'" for q'
  proof -
    have q': "core_ok q'" "same_view ?q q'"
      "map_of (retained_hash_to_block q') = (map_of (retained_hash_to_block ?q))(h := None)"
      using that by (simp_all add: map_set_def)
    have "retained_hashes q' = retained_hashes ?q" "retention q' = retention p"
      using same_view_fields [OF q'(2)] q(3) by simp_all
    moreover have "data_same p q'" using q(2) same_view_data [OF q'(2)] by (rule data_same_trans)
    moreover have "map_of (retained_hash_to_block q') = map_of (retained_hash_to_block p) |` (- set (hs @ [h]))"
      unfolding q'(3) q(4) by (auto simp: restrict_map_def fun_eq_iff)
    moreover have "removeAll h (filter (\<lambda>x. x \<notin> set hs) xs) = filter (\<lambda>x. x \<noteq> h \<and> x \<notin> set hs) xs" for xs
      by (simp add: removeAll_filter_not_eq) (metis (lifting))
    ultimately show ?thesis
      using assms(1) q'(1) by (simp add: hashes_released_def)
  qed
  then show ?thesis
    unfolding eq using forget_retained_hash_effect [OF q(1), of h] by (rule returns_mono [rotated])
qed

lemma release_retained_hashes_effect:
  assumes "core_ok p" and "distinct hs" and "debug_assertions env \<longrightarrow> set hs \<subseteq> set (retained_hashes p)"
  shows "returns (release_retained_hashes env hs p) (hashes_released env p hs)"
  unfolding release_retained_hashes_def
proof (rule returns_fold_res)
  show "hashes_released env p [] p" using assms(1) by (simp add: hashes_released_def restrict_map_def)
  fix "done" h rest q
  assume "hs = done @ h # rest" "hashes_released env p done q"
  then show "returns (release_retained_hash env h q) (hashes_released env p (done @ [h]))"
    using assms(2,3) by (intro release_retained_hash_step) (auto simp: hashes_released_def)
qed

section \<open>The pressure loop\<close>

definition live_ok :: "rt_env \<Rightarrow> BlockPool \<Rightarrow> bool" where
  "live_ok env p \<longleftrightarrow> pool_ok env (p\<lparr>applied_retention_revision := revision (retention p)\<rparr>)"

lemma live_ok_iff:
  "live_ok env p \<longleftrightarrow>
     core_ok p \<and> tracked env p (set (retained_hashes p)) \<and> ret_ok (retention p) \<and>
     length (hash_ref_counts (retention p)) \<le> u32_max \<and>
     revision (retention p) + length (entries (retention p)) \<le> u64_max \<and>
     distinct (retained_hashes p) \<and> length (retained_hashes p) \<le> u32_max \<and>
     (\<not> enabled (retention p) \<longrightarrow> retained_hashes p = []) \<and>
     leased (retention p) \<subseteq> set (retained_hashes p) \<and>
     (debug_assertions env \<longrightarrow> set (retained_hashes p) = leased (retention p))"
  by (auto simp: live_ok_def pool_ok_def retention_sync_def)

lemma synced_live: "synced p \<Longrightarrow> pool_ok env p \<Longrightarrow> live_ok env p"
  by (auto simp: live_ok_iff pool_ok_def retention_sync_def synced_def)

lemma leased_size: "ret_ok r \<Longrightarrow> length (hash_ref_counts r) = card (leased r)"
  by (simp add: ret_ok_def counts_ok_def length_as_card)

lemma data_same_common: "data_same p p' \<Longrightarrow> common_block p' = common_block p"
  by (simp add: common_block_def data_same_fields fun_eq_iff)

lemma release_live_ok:
  assumes live: "live_ok env p" and rem: "leased r = leased (retention p) - set hs" "ret_ok r"
    and room: "revision r + length (entries r) \<le> u64_max"
    and en: "enabled r = enabled (retention p)" and hs: "distinct hs" "set hs \<subseteq> leased (retention p)"
  shows "returns (release_retained_hashes env hs (p\<lparr>retention := r\<rparr>))
    (\<lambda>p'. live_ok env p' \<and> data_same p p' \<and> retention p' = r)"
proof -
  have ok: "core_ok p" "tracked env p (set (retained_hashes p))" "ret_ok (retention p)"
    using live by (auto simp: live_ok_iff)
  have sub: "leased (retention p) \<subseteq> set (retained_hashes p)" using live by (simp add: live_ok_iff)
  have "live_ok env p' \<and> data_same p p' \<and> retention p' = r"
    if "hashes_released env (p\<lparr>retention := r\<rparr>) hs p'" for p'
  proof -
    have p': "core_ok p'" "data_same p p'" "retention p' = r"
      "map_of (retained_hash_to_block p') = map_of (retained_hash_to_block p) |` (- set hs)"
      "retained_hashes p' = (if debug_assertions env then filter (\<lambda>h. h \<notin> set hs) (retained_hashes p)
         else retained_hashes p)"
      using that by (auto simp: hashes_released_def data_same_def frame_def cache_view_def refs_def keys_def fun_eq_iff)
    have "tracked env p' (set (retained_hashes p'))"
      using ok(2) unfolding tracked_def p'(4) data_same_common [OF p'(2)]
      by (auto simp: p'(5) restrict_map_def dom_def)
    moreover have "card (leased r) \<le> card (leased (retention p))"
      unfolding rem(1) by (rule card_mono) (auto simp: finite_dom_map_of)
    moreover have "length (filter P xs) \<le> u32_max" if "length xs \<le> u32_max" for P and xs :: "BlockHash list"
      using that length_filter_le order_trans by blast
    ultimately show ?thesis
      using live p' rem room en by (auto simp: live_ok_iff leased_size)
  qed
  moreover have "returns (release_retained_hashes env hs (p\<lparr>retention := r\<rparr>))
      (hashes_released env (p\<lparr>retention := r\<rparr>) hs)"
    using ok(1) hs sub by (intro release_retained_hashes_effect) auto
  ultimately show ?thesis by (auto elim!: returns_mono)
qed

lemma revoke_under_pressure_effect:
  assumes "live_ok env p"
  shows "returns (revoke_under_pressure env n e p)
    (\<lambda>(e', p'). live_ok env p' \<and> data_same p p' \<and> e \<le> e' \<and> (e' = e \<longrightarrow> p' = p) \<and>
       enabled (retention p') = enabled (retention p) \<and>
       (n \<le> num_free (free_queue p') \<or> entries (retention p') = []))"
  using assms
proof (induction env n e p rule: revoke_under_pressure.induct)
  case (1 env n e p)
  let ?r = "retention p"
  show ?case
  proof (cases "n > num_free (free_queue p)")
    case False
    then show ?thesis using 1(2) by (subst revoke_under_pressure.simps) simp
  next
    case more: True
    show ?thesis
    proof (cases "entries ?r")
      case Nil
      then show ?thesis
        using 1(2) more by (subst revoke_under_pressure.simps) (simp add: revoke_oldest_Nil)
    next
      case (Cons ie es)
      obtain i v where ie: "ie = (i, v)" by (cases ie)
      have ok: "ret_ok ?r" "revision ?r < u64_max" using 1(2) Cons by (auto simp: live_ok_iff)
      then obtain hs r where rv: "revoke_oldest ?r = Inr (Some hs, r)" "removed_entry ?r i hs r" "entries r = es"
        using revoke_oldest_Cons [OF ok(1), of i v es] Cons ie by (auto elim!: returnsE)
      have room: "revision r + length (entries r) \<le> u64_max"
        using 1(2) rv Cons by (auto simp: live_ok_iff removed_entry_def)
      have rel: "returns (release_retained_hashes env hs (p\<lparr>retention := r\<rparr>))
          (\<lambda>p'. live_ok env p' \<and> data_same p p' \<and> retention p' = r)"
        using rv(2) room by (intro release_live_ok [OF 1(2)]) (auto simp: removed_entry_def)
      then obtain q where q: "release_retained_hashes env hs (p\<lparr>retention := r\<rparr>) = Inr q"
        "live_ok env q" "data_same p q" "retention q = r"
        by (auto elim!: returnsE)
      note IH = 1(1) [OF more rv(1) refl refl q(1,2)]
      have run: "revoke_under_pressure env n e p = revoke_under_pressure env n (e + 1) q"
        using more rv(1) q(1) by (subst revoke_under_pressure.simps) simp
      show ?thesis
        unfolding run using IH q(3,4) rv(2)
        by (auto elim!: returns_mono intro: data_same_trans simp: removed_entry_def)
    qed
  qed
qed

section \<open>Counting free blocks\<close>

lemma num_free_queue:
  assumes "core_ok p"
  shows "num_free (free_queue p) = card (idle p - held p)"
proof -
  obtain ids where ids: "queue_rep (pool_queue p) ids" "set ids = {b \<in> idle p. holds p b = 0}" "distinct ids"
    using assms by (auto simp: core_ok_def elim: phys_okE)
  have "num_free (free_queue p) = card (set ids)"
    unfolding distinct_card [OF ids(3)] using ids(1) by (simp add: queue_rep_def)
  also have "set ids = idle p - held p"
    unfolding ids(2) by (auto simp: held_def idle_def real_block_def)
  finally show ?thesis .
qed

lemma num_free_blocks_idle: "core_ok p \<Longrightarrow> num_free_blocks p = card (idle p)"
  using card_Int_Diff [OF finite_idle, of p "held p"]
  by (simp add: num_free_blocks_def num_free_queue core_ok_def phys_ok_def Int_commute)

lemma no_retention_held:
  assumes "core_ok p" and "map_of (retained_hash_to_block p) = (\<lambda>_. None)"
  shows "held p = {}"
  using assms by (auto simp: held_def core_ok_def holds_ok_def)

text \<open>With debug assertions, once every lease is gone all idle blocks are on the free queue.\<close>

lemma unleased_num_free:
  assumes "live_ok env p" and "debug_assertions env" and "entries (retention p) = []"
  shows "num_free (free_queue p) = card (idle p)"
proof -
  have ok: "core_ok p" "ret_ok (retention p)" "tracked env p (leased (retention p))"
    using assms by (auto simp: live_ok_iff)
  have "h \<notin> leased (retention p)" for h using leased_iff [OF ok(2), of h] assms(3) by simp
  then have "leased (retention p) = {}" by blast
  then have "map_of (retained_hash_to_block p) = (\<lambda>_. None)"
    using ok(3) unfolding tracked_def by (metis dom_eq_empty_conv subset_empty)
  then have "held p = {}" using no_retention_held [OF ok(1)] by simp
  then show ?thesis using num_free_queue [OF ok(1)] by simp
qed

section \<open>Writing one block\<close>

lemma queue_rep_upd:
  assumes "b < length bs" and "next_free x = next_free (bs ! b)" and "prev_free x = prev_free (bs ! b)"
  shows "queue_rep (bs[b := x], q) ids = queue_rep (bs, q) ids"
proof -
  have "nx_of (bs[b := x]) = nx_of bs" "pv_of (bs[b := x]) = pv_of bs"
    using assms by (auto simp: nx_of_def pv_of_def fun_eq_iff nth_list_update_if)
  then show ?thesis by (simp add: queue_rep_def chain_ok_def)
qed

lemma block_upd_views:
  assumes "b < length (blocks p)" and "is_null x = is_null (blocks p ! b)"
  shows "frame (p\<lparr>blocks := (blocks p)[b := x]\<rparr>) = frame p"
    and "refs (p\<lparr>blocks := (blocks p)[b := x]\<rparr>) = (refs p)(b := ref_cnt x)"
    and "keys (p\<lparr>blocks := (blocks p)[b := x]\<rparr>) = (keys p)(b := block_hashes x)"
    and "holds (p\<lparr>blocks := (blocks p)[b := x]\<rparr>) = holds p"
proof -
  have "map is_null ((blocks p)[b := x]) = map is_null (blocks p)"
    using assms by (simp add: map_update list_update_same_conv)
  then show "frame (p\<lparr>blocks := (blocks p)[b := x]\<rparr>) = frame p"
    by (simp add: frame_def)
qed (use assms in \<open>auto simp: refs_def keys_def holds_def fun_eq_iff nth_list_update_if\<close>)

lemma frame_fields:
  assumes "frame p' = frame p"
  shows "num_gpu_blocks p' = num_gpu_blocks p" "real_block p' = real_block p"
    "retention_group_ids p' = retention_group_ids p" "enable_caching p' = enable_caching p"
    "null_block_id p' = null_block_id p"
  using assms by (simp_all add: frame_def real_block_def fun_eq_iff)

lemma idle_upd:
  assumes "frame p' = frame p" and "refs p' = (refs p)(b := v)" and "real_block p b"
  shows "idle p' = (if v = 0 then insert b (idle p) else idle p - {b})"
  using assms(2,3) unfolding idle_def frame_fields [OF assms(1)] by auto

text \<open>How the accounting moves when the reference count of one real block changes.\<close>

lemma phys_ok_refs:
  assumes "frame p' = frame p" and "refs p' = (refs p)(b := v)" and "holds p' = holds p" and "real_block p b"
    and "queue_rep (pool_queue p') ids'"
    and "set ids' = {x \<in> (if v = 0 then insert b (idle p) else idle p - {b}). holds p x = 0}"
    and "num_retained_physical_blocks p' = card (held p)"
    and "num_retained_free_blocks p' = card (held p \<inter> (if v = 0 then insert b (idle p) else idle p - {b}))"
  shows "phys_ok p'"
proof -
  have "held p' = held p" unfolding held_def assms(3) frame_fields [OF assms(1)] ..
  then show ?thesis
    using assms(5-) unfolding phys_ok_def idle_upd [OF assms(1,2,4)] assms(3) by auto
qed

section \<open>Allocation\<close>

text \<open>Nothing but the data of one block changes; retained prefixes and the registry are untouched.\<close>

definition block_set ::
    "BlockPool \<Rightarrow> nat \<Rightarrow> nat \<Rightarrow> BlockHashWithGroupId list \<Rightarrow> BlockPool \<Rightarrow> bool" where
  "block_set p b v ks p' \<longleftrightarrow>
     core_ok p' \<and> frame p' = frame p \<and> sync_view p' = sync_view p \<and> holds p' = holds p \<and>
     retained_hash_to_block p' = retained_hash_to_block p \<and>
     refs p' = (refs p)(b := v) \<and> keys p' = (keys p)(b := ks)"

lemma holds_ok_cong:
  "frame p' = frame p \<Longrightarrow> holds p' = holds p \<Longrightarrow>
   retained_hash_to_block p' = retained_hash_to_block p \<Longrightarrow> holds_ok p' = holds_ok p"
  by (simp add: holds_ok_def frame_def)

lemma unheld_not_retained:
  assumes "core_ok p" and "b < num_gpu_blocks p + 2" and "holds p b = 0"
  shows "map_of (retained_hash_to_block p) h \<noteq> Some b"
  using assms finite_holders [of "retained_hash_to_block p" b] by (auto simp: core_ok_def holds_ok_def)

lemma keys_uncached:
  assumes "cache_ok p" and "\<not> enable_caching p" and "b < num_gpu_blocks p + 2"
  shows "keys p b = []"
  using assms by (auto simp: cache_ok_def)

text \<open>Dropping all keys of a block, as eviction does.\<close>

lemma cache_ok_evict:
  assumes "cache_ok p" and "real_block p b" and "frame p' = frame p" and "keys p' = (keys p)(b := [])"
    and "hash_index p' = fold (\<lambda>k m. snd (index_pop k b m)) (keys p b) (hash_index p)"
    and "num_prefix_cached_physical_blocks p' =
      num_prefix_cached_physical_blocks p - (if keys p b = [] then 0 else 1)"
  shows "cache_ok p'"
proof -
  have ok: "index_ok (hash_index p)" using assms(1) by (simp add: cache_ok_def)
  note pop = hidx.pop_all [OF ok, of b "keys p b"]
  let ?A = "{x. x < num_gpu_blocks p + 2 \<and> keys p x \<noteq> []}"
  have "{x. x < num_gpu_blocks p + 2 \<and> ((keys p)(b := [])) x \<noteq> []} = ?A - {b}" by auto
  moreover have "keys p b \<noteq> [] \<Longrightarrow> b \<in> ?A" using assms(2) by (simp add: real_block_def)
  moreover have "num_prefix_cached_physical_blocks p = card ?A" using assms(1) by (simp add: cache_ok_def)
  ultimately have "num_prefix_cached_physical_blocks p' =
      card {x. x < num_gpu_blocks p + 2 \<and> ((keys p)(b := [])) x \<noteq> []}"
    unfolding assms(6) by (cases "keys p b = []") (simp_all del: fun_upd_apply)
  then show ?thesis
    using assms(1) pop unfolding cache_ok_def assms(4,5) frame_fields [OF assms(3)] by auto
qed

lemma maybe_evict_eq:
  assumes "cache_ok p" and "real_block p b" and "holds p b = 0" and "b < length (blocks p)"
    and "b < length (block_retention_counts p)"
  shows "maybe_evict_cached_block env b p =
    Inr (p\<lparr>blocks := (blocks p)[b := (blocks p ! b)\<lparr>block_hashes := []\<rparr>],
          hash_index := fold (\<lambda>k m. snd (index_pop k b m)) (keys p b) (hash_index p),
          num_prefix_cached_physical_blocks :=
            num_prefix_cached_physical_blocks p - (if keys p b = [] then 0 else 1)\<rparr>)"
proof -
  have "Suc 0 \<le> num_prefix_cached_physical_blocks p" if "keys p b \<noteq> []"
    using assms(1,2) that
    by (auto simp: cache_ok_def real_block_def intro!: Suc_le_card [where x = b])
  then show ?thesis
    using assms(3-5) by (auto simp: maybe_evict_cached_block_def Let_def holds_def keys_def)
qed

lemma same_view_cache_ok: "same_view p p' \<Longrightarrow> cache_ok p' = cache_ok p"
  using cache_ok_view [of p' p] by (simp add: same_view_def)

definition claimed :: "nat \<Rightarrow> BlockPool \<Rightarrow> BlockPool" where
  "claimed b q =
     q\<lparr>blocks := (blocks q)[b := (blocks q ! b)\<lparr>block_hashes := [], ref_cnt := 1\<rparr>],
       hash_index := fold (\<lambda>k m. snd (index_pop k b m)) (keys q b) (hash_index q),
       num_prefix_cached_physical_blocks :=
         num_prefix_cached_physical_blocks q - (if keys q b = [] then 0 else 1)\<rparr>"

lemma allocate_one_eq:
  assumes "popleft (debug_assertions env) (pool_queue p) = Inr (Some b, s)" and q: "q = set_queue s p"
    and "cache_ok q" and "shape_ok q" and "real_block q b" and "holds q b = 0" and "refs q b = 0"
  shows "allocate_one env p = Inr (b, claimed b q)"
proof -
  note bnd = real_block_bounds [OF assms(4,5)]
  note ev = maybe_evict_eq [OF assms(3,5,6) bnd(1,2)]
  have r: "ref_cnt (blocks q ! b) = 0" using assms(7) by (simp add: refs_def)
  have k: "\<not> enable_caching q \<Longrightarrow> block_hashes (blocks q ! b) = []"
    using keys_uncached [OF assms(3) _ bnd(4)] by (simp add: keys_def)
  show ?thesis
  proof (cases "enable_caching q")
    case True
    then show ?thesis
      using assms(1) bnd(1) r ev by (simp add: allocate_one_def q [symmetric] claimed_def keys_def Let_def)
  next
    case False
    have "allocate_one env p = Inr (b, q\<lparr>blocks := (blocks q)[b := (blocks q ! b)\<lparr>ref_cnt := 1\<rparr>]\<rparr>)"
      using assms(1) bnd(1) r False by (simp add: allocate_one_def q [symmetric] Let_def)
    moreover have "(blocks q ! b)\<lparr>ref_cnt := 1\<rparr> = (blocks q ! b)\<lparr>block_hashes := [], ref_cnt := 1\<rparr>"
      using k [OF False] by (cases "blocks q ! b") simp
    moreover have "keys q b = []" using k [OF False] by (simp add: keys_def)
    ultimately show ?thesis by (simp add: claimed_def)
  qed
qed

lemma claimed_view:
  assumes "b < length (blocks q)"
  shows "frame (claimed b q) = frame q" and "sync_view (claimed b q) = sync_view q"
    and "holds (claimed b q) = holds q" and "refs (claimed b q) = (refs q)(b := 1)"
    and "keys (claimed b q) = (keys q)(b := [])"
    and "retained_hash_to_block (claimed b q) = retained_hash_to_block q"
    and "queue_rep (pool_queue (claimed b q)) ids = queue_rep (pool_queue q) ids"
    and "free_queue (claimed b q) = free_queue q"
    and "num_retained_physical_blocks (claimed b q) = num_retained_physical_blocks q"
    and "num_retained_free_blocks (claimed b q) = num_retained_free_blocks q"
proof -
  let ?x = "(blocks q ! b)\<lparr>block_hashes := [], ref_cnt := 1\<rparr>"
  have n: "is_null ?x = is_null (blocks q ! b)" by simp
  note v = block_upd_views [OF assms n]
  show "frame (claimed b q) = frame q" "holds (claimed b q) = holds q"
    "refs (claimed b q) = (refs q)(b := 1)" "keys (claimed b q) = (keys q)(b := [])"
    using v by (auto simp: claimed_def frame_def holds_def refs_def keys_def fun_eq_iff)
  show "queue_rep (pool_queue (claimed b q)) ids = queue_rep (pool_queue q) ids"
    using queue_rep_upd [OF assms, of ?x] by (simp add: claimed_def)
qed (simp_all add: claimed_def sync_view_def)

lemma claimed_ok:
  assumes core: "core_ok p" and view: "same_view p q"
    and same: "block_retention_counts q = block_retention_counts p"
      "retained_hash_to_block q = retained_hash_to_block p"
      "num_retained_physical_blocks q = num_retained_physical_blocks p"
      "num_retained_free_blocks q = num_retained_free_blocks p"
    and b: "b \<in> idle p" "holds p b = 0" and rep: "queue_rep (pool_queue q) ids"
    and ids: "set ids = {x \<in> idle p. holds p x = 0} - {b}"
  shows "block_set p b 1 [] (claimed b q)"
proof -
  have ok: "shape_ok p" "phys_ok p" "holds_ok p" "retained_ok p" "cache_ok p"
    using core by (auto simp: core_ok_def)
  have real: "real_block p b" using b by (simp add: idle_def)
  note f = same_view_fields [OF view] and q = core_ok_same_view [OF core view]
  have hq: "holds q = holds p" using same(1) by (simp add: holds_def fun_eq_iff)
  have rq: "real_block q b" using real f(2) by simp
  note bnd = real_block_bounds [OF q(1) rq]
  note v = claimed_view [OF bnd(1)]
  have fr: "frame (claimed b q) = frame p" using v(1) view by (simp add: same_view_def)
  have "cache_ok (claimed b q)"
    by (rule cache_ok_evict [OF q(2) rq v(1,5)]) (simp_all add: claimed_def)
  moreover have "phys_ok (claimed b q)"
  proof (rule phys_ok_refs [OF fr, of b 1])
    have "b \<notin> held p" using b by (simp add: held_def)
    then have "held p \<inter> (idle p - {b}) = held p \<inter> idle p" by blast
    then show "num_retained_free_blocks (claimed b q) =
        card (held p \<inter> (if (1::nat) = 0 then insert b (idle p) else idle p - {b}))"
      using ok(2) same(4) by (simp add: v phys_ok_def)
    show "queue_rep (pool_queue (claimed b q)) ids" using rep v(7) by simp
  qed (use v f hq real same ok(2) ids in \<open>auto simp: phys_ok_def\<close>)
  moreover have "holds_ok (claimed b q)"
    using holds_ok_cong [OF fr, unfolded v, OF hq same(2)] ok(3) by simp
  moreover have "retained_ok (claimed b q)"
    using ok(4) unheld_not_retained [OF core _ b(2)] real_block_bounds(4) [OF ok(1) real]
    unfolding retained_ok_def v frame_fields [OF fr] same f by (auto simp: fun_upd_apply)
  moreover have "shape_ok (claimed b q)" using shape_ok_frame [OF fr] ok(1) by simp
  ultimately show ?thesis
    using v view fr hq same f(4) by (simp add: block_set_def core_ok_def same_view_def)
qed

lemma allocate_one_effect:
  assumes core: "core_ok p" and free: "0 < num_free (free_queue p)"
  shows "returns (allocate_one env p)
    (\<lambda>(b, p'). b \<in> idle p \<and> holds p b = 0 \<and> block_set p b 1 [] p' \<and>
       Suc (num_free (free_queue p')) = num_free (free_queue p))"
proof -
  have ok: "shape_ok p" "phys_ok p" "cache_ok p" using core by (auto simp: core_ok_def)
  obtain bs where bs: "queue_rep (pool_queue p) bs" "set bs = {b \<in> idle p. holds p b = 0}" "distinct bs"
    using ok(2) by (rule phys_okE)
  moreover have "bs \<noteq> []" using bs(1) free by (auto simp: queue_rep_def)
  ultimately obtain b ids where ids: "queue_rep (pool_queue p) (b # ids)"
    "set (b # ids) = {b \<in> idle p. holds p b = 0}" "distinct (b # ids)"
    by (metis neq_Nil_conv)
  have b: "b \<in> idle p" "holds p b = 0" using ids(2) by auto
  obtain s where s: "popleft (debug_assertions env) (pool_queue p) = Inr (Some b, s)" "queue_rep s ids"
    "queue_content s = queue_content (pool_queue p)"
    using popleft_Cons [OF ids(1), of "debug_assertions env"] by (auto elim!: returnsE)
  note sv = set_queue_view [OF s(3)]
  have q: "block_set p b 1 [] (claimed b (set_queue s p))"
    by (rule claimed_ok [OF core sv(1) sv(3-6) b, of ids, unfolded sv(2), OF s(2)]) (use ids in auto)
  have "allocate_one env p = Inr (b, claimed b (set_queue s p))"
    by (rule allocate_one_eq [OF s(1) refl])
      (use core_ok_same_view [OF core sv(1)] same_view_fields [OF sv(1)] b sv(3) in
        \<open>simp_all add: idle_def holds_def\<close>)
  moreover have "Suc (num_free (snd s)) = num_free (free_queue p)"
    using ids(1) s(2) by (cases s) (simp add: queue_rep_def)
  ultimately show ?thesis using q b by (simp add: claimed_def set_queue_def)
qed

definition blocks_taken :: "BlockPool \<Rightarrow> nat list \<Rightarrow> BlockPool \<Rightarrow> bool" where
  "blocks_taken p bs p' \<longleftrightarrow>
     core_ok p' \<and> frame p' = frame p \<and> sync_view p' = sync_view p \<and> holds p' = holds p \<and>
     retained_hash_to_block p' = retained_hash_to_block p \<and>
     distinct bs \<and> set bs \<subseteq> idle p \<and> (\<forall>b \<in> set bs. holds p b = 0) \<and>
     (\<forall>b. refs p' b = (if b \<in> set bs then 1 else refs p b)) \<and>
     (\<forall>b. keys p' b = (if b \<in> set bs then [] else keys p b))"

lemma allocate_free_blocks_effect:
  assumes "core_ok p" and "n \<le> num_free (free_queue p)"
  shows "returns (allocate_free_blocks env n p) (\<lambda>(bs, p'). length bs = n \<and> blocks_taken p bs p')"
  using assms
proof (induction n arbitrary: p)
  case 0
  then show ?case by (simp add: blocks_taken_def)
next
  case (Suc n)
  have "0 < num_free (free_queue p)" using Suc.prems(2) by simp
  then obtain b q where q: "allocate_one env p = Inr (b, q)" "b \<in> idle p" "holds p b = 0"
    "block_set p b 1 [] q" "Suc (num_free (free_queue q)) = num_free (free_queue p)"
    using allocate_one_effect [OF Suc.prems(1), of env] by (auto elim!: returnsE)
  have real: "real_block p b" using q(2) by (simp add: idle_def)
  have bq: "core_ok q" "frame q = frame p" "sync_view q = sync_view p" "holds q = holds p"
    "retained_hash_to_block q = retained_hash_to_block p" "refs q = (refs p)(b := 1)" "keys q = (keys p)(b := [])"
    using q(4) by (auto simp: block_set_def)
  have id: "idle q = idle p - {b}" using idle_upd [OF bq(2,6) real] by simp
  have step: "blocks_taken p (b # bs) r" if "blocks_taken q bs r" for bs r
    using that q(2,3) id bq unfolding blocks_taken_def by auto
  have "returns (allocate_free_blocks env n q) (\<lambda>(bs, p'). length bs = n \<and> blocks_taken q bs p')"
    using q(5) Suc.prems(2) by (intro Suc.IH [OF bq(1)]) simp
  then show ?case
    using q(1) by (auto elim!: returns_mono intro: step)
qed

lemma blocks_taken_pool_ok:
  assumes "pool_ok env p" and "blocks_taken p bs p'"
  shows "pool_ok env p'"
proof -
  have p': "core_ok p'" "frame p' = frame p" "sync_view p' = sync_view p"
    "retained_hash_to_block p' = retained_hash_to_block p"
    "\<forall>b. keys p' b = (if b \<in> set bs then [] else keys p b)"
    using assms(2) by (auto simp: blocks_taken_def)
  have sub: "index_contains (hash_index p) k b" if "index_contains (hash_index p') k b" for k b
    using that p'(1,5) assms(1) unfolding pool_ok_def core_ok_def cache_ok_def
    by (auto simp: frame_fields [OF p'(2)] split: if_splits)
  then have "common_block p' h b \<Longrightarrow> common_block p h b" for h b
    by (auto simp: common_block_def frame_fields [OF p'(2)])
  then have "tracked env p' H" if "tracked env p H" for H
    using that unfolding tracked_def p'(4) by blast
  then show ?thesis
    using assms(1) p'(1,3) by (auto simp: pool_ok_def retention_sync_def sync_view_def)
qed

lemma pool_ok_publish [simp]:
  "pool_ok env (p\<lparr>retention := publish_revocation (retention p)\<rparr>) = pool_ok env p"
  by (simp add: pool_ok_def retention_sync_def) (simp add: publish_revocation_def)

text \<open>
  What \<open>get_new_blocks\<close> does: blocks are handed out only from idle, unheld ones; with debug assertions
  a request within \<open>num_free_blocks\<close> always succeeds.
\<close>

definition new_blocks :: "BlockPool \<Rightarrow> nat list \<Rightarrow> BlockPool \<Rightarrow> bool" where
  "new_blocks p bs p' \<longleftrightarrow>
     frame p' = frame p \<and> distinct bs \<and> set bs \<subseteq> idle p \<and>
     (\<forall>b. refs p' b = (if b \<in> set bs then 1 else refs p b)) \<and>
     (\<forall>b. keys p' b = (if b \<in> set bs then [] else keys p b))"

lemma new_blocksI: "data_same p q \<Longrightarrow> blocks_taken q bs p' \<Longrightarrow> new_blocks p bs p'"
  by (auto simp: new_blocks_def blocks_taken_def data_same_fields) (simp_all add: data_same_def)

lemma get_new_blocks_effect:
  assumes ok: "pool_ok env p" and env: "env_ok env"
  shows "returns (get_new_blocks env n p)
    (\<lambda>(res, p'). pool_ok env p' \<and>
       (case res of None \<Rightarrow> data_same p p' \<and> (debug_assertions env \<longrightarrow> card (idle p) < n)
        | Some bs \<Rightarrow> length bs = n \<and> n \<le> card (idle p) \<and> new_blocks p bs p'))"
proof -
  have core: "core_ok p" using ok by (simp add: pool_ok_def)
  let ?Q = "\<lambda>(res, p'). pool_ok env p' \<and>
       (case res of None \<Rightarrow> data_same p p' \<and> (debug_assertions env \<longrightarrow> card (idle p) < n)
        | Some bs \<Rightarrow> length bs = n \<and> n \<le> card (idle p) \<and> new_blocks p bs p')"
  consider (much) "n > card (idle p)" | (plain) "n \<le> card (idle p)" "\<not> enabled (retention p)"
    | (ret) "n \<le> card (idle p)" "enabled (retention p)" by linarith
  then show ?thesis
  proof cases
    case much
    then show ?thesis using ok by (simp add: get_new_blocks_def num_free_blocks_idle [OF core])
  next
    case plain
    have "retained_hashes p = []" using ok plain by (simp add: pool_ok_def retention_sync_def)
    then have "map_of (retained_hash_to_block p) = (\<lambda>_. None)" using ok by (simp add: pool_ok_def tracked_def)
    then have "n \<le> num_free (free_queue p)"
      using plain num_free_queue [OF core] no_retention_held [OF core] by simp
    then show ?thesis
      using plain ok allocate_free_blocks_effect [OF core, of n env]
      by (auto simp: get_new_blocks_def num_free_blocks_idle [OF core] elim!: returns_mono
          intro: blocks_taken_pool_ok new_blocksI [OF data_same_refl])
  next
    case ret
    obtain q where q: "sync_retention_locked env p = Inr q" "pool_ok env q" "synced q" "data_same p q"
      "retention q = retention p"
      using sync_retention_locked_effect [OF ok env] by (auto elim!: returnsE)
    obtain e r where r: "revoke_under_pressure env n 0 q = Inr (e, r)" "live_ok env r" "data_same q r"
      "n \<le> num_free (free_queue r) \<or> entries (retention r) = []"
      using revoke_under_pressure_effect [OF synced_live [OF q(3,2)], of n 0] by (auto elim!: returnsE)
    let ?r = "r\<lparr>applied_retention_revision := revision (retention r)\<rparr>"
    define t where "t = (if e > 0 then ?r\<lparr>retention := publish_revocation (retention ?r)\<rparr> else ?r)"
    have t: "pool_ok env t" "data_same p t" "free_queue t = free_queue r"
      using r(2) data_same_trans [OF q(4) r(3)] pool_ok_publish [of env ?r] by (auto simp: t_def live_ok_def)
    have run: "get_new_blocks env n p =
        (if n > num_free (free_queue t) then Inr (None, t)
         else and_then (allocate_free_blocks env n t) (\<lambda>(bs, p). Inr (Some bs, p)))"
      using ret q(1) r(1)
      by (simp add: get_new_blocks_def num_free_blocks_idle [OF core] t_def Let_def)
    show ?thesis
    proof (cases "n > num_free (free_queue t)")
      case True
      then have "debug_assertions env \<Longrightarrow> card (idle p) < n"
        using r(4) unleased_num_free [OF r(2)] data_same_fields(6) [OF t(2)]
          data_same_fields(6) [OF data_same_trans [OF q(4) r(3)]]
        by (simp add: t(3))
      then show ?thesis using True t run by simp
    next
      case False
      then have "core_ok t" "n \<le> num_free (free_queue t)" using t(1) by (auto simp: pool_ok_def)
      then show ?thesis
        using run False ret(1) t allocate_free_blocks_effect [of t n env]
        by (auto elim!: returns_mono intro: blocks_taken_pool_ok new_blocksI [OF t(2)])
    qed
  qed
qed

end
