(* ===== verification/Pool_References.thy ===== *)
theory Pool_References
  imports Pool_Allocation
begin

text \<open>
  Reference counting in the block pool: \<open>touch\<close> and \<open>free_blocks\<close>, their effect on the counts, the
  free queue and the retained blocks, and the refusal to release references a block does not have.
\<close>

section \<open>Reference counts\<close>

lemma ref_moved:
  assumes core: "core_ok p" and real: "real_block p b"
    and fr: "frame p' = frame p" and cv: "cache_view p' = cache_view p" and sv: "sync_view p' = sync_view p"
    and rf: "refs p' = (refs p)(b := v)" and hl: "holds p' = holds p"
    and rh: "retained_hash_to_block p' = retained_hash_to_block p"
    and np: "num_retained_physical_blocks p' = num_retained_physical_blocks p"
    and rep: "queue_rep (pool_queue p') ids'"
    and ids: "set ids' = {x \<in> (if v = 0 then insert b (idle p) else idle p - {b}). holds p x = 0}"
    and nf: "num_retained_free_blocks p' =
      card (held p \<inter> (if v = 0 then insert b (idle p) else idle p - {b}))"
  shows "block_set p b v (keys p b) p'"
proof -
  have ok: "shape_ok p" "phys_ok p" "holds_ok p" "retained_ok p" "cache_ok p"
    using core by (auto simp: core_ok_def)
  have k: "keys p' = keys p" using cv by (simp add: cache_view_def)
  have "phys_ok p'"
    using np ok(2) by (intro phys_ok_refs [OF fr rf hl real rep ids _ nf]) (simp add: phys_ok_def)
  moreover have "retained_ok p'"
    using ok(4) unfolding retained_ok_def rh k frame_fields [OF fr] .
  moreover have "shape_ok p'" "cache_ok p'" "holds_ok p'"
    using ok shape_ok_frame [OF fr] cache_ok_view [OF fr cv] holds_ok_cong [OF fr hl rh] by simp_all
  ultimately show ?thesis
    using fr sv hl rh rf k by (simp add: block_set_def core_ok_def)
qed

lemma ref_write_view:
  assumes "b < length (blocks p)" and "p' = p\<lparr>blocks := (blocks p)[b := (blocks p ! b)\<lparr>ref_cnt := v\<rparr>]\<rparr>"
  shows "frame p' = frame p" and "cache_view p' = cache_view p" and "sync_view p' = sync_view p"
    and "refs p' = (refs p)(b := v)" and "holds p' = holds p"
    and "retained_hash_to_block p' = retained_hash_to_block p"
    and "num_retained_physical_blocks p' = num_retained_physical_blocks p"
    and "num_retained_free_blocks p' = num_retained_free_blocks p"
    and "queue_rep (pool_queue p') ids = queue_rep (pool_queue p) ids"
proof -
  let ?x = "(blocks p ! b)\<lparr>ref_cnt := v\<rparr>"
  have "is_null ?x = is_null (blocks p ! b)" by simp
  note v = block_upd_views [OF assms(1) this, folded assms(2)]
  show "frame p' = frame p" "refs p' = (refs p)(b := v)" "holds p' = holds p" using v by simp_all
  show "cache_view p' = cache_view p"
    using v(3) by (simp add: cache_view_def assms(2) fun_upd_idem keys_def)
  show "queue_rep (pool_queue p') ids = queue_rep (pool_queue p) ids"
    using queue_rep_upd [OF assms(1), of ?x] by (simp add: assms(2))
qed (simp_all add: assms(2) sync_view_def)

lemma held_minus: "b \<notin> A \<Longrightarrow> H \<inter> (A - {b}) = H \<inter> A"
  by blast

lemma touch_one_effect:
  assumes core: "core_ok p" and real: "real_block p b" and room: "refs p b < u32_max"
  shows "returns (touch_one env b p) (block_set p b (Suc (refs p b)) (keys p b))"
proof -
  have ok: "shape_ok p" "phys_ok p" using core by (auto simp: core_ok_def)
  obtain ids where ids: "queue_rep (pool_queue p) ids" "set ids = {b \<in> idle p. holds p b = 0}" "distinct ids"
    using ok(2) by (rule phys_okE)
  note bnd = real_block_bounds [OF ok(1) real] and cnt = phys_counters [OF ok(2)]
  let ?w = "\<lambda>q. q\<lparr>blocks := (blocks q)[b := (blocks q ! b)\<lparr>ref_cnt := Suc (ref_cnt (blocks q ! b))\<rparr>]\<rparr>"
  have wrote: "block_set p b (Suc (refs p b)) (keys p b) (?w q)"
    if v: "same_view p q" and same: "block_retention_counts q = block_retention_counts p"
      "retained_hash_to_block q = retained_hash_to_block p"
      "num_retained_physical_blocks q = num_retained_physical_blocks p"
      and rep: "queue_rep (pool_queue q) ids'" "set ids' = {x \<in> idle p - {b}. holds p x = 0}"
      and nf: "num_retained_free_blocks q = card (held p \<inter> (idle p - {b}))" for q ids'
  proof -
    note f = same_view_fields [OF v]
    have sq: "shape_ok q" using core_ok_same_view [OF core v] by simp
    have rq: "real_block q b" using real f(2) by simp
    note w = ref_write_view [OF real_block_bounds(1) [OF sq rq] refl, of "Suc (ref_cnt (blocks q ! b))"]
    have r: "ref_cnt (blocks q ! b) = refs p b" using f(3) by (metis refs_def)
    show ?thesis
      by (rule ref_moved [OF core real, where ids' = ids'])
        (use w v same rep nf r f(3) in \<open>simp_all add: same_view_def holds_def fun_eq_iff\<close>)
  qed
  consider (used) "refs p b \<noteq> 0" | (queued) "refs p b = 0" "holds p b = 0" | (retained) "refs p b = 0" "holds p b \<noteq> 0"
    by blast
  then show ?thesis
  proof cases
    case used
    then have eq: "touch_one env b p = Inr (?w p)"
      using bnd room by (simp add: touch_one_def refs_def)
    have "b \<notin> idle p" using used by (simp add: idle_def)
    then show ?thesis
      unfolding eq returns_Inr using ids cnt by (intro wrote [of p ids]) (auto simp: held_minus)
  next
    case retained
    then have m: "b \<in> held p \<inter> idle p" using bnd real by (simp add: held_def idle_def)
    then have "Suc 0 \<le> card (held p \<inter> idle p)" by (auto intro: Suc_le_card)
    then have eq: "touch_one env b p = Inr (?w (p\<lparr>num_retained_free_blocks := card (held p \<inter> idle p) - 1\<rparr>))"
      using bnd room retained cnt by (simp add: touch_one_def refs_def holds_def)
    have "held p \<inter> (idle p - {b}) = held p \<inter> idle p - {b}" by blast
    moreover have "set ids = {x \<in> idle p - {b}. holds p x = 0}" using ids(2) retained by auto
    ultimately show ?thesis
      unfolding eq returns_Inr using ids(1) m
      by (intro wrote [of _ ids]) (simp_all add: same_view_counts card_Diff_singleton)
  next
    case queued
    then have i: "b \<in> set ids" using ids(2) real by (simp add: idle_def)
    then obtain s where s: "queue_remove (debug_assertions env) b (pool_queue p) = Inr s"
      "queue_rep s (remove1 b ids)" "queue_content s = queue_content (pool_queue p)"
      using queue_remove_law [OF ids(1) i, of "debug_assertions env"] by (auto elim!: returnsE)
    note sv = set_queue_view [OF s(3)]
    have sq: "shape_ok (set_queue s p)" using core_ok_same_view [OF core sv(1)] by simp
    have r: "ref_cnt (blocks (set_queue s p) ! b) = refs p b"
      using same_view_fields(3) [OF sv(1)] by (metis refs_def)
    have eq: "touch_one env b p = Inr (?w (set_queue s p))"
      using bnd room queued s(1) r shape_fields(1) [OF sq] shape_fields(1) [OF ok(1)]
        same_view_fields(1) [OF sv(1)]
      by (simp add: touch_one_def refs_def holds_def)
    have "b \<notin> held p" using queued by (simp add: held_def)
    then have "held p \<inter> (idle p - {b}) = held p \<inter> idle p" by blast
    then show ?thesis
      unfolding eq returns_Inr
      by (intro wrote [of _ "remove1 b ids", OF sv(1,3-5)]) (use ids sv cnt s(2) in auto)
  qed
qed

lemma release_one_effect:
  assumes core: "core_ok p" and real: "real_block p b" and c: "0 < c" "c \<le> refs p b"
    and rep: "queue_rep (pool_queue p) ids" "set ids = {b \<in> idle p. holds p b = 0}"
  shows "returns (release_one env b c p)
    (\<lambda>p'. block_set p b (refs p b - c) (keys p b) p' \<and>
       queue_rep (pool_queue p') (if refs p b = c \<and> holds p b = 0 then ids @ [b] else ids))"
proof -
  have ok: "shape_ok p" "phys_ok p" using core by (auto simp: core_ok_def)
  note bnd = real_block_bounds [OF ok(1) real] and cnt = phys_counters [OF ok(2)]
  let ?w = "p\<lparr>blocks := (blocks p)[b := (blocks p ! b)\<lparr>ref_cnt := refs p b - c\<rparr>]\<rparr>"
  note w = ref_write_view [OF bnd(1) refl, of "refs p b - c"]
  have busy: "b \<notin> idle p" using c by (simp add: idle_def)
  consider (used) "c < refs p b" | (queued) "c = refs p b" "holds p b = 0"
    | (retained) "c = refs p b" "holds p b \<noteq> 0" using c by linarith
  then show ?thesis
  proof cases
    case used
    then have eq: "release_one env b c p = Inr ?w"
      using bnd by (simp add: release_one_def refs_def)
    have "block_set p b (refs p b - c) (keys p b) ?w"
      by (rule ref_moved [OF core real w(1-7), where ids' = ids])
        (use used rep busy cnt w(8,9) in \<open>auto simp: held_minus\<close>)
    then show ?thesis unfolding eq using used rep(1) w(9) by simp
  next
    case retained
    then have eq: "release_one env b c p =
        Inr (?w\<lparr>num_retained_free_blocks := num_retained_free_blocks p + 1\<rparr>)" (is "_ = Inr ?q")
      using bnd by (simp add: release_one_def refs_def holds_def)
    have q: "frame ?q = frame ?w" "cache_view ?q = cache_view ?w" "sync_view ?q = sync_view ?w"
      "refs ?q = refs ?w" "holds ?q = holds ?w"
      by (simp_all add: frame_def cache_view_def sync_view_def refs_def holds_def keys_def fun_eq_iff)
    have h: "b \<in> held p" using retained bnd by (simp add: held_def)
    then have "card (held p \<inter> insert b (idle p)) = Suc (card (held p \<inter> idle p))"
      using busy by (simp add: Int_insert_right)
    then have "block_set p b (refs p b - c) (keys p b) ?q"
      using q w by (intro ref_moved [OF core real, where ids' = ids]) (use retained rep cnt in auto)
    then show ?thesis unfolding eq using retained rep(1) w(9) by simp
  next
    case queued
    have qw: "queue_rep (pool_queue ?w) ids" using w(9) rep(1) by simp
    have sw: "shape_ok ?w" "real_block ?w b"
      using shape_ok_frame [OF w(1)] ok(1) frame_fields(2) [OF w(1)] real by simp_all
    have "b \<notin> set ids" using rep(2) busy by simp
    then obtain s where s: "queue_append b (pool_queue ?w) = Inr s" "queue_rep s (ids @ [b])"
      "queue_content s = queue_content (pool_queue ?w)"
      using queue_append_law [OF qw queue_valid_real [OF sw]] by (auto elim!: returnsE)
    have eq: "release_one env b c p = Inr (set_queue s ?w)"
      using bnd queued s(1) by (simp add: release_one_def refs_def holds_def)
    note sv = set_queue_view [OF s(3)]
    have v: "frame (set_queue s ?w) = frame p" "cache_view (set_queue s ?w) = cache_view p"
      "sync_view (set_queue s ?w) = sync_view p" "refs (set_queue s ?w) = (refs p)(b := refs p b - c)"
      "holds (set_queue s ?w) = holds p"
      using sv(1,3) w by (auto simp: same_view_def holds_def fun_eq_iff)
    have "b \<notin> held p" using queued by (simp add: held_def)
    then have "held p \<inter> insert b (idle p) = held p \<inter> idle p" by blast
    then have "block_set p b (refs p b - c) (keys p b) (set_queue s ?w)"
      by (intro ref_moved [OF core real v, where ids' = "ids @ [b]"], unfold sv)
        (use s(2) queued rep cnt in auto)
    then show ?thesis unfolding eq using queued s(2) sv(2) by simp
  qed
qed

section \<open>Loops over block ids\<close>

lemma linked_unique:
  "length xs = length ys \<Longrightarrow> linked nx pv (h # xs @ [t]) \<Longrightarrow> linked nx pv (h # ys @ [t]) \<Longrightarrow> xs = ys"
proof (induction xs ys arbitrary: h rule: list_induct2)
  case (Cons x xs y ys)
  then have "nx h = x" "nx h = y" by (simp_all add: Cons_eq_append_conv)
  moreover have "xs = ys" using Cons.prems calculation by (intro Cons.IH [of x]) simp_all
  ultimately show ?case by simp
qed simp

lemma queue_rep_unique: "queue_rep s xs \<Longrightarrow> queue_rep s ys \<Longrightarrow> xs = ys"
  by (cases s) (auto simp: queue_rep_def chain_ok_def intro: linked_unique)

lemma core_queue:
  assumes "core_ok p" and "queue_rep (pool_queue p) ids"
  shows "set ids = {b \<in> idle p. holds p b = 0}"
  using assms queue_rep_unique [OF assms(2)] unfolding core_ok_def phys_ok_def by metis

definition refs_moved :: "BlockPool \<Rightarrow> (nat \<Rightarrow> nat) \<Rightarrow> BlockPool \<Rightarrow> bool" where
  "refs_moved p f p' \<longleftrightarrow>
     core_ok p' \<and> frame p' = frame p \<and> sync_view p' = sync_view p \<and> holds p' = holds p \<and>
     retained_hash_to_block p' = retained_hash_to_block p \<and> keys p' = keys p \<and> refs p' = f"

lemma refs_moved_refl: "core_ok p \<Longrightarrow> refs_moved p (refs p) p"
  by (simp add: refs_moved_def)

lemma refs_moved_step:
  "refs_moved p f q \<Longrightarrow> block_set q b v (keys q b) r \<Longrightarrow> refs_moved p (f(b := v)) r"
  by (simp add: refs_moved_def block_set_def)

lemma core_index:
  "core_ok p \<Longrightarrow> index_contains (hash_index p) k b \<longleftrightarrow> real_block p b \<and> k \<in> set (keys p b)"
  by (simp add: core_ok_def cache_ok_def)

lemma refs_moved_pool_ok:
  assumes "pool_ok env p" and "refs_moved p f p'"
  shows "pool_ok env p'"
proof -
  have p': "core_ok p'" "frame p' = frame p" "sync_view p' = sync_view p"
    "retained_hash_to_block p' = retained_hash_to_block p" "keys p' = keys p"
    using assms(2) by (auto simp: refs_moved_def)
  have "common_block p' = common_block p"
    using assms(1) p' frame_fields [OF p'(2)]
    by (simp add: common_block_def core_index pool_ok_def fun_eq_iff)
  then show ?thesis
    using assms(1) p'(1,3,4) by (auto simp: pool_ok_def retention_sync_def sync_view_def tracked_def)
qed

lemma touch_loop:
  assumes "core_ok p" and "\<forall>b \<in> set bs. real_block p b" and "\<forall>b \<in> set bs. refs p b + count_list bs b \<le> u32_max"
  shows "returns (fold_res (touch_one env) bs p) (refs_moved p (\<lambda>b. refs p b + count_list bs b))"
proof (rule returns_fold_res)
  show "refs_moved p (\<lambda>b. refs p b + count_list [] b) p" using refs_moved_refl [OF assms(1)] by simp
  fix "done" b rest q
  assume split: "bs = done @ b # rest" and I: "refs_moved p (\<lambda>b. refs p b + count_list done b) q"
  then have q: "core_ok q" "real_block q b" "refs q b = refs p b + count_list done b"
    using assms(2) frame_fields(2) [of q p] by (auto simp: refs_moved_def)
  have "refs q b < u32_max" using assms(3) [rule_format, of b] split q(3) by simp
  note touch = touch_one_effect [OF q(1,2) this, of env]
  have upd: "(\<lambda>b. refs p b + count_list done b)(b := Suc (refs q b)) =
      (\<lambda>x. refs p x + count_list (done @ [b]) x)"
    using q(3) by auto
  show "returns (touch_one env b q) (refs_moved p (\<lambda>x. refs p x + count_list (done @ [b]) x))"
    by (rule returns_mono [OF touch]) (rule refs_moved_step [OF I, of b "Suc (refs q b)", unfolded upd])
qed

lemma count_releases_returns:
  assumes "\<forall>b. (case map_of counts b of None \<Rightarrow> 0 | Some c \<Rightarrow> c) + count_list bs b \<le> u32_max"
    and "distinct (map fst counts)" and "\<forall>b. map_of counts b \<noteq> Some 0"
  shows "returns (count_releases bs counts)
    (\<lambda>counts'. distinct (map fst counts') \<and> (\<forall>b. map_of counts' b \<noteq> Some 0) \<and>
       (\<forall>b. (case map_of counts' b of None \<Rightarrow> 0 | Some c \<Rightarrow> c) =
            (case map_of counts b of None \<Rightarrow> 0 | Some c \<Rightarrow> c) + count_list bs b))"
  using assms
proof (induction bs arbitrary: counts)
  case (Cons b bs)
  let ?c = "case map_of counts b of None \<Rightarrow> 0 | Some c \<Rightarrow> c"
  let ?counts = "AList.update b (Suc ?c) counts"
  have le: "?c + 1 \<le> u32_max" using Cons.prems(1) [rule_format, of b] by simp
  have "returns (count_releases bs ?counts)
    (\<lambda>counts'. distinct (map fst counts') \<and> (\<forall>b. map_of counts' b \<noteq> Some 0) \<and>
       (\<forall>b. (case map_of counts' b of None \<Rightarrow> 0 | Some c \<Rightarrow> c) =
            (case map_of ?counts b of None \<Rightarrow> 0 | Some c \<Rightarrow> c) + count_list bs b))"
    using Cons.prems by (intro Cons.IH) (auto simp: distinct_update split: if_splits)
  moreover have "(case map_of ?counts x of None \<Rightarrow> 0 | Some c \<Rightarrow> c) + count_list bs x =
      (case map_of counts x of None \<Rightarrow> 0 | Some c \<Rightarrow> c) + count_list (b # bs) x" for x by simp
  moreover have "count_releases (b # bs) counts = count_releases bs ?counts" using le by simp
  ultimately show ?case by simp
qed simp

fun firsts :: "nat list \<Rightarrow> nat list" where
  "firsts [] = []"
| "firsts (b # bs) = b # filter (\<lambda>x. x \<noteq> b) (firsts bs)"

text \<open>The blocks a release puts on the free queue, in the order the caller lists them.\<close>

definition freed :: "BlockPool \<Rightarrow> (nat \<rightharpoonup> nat) \<Rightarrow> nat list \<Rightarrow> nat list" where
  "freed p counts bs = filter (\<lambda>b. counts b = Some (refs p b) \<and> holds p b = 0) (firsts bs)"

lemma release_refs_effect:
  assumes "core_ok p" and "\<forall>b c. map_of counts b = Some c \<longrightarrow> real_block p b \<and> 0 < c \<and> c \<le> refs p b"
    and "dom (map_of counts) \<subseteq> set bs" and "queue_rep (pool_queue p) ids"
  shows "returns (release_refs env bs counts p)
    (\<lambda>p'. refs_moved p (\<lambda>b. refs p b - (case map_of counts b of None \<Rightarrow> 0 | Some c \<Rightarrow> c)) p' \<and>
       queue_rep (pool_queue p') (ids @ freed p (map_of counts) bs))"
  using assms
proof (induction bs arbitrary: counts p ids)
  case Nil
  then show ?case using refs_moved_refl [of p] by (simp add: freed_def)
next
  case (Cons b bs)
  show ?case
  proof (cases "map_of counts b")
    case None
    then have "freed p (map_of counts) (b # bs) = freed p (map_of counts) bs"
      by (auto simp: freed_def intro: filter_cong)
    moreover have "dom (map_of counts) \<subseteq> set bs" using Cons.prems(3) None by auto
    ultimately show ?thesis using Cons.IH [OF Cons.prems(1,2) _ Cons.prems(4)] None by simp
  next
    case (Some c)
    let ?ids = "if refs p b = c \<and> holds p b = 0 then ids @ [b] else ids"
    let ?counts = "AList.delete b counts"
    have b: "real_block p b" "0 < c" "c \<le> refs p b" using Cons.prems(2) Some by auto
    obtain q where q: "release_one env b c p = Inr q" "block_set p b (refs p b - c) (keys p b) q"
      "queue_rep (pool_queue q) ?ids"
      using release_one_effect [OF Cons.prems(1) b Cons.prems(4) core_queue [OF Cons.prems(1,4)], of env]
      by (auto elim!: returnsE)
    have mv: "refs_moved p ((refs p)(b := refs p b - c)) q"
      using refs_moved_step [OF refs_moved_refl [OF Cons.prems(1)] q(2)] .
    then have mq: "core_ok q" "real_block q = real_block p" "holds q = holds p"
      "refs q = (refs p)(b := refs p b - c)"
      using frame_fields(2) [of q p] by (auto simp: refs_moved_def)
    have fr: "?ids @ freed q (map_of ?counts) bs = ids @ freed p (map_of counts) (b # bs)"
      using Some b(2) by (auto simp: freed_def mq intro!: filter_cong)
    have "dom (map_of ?counts) \<subseteq> set bs" using Cons.prems(3) unfolding map_of_alist_delete dom_fun_upd by auto
    then have "returns (release_refs env bs ?counts q)
      (\<lambda>p'. refs_moved q (\<lambda>b. refs q b - (case map_of ?counts b of None \<Rightarrow> 0 | Some c \<Rightarrow> c)) p' \<and>
         queue_rep (pool_queue p') (?ids @ freed q (map_of ?counts) bs))"
      using Cons.prems(2) mq by (intro Cons.IH [OF mq(1) _ _ q(3)]) (auto split: if_splits)
    moreover have "(\<lambda>x. refs q x - (case map_of ?counts x of None \<Rightarrow> 0 | Some c \<Rightarrow> c)) =
        (\<lambda>x. refs p x - (case map_of counts x of None \<Rightarrow> 0 | Some c \<Rightarrow> c))"
      using Some by (auto simp: mq(4))
    moreover have "refs_moved p f r" if "refs_moved q f r" for f r
      using that mv by (simp add: refs_moved_def)
    ultimately show ?thesis
      using q(1) Some unfolding fr by (auto elim!: returns_mono)
  qed
qed

section \<open>Touching and freeing\<close>

lemma sync_retention_if_changed_effect:
  assumes "pool_ok env p" and "env_ok env"
  shows "returns (sync_retention_if_changed env p)
    (\<lambda>q. pool_ok env q \<and> synced q \<and> data_same p q \<and> retention q = retention p)"
proof -
  have "published_revision (retention p) = revision (retention p)"
    using assms(1) by (simp add: pool_ok_def retention_sync_def ret_ok_def)
  then show ?thesis
    using sync_retention_locked_effect [OF assms] assms(1)
    by (auto simp: sync_retention_if_changed_def synced_def)
qed

text \<open>What clients see of an operation that changes reference counts only.\<close>

definition refs_outcome :: "rt_env \<Rightarrow> BlockPool \<Rightarrow> (nat \<Rightarrow> nat) \<Rightarrow> BlockPool \<Rightarrow> bool" where
  "refs_outcome env p f p' \<longleftrightarrow>
     pool_ok env p' \<and> frame p' = frame p \<and> keys p' = keys p \<and> refs p' = f \<and> retention p' = retention p"

lemma refs_outcomeI:
  assumes "pool_ok env q" and "data_same p q" and "retention q = retention p" and "refs_moved q f p'"
  shows "refs_outcome env p f p'"
  using assms refs_moved_pool_ok [OF assms(1,4)] data_same_fields(4) [OF assms(2)]
  by (simp add: refs_outcome_def refs_moved_def data_same_def sync_view_def)

lemma touch_effect:
  assumes ok: "pool_ok env p" and env: "env_ok env" and real: "\<forall>b \<in> set bs. real_block p b"
    and room: "\<forall>b \<in> set bs. refs p b + count_list bs b \<le> u32_max"
  shows "returns (touch env bs p) (refs_outcome env p (\<lambda>b. refs p b + count_list bs b))"
proof -
  obtain q where q: "sync_retention_if_changed env p = Inr q" "pool_ok env q" "data_same p q"
    "retention q = retention p"
    using sync_retention_if_changed_effect [OF ok env] by (auto elim!: returnsE)
  have "returns (fold_res (touch_one env) bs q) (refs_moved q (\<lambda>b. refs p b + count_list bs b))"
    using touch_loop [of q bs env] q(2) real room data_same_fields [OF q(3)] by (simp add: pool_ok_def)
  then show ?thesis
    using q(1) refs_outcomeI [OF q(2-4)] by (auto simp: touch_def elim!: returns_mono)
qed

lemma count_list_pos: "0 < count_list xs x \<longleftrightarrow> x \<in> set xs"
  by (metis count_list_0_iff neq0_conv)

lemma count_releases_exact:
  assumes "length bs \<le> u32_max"
  obtains counts where "count_releases bs [] = Inr counts" and "distinct (map fst counts)"
    and "\<And>b. map_of counts b = (if b \<in> set bs then Some (count_list bs b) else None)"
proof -
  have "count_list bs b \<le> u32_max" for b using count_le_length [of bs b] assms by linarith
  then obtain counts where c: "count_releases bs [] = Inr counts" "distinct (map fst counts)"
    "\<forall>b. map_of counts b \<noteq> Some 0"
    "\<forall>b. (case map_of counts b of None \<Rightarrow> 0 | Some c \<Rightarrow> c) = count_list bs b"
    using count_releases_returns [of "[]" bs] by (auto elim!: returnsE)
  have "map_of counts b = (if b \<in> set bs then Some (count_list bs b) else None)" for b
    using c(3,4) [rule_format, of b] count_list_pos [of bs b]
    by (cases "map_of counts b") (auto simp: count_notin)
  then show thesis using that c by blast
qed

lemma check_release_loop:
  assumes "\<forall>b \<in> set bs. b < length (blocks p) \<and> (\<forall>c. map_of counts b = Some c \<longrightarrow> c \<le> refs p b)"
  shows "fold_res (check_release counts) bs p = Inr p"
  using assms by (induction bs) (auto simp: check_release_def refs_def split: option.split)

lemma check_release_underflow:
  assumes "\<forall>b \<in> set bs. b < length (blocks p)" and "b \<in> set bs" and "map_of counts b = Some c" and "refs p b < c"
  shows "fold_res (check_release counts) bs p = Inl (AssertFailed ''ref_cnt underflow'')"
  using assms
proof (induction bs)
  case (Cons x bs)
  show ?case
  proof (cases "\<exists>c. map_of counts x = Some c \<and> refs p x < c")
    case True
    then show ?thesis using Cons.prems(1) by (auto simp: check_release_def refs_def assert_that_def)
  next
    case False
    then have "check_release counts x p = Inr p"
      using Cons.prems(1) by (auto simp: check_release_def refs_def split: option.split)
    moreover have "b \<in> set bs" using False Cons.prems by auto
    ultimately show ?thesis using Cons by simp
  qed
qed simp

text \<open>The counts a release works with, as a map.\<close>

abbreviation releases :: "nat list \<Rightarrow> nat \<rightharpoonup> nat" where
  "releases bs \<equiv> \<lambda>b. if b \<in> set bs then Some (count_list bs b) else None"

lemma free_blocks_effect:
  assumes ok: "pool_ok env p" and env: "env_ok env" and real: "\<forall>b \<in> set bs. real_block p b"
    and len: "length bs \<le> u32_max" and enough: "\<forall>b. count_list bs b \<le> refs p b"
  shows "returns (free_blocks env bs p)
    (\<lambda>p'. refs_outcome env p (\<lambda>b. refs p b - count_list bs b) p' \<and>
       (\<forall>ids. synced p \<longrightarrow> queue_rep (pool_queue p) ids \<longrightarrow>
          queue_rep (pool_queue p') (ids @ freed p (releases bs) bs)))"
proof -
  obtain q where q: "sync_retention_if_changed env p = Inr q" "pool_ok env q" "data_same p q"
    "retention q = retention p" "synced q"
    using sync_retention_if_changed_effect [OF ok env] by (auto elim!: returnsE)
  have qp: "q = p" if "synced p"
    using that q(1) ok
    by (simp add: sync_retention_if_changed_def synced_def pool_ok_def retention_sync_def ret_ok_def)
  note f = data_same_fields [OF q(3)]
  obtain counts where c: "count_releases bs [] = Inr counts" "\<And>b. map_of counts b = releases bs b"
    using count_releases_exact [OF len] by metis
  have core: "core_ok q" using q(2) by (simp add: pool_ok_def)
  then have shape: "shape_ok q" by (simp add: core_ok_def)
  obtain ids where ids: "queue_rep (pool_queue q) ids"
    using core by (auto simp: core_ok_def elim: phys_okE)
  have "set (map fst counts) = set bs"
    unfolding set_map dom_map_of_list [symmetric] by (auto simp: c(2) dom_def split: if_splits)
  then have keys: "set (iter_ids env (map fst counts)) = set bs" using env by simp
  have check: "fold_res (check_release counts) (iter_ids env (map fst counts)) q = Inr q"
    by (rule check_release_loop)
      (use keys real enough f in \<open>auto simp: c(2) intro: real_block_bounds(1) [OF shape]\<close>)
  have "returns (release_refs env bs counts q)
    (\<lambda>p'. refs_moved q (\<lambda>b. refs q b - (case map_of counts b of None \<Rightarrow> 0 | Some c \<Rightarrow> c)) p' \<and>
       queue_rep (pool_queue p') (ids @ freed q (map_of counts) bs))"
    using real enough f(2,3)
    by (intro release_refs_effect [OF core _ _ ids]) (auto simp: c(2) count_list_pos split: if_splits)
  moreover have "(\<lambda>b. refs q b - (case map_of counts b of None \<Rightarrow> 0 | Some c \<Rightarrow> c)) =
      (\<lambda>b. refs p b - count_list bs b)"
    using f by (auto simp: c(2) count_notin)
  moreover have "map_of counts = releases bs" using c(2) by blast
  ultimately show ?thesis
    using q(1) c(1) check refs_outcomeI [OF q(2-4)] qp queue_rep_unique [OF ids]
    by (auto simp: free_blocks_def elim!: returns_mono)
qed

lemma free_blocks_underflow:
  assumes ok: "pool_ok env p" and env: "env_ok env" and real: "\<forall>b \<in> set bs. real_block p b"
    and len: "length bs \<le> u32_max" and under: "refs p b < count_list bs b"
  shows "free_blocks env bs p = Inl (AssertFailed ''ref_cnt underflow'')"
proof -
  obtain q where q: "sync_retention_if_changed env p = Inr q" "pool_ok env q" "data_same p q"
    using sync_retention_if_changed_effect [OF ok env] by (auto elim!: returnsE)
  note f = data_same_fields [OF q(3)]
  obtain counts where c: "count_releases bs [] = Inr counts" "\<And>b. map_of counts b = releases bs b"
    using count_releases_exact [OF len] by metis
  have shape: "shape_ok q" using q(2) by (simp add: pool_ok_def core_ok_def)
  have b: "b \<in> set bs" using under count_list_pos [of bs b] by linarith
  have "set (map fst counts) = set bs"
    unfolding set_map dom_map_of_list [symmetric] by (auto simp: c(2) dom_def split: if_splits)
  then have keys: "set (iter_ids env (map fst counts)) = set bs" using env by simp
  have "fold_res (check_release counts) (iter_ids env (map fst counts)) q =
      Inl (AssertFailed ''ref_cnt underflow'')"
    by (rule check_release_underflow [where b = b])
      (use keys real under b f in \<open>auto simp: c(2) intro: real_block_bounds(1) [OF shape]\<close>)
  then show ?thesis using q(1) c(1) by (simp add: free_blocks_def)
qed

end
