(* ===== verification/Pool_Caching.thy ===== *)
theory Pool_Caching
  imports Pool_References
begin

text \<open>
  The prefix cache of the block pool: publishing the hashes of full blocks
  (\<open>cache_full_blocks\<close>), looking them up (\<open>get_common_cached_block\<close>), dropping them all
  (\<open>reset_prefix_cache\<close>), and the construction of a pool.
\<close>

section \<open>Publishing full blocks\<close>

lemma hkey_inject [simp]: "hkey h g = hkey h' g' \<longleftrightarrow> h = h' \<and> g = g'"
  by (simp add: hkey_def)

definition keyed :: "nat \<Rightarrow> BlockHashWithGroupId \<Rightarrow> BlockPool \<Rightarrow> BlockPool" where
  "keyed b key p =
     p\<lparr>num_prefix_cached_physical_blocks :=
         num_prefix_cached_physical_blocks p + (if keys p b = [] then 1 else 0),
       blocks := (blocks p)[b := (blocks p ! b)\<lparr>block_hashes := keys p b @ [key]\<rparr>],
       hash_index := index_insert key b (hash_index p)\<rparr>"

lemma keyed_view:
  assumes "b < length (blocks p)"
  shows "frame (keyed b key p) = frame p" and "sync_view (keyed b key p) = sync_view p"
    and "holds (keyed b key p) = holds p" and "refs (keyed b key p) = refs p"
    and "keys (keyed b key p) = (keys p)(b := keys p b @ [key])"
    and "retained_hash_to_block (keyed b key p) = retained_hash_to_block p"
    and "queue_rep (pool_queue (keyed b key p)) ids = queue_rep (pool_queue p) ids"
    and "num_retained_physical_blocks (keyed b key p) = num_retained_physical_blocks p"
    and "num_retained_free_blocks (keyed b key p) = num_retained_free_blocks p"
proof -
  let ?x = "(blocks p ! b)\<lparr>block_hashes := keys p b @ [key]\<rparr>"
  have n: "is_null ?x = is_null (blocks p ! b)" by simp
  note v = block_upd_views [OF assms n]
  show "frame (keyed b key p) = frame p" "holds (keyed b key p) = holds p"
    "keys (keyed b key p) = (keys p)(b := keys p b @ [key])"
    using v by (auto simp: keyed_def frame_def holds_def keys_def fun_eq_iff)
  show "refs (keyed b key p) = refs p"
    by (auto simp: keyed_def refs_def fun_eq_iff nth_list_update_if)
  show "queue_rep (pool_queue (keyed b key p)) ids = queue_rep (pool_queue p) ids"
    using queue_rep_upd [OF assms, of ?x] by (simp add: keyed_def)
qed (simp_all add: keyed_def sync_view_def)

lemma keyed_cache_ok:
  assumes "cache_ok p" and "real_block p b" and "b < length (blocks p)" and "enable_caching p"
    and new: "key \<notin> set (keys p b)"
  shows "cache_ok (keyed b key p)"
proof -
  note v = keyed_view [OF assms(3), of key]
  have ok: "index_ok (hash_index p)" using assms(1) by (simp add: cache_ok_def)
  have ix: "hash_index (keyed b key p) = index_insert key b (hash_index p)" by (simp add: keyed_def)
  let ?A = "{x. x < num_gpu_blocks p + 2 \<and> keys p x \<noteq> []}"
  have bn: "b < num_gpu_blocks p + 2" using assms(2) by (simp add: real_block_def)
  have "{x. x < num_gpu_blocks p + 2 \<and> ((keys p)(b := keys p b @ [key])) x \<noteq> []} = insert b ?A"
    using bn by auto
  moreover have "num_prefix_cached_physical_blocks p = card ?A" using assms(1) by (simp add: cache_ok_def)
  moreover have "b \<in> ?A \<longleftrightarrow> keys p b \<noteq> []" using bn by simp
  ultimately have n: "num_prefix_cached_physical_blocks (keyed b key p) =
      card {x. x < num_gpu_blocks p + 2 \<and> ((keys p)(b := keys p b @ [key])) x \<noteq> []}"
    by (cases "b \<in> ?A") (simp_all add: keyed_def insert_absorb del: fun_upd_apply)
  have contains: "index_contains (index_insert key b (hash_index p)) k x \<longleftrightarrow>
      real_block p x \<and> k \<in> set (((keys p)(b := keys p b @ [key])) x)" for k x
    using assms(1,2) by (auto simp: cache_ok_def hidx.contains_ins [OF ok])
  have keep: "\<forall>x < num_gpu_blocks p + 2. distinct (keys p x) \<and> (keys p x \<noteq> [] \<longrightarrow> real_block p x) \<and>
        (keys p x \<noteq> [] \<longrightarrow> enable_caching p)"
    using assms(1) by (simp add: cache_ok_def)
  show ?thesis
    unfolding cache_ok_def ix v(5) frame_fields [OF v(1)]
    using n contains hidx.inv_ins [OF ok, of key b] keep assms(2,4) new v(5) by simp
qed

lemma phys_ok_cong:
  assumes "frame p' = frame p" and "refs p' = refs p" and "holds p' = holds p"
    and "\<And>ids. queue_rep (pool_queue p') ids = queue_rep (pool_queue p) ids"
    and "num_retained_physical_blocks p' = num_retained_physical_blocks p"
    and "num_retained_free_blocks p' = num_retained_free_blocks p"
  shows "phys_ok p' = phys_ok p"
proof -
  have "idle p' = idle p" "held p' = held p"
    unfolding idle_def held_def frame_fields [OF assms(1)] assms(2,3) by simp_all
  then show ?thesis unfolding phys_ok_def assms(3-6) by simp
qed

lemma keyed_core_ok:
  assumes core: "core_ok p" and real: "real_block p b" and "enable_caching p" and "key \<notin> set (keys p b)"
  shows "core_ok (keyed b key p)"
proof -
  have ok: "shape_ok p" "phys_ok p" "holds_ok p" "retained_ok p" "cache_ok p"
    using core by (auto simp: core_ok_def)
  note bnd = real_block_bounds [OF ok(1) real]
  note v = keyed_view [OF bnd(1), of key]
  have "retained_ok (keyed b key p)"
    using ok(4) unfolding retained_ok_def v frame_fields [OF v(1)] by auto
  then show ?thesis
    using ok keyed_cache_ok [OF ok(5) real bnd(1) assms(3,4)] shape_ok_frame [OF v(1)]
      holds_ok_cong [OF v(1,3,6)] phys_ok_cong [OF v(1,4,3,7-9)]
    by (simp add: core_ok_def)
qed

lemma keyed_common:
  assumes "core_ok p" and "core_ok (keyed b (hkey h g) p)" and "b < length (blocks p)"
    and "h' \<noteq> h" and "common_block (keyed b (hkey h g) p) h' b'"
  shows "common_block p h' b'"
proof -
  note v = keyed_view [OF assms(3), of "hkey h g"]
  have "index_contains (hash_index p) (hkey h' g') b'"
    if "index_contains (hash_index (keyed b (hkey h g) p)) (hkey h' g') b'" for g'
    using that assms(4) unfolding core_index [OF assms(1)] core_index [OF assms(2)] v(5) frame_fields [OF v(1)]
    by (auto split: if_splits)
  then show ?thesis
    using assms(5) unfolding common_block_def frame_fields [OF v(1)] by auto
qed

text \<open>The outcome of publishing keys: only the keys of blocks and the retained map move.\<close>

definition keys_outcome ::
    "rt_env \<Rightarrow> BlockPool \<Rightarrow> (nat \<Rightarrow> BlockHashWithGroupId list) \<Rightarrow> BlockPool \<Rightarrow> bool" where
  "keys_outcome env p f p' \<longleftrightarrow>
     pool_ok env p' \<and> frame p' = frame p \<and> refs p' = refs p \<and> retention p' = retention p \<and> keys p' = f"

lemma pool_ok_parts:
  assumes "pool_ok env p"
  shows "core_ok p" and "shape_ok p" and "tracked env p (set (retained_hashes p))" and "retention_sync env p"
  using assms by (auto simp: pool_ok_def core_ok_def)

lemma keyed_pool_ok:
  assumes ok: "pool_ok env p" and env: "env_ok env" and real: "real_block p b" and en: "enable_caching p"
    and new: "hkey h g \<notin> set (keys p b)"
  shows "returns (if h \<in> set (retained_hashes p)
      then reconcile_retained_hash_block env h (keyed b (hkey h g) p) else Inr (keyed b (hkey h g) p))
    (keys_outcome env p ((keys p)(b := keys p b @ [hkey h g])))"
proof -
  note parts = pool_ok_parts [OF ok]
  let ?q = "keyed b (hkey h g) p" and ?m = "map_of (retained_hash_to_block p)"
  note bnd = real_block_bounds [OF parts(2) real]
  note v = keyed_view [OF bnd(1), of "hkey h g"]
  have core: "core_ok ?q" by (rule keyed_core_ok [OF parts(1) real en new])
  have common: "h' \<noteq> h \<Longrightarrow> common_block ?q h' b' \<Longrightarrow> common_block p h' b'" for h' b'
    by (rule keyed_common [OF parts(1) core bnd(1)])
  have sync: "retention_sync env r" if "sync_view r = sync_view p" for r
    using parts(4) that by (auto simp: retention_sync_def sync_view_def)
  have sv: "retention ?q = retention p" "retained_hashes ?q = retained_hashes p"
    using v(2) by (simp_all add: sync_view_def)
  have dm: "dom ?m \<subseteq> set (retained_hashes p)" using parts(3) by (simp add: tracked_def)
  show ?thesis
  proof (cases "h \<in> set (retained_hashes p)")
    case False
    then have "tracked env ?q (set (retained_hashes p))"
      using parts(3) common unfolding tracked_def v(6) by metis
    then show ?thesis
      using False core sync [OF v(2)] v sv by (simp add: keys_outcome_def pool_ok_def)
  next
    case True
    have "card (dom ?m) < u32_max" if "?m h = None"
    proof -
      have "dom ?m \<subset> set (retained_hashes p)" using dm True that by blast
      then have "card (dom ?m) < card (set (retained_hashes p))" by (simp add: psubset_card_mono)
      then show ?thesis using card_length [of "retained_hashes p"] parts(4) by (simp add: retention_sync_def)
    qed
    then have rec: "returns (reconcile_retained_hash_block env h ?q)
        (map_set ?q (if ?m h = None then ?m(h := retained_block_candidate env ?q h) else ?m))"
      by (rule reconcile_retained_hash_block_effect [OF core env, of h, unfolded v(6)])
    have "keys_outcome env p ((keys p)(b := keys p b @ [hkey h g])) r"
      if r: "map_set ?q (if ?m h = None then ?m(h := retained_block_candidate env ?q h) else ?m) r" for r
    proof -
      have r': "core_ok r" "same_view ?q r"
        "map_of (retained_hash_to_block r) = (if ?m h = None then ?m(h := retained_block_candidate env ?q h) else ?m)"
        using r by (simp_all add: map_set_def)
      have svr: "sync_view r = sync_view p" using r'(2) v(2) by (simp add: same_view_def)
      have "dom (map_of (retained_hash_to_block r)) \<subseteq> set (retained_hashes p)"
        using dm True by (auto simp: r'(3) split: if_splits)
      moreover have "map_of (retained_hash_to_block r) h' \<noteq> None"
        if "debug_assertions env" "h' \<in> set (retained_hashes p)" "common_block ?q h' b'" for h' b'
        using that parts(3) common [of h' b'] candidate_complete [OF env that(3)]
        unfolding tracked_def r'(3) by (cases "h' = h") (auto simp: fun_upd_apply)
      ultimately have "tracked env r (set (retained_hashes p))"
        unfolding tracked_def common_block_same_view [OF r'(2)] by blast
      then show ?thesis
        using r'(1,2) sync [OF svr] svr v
        by (simp add: keys_outcome_def pool_ok_def same_view_def sync_view_def cache_view_def)
    qed
    then show ?thesis using True rec by (auto elim!: returns_mono)
  qed
qed

definition key_added ::
    "BlockPool \<Rightarrow> nat \<Rightarrow> BlockHashWithGroupId \<Rightarrow> (nat \<Rightarrow> BlockHashWithGroupId list) \<Rightarrow> nat \<Rightarrow> BlockHashWithGroupId list" where
  "key_added p b key f =
     (if b = null_block_id p \<or> key \<in> set (f b) then f else f(b := f b @ [key]))"

lemma cache_one_effect:
  assumes ok: "pool_ok env p" and env: "env_ok env" and en: "enable_caching p"
    and i: "i < length ids" "i < length hs" "ids ! i < num_gpu_blocks p"
  shows "returns (cache_one env ids hs gid i p)
    (keys_outcome env p (key_added p (ids ! i) (hkey (hs ! i) gid) (keys p)))"
proof -
  let ?b = "ids ! i" and ?h = "hs ! i"
  let ?key = "hkey ?h gid"
  note parts = pool_ok_parts [OF ok]
  have len: "?b < length (blocks p)" using i(3) shape_fields(1) [OF parts(2)] by simp
  have null: "is_null (blocks p ! ?b) \<longleftrightarrow> ?b = null_block_id p"
    using parts(2) i(3) by (simp add: shape_ok_def Let_def)
  show ?thesis
  proof (cases "?b = null_block_id p \<or> ?key \<in> set (keys p ?b)")
    case True
    then have "cache_one env ids hs gid i p = Inr p"
      using i len null by (auto simp: cache_one_def Let_def keys_def)
    then show ?thesis using True ok by (simp add: key_added_def keys_outcome_def)
  next
    case False
    then have real: "real_block p ?b" using i(3) by (simp add: real_block_def)
    have "cache_one env ids hs gid i p =
        (if ?h \<in> set (retained_hashes p)
         then reconcile_retained_hash_block env ?h (keyed ?b ?key p) else Inr (keyed ?b ?key p))"
      using i len null False
      by (simp add: cache_one_def Let_def keys_def keyed_def)
    then show ?thesis
      using keyed_pool_ok [OF ok env real en, of ?h gid] False by (simp add: key_added_def)
  qed
qed

text \<open>The keys after publishing the hashes \<open>hs\<close> of the blocks at the given indices.\<close>

fun keys_published ::
    "BlockPool \<Rightarrow> nat list \<Rightarrow> BlockHash list \<Rightarrow> nat \<Rightarrow> nat list
      \<Rightarrow> (nat \<Rightarrow> BlockHashWithGroupId list) \<Rightarrow> nat \<Rightarrow> BlockHashWithGroupId list" where
  "keys_published p ids hs gid [] f = f"
| "keys_published p ids hs gid (i # is) f =
     keys_published p ids hs gid is (key_added p (ids ! i) (hkey (hs ! i) gid) f)"

lemma key_added_frame: "frame q = frame p \<Longrightarrow> key_added q = key_added p"
  by (simp add: key_added_def frame_def fun_eq_iff)

lemma keys_published_frame: "frame q = frame p \<Longrightarrow> keys_published q ids hs gid is f = keys_published p ids hs gid is f"
  by (induction "is" arbitrary: f) (simp_all add: key_added_frame [of q p])

lemma cache_loop:
  assumes "pool_ok env p" and "env_ok env" and "enable_caching p"
    and "\<forall>i \<in> set is. i < length ids \<and> i < length hs \<and> ids ! i < num_gpu_blocks p"
  shows "returns (fold_res (cache_one env ids hs gid) is p)
    (keys_outcome env p (keys_published p ids hs gid is (keys p)))"
  using assms
proof (induction "is" arbitrary: p)
  case (Cons i "is")
  let ?f = "key_added p (ids ! i) (hkey (hs ! i) gid) (keys p)"
  obtain q where q: "cache_one env ids hs gid i p = Inr q" "keys_outcome env p ?f q"
    using cache_one_effect [OF Cons.prems(1-3), of i ids hs gid] Cons.prems(4) by (auto elim!: returnsE)
  have q': "pool_ok env q" "frame q = frame p" "keys q = ?f" "refs q = refs p" "retention q = retention p"
    using q(2) by (auto simp: keys_outcome_def)
  have "returns (fold_res (cache_one env ids hs gid) is q)
      (keys_outcome env q (keys_published q ids hs gid is (keys q)))"
    using Cons.prems frame_fields [OF q'(2)] by (intro Cons.IH [OF q'(1)]) auto
  then show ?case
    using q(1) q' keys_published_frame [OF q'(2)] by (auto simp: keys_outcome_def elim!: returns_mono)
qed (simp add: keys_outcome_def)

lemma cache_full_blocks_effect:
  assumes ok: "pool_ok env p" and env: "env_ok env" and en: "enable_caching p" and "ncached < nfull"
    and "nfull \<le> length ids" and "nfull \<le> length hs" and "\<forall>b \<in> set ids. b < num_gpu_blocks p"
  shows "returns (cache_full_blocks env ids hs ncached nfull gid p)
    (keys_outcome env p (keys_published p ids hs gid [ncached..<nfull] (keys p)))"
proof -
  obtain q where q: "sync_retention_if_changed env p = Inr q" "pool_ok env q" "data_same p q"
    "retention q = retention p"
    using sync_retention_if_changed_effect [OF ok env] by (auto elim!: returnsE)
  note f = data_same_fields [OF q(3)]
  have fr: "frame q = frame p" using q(3) by (simp add: data_same_def)
  have "returns (fold_res (cache_one env ids hs gid) [ncached..<nfull] q)
      (keys_outcome env q (keys_published q ids hs gid [ncached..<nfull] (keys q)))"
    using assms f by (intro cache_loop [OF q(2) env]) auto
  then show ?thesis
    using q assms(3-6) f fr keys_published_frame [OF fr]
    by (auto simp: cache_full_blocks_def keys_outcome_def elim!: returns_mono)
qed

lemma key_added_mono: "set (f b) \<subseteq> set (key_added p x k f b)"
  by (auto simp: key_added_def)

lemma keys_published_mono: "set (f b) \<subseteq> set (keys_published p ids hs gid is f b)"
  by (induction "is" arbitrary: f) (auto intro: subsetD [OF key_added_mono])

lemma keys_published_mem:
  assumes "i \<in> set is" and "ids ! i \<noteq> null_block_id p"
  shows "hkey (hs ! i) gid \<in> set (keys_published p ids hs gid is f (ids ! i))"
  using assms
proof (induction "is" arbitrary: f)
  case (Cons j "is")
  show ?case
  proof (cases "i \<in> set is")
    case False
    then have "hkey (hs ! i) gid \<in> set (key_added p (ids ! j) (hkey (hs ! j) gid) f (ids ! i))"
      using Cons.prems by (auto simp: key_added_def)
    then show ?thesis by (simp add: subsetD [OF keys_published_mono])
  qed (use Cons in simp)
qed simp

lemma keys_published_only:
  assumes "k \<in> set (keys_published p ids hs gid is f b)"
  shows "k \<in> set (f b) \<or> (\<exists>i \<in> set is. ids ! i = b \<and> k = hkey (hs ! i) gid)"
  using assms
proof (induction "is" arbitrary: f)
  case (Cons i "is")
  then have "k \<in> set (key_added p (ids ! i) (hkey (hs ! i) gid) f b) \<or>
      (\<exists>i \<in> set is. ids ! i = b \<and> k = hkey (hs ! i) gid)"
    by simp
  then show ?case by (auto simp: key_added_def split: if_splits)
qed simp

section \<open>Lookup\<close>

definition shares_keys :: "BlockPool \<Rightarrow> BlockHash \<Rightarrow> nat list \<Rightarrow> nat \<Rightarrow> bool" where
  "shares_keys p h gs b \<longleftrightarrow> real_block p b \<and> (\<forall>g \<in> set gs. hkey h g \<in> set (keys p b))"

lemma get_common_cached_block_effect:
  assumes ok: "pool_ok env p" and env: "env_ok env"
  shows "returns (get_common_cached_block env p h gs)
    (\<lambda>r. (\<forall>b. r = Some b \<longrightarrow> gs \<noteq> [] \<and> shares_keys p h gs b) \<and>
         (r = None \<longrightarrow> gs = [] \<or> (\<forall>b. \<not> shares_keys p h gs b)))"
proof (cases "gs = []")
  case True
  then show ?thesis by (simp add: get_common_cached_block_def)
next
  case ne: False
  note parts = pool_ok_parts [OF ok]
  have sound: "shares_keys p h gs b" if "index_get_common env (hash_index p) h gs = Some b" for b
    using index_get_common_sound [OF env that] by (auto simp: core_index [OF parts(1)] shares_keys_def neq_Nil_conv)
  have complete: "index_get_common env (hash_index p) h gs \<noteq> None" if "shares_keys p h gs b" for b
    using that by (intro index_get_common_complete [OF env ne, of _ _ b])
      (simp add: core_index [OF parts(1)] shares_keys_def)
  show ?thesis
  proof (cases "map_of (retained_hash_to_block p) h")
    case None
    then show ?thesis
      using ne sound complete by (auto simp: get_common_cached_block_def)
  next
    case (Some b)
    then have real: "real_block p b" using parts(1) by (auto simp: core_ok_def retained_ok_def)
    then have "b < length (blocks p)" by (rule real_block_bounds [OF parts(2)])
    moreover have "list_all (\<lambda>g. hkey h g \<in> set (block_hashes (blocks p ! b))) gs = shares_keys p h gs b"
      using real by (simp add: shares_keys_def keys_def list_all_iff)
    ultimately have "get_common_cached_block env p h gs =
        Inr (if shares_keys p h gs b then Some b else index_get_common env (hash_index p) h gs)"
      using ne Some by (simp add: get_common_cached_block_def)
    then show ?thesis using ne sound complete by auto
  qed
qed

section \<open>Construction\<close>

lemma BlockPool_new_effect:
  assumes n: "0 < n" "n + 2 \<le> usize_max"
  shows "returns (BlockPool_new env n caching bsz)
    (\<lambda>p. pool_ok env p \<and> num_gpu_blocks p = n \<and> null_block_id p = 0 \<and> enable_caching p = caching \<and>
       hash_block_size p = bsz \<and> (\<forall>b. real_block p b \<longrightarrow> refs p b = 0 \<and> keys p b = []) \<and>
       card (idle p) = n - 1 \<and> retention p = retention_default \<and> retention_group_ids p = [0])"
proof -
  let ?bs = "map KVCacheBlock_new [0..<n + 2]"
  have d: "distinct (n # [0..<n] @ [n + 1])" "set (n # [0..<n] @ [n + 1]) \<subseteq> {..<length ?bs}"
    "length ?bs \<le> usize_max"
    using n by auto
  obtain s where s: "queue_new ?bs [0..<n] n (n + 1) = Inr s" "queue_rep s [0..<n]"
    "queue_content s = (map unlinked ?bs, n, n + 1)"
    using queue_new_law [OF d] by (auto elim!: returnsE)
  have ids: "[0..<n] = 0 # [1..<n]" using n(1) by (simp add: upt_conv_Cons)
  obtain t where t: "popleft (debug_assertions env) s = Inr (Some 0, t)" "queue_rep t [1..<n]"
    "queue_content t = queue_content s"
    using popleft_Cons [OF s(2) [unfolded ids], of "debug_assertions env"] by (auto elim!: returnsE)
  obtain bs q where tq: "t = (bs, q)" by (cases t)
  have un: "map unlinked bs = map unlinked ?bs" "fake_head q = n" "fake_tail q = n + 1"
    using t(3) s(3) by (simp_all add: queue_content_def tq)
  have len: "length bs = n + 2" using arg_cong [OF un(1), of length] by simp
  have fld: "ref_cnt (bs ! b) = 0" "block_hashes (bs ! b) = []" "\<not> is_null (bs ! b)" if "b < n + 2" for b
    using that map_unlinked_field [OF un(1), of ref_cnt b] map_unlinked_field [OF un(1), of block_hashes b]
      map_unlinked_field [OF un(1), of is_null b]
    by (simp_all add: KVCacheBlock_new_def del: upt_Suc)
  let ?bs' = "bs[0 := (bs ! 0)\<lparr>is_null := True\<rparr>]"
  define p where "p = \<lparr>blocks = ?bs', free_queue = q, hash_index = index_new,
          num_prefix_cached_physical_blocks = 0, retention = retention_default,
          applied_retention_revision = 0, retained_hashes = [], retained_hash_to_block = [],
          retention_group_ids = [0], block_retention_counts = replicate (n + 2) 0,
          num_retained_physical_blocks = 0, num_retained_free_blocks = 0,
          enable_caching = caching, num_gpu_blocks = n, null_block_id = 0, hash_block_size = bsz\<rparr>"
  have run: "BlockPool_new env n caching bsz = Inr p"
    using n(1) s(1) t(1) len by (simp add: BlockPool_new_def tq p_def)
  have views: "refs p b = 0" "keys p b = []" "holds p b = 0" if "b < n + 2" for b
    using that fld [of b] fld [of 0] len
    by (auto simp: p_def refs_def keys_def holds_def nth_list_update_if simp del: replicate_Suc)
  have idle: "idle p = {1..<n}"
    using views by (auto simp: idle_def real_block_def p_def)
  have held: "held p = {}" using views by (auto simp: held_def p_def)
  have rep: "queue_rep (pool_queue p) [1..<n]"
    using t(2) queue_rep_upd [of 0 bs "(bs ! 0)\<lparr>is_null := True\<rparr>" q] len by (simp add: p_def tq)
  have "shape_ok p"
    using n len un fld by (auto simp: shape_ok_def p_def Let_def nth_list_update_if)
  moreover have "phys_ok p"
    using rep held idle views
    by (auto simp: phys_ok_def intro!: exI [of _ "[1..<n]"]) (simp_all add: p_def)
  moreover have "holds_ok p" "retained_ok p"
    using views by (simp_all add: holds_ok_def retained_ok_def) (simp_all add: p_def)
  moreover have "cache_ok p"
    using views unfolding cache_ok_def by (auto simp: index_ok_new real_block_def) (auto simp: p_def index_ok_new)
  moreover have "tracked env p (set (retained_hashes p))" "retention_sync env p"
    by (simp_all add: tracked_def retention_sync_def p_def ret_ok_default) (simp_all add: retention_default_def)
  ultimately have "pool_ok env p" by (simp add: pool_ok_def core_ok_def)
  then show ?thesis
    unfolding run using views idle by (simp add: p_def real_block_def)
qed

section \<open>Reset\<close>

definition uncached :: "BlockPool \<Rightarrow> BlockPool" where
  "uncached p =
     p\<lparr>hash_index := index_clear (hash_index p), retained_hash_to_block := [],
       num_prefix_cached_physical_blocks := 0, blocks := map reset_hash (blocks p)\<rparr>"

lemma reset_hash_fields [simp]:
  "ref_cnt (reset_hash x) = ref_cnt x" "block_hashes (reset_hash x) = []" "is_null (reset_hash x) = is_null x"
  "next_free (reset_hash x) = next_free x" "prev_free (reset_hash x) = prev_free x"
  by (simp_all add: reset_hash_def)

lemma nth_map_field:
  assumes "\<And>x. f (g x) = f x"
  shows "f (map g xs ! i) = f (xs ! i)"
proof (cases "i < length xs")
  case False
  then show ?thesis using nth_beyond [of "map g xs" xs i] by simp
qed (simp add: assms)

lemma uncached_ok:
  assumes core: "core_ok p" and empty: "map_of (retained_hash_to_block p) = (\<lambda>_. None)"
  shows "core_ok (uncached p)" and "frame (uncached p) = frame p" and "refs (uncached p) = refs p"
    and "b < length (blocks p) \<Longrightarrow> keys (uncached p) b = []"
proof -
  have ok: "shape_ok p" "phys_ok p" "holds_ok p" using core by (auto simp: core_ok_def)
  have bs: "blocks (uncached p) = map reset_hash (blocks p)" by (simp add: uncached_def)
  have "map is_null (map reset_hash (blocks p)) = map is_null (blocks p)" by simp
  then show fr: "frame (uncached p) = frame p" by (simp add: frame_def uncached_def)
  show rf: "refs (uncached p) = refs p"
    unfolding refs_def bs by (auto intro!: nth_map_field)
  show k: "b < length (blocks p) \<Longrightarrow> keys (uncached p) b = []" for b by (simp add: keys_def bs)
  have hl: "holds (uncached p) = holds p" by (simp add: holds_def uncached_def fun_eq_iff)
  have "nx_of (map reset_hash bs) = nx_of bs" "pv_of (map reset_hash bs) = pv_of bs" for bs
    unfolding nx_of_def pv_of_def by (auto intro!: nth_map_field)
  then have "queue_rep (pool_queue (uncached p)) ids = queue_rep (pool_queue p) ids" for ids
    by (simp add: uncached_def queue_rep_def chain_ok_def)
  then have "phys_ok (uncached p)"
    using phys_ok_cong [OF fr rf hl] ok(2) by (simp add: uncached_def)
  moreover have "holds_ok (uncached p)" "retained_ok (uncached p)"
    using ok(3) empty frame_fields(1) [OF fr]
    by (simp_all add: holds_ok_def hl retained_ok_def) (simp_all add: uncached_def)
  moreover have "cache_ok (uncached p)"
    using k shape_fields(1) [OF ok(1)] unfolding cache_ok_def frame_fields [OF fr]
    by (auto simp: uncached_def index_ok_clear real_block_def)
  ultimately show "core_ok (uncached p)"
    using ok(1) shape_ok_frame [OF fr] by (simp add: core_ok_def)
qed

lemma idle_less:
  assumes "shape_ok p"
  shows "card (idle p) < num_gpu_blocks p"
proof -
  have "idle p \<subset> {..<num_gpu_blocks p}"
    using assms by (auto simp: idle_def real_block_def shape_ok_def Let_def psubset_eq)
  then have "card (idle p) < card {..<num_gpu_blocks p}" by (rule psubset_card_mono [OF finite_lessThan])
  then show ?thesis by simp
qed

lemma reset_busy:
  assumes "pool_ok env p" and "card (idle p) \<noteq> num_gpu_blocks p - 1"
  shows "reset_prefix_cache env p = Inr (False, p)"
proof -
  note parts = pool_ok_parts [OF assms(1)]
  have lt: "card (idle p) < num_gpu_blocks p" by (rule idle_less [OF parts(2)])
  then have "num_gpu_blocks p - card (idle p) \<noteq> Suc 0" using assms(2) by linarith
  then show ?thesis
    using lt
    by (simp add: reset_prefix_cache_def num_free_blocks_idle [OF parts(1)])
qed

lemma reset_prefix_cache_effect:
  assumes ok: "pool_ok env p" and env: "env_ok env" and dbg: "debug_assertions env"
    and all: "card (idle p) = num_gpu_blocks p - 1"
  shows "returns (reset_prefix_cache env p)
    (\<lambda>(done, p'). done \<and> pool_ok env p' \<and> frame p' = frame p \<and> refs p' = refs p \<and>
       (\<forall>b < num_gpu_blocks p. keys p' b = []) \<and> num_cached_blocks p' = 0 \<and> entries (retention p') = [] \<and>
       num_free (free_queue p') = card (idle p))"
proof -
  note parts = pool_ok_parts [OF ok]
  obtain q where q: "sync_retention_locked env p = Inr q" "pool_ok env q" "synced q" "data_same p q"
    using sync_retention_locked_effect [OF ok env] by (auto elim!: returnsE)
  have live: "live_ok env q" by (rule synced_live [OF q(3,2)])
  then have rq: "ret_ok (retention q)" "revision (retention q) + length (entries (retention q)) \<le> u64_max"
    by (simp_all add: live_ok_iff)
  obtain n hs r where r: "revoke_all (retention q) = Inr ((n, hs), r)" "ret_ok r" "entries r = []" "leased r = {}"
    "revision r = revision (retention q) + length (entries (retention q))"
    "enabled r = enabled (retention q)" "distinct hs" "set hs = leased (retention q)"
    using revoke_all_returns [OF rq] by (auto elim!: returnsE)
  obtain s where s: "release_retained_hashes env hs (q\<lparr>retention := r\<rparr>) = Inr s" "live_ok env s"
    "data_same q s" "retention s = r"
    using release_live_ok [OF live, of r hs] r rq(2) by (auto elim!: returnsE)
  have ds: "data_same p s" by (rule data_same_trans [OF q(4) s(3)])
  have core: "core_ok s" and rs: "retained_hashes s = []" and tr: "tracked env s {}"
    using s(2,4) r(4) dbg by (auto simp: live_ok_iff)
  have empty: "map_of (retained_hash_to_block s) = (\<lambda>_. None)" and nil: "retained_hash_to_block s = []"
    using tr by (simp_all add: tracked_def)
  let ?s = "s\<lparr>applied_retention_revision := revision (retention s)\<rparr>"
  define t where "t = (if n > 0 then ?s\<lparr>retention := publish_revocation (retention ?s)\<rparr> else ?s)"
  have t: "pool_ok env t" "data_same p t" "map_of (retained_hash_to_block t) = (\<lambda>_. None)"
    "retained_hashes t = []" "entries (retention t) = []" "retained_hash_to_block t = []"
    using s(2,4) ds pool_ok_publish [of env ?s] empty rs r(3) nil
    by (auto simp: t_def live_ok_def publish_revocation_def)
  have run: "reset_prefix_cache env p = Inr (True, uncached t)"
    using all idle_less [OF parts(2)] q(1) r(1) s(1) t(6)
    by (simp add: reset_prefix_cache_def num_free_blocks_idle [OF parts(1)] t_def Let_def uncached_def)
  have ct: "core_ok t" using t(1) by (simp add: pool_ok_def)
  note u = uncached_ok [OF ct t(3)]
  have fr: "frame (uncached t) = frame p" "refs (uncached t) = refs p"
    using u(2,3) t(2) by (simp_all add: data_same_def)
  have "tracked env (uncached t) {}" by (simp add: tracked_def uncached_def)
  then have "pool_ok env (uncached t)"
    using t(1,4) u(1) by (simp add: pool_ok_def retention_sync_def) (simp add: uncached_def)
  moreover have "num_free (free_queue (uncached t)) = card (idle p)"
  proof -
    have "held (uncached t) = {}"
      by (rule no_retention_held [OF u(1)]) (simp add: uncached_def)
    moreover have "idle (uncached t) = idle p"
      unfolding idle_def fr(2) frame_fields [OF fr(1)] ..
    ultimately show ?thesis using num_free_queue [OF u(1)] by simp
  qed
  moreover have "b < num_gpu_blocks p \<Longrightarrow> keys (uncached t) b = []" for b
    using u(4) [of b] shape_fields(1) [of t] ct data_same_fields(1) [OF t(2)] by (simp add: core_ok_def)
  ultimately show ?thesis
    unfolding run using fr t(5)
    by (simp add: num_cached_blocks_def index_len_def) (simp add: uncached_def index_clear_def)
qed

lemma reset_prefix_cache_all_idle:
  assumes "pool_ok env p" and "env_ok env" and "debug_assertions env" and "\<forall>b. real_block p b \<longrightarrow> refs p b = 0"
  shows "\<exists>p'. reset_prefix_cache env p = Inr (True, p') \<and> pool_ok env p' \<and> frame p' = frame p \<and> refs p' = refs p \<and>
      (\<forall>b < num_gpu_blocks p. keys p' b = []) \<and> num_cached_blocks p' = 0 \<and> entries (retention p') = [] \<and>
      num_free (free_queue p') = num_gpu_blocks p - 1"
proof -
  have null: "null_block_id p < num_gpu_blocks p"
    using pool_ok_parts(2) [OF assms(1)] by (simp add: shape_ok_def Let_def)
  have "idle p = {..<num_gpu_blocks p} - {null_block_id p}"
    using assms(4) by (auto simp: idle_def real_block_def)
  then have "card (idle p) = num_gpu_blocks p - 1" using null by simp
  then show ?thesis
    using reset_prefix_cache_effect [OF assms(1-3)] by (auto simp: returns_iff)
qed

end
