(* ===== verification/Pool_Theorems.thy ===== *)
theory Pool_Theorems
  imports Pool_Caching
begin

text \<open>
  The block pool as its clients see it: the transition system of a pool shared with lease holders, the
  properties of its operations, and the behaviour of the release profile.
\<close>

section \<open>The pool and its registry as one transition system\<close>

text \<open>
  The registry is shared: leases are taken, touched and dropped by their holders between two
  operations of the pool. A step happens when its operation returns. The obligations of the callers
  are the premises: block ids are real blocks, counters have room. \<open>reset_prefix_cache\<close> keeps the
  invariant only with debug assertions (see \<open>pressure_loop_leaks_in_release\<close>).
\<close>

definition room :: "PrefixBlockRetention \<Rightarrow> bool" where
  "room r \<longleftrightarrow>
     length (hash_ref_counts r) \<le> u32_max \<and> revision r + length (entries r) \<le> u64_max"

fun holder_op :: "retention_op \<Rightarrow> bool" where
  "holder_op REnable = True"
| "holder_op (RRetain hs) = True"
| "holder_op (RTouch i) = True"
| "holder_op (RDrop i) = True"
| "holder_op RRevokeOldest = False"
| "holder_op RRevokeAll = False"

datatype pool_op =
    PGetNew nat | PTouch "nat list" | PFree "nat list"
  | PCache "nat list" "BlockHash list" nat nat nat | PReset | PRegistry retention_op

inductive pool_step :: "rt_env \<Rightarrow> BlockPool \<Rightarrow> pool_op \<Rightarrow> BlockPool \<Rightarrow> bool" for env where
  get_new: "get_new_blocks env n p = Inr (res, p') \<Longrightarrow> pool_step env p (PGetNew n) p'"
| touch: "touch env bs p = Inr p' \<Longrightarrow> \<forall>b \<in> set bs. real_block p b \<Longrightarrow>
    \<forall>b \<in> set bs. refs p b + count_list bs b \<le> u32_max \<Longrightarrow> pool_step env p (PTouch bs) p'"
| free: "free_blocks env bs p = Inr p' \<Longrightarrow> \<forall>b \<in> set bs. real_block p b \<Longrightarrow>
    length bs \<le> u32_max \<Longrightarrow> pool_step env p (PFree bs) p'"
| cache: "cache_full_blocks env bs hs i j g p = Inr p' \<Longrightarrow> \<forall>b \<in> set bs. b < num_gpu_blocks p \<Longrightarrow>
    j \<le> length bs \<Longrightarrow> pool_step env p (PCache bs hs i j g) p'"
| reset: "reset_prefix_cache env p = Inr (r, p') \<Longrightarrow> debug_assertions env \<Longrightarrow> pool_step env p PReset p'"
| registry: "retention_step (retention p) op r \<Longrightarrow> holder_op op \<Longrightarrow> room r \<Longrightarrow>
    pool_step env p (PRegistry op) (p\<lparr>retention := r\<rparr>)"

lemma retention_step_revision:
  assumes "ret_ok r" and "retention_step r op r'" and "holder_op op"
  shows "revision r' = revision r \<and> leased r' = leased r \<or> revision r' = Suc (revision r)"
    and "enabled r \<Longrightarrow> enabled r'"
proof -
  have "(revision r' = revision r \<and> leased r' = leased r \<or> revision r' = Suc (revision r)) \<and>
      (enabled r \<longrightarrow> enabled r')"
    using assms(2,3)
  proof cases
    case (step_retain hs l)
    then have "enabled r" "next_id r < u64_max" "revision r < u64_max"
      by (auto simp: retain_def Let_def and_then_eq_Inr panic_simps split: if_splits option.splits
          dest!: bump_revision_Inr)
    then show ?thesis using retain_returns [OF assms(1), of hs] step_retain by (auto simp: returns_iff)
  next
    case (step_drop i)
    then show ?thesis
      by (auto simp: lease_drop_def remove_entry_def and_then_eq_Inr bump_revision_def panic_simps
          split: option.splits if_splits)
  qed (auto simp: retention_enable_def lease_touch_def split: option.splits)
  then show "revision r' = revision r \<and> leased r' = leased r \<or> revision r' = Suc (revision r)"
    and "enabled r \<Longrightarrow> enabled r'" by auto
qed

lemma registry_pool_ok:
  assumes ok: "pool_ok env p" and st: "retention_step (retention p) op r" "holder_op op" and "room r"
  shows "pool_ok env (p\<lparr>retention := r\<rparr>)"
proof -
  have s: "retention_sync env p" "ret_ok (retention p)"
    using ok by (auto simp: pool_ok_def retention_sync_def)
  have r: "ret_ok r" by (rule retention_step_ok [OF s(2) st(1)])
  note rv = retention_step_revision [OF s(2) st]
  have "retention_sync env (p\<lparr>retention := r\<rparr>)"
    using s(1) r rv assms(4) by (auto simp: retention_sync_def room_def)
  then show ?thesis using ok by (simp add: pool_ok_def)
qed

lemma free_blocks_enough:
  assumes "pool_ok env p" and "env_ok env" and "\<forall>b \<in> set bs. real_block p b" and "length bs \<le> u32_max"
    and "free_blocks env bs p = Inr p'"
  shows "\<forall>b. count_list bs b \<le> refs p b"
proof (rule ccontr)
  assume "\<not> (\<forall>b. count_list bs b \<le> refs p b)"
  then obtain b where "refs p b < count_list bs b" by (auto simp: not_le)
  then show False using free_blocks_underflow [OF assms(1-4)] assms(5) by simp
qed

lemma cache_full_blocks_ok:
  assumes ok: "pool_ok env p" and env: "env_ok env" and bs: "\<forall>b \<in> set bs. b < num_gpu_blocks p" "j \<le> length bs"
    and run: "cache_full_blocks env bs hs i j g p = Inr p'"
  shows "pool_ok env p'"
proof (cases "enable_caching p \<and> i < j")
  case False
  then show ?thesis using ok run by (auto simp: cache_full_blocks_def)
next
  case True
  then have "j \<le> length hs"
    using run by (auto simp: cache_full_blocks_def and_then_eq_Inr assert_that_def split: if_splits)
  then show ?thesis
    using cache_full_blocks_effect [OF ok env, of i j bs hs g] True bs run
    by (auto simp: returns_iff keys_outcome_def)
qed

lemma reset_ok:
  assumes "pool_ok env p" and "env_ok env" and "debug_assertions env"
    and "reset_prefix_cache env p = Inr (r, p')"
  shows "pool_ok env p'"
proof (cases "card (idle p) = num_gpu_blocks p - 1")
  case True
  then show ?thesis using reset_prefix_cache_effect [OF assms(1-3)] assms(4) by (auto simp: returns_iff)
next
  case False
  then show ?thesis using reset_busy [OF assms(1)] assms(1,4) by simp
qed

lemma pool_step_ok:
  assumes "env_ok env" and "pool_ok env p" and "pool_step env p op p'"
  shows "pool_ok env p'"
  using assms(3)
proof cases
  case (get_new n res)
  then show ?thesis using get_new_blocks_effect [OF assms(2,1), of n] by (auto simp: returns_iff)
next
  case (touch bs)
  then show ?thesis
    using touch_effect [OF assms(2,1), of bs] by (auto simp: returns_iff refs_outcome_def)
next
  case (free bs)
  then show ?thesis
    using free_blocks_effect [OF assms(2,1), of bs] free_blocks_enough [OF assms(2,1), of bs]
    by (auto simp: returns_iff refs_outcome_def)
next
  case (cache bs hs i j g)
  then show ?thesis using cache_full_blocks_ok [OF assms(2,1)] by blast
next
  case (reset r)
  then show ?thesis using reset_ok [OF assms(2,1)] by blast
next
  case (registry op r)
  then show ?thesis using registry_pool_ok [OF assms(2)] by blast
qed

text \<open>A pool as it is created, for some size within the address space.\<close>

definition fresh_pool :: "rt_env \<Rightarrow> BlockPool \<Rightarrow> bool" where
  "fresh_pool env p \<longleftrightarrow> (\<exists>n caching bsz. n + 2 \<le> usize_max \<and> BlockPool_new env n caching bsz = Inr p)"

lemma fresh_pool_ok:
  assumes "fresh_pool env p"
  shows "pool_ok env p"
proof -
  obtain n c b where n: "n + 2 \<le> usize_max" "BlockPool_new env n c b = Inr p"
    using assms by (auto simp: fresh_pool_def)
  then have "0 < n" by (auto simp: BlockPool_new_def and_then_eq_Inr assert_that_def split: if_splits)
  then show ?thesis using BlockPool_new_effect [OF _ n(1), of env c b] n(2) by (auto simp: returns_iff)
qed

text \<open>The environment ranges over those whose iteration orders are rearrangements.\<close>

interpretation pts: transition_system
  "\<lambda>(env, p). env_ok env \<and> fresh_pool env p"
  "\<lambda>(env, p) op (env', p'). env' = env \<and> pool_step env p op p'"
  "\<lambda>(env, p). env_ok env \<and> pool_ok env p"
  by unfold_locales (auto intro: fresh_pool_ok pool_step_ok)

definition reachable_pool :: "rt_env \<Rightarrow> BlockPool \<Rightarrow> bool" where
  "reachable_pool env p \<longleftrightarrow>
     reachable_from (\<lambda>(env, p). env_ok env \<and> fresh_pool env p)
       (\<lambda>(env, p) op (env', p'). env' = env \<and> pool_step env p op p') (env, p)"

lemma reachable_pool_ok: "reachable_pool env p \<Longrightarrow> pool_ok env p \<and> env_ok env"
  using pts.reachable_inv [of "(env, p)"] by (simp add: reachable_pool_def)

lemma reachable_poolI:
  assumes "env_ok env" and "fresh_pool env p" and "pool_step env p op q"
  shows "reachable_pool env q"
  unfolding reachable_pool_def
  by (rule reach_step [OF reach_init [of _ "(env, p)"], of _ _ op]) (use assms in simp_all)

section \<open>Concrete pools\<close>

lemma debug_env_debug [simp]: "debug_assertions debug_env"
  by (simp add: debug_env_def)

lemma sample_pool:
  obtains p where "BlockPool_new debug_env 4 True 16 = Inr p" and "pool_ok debug_env p" and "card (idle p) = 3"
    and "num_gpu_blocks p = 4" and "null_block_id p = 0" and "enable_caching p"
    and "retention p = retention_default" and "fresh_pool debug_env p"
proof -
  have "(0::nat) < 4" "4 + 2 \<le> usize_max" by (simp_all add: usize_max_def)
  moreover then have "fresh_pool debug_env p" if "BlockPool_new debug_env 4 True 16 = Inr p" for p
    using that unfolding fresh_pool_def by blast
  ultimately show thesis
    using BlockPool_new_effect [of 4 debug_env True 16] that by (auto simp: returns_iff)
qed

text \<open>A pool of four blocks, three of them real, with one block allocated.\<close>

definition allocated_sample :: "BlockPool \<Rightarrow> nat \<Rightarrow> BlockPool \<Rightarrow> bool" where
  "allocated_sample p b q \<longleftrightarrow>
     BlockPool_new debug_env 4 True 16 = Inr p \<and> get_new_blocks debug_env 1 p = Inr (Some [b], q)"

lemma sample_allocated:
  obtains p b q where "allocated_sample p b q" and "pool_ok debug_env p" and "pool_ok debug_env q"
    and "real_block q b" and "refs q b = 1" and "holds q b = 0" and "reachable_pool debug_env q"
    and "enable_caching q" and "num_gpu_blocks q = 4" and "b < 4" and "null_block_id q = 0"
    and "applied_retention_revision q = revision (retention q)"
proof -
  obtain p where p: "BlockPool_new debug_env 4 True 16 = Inr p" "pool_ok debug_env p" "card (idle p) = 3"
    "num_gpu_blocks p = 4" "null_block_id p = 0" "enable_caching p"
    "retention p = retention_default" "fresh_pool debug_env p"
    using sample_pool by metis
  have core: "core_ok p" and sync: "retention_sync debug_env p" using p(2) by (auto simp: pool_ok_def)
  have off: "\<not> enabled (retention p)" "revision (retention p) = 0" by (simp_all add: p(7) retention_default_def)
  have free: "1 \<le> num_free_blocks p" using num_free_blocks_idle [OF core] p(3) by simp
  have "retained_hashes p = []" using sync off(1) by (simp add: retention_sync_def)
  then have "map_of (retained_hash_to_block p) = (\<lambda>_. None)" using p(2) by (simp add: pool_ok_def tracked_def)
  then have "1 \<le> num_free (free_queue p)"
    using num_free_queue [OF core] no_retention_held [OF core] p(3) by simp
  then obtain bs q where q: "allocate_free_blocks debug_env 1 p = Inr (bs, q)" "length bs = 1" "blocks_taken p bs q"
    using allocate_free_blocks_effect [OF core, of 1 debug_env] by (auto simp: returns_iff)
  then obtain b where b: "bs = [b]" by (cases bs) auto
  have run: "get_new_blocks debug_env 1 p = Inr (Some [b], q)"
    using q(1) b free off(1) by (simp add: get_new_blocks_def)
  have t: "frame q = frame p" "sync_view q = sync_view p" "refs q b = 1" "holds q b = 0" "real_block p b"
    using q(3) b by (auto simp: blocks_taken_def idle_def)
  have "pool_ok debug_env q" by (rule blocks_taken_pool_ok [OF p(2) q(3)])
  moreover have "reachable_pool debug_env q"
    by (rule reachable_poolI [OF _ p(8) get_new [OF run]]) simp
  moreover have "applied_retention_revision q = revision (retention q)"
    using t(2) sync off(2) by (simp add: sync_view_def retention_sync_def)
  moreover have "b < 4" using t(5) p(4) by (simp add: real_block_def)
  moreover have "allocated_sample p b q" using p(1) run by (simp add: allocated_sample_def)
  ultimately show thesis
    using that p(2,4-6) t frame_fields [OF t(1)] by simp
qed

section \<open>Properties\<close>





text \<open>
  A block handed out by \<open>get_new_blocks\<close> is no longer found by a prefix lookup: whatever
  hash and groups are looked up next, the answer is another block. Stale cache contents are never
  matched.
\<close>

theorem allocated_block_not_found:
  assumes "pool_ok env p" and "env_ok env" and "get_new_blocks env n p = Inr (Some bs, p')"
    and "b \<in> set bs"
  shows "get_common_cached_block env p' h gs \<noteq> Inr (Some b)"
proof
  assume look: "get_common_cached_block env p' h gs = Inr (Some b)"
  have "pool_ok env p'" "new_blocks p bs p'"
    using get_new_blocks_effect [OF assms(1,2), of n] assms(3) by (auto simp: returns_iff)
  moreover from this have "gs \<noteq> [] \<and> shares_keys p' h gs b"
    using get_common_cached_block_effect [OF _ assms(2), of p' h gs] look by (auto simp: returns_iff)
  ultimately show False using assms(4) by (auto simp: shares_keys_def new_blocks_def neq_Nil_conv)
qed

theorem allocated_block_not_found_witness:
  "\<exists>p b q. allocated_sample p b q \<and>
     get_common_cached_block debug_env q (sample_hash 1) [0] \<noteq> Inr (Some b)"
proof -
  obtain p b q where q: "allocated_sample p b q" "pool_ok debug_env p" using sample_allocated by metis
  then show ?thesis
    using allocated_block_not_found [of debug_env p 1 "[b]" q b "sample_hash 1" "[0]"]
    by (auto simp: allocated_sample_def)
qed

text \<open>
  C16. \<open>free_blocks\<close> releases one reference per occurrence of a block in its argument, leaves
  keys and other blocks alone, and when no registry change is pending appends the blocks whose last
  reference went and that no retained prefix pins to the tail of the free list, in the order of
  their first occurrence: the caller's order decides the order of eviction.
\<close>

theorem free_blocks_correct:
  assumes "pool_ok env p" and "env_ok env" and "\<forall>b \<in> set bs. real_block p b" and "length bs \<le> u32_max"
    and "\<forall>b. count_list bs b \<le> refs p b" and "queue_rep (pool_queue p) ids"
    and "applied_retention_revision p = revision (retention p)"
  shows "\<exists>p'. free_blocks env bs p = Inr p' \<and> pool_ok env p' \<and> keys p' = keys p \<and>
    (\<forall>b. refs p' b = refs p b - count_list bs b) \<and>
    queue_rep (pool_queue p')
      (ids @ filter (\<lambda>b. count_list bs b = refs p b \<and> holds p b = 0) (firsts bs))"
proof -
  have "set (firsts xs) = set xs" for xs by (induction xs) auto
  then have "freed p (releases bs) bs = filter (\<lambda>b. count_list bs b = refs p b \<and> holds p b = 0) (firsts bs)"
    unfolding freed_def by (intro filter_cong) auto
  moreover have "synced p" using assms(7) by (simp add: synced_def)
  ultimately show ?thesis
    using free_blocks_effect [OF assms(1-5)] assms(6) by (auto simp: returns_iff refs_outcome_def)
qed

theorem free_blocks_correct_witness:
  "\<exists>p b q ids p'. allocated_sample p b q \<and> refs q b = 1 \<and> free_blocks debug_env [b] q = Inr p' \<and>
     refs p' b = 0 \<and> queue_rep (pool_queue p') (ids @ [b])"
proof -
  obtain p b q where q: "allocated_sample p b q" "pool_ok debug_env q" "real_block q b" "refs q b = 1"
    "holds q b = 0" "applied_retention_revision q = revision (retention q)"
    using sample_allocated by metis
  moreover obtain ids where "queue_rep (pool_queue q) ids"
    using q(2) by (auto simp: pool_ok_def core_ok_def elim: phys_okE)
  ultimately show ?thesis
    using free_blocks_correct [of debug_env q "[b]" ids] by (fastforce simp: u32_max_def)
qed



text \<open>
  Taking references with \<open>touch\<close> and giving them back with \<open>free_blocks\<close> is a round
  trip: both return, every reference count and every key is as before, and the pool is consistent.
\<close>

theorem touch_then_free:
  assumes "pool_ok env p" and "env_ok env" and "\<forall>b \<in> set bs. real_block p b" and "length bs \<le> u32_max"
    and "\<forall>b \<in> set bs. refs p b + count_list bs b \<le> u32_max"
  shows "\<exists>q p'. touch env bs p = Inr q \<and> (\<forall>b. refs q b = refs p b + count_list bs b) \<and>
    free_blocks env bs q = Inr p' \<and> pool_ok env p' \<and> refs p' = refs p \<and> keys p' = keys p"
proof -
  obtain q where q: "touch env bs p = Inr q" "pool_ok env q" "frame q = frame p" "keys q = keys p"
    "refs q = (\<lambda>b. refs p b + count_list bs b)"
    using touch_effect [OF assms(1-3,5)] by (auto simp: returns_iff refs_outcome_def)
  have "\<exists>p'. free_blocks env bs q = Inr p' \<and> refs_outcome env q (\<lambda>b. refs q b - count_list bs b) p'"
    using free_blocks_effect [OF q(2) assms(2) _ assms(4)] assms(3) q(5) frame_fields(2) [OF q(3)]
    by (auto simp: returns_iff)
  then show ?thesis using q by (auto simp: refs_outcome_def)
qed

theorem touch_then_free_witness:
  "\<exists>p b q r p'. allocated_sample p b q \<and> touch debug_env [b, b] q = Inr r \<and> refs r b = 3 \<and>
     free_blocks debug_env [b, b] r = Inr p' \<and> refs p' b = 1"
proof -
  obtain p b q where q: "allocated_sample p b q" "pool_ok debug_env q" "real_block q b" "refs q b = 1"
    using sample_allocated by metis
  then have "\<exists>r p'. touch debug_env [b, b] q = Inr r \<and> (\<forall>x. refs r x = refs q x + count_list [b, b] x) \<and>
      free_blocks debug_env [b, b] r = Inr p' \<and> pool_ok debug_env p' \<and> refs p' = refs q \<and> keys p' = keys q"
    by (intro touch_then_free) (simp_all add: u32_max_def)
  then show ?thesis using q(1,4) by fastforce
qed

text \<open>
  A prefix lookup answers soundly and completely: the block it returns is a real block that
  carries the hash for every requested group, and it answers \<open>None\<close> only if no block does. It
  never panics, whatever the order in which a map is iterated.
\<close>

theorem prefix_lookup_exact:
  assumes "pool_ok env p" and "env_ok env" and "gs \<noteq> []"
  shows "\<exists>r. get_common_cached_block env p h gs = Inr r \<and>
    (\<forall>b. r = Some b \<longrightarrow> real_block p b \<and> (\<forall>g \<in> set gs. hkey h g \<in> set (keys p b))) \<and>
    (r = None \<longleftrightarrow> (\<forall>b. real_block p b \<longrightarrow> (\<exists>g \<in> set gs. hkey h g \<notin> set (keys p b))))"
proof -
  obtain r where r: "get_common_cached_block env p h gs = Inr r"
    "\<forall>b. r = Some b \<longrightarrow> gs \<noteq> [] \<and> shares_keys p h gs b" "r = None \<longrightarrow> gs = [] \<or> (\<forall>b. \<not> shares_keys p h gs b)"
    using get_common_cached_block_effect [OF assms(1,2), of h gs] by (auto simp: returns_iff)
  then show ?thesis using assms(3) by (cases r) (auto simp: shares_keys_def)
qed

theorem prefix_lookup_exact_witness:
  "\<exists>p b q r. allocated_sample p b q \<and> get_common_cached_block debug_env q (sample_hash 1) [0] = Inr r \<and>
     (\<forall>x. r = Some x \<longrightarrow> real_block q x)"
proof -
  obtain p b q where q: "allocated_sample p b q" "pool_ok debug_env q" using sample_allocated by metis
  moreover obtain r where "get_common_cached_block debug_env q (sample_hash 1) [0] = Inr r"
    "\<forall>x. r = Some x \<longrightarrow> real_block q x"
    using prefix_lookup_exact [OF q(2), of "[0]" "sample_hash 1"] by auto
  ultimately show ?thesis by blast
qed

text \<open>
  What \<open>cache_full_blocks\<close> publishes a later lookup finds: after publishing the full blocks of a
  request, every published hash of a block other than the null block is found for its group, and the
  block found carries it. Reference counts do not change and no other key appears.
\<close>

theorem cached_blocks_found:
  assumes "pool_ok env p" and "env_ok env" and "enable_caching p" and "i < nfull"
    and "nfull \<le> length ids" and "nfull \<le> length hs" and "\<forall>b \<in> set ids. b < num_gpu_blocks p"
  shows "\<exists>p'. cache_full_blocks env ids hs i nfull gid p = Inr p' \<and> pool_ok env p' \<and> refs p' = refs p \<and>
    (\<forall>j. i \<le> j \<and> j < nfull \<and> ids ! j \<noteq> null_block_id p \<longrightarrow>
       (\<exists>b. get_common_cached_block env p' (hs ! j) [gid] = Inr (Some b) \<and>
            hkey (hs ! j) gid \<in> set (keys p' b))) \<and>
    (\<forall>b k. k \<in> set (keys p' b) \<longrightarrow> k \<in> set (keys p b) \<or>
       (\<exists>j. i \<le> j \<and> j < nfull \<and> ids ! j = b \<and> k = hkey (hs ! j) gid))"
proof -
  obtain p' where p': "cache_full_blocks env ids hs i nfull gid p = Inr p'" "pool_ok env p'"
    "frame p' = frame p" "refs p' = refs p" "keys p' = keys_published p ids hs gid [i..<nfull] (keys p)"
    using cache_full_blocks_effect [OF assms] by (auto simp: returns_iff keys_outcome_def)
  have found: "\<exists>b. get_common_cached_block env p' (hs ! j) [gid] = Inr (Some b) \<and>
      hkey (hs ! j) gid \<in> set (keys p' b)"
    if j: "i \<le> j" "j < nfull" "ids ! j \<noteq> null_block_id p" for j
  proof -
    have "hkey (hs ! j) gid \<in> set (keys p' (ids ! j))"
      unfolding p'(5) using j by (intro keys_published_mem) auto
    moreover have "real_block p' (ids ! j)"
      using j assms(5,7) unfolding frame_fields(2) [OF p'(3)] by (auto simp: real_block_def)
    ultimately have "shares_keys p' (hs ! j) [gid] (ids ! j)" by (simp add: shares_keys_def)
    then show ?thesis
      using get_common_cached_block_effect [OF p'(2) assms(2), of "hs ! j" "[gid]"]
      by (auto simp: returns_iff shares_keys_def)
  qed
  have "k \<in> set (keys p b) \<or> (\<exists>j. i \<le> j \<and> j < nfull \<and> ids ! j = b \<and> k = hkey (hs ! j) gid)"
    if "k \<in> set (keys p' b)" for b k
    using keys_published_only [OF that [unfolded p'(5)]] by auto
  then show ?thesis using p' found by auto
qed

theorem cached_blocks_found_witness:
  "\<exists>p b q p' b'. allocated_sample p b q \<and> cache_full_blocks debug_env [b] [sample_hash 1] 0 1 0 q = Inr p' \<and>
     get_common_cached_block debug_env p' (sample_hash 1) [0] = Inr (Some b')"
proof -
  obtain p b q where q: "allocated_sample p b q" "pool_ok debug_env q" "real_block q b" "enable_caching q"
    "num_gpu_blocks q = 4" "b < 4" "null_block_id q = 0"
    using sample_allocated by metis
  then have "b \<noteq> null_block_id q" by (simp add: real_block_def)
  then show ?thesis
    using cached_blocks_found [of debug_env q 0 1 "[b]" "[sample_hash 1]" 0] q by fastforce
qed

text \<open>
  \<open>reset_prefix_cache\<close> refuses, changing nothing, while any block is in use. With debug
  assertions and every real block idle it succeeds: all leases are revoked, no block carries a key,
  the index is empty and every real block is on the free list again.
\<close>

theorem reset_prefix_cache_correct:
  assumes "pool_ok env p" and "env_ok env" and "debug_assertions env"
  shows "if (\<forall>b. real_block p b \<longrightarrow> refs p b = 0)
    then \<exists>p'. reset_prefix_cache env p = Inr (True, p') \<and> pool_ok env p' \<and> refs p' = refs p \<and>
      (\<forall>b < num_gpu_blocks p. keys p' b = []) \<and> num_cached_blocks p' = 0 \<and> entries (retention p') = [] \<and>
      num_free (free_queue p') = num_gpu_blocks p - 1
    else reset_prefix_cache env p = Inr (False, p)"
proof -
  note parts = pool_ok_parts [OF assms(1)]
  have null: "null_block_id p < num_gpu_blocks p" using parts(2) by (simp add: shape_ok_def Let_def)
  have real: "{b. real_block p b} = {..<num_gpu_blocks p} - {null_block_id p}" by (auto simp: real_block_def)
  then have size: "card {b. real_block p b} = num_gpu_blocks p - 1" using null by simp
  have sub: "idle p \<subseteq> {b. real_block p b}" by (auto simp: idle_def)
  show ?thesis
  proof (cases "\<forall>b. real_block p b \<longrightarrow> refs p b = 0")
    case True
    then show ?thesis using reset_prefix_cache_all_idle [OF assms True] by auto
  next
    case False
    then have "idle p \<noteq> {b. real_block p b}" unfolding idle_def by blast
    then have "idle p \<subset> {b. real_block p b}" using sub by blast
    moreover have "finite {b. real_block p b}" unfolding real by simp
    ultimately have "card (idle p) \<noteq> num_gpu_blocks p - 1"
      using psubset_card_mono [of "{b. real_block p b}" "idle p"] size by simp
    then show ?thesis using reset_busy [OF assms(1)] False by simp
  qed
qed

theorem reset_prefix_cache_correct_witness:
  "\<exists>p b q. allocated_sample p b q \<and> reset_prefix_cache debug_env q = Inr (False, q)"
proof -
  obtain p b q where q: "allocated_sample p b q" "pool_ok debug_env q" "real_block q b" "refs q b = 1"
    using sample_allocated by metis
  then have "\<not> (\<forall>b. real_block q b \<longrightarrow> refs q b = 0)" by (metis zero_neq_one)
  then have "reset_prefix_cache debug_env q = Inr (False, q)"
    using reset_prefix_cache_correct [OF q(2)] by (simp only: if_False env_ok_samples debug_env_debug)
  then show ?thesis using q(1) by blast
qed

section \<open>The release profile\<close>

text \<open>
  \<open>release_retained_hashes\<close> removes a revoked hash from \<open>retained_hashes\<close> inside \<open>debug_assert!\<close>. The
  history below has two real blocks: a prefix is retained, cached and freed, memory pressure revokes
  it, and the same prefix is cached and freed again. In the release profile the stale hash then pins
  its block although no lease is left, and an allocation within \<open>num_free_blocks\<close> fails.
\<close>

definition pressure_history :: "rt_env \<Rightarrow> BlockPool res" where
  "pressure_history env =
     and_then (BlockPool_new env 3 True 16) (\<lambda>p.
     and_then (retain [sample_hash 1] (retention_enable (retention p))) (\<lambda>(l, r).
     and_then (get_new_blocks env 1 (p\<lparr>retention := r\<rparr>)) (\<lambda>(bs, p).
     and_then (cache_full_blocks env (the bs) [sample_hash 1] 0 1 0 p) (\<lambda>p.
     and_then (free_blocks env (the bs) p) (\<lambda>p.
     and_then (get_new_blocks env 2 p) (\<lambda>(bs, p).
     and_then (free_blocks env (the bs) p) (\<lambda>p.
     and_then (get_new_blocks env 1 p) (\<lambda>(bs, p).
     and_then (cache_full_blocks env (the bs) [sample_hash 1] 0 1 0 p) (\<lambda>p.
     free_blocks env (the bs) p)))))))))"

lemma small_le: "n \<le> 9 \<Longrightarrow> n \<le> u32_max" "n \<le> 9 \<Longrightarrow> n \<le> u64_max" "n \<le> 9 \<Longrightarrow> n \<le> usize_max"
  by (simp_all add: int_max_defs)

lemma small_link: "n \<le> 9 \<Longrightarrow> n \<noteq> NO_LINK" "n \<le> 9 \<Longrightarrow> NO_LINK \<noteq> n"
  by (simp_all add: int_max_defs NO_LINK_def)

lemmas queue_run = queue_new_def link_one_def KVCacheBlock_new_def popleft_def queue_remove_def
  queue_append_def set_prev_def set_next_def set_queue_def

lemmas registry_run = retention_default_def retention_enable_def retain_def bump_revision_def
  revoke_oldest_def remove_entry_def publish_revocation_def

lemmas index_run = index_get_common_def index_contains_def index_insert_def index_pop_def index_new_def
  hkey_def sample_hash_def

lemmas pool_run = BlockPool_new_def get_new_blocks_def num_free_blocks_def sync_retention_locked_def
  sync_retention_if_changed_def forget_retained_hash_def reconcile_retained_hash_block_def
  retained_block_candidate_def retain_physical_block_def release_physical_block_def allocate_one_def
  maybe_evict_cached_block_def cache_full_blocks_def cache_one_def free_blocks_def check_release_def
  release_one_def revoke_under_pressure.simps release_retained_hashes_def release_retained_hash_def

lemmas run_defs = queue_run registry_run index_run pool_run release_env_def debug_env_def get_at_def
  set_at_def panic_simps Let_def small_le small_link upt_rec eval_nat_numeral

text \<open>
  C24. The same history in the two build profiles: with debug assertions the pool ends with
  both real blocks free and hands out both; in the release profile it reports two free blocks, has no
  lease left to revoke, and still refuses to hand out two.
\<close>

theorem pressure_loop_leaks_in_release:
  "(\<exists>p p'. pressure_history release_env = Inr p \<and> num_free_blocks p = 2 \<and> entries (retention p) = [] \<and>
      get_new_blocks release_env 2 p = Inr (None, p')) \<and>
   (\<exists>p p' bs. pressure_history debug_env = Inr p \<and> num_free_blocks p = 2 \<and> entries (retention p) = [] \<and>
      get_new_blocks debug_env 2 p = Inr (Some bs, p'))"
proof
  show "\<exists>p p'. pressure_history release_env = Inr p \<and> num_free_blocks p = 2 \<and> entries (retention p) = [] \<and>
      get_new_blocks release_env 2 p = Inr (None, p')"
    by (simp add: pressure_history_def run_defs)
  show "\<exists>p p' bs. pressure_history debug_env = Inr p \<and> num_free_blocks p = 2 \<and> entries (retention p) = [] \<and>
      get_new_blocks debug_env 2 p = Inr (Some bs, p')"
    by (simp add: pressure_history_def run_defs)
qed

end
