(* ===== verification/KV_Cache_Manager.thy ===== *)
theory KV_Cache_Manager
  imports Pool_Theorems
begin

text \<open>
  The KV cache manager (\<open>KVCacheManager\<close> of \<open>paged_attention/kv_cache_manager.rs\<close>): the block
  tables of the requests, prompt reservations, allocation, release, trimming, publishing full
  blocks in the prefix cache, and the slot mapping and block table handed to the kernels. The map from
  request ids to block tables is an association list with distinct keys; only its values are
  summed, so the order of iteration does not matter.
\<close>

section \<open>State\<close>

record ComputedBlocks =
  computed_block_ids :: "nat list"
  num_computed_tokens :: nat

record RequestBlocks =
  block_ids :: "nat list"
  cached_count :: nat
  reserved_blocks :: nat

record KVCacheManager =
  block_pool :: BlockPool
  block_size :: nat
  caching_enabled :: bool
  kv_cache_group_ids :: "nat list"
  req_to_blocks :: "(nat \<times> RequestBlocks) list"
  total_reserved_blocks :: nat

definition KVCacheManager_new :: "rt_env \<Rightarrow> nat \<Rightarrow> nat \<Rightarrow> bool \<Rightarrow> nat list \<Rightarrow> KVCacheManager res" where
  "KVCacheManager_new env n bsz caching gs =
     and_then (BlockPool_new env n caching bsz) (\<lambda>p.
     and_then (set_retention_group_ids gs p) (\<lambda>p.
     Inr \<lparr>block_pool = p, block_size = bsz, caching_enabled = caching, kv_cache_group_ids = gs,
          req_to_blocks = [], total_reserved_blocks = 0\<rparr>))"

definition block_pool_mut :: "KVCacheManager \<Rightarrow> BlockPool res" where
  "block_pool_mut m =
     and_then (assert_that ''cannot mutate the block pool while prompt reservations are active''
                 (total_reserved_blocks m = 0)) (\<lambda>_. Inr (block_pool m))"

definition num_unreserved_blocks :: "KVCacheManager \<Rightarrow> nat res" where
  "num_unreserved_blocks m =
     expect ''KV reservations exceed physical free blocks''
       (checked_sub (num_free_blocks (block_pool m)) (total_reserved_blocks m))"

definition num_usable_blocks :: "KVCacheManager \<Rightarrow> nat" where
  "num_usable_blocks m = num_gpu_blocks (block_pool m) - 1"

definition num_active_blocks :: "KVCacheManager \<Rightarrow> nat" where
  "num_active_blocks m = num_usable_blocks m - num_free_blocks (block_pool m)"

definition debug_assert_reservation_invariant :: "rt_env \<Rightarrow> KVCacheManager \<Rightarrow> unit res" where
  "debug_assert_reservation_invariant env m =
     (if debug_assertions env then
        and_then (assert_that ''total_reserved_blocks == sum of reserved_blocks''
           (total_reserved_blocks m = sum_list (map (\<lambda>(_, q). reserved_blocks q) (req_to_blocks m)))) (\<lambda>_.
        and_then (add_plain True usize_max (num_active_blocks m) (total_reserved_blocks m)) (\<lambda>s.
        assert_that ''num_active_blocks + total_reserved_blocks <= num_usable_blocks''
           (s \<le> num_usable_blocks m)))
      else Inr ())"

section \<open>Prefix cache hits\<close>

fun cached_prefix :: "rt_env \<Rightarrow> BlockPool \<Rightarrow> nat list \<Rightarrow> nat \<Rightarrow> BlockHash list \<Rightarrow> nat list res" where
  "cached_prefix env p gs max_num_blocks [] = Inr []"
| "cached_prefix env p gs 0 (h # hs) = Inr []"
| "cached_prefix env p gs (Suc k) (h # hs) =
     and_then (get_common_cached_block env p h gs) (\<lambda>found.
     case found of
       Some b \<Rightarrow> and_then (cached_prefix env p gs k hs) (\<lambda>bs. Inr (b # bs))
     | None \<Rightarrow> Inr [])"

definition get_computed_blocks ::
    "rt_env \<Rightarrow> KVCacheManager \<Rightarrow> BlockHash list \<Rightarrow> nat \<Rightarrow> ComputedBlocks res" where
  "get_computed_blocks env m hs num_tokens =
     (if \<not> caching_enabled m \<or> hs = [] then
        Inr \<lparr>computed_block_ids = [], num_computed_tokens = 0\<rparr>
      else
        and_then (div_res (num_tokens - 1) (block_size m)) (\<lambda>max_num_blocks.
        and_then (cached_prefix env (block_pool m) (kv_cache_group_ids m) max_num_blocks hs) (\<lambda>bs.
        and_then (mul_plain (debug_assertions env) usize_max (length bs) (block_size m)) (\<lambda>n.
        Inr \<lparr>computed_block_ids = bs, num_computed_tokens = n\<rparr>))))"

section \<open>Reservation and allocation\<close>

fun count_evictable :: "BlockPool \<Rightarrow> nat list \<Rightarrow> nat res" where
  "count_evictable p [] = Inr 0"
| "count_evictable p (b # bs) =
     and_then (block_ref_cnt p b) (\<lambda>r.
     and_then (count_evictable p bs) (\<lambda>n. Inr (if r = 0 then n + 1 else n)))"

definition num_evictable :: "KVCacheManager \<Rightarrow> nat list \<Rightarrow> nat res" where
  "num_evictable m computed =
     (if caching_enabled m then count_evictable (block_pool m) computed else Inr 0)"

definition touch_computed :: "rt_env \<Rightarrow> nat list \<Rightarrow> KVCacheManager \<Rightarrow> KVCacheManager res" where
  "touch_computed env computed m =
     (if computed \<noteq> [] \<and> caching_enabled m then
        and_then (touch env computed (block_pool m)) (\<lambda>p. Inr (m\<lparr>block_pool := p\<rparr>))
      else Inr m)"

definition reserve_prompt ::
    "rt_env \<Rightarrow> nat \<Rightarrow> nat \<Rightarrow> nat list \<Rightarrow> KVCacheManager \<Rightarrow> (unit option \<times> KVCacheManager) res" where
  "reserve_prompt env request_id num_tokens computed m =
     (if map_of (req_to_blocks m) request_id \<noteq> None then Inr (None, m)
      else
        and_then (div_ceil_res num_tokens (block_size m)) (\<lambda>num_required.
        case checked_sub num_required (length computed) of
          None \<Rightarrow> Inr (None, m)
        | Some num_reserved \<Rightarrow>
            and_then (num_evictable m computed) (\<lambda>evictable.
            and_then (add_plain (debug_assertions env) usize_max num_reserved evictable) (\<lambda>needed.
            and_then (num_unreserved_blocks m) (\<lambda>unreserved.
            if needed > unreserved then Inr (None, m)
            else
              and_then (touch_computed env computed m) (\<lambda>m.
              and_then (expect ''KV reservation count overflow''
                          (checked_add usize_max (total_reserved_blocks m) num_reserved)) (\<lambda>total.
              let m = m\<lparr>req_to_blocks :=
                          AList.update request_id
                            \<lparr>block_ids = computed, cached_count = length computed,
                             reserved_blocks = num_reserved\<rparr> (req_to_blocks m),
                        total_reserved_blocks := total\<rparr>
              in and_then (debug_assert_reservation_invariant env m) (\<lambda>_. Inr (Some (), m)))))))))"

text \<open>The branch of \<open>allocate_slots\<close> for a request that already has a table.\<close>

definition extend_slots ::
    "rt_env \<Rightarrow> nat \<Rightarrow> nat \<Rightarrow> RequestBlocks \<Rightarrow> KVCacheManager \<Rightarrow> (nat list option \<times> KVCacheManager) res" where
  "extend_slots env request_id num_required req m =
     (let num_new = num_required - length (block_ids req) in
      if num_new = 0 then Inr (Some [], m)
      else
        (let num_reserved = min num_new (reserved_blocks req);
             num_unreserved = num_new - num_reserved
         in and_then (num_unreserved_blocks m) (\<lambda>unreserved.
            if num_unreserved > unreserved then Inr (None, m)
            else
              and_then (get_new_blocks env num_new (block_pool m)) (\<lambda>(res, p).
              let m = m\<lparr>block_pool := p\<rparr> in
              case res of
                None \<Rightarrow> Inr (None, m)
              | Some new_ids \<Rightarrow>
                  and_then (sub_plain (debug_assertions env) usize_max (reserved_blocks req) num_reserved) (\<lambda>rb.
                  and_then (sub_plain (debug_assertions env) usize_max (total_reserved_blocks m) num_reserved) (\<lambda>total.
                  let m = m\<lparr>req_to_blocks :=
                              AList.update request_id
                                (req\<lparr>block_ids := block_ids req @ new_ids, reserved_blocks := rb\<rparr>)
                                (req_to_blocks m),
                            total_reserved_blocks := total\<rparr>
                  in and_then (debug_assert_reservation_invariant env m) (\<lambda>_. Inr (Some new_ids, m))))))))"

text \<open>The branch of \<open>allocate_slots\<close> for a new request, and the allocation inside it.\<close>

definition admit_blocks :: "rt_env \<Rightarrow> nat \<Rightarrow> KVCacheManager \<Rightarrow> (nat list \<times> KVCacheManager) res" where
  "admit_blocks env num_new m =
     (if num_new > 0 then
        and_then (get_new_blocks env num_new (block_pool m)) (\<lambda>(res, p).
        and_then (expect ''Should have enough blocks after capacity check'' res) (\<lambda>ids.
        Inr (ids, m\<lparr>block_pool := p\<rparr>)))
      else Inr ([], m))"

definition admit_slots ::
    "rt_env \<Rightarrow> nat \<Rightarrow> nat \<Rightarrow> nat list \<Rightarrow> KVCacheManager \<Rightarrow> (nat list option \<times> KVCacheManager) res" where
  "admit_slots env request_id num_required computed m =
     (let num_new = num_required - length computed in
      and_then (num_evictable m computed) (\<lambda>evictable.
      and_then (add_plain (debug_assertions env) usize_max num_new evictable) (\<lambda>total_needed.
      and_then (num_unreserved_blocks m) (\<lambda>unreserved.
      if total_needed > unreserved then Inr (None, m)
      else
        and_then (touch_computed env computed m) (\<lambda>m.
        and_then (admit_blocks env num_new m) (\<lambda>(new_ids, m).
        let m = m\<lparr>req_to_blocks :=
                    AList.update request_id
                      \<lparr>block_ids = computed @ new_ids, cached_count = length computed,
                       reserved_blocks = 0\<rparr> (req_to_blocks m)\<rparr>
        in and_then (debug_assert_reservation_invariant env m) (\<lambda>_. Inr (Some new_ids, m))))))))"

definition allocate_slots ::
    "rt_env \<Rightarrow> nat \<Rightarrow> nat \<Rightarrow> nat list \<Rightarrow> KVCacheManager \<Rightarrow> (nat list option \<times> KVCacheManager) res" where
  "allocate_slots env request_id num_tokens computed m =
     and_then (div_ceil_res num_tokens (block_size m)) (\<lambda>num_required.
     case map_of (req_to_blocks m) request_id of
       Some req \<Rightarrow> extend_slots env request_id num_required req m
     | None \<Rightarrow> admit_slots env request_id num_required computed m)"

section \<open>Release\<close>

definition free_request :: "rt_env \<Rightarrow> nat \<Rightarrow> KVCacheManager \<Rightarrow> KVCacheManager res" where
  "free_request env request_id m =
     (case map_of (req_to_blocks m) request_id of
        None \<Rightarrow> Inr m
      | Some req \<Rightarrow>
          and_then (sub_plain (debug_assertions env) usize_max (total_reserved_blocks m) (reserved_blocks req)) (\<lambda>total.
          and_then (free_blocks env (rev (block_ids req)) (block_pool m)) (\<lambda>p.
          let m = m\<lparr>req_to_blocks := AList.delete request_id (req_to_blocks m),
                    total_reserved_blocks := total, block_pool := p\<rparr>
          in and_then (debug_assert_reservation_invariant env m) (\<lambda>_. Inr m))))"

definition trim_request_to_num_tokens ::
    "rt_env \<Rightarrow> nat \<Rightarrow> nat \<Rightarrow> KVCacheManager \<Rightarrow> KVCacheManager res" where
  "trim_request_to_num_tokens env request_id num_tokens m =
     and_then (div_ceil_res num_tokens (block_size m)) (\<lambda>num_required.
     case map_of (req_to_blocks m) request_id of
       None \<Rightarrow> Inr m
     | Some req \<Rightarrow>
         if num_required \<ge> length (block_ids req) then
           Inr (m\<lparr>req_to_blocks :=
                    AList.update request_id
                      (req\<lparr>cached_count := min (cached_count req) (length (block_ids req))\<rparr>)
                      (req_to_blocks m)\<rparr>)
         else
           (let removed = drop num_required (block_ids req);
                kept = take num_required (block_ids req);
                restored = (if reserved_blocks req \<noteq> 0 then length removed else 0)
            in and_then (expect ''KV reservation count overflow''
                           (checked_add usize_max (reserved_blocks req) restored)) (\<lambda>rb.
               and_then (free_blocks env (rev removed) (block_pool m)) (\<lambda>p.
               and_then (expect ''KV reservation count overflow''
                           (checked_add usize_max (total_reserved_blocks m) restored)) (\<lambda>total.
               let m = m\<lparr>req_to_blocks :=
                           AList.update request_id
                             (req\<lparr>block_ids := kept, cached_count := min (cached_count req) (length kept),
                                  reserved_blocks := rb\<rparr>)
                             (req_to_blocks m),
                         block_pool := p, total_reserved_blocks := total\<rparr>
               in and_then (debug_assert_reservation_invariant env m) (\<lambda>_. Inr m))))))"

section \<open>Caching\<close>

definition cache_blocks ::
    "rt_env \<Rightarrow> nat \<Rightarrow> BlockHash list \<Rightarrow> nat \<Rightarrow> KVCacheManager \<Rightarrow> KVCacheManager res" where
  "cache_blocks env request_id hs num_computed m =
     (if \<not> caching_enabled m then Inr m
      else
        (case map_of (req_to_blocks m) request_id of
           None \<Rightarrow> Inr m
         | Some req \<Rightarrow>
             and_then (div_res num_computed (block_size m)) (\<lambda>n.
             let num_full = min n (length (block_ids req)) in
             if cached_count req \<ge> num_full then Inr m
             else
               and_then
                 (fold_res (\<lambda>g p. cache_full_blocks env (block_ids req) hs (cached_count req) num_full g p)
                    (kv_cache_group_ids m) (block_pool m)) (\<lambda>p.
               Inr (m\<lparr>block_pool := p,
                      req_to_blocks :=
                        AList.update request_id (req\<lparr>cached_count := num_full\<rparr>) (req_to_blocks m)\<rparr>)))))"

definition manager_reset_prefix_cache :: "rt_env \<Rightarrow> KVCacheManager \<Rightarrow> (bool \<times> KVCacheManager) res" where
  "manager_reset_prefix_cache env m =
     (if req_to_blocks m \<noteq> [] then Inr (False, m)
      else
        and_then (reset_prefix_cache env (block_pool m)) (\<lambda>(ok, p).
        let m = m\<lparr>block_pool := p\<rparr> in
        if ok then
          (let m = m\<lparr>total_reserved_blocks := 0\<rparr>
           in and_then (debug_assert_reservation_invariant env m) (\<lambda>_. Inr (True, m)))
        else Inr (False, m)))"

section \<open>Views for the kernels\<close>

definition get_block_ids :: "KVCacheManager \<Rightarrow> nat \<Rightarrow> nat list option" where
  "get_block_ids m request_id = map_option block_ids (map_of (req_to_blocks m) request_id)"

definition num_blocks_for_request :: "KVCacheManager \<Rightarrow> nat \<Rightarrow> nat" where
  "num_blocks_for_request m request_id =
     (case map_of (req_to_blocks m) request_id of None \<Rightarrow> 0 | Some q \<Rightarrow> length (block_ids q))"

definition has_request :: "KVCacheManager \<Rightarrow> nat \<Rightarrow> bool" where
  "has_request m request_id \<longleftrightarrow> map_of (req_to_blocks m) request_id \<noteq> None"

definition num_cached_for_request :: "KVCacheManager \<Rightarrow> nat \<Rightarrow> nat" where
  "num_cached_for_request m request_id =
     (case map_of (req_to_blocks m) request_id of None \<Rightarrow> 0 | Some q \<Rightarrow> cached_count q)"

definition PAD_SLOT_ID :: int where
  "PAD_SLOT_ID = -1"

definition slot_of :: "rt_env \<Rightarrow> nat \<Rightarrow> nat list \<Rightarrow> nat \<Rightarrow> int list \<Rightarrow> int list res" where
  "slot_of env bsz ids token_pos slots =
     and_then (div_res token_pos bsz) (\<lambda>block_idx.
     if block_idx < length ids then
       and_then (mul_plain (debug_assertions env) usize_max (ids ! block_idx) bsz) (\<lambda>base.
       and_then (add_plain (debug_assertions env) usize_max base (token_pos mod bsz)) (\<lambda>s.
       Inr (slots @ [as_i64 s])))
     else Inr (slots @ [PAD_SLOT_ID]))"

definition get_slot_mapping ::
    "rt_env \<Rightarrow> KVCacheManager \<Rightarrow> nat \<Rightarrow> nat \<Rightarrow> nat \<Rightarrow> int list option res" where
  "get_slot_mapping env m request_id start_token num_tokens =
     (case map_of (req_to_blocks m) request_id of
        None \<Rightarrow> Inr None
      | Some req \<Rightarrow>
          and_then (add_plain (debug_assertions env) usize_max start_token num_tokens) (\<lambda>stop.
          and_then (fold_res (slot_of env (block_size m) (block_ids req)) [start_token..<stop] []) (\<lambda>slots.
          Inr (Some slots))))"

definition get_block_table :: "KVCacheManager \<Rightarrow> nat \<Rightarrow> nat \<Rightarrow> int list option" where
  "get_block_table m request_id max_blocks =
     map_option
       (\<lambda>req. take max_blocks (map as_i32 (block_ids req)) @ replicate (max_blocks - length (block_ids req)) 0)
       (map_of (req_to_blocks m) request_id)"

end
