(* ===== verification/Manager_Invariant.thy ===== *)
theory Manager_Invariant
  imports KV_Cache_Manager
begin

text \<open>
  Reference and reservation accounting of the KV cache manager. The locale \<open>block_allocator\<close> states
  what the manager relies on in the pool and derives, once, how the accounting moves; the block pool
  implements it. The operations of the manager are then shown to keep \<open>manager_ok\<close>.
\<close>

section \<open>The interface: a reference counted block allocator\<close>

text \<open>
  What the manager relies on in the pool. \<open>cnt\<close> counts references, \<open>sure\<close> says whether an
  allocation within the free count is certain to succeed, \<open>limit\<close> bounds a reference count.
\<close>

definition free_count :: "(nat \<Rightarrow> bool) \<Rightarrow> (nat \<Rightarrow> nat) \<Rightarrow> nat" where
  "free_count real cnt = card {b. real b \<and> cnt b = 0}"

text \<open>Every reference is accounted for by an owner, and only real blocks are owned.\<close>

definition backed :: "(nat \<Rightarrow> bool) \<Rightarrow> (nat \<Rightarrow> nat) \<Rightarrow> (nat \<Rightarrow> nat) \<Rightarrow> bool" where
  "backed real cnt f \<longleftrightarrow> (\<forall>b. real b \<longrightarrow> cnt b = f b) \<and> (\<forall>b. 0 < f b \<longrightarrow> real b)"

locale block_allocator =
  fixes ok :: "'p \<Rightarrow> bool"
    and real :: "'p \<Rightarrow> nat \<Rightarrow> bool"
    and cnt :: "'p \<Rightarrow> nat \<Rightarrow> nat"
    and same :: "'p \<Rightarrow> 'p \<Rightarrow> bool"
    and sure :: bool
    and limit :: nat
    and alloc :: "nat \<Rightarrow> 'p \<Rightarrow> (nat list option \<times> 'p) res"
    and acquire :: "nat list \<Rightarrow> 'p \<Rightarrow> 'p res"
    and release :: "nat list \<Rightarrow> 'p \<Rightarrow> 'p res"
  assumes same_real: "same p q \<Longrightarrow> real q = real p"
    and finite_real: "ok p \<Longrightarrow> finite {b. real p b}"
    and alloc_law: "ok p \<Longrightarrow> returns (alloc n p) (\<lambda>(r, q). ok q \<and> same p q \<and>
      (case r of
         None \<Rightarrow> cnt q = cnt p \<and> (sure \<longrightarrow> free_count (real p) (cnt p) < n)
       | Some bs \<Rightarrow> length bs = n \<and> distinct bs \<and> (\<forall>b \<in> set bs. real p b \<and> cnt p b = 0) \<and>
           (\<forall>b. cnt q b = (if b \<in> set bs then 1 else cnt p b))))"
    and acquire_law: "ok p \<Longrightarrow> \<forall>b \<in> set bs. real p b \<and> cnt p b + count_list bs b \<le> limit \<Longrightarrow>
      returns (acquire bs p) (\<lambda>q. ok q \<and> same p q \<and> (\<forall>b. cnt q b = cnt p b + count_list bs b))"
    and release_law: "ok p \<Longrightarrow> length bs \<le> limit \<Longrightarrow>
      \<forall>b \<in> set bs. real p b \<Longrightarrow> \<forall>b. count_list bs b \<le> cnt p b \<Longrightarrow>
      returns (release bs p) (\<lambda>q. ok q \<and> same p q \<and> (\<forall>b. cnt q b = cnt p b - count_list bs b))"
begin

lemma finite_free: "ok p \<Longrightarrow> finite {b. real p b \<and> cnt p b = 0}"
  using finite_real [of p] by (rule finite_subset [rotated]) auto

lemma count_list_distinct: "distinct bs \<Longrightarrow> count_list bs b = (if b \<in> set bs then 1 else 0)"
  by (induction bs) auto

lemma alloc_backed:
  assumes "ok p" and "backed (real p) (cnt p) f"
  shows "returns (alloc n p) (\<lambda>(r, q). ok q \<and> same p q \<and>
    (case r of
       None \<Rightarrow> backed (real q) (cnt q) f \<and> free_count (real q) (cnt q) = free_count (real p) (cnt p) \<and>
         (sure \<longrightarrow> free_count (real p) (cnt p) < n)
     | Some bs \<Rightarrow> length bs = n \<and> distinct bs \<and> (\<forall>b \<in> set bs. real p b \<and> f b = 0) \<and>
         backed (real q) (cnt q) (\<lambda>b. f b + count_list bs b) \<and> n \<le> free_count (real p) (cnt p) \<and>
         free_count (real q) (cnt q) = free_count (real p) (cnt p) - n))"
proof -
  obtain r q where law: "alloc n p = Inr (r, q)" "ok q" "same p q" "case r of
         None \<Rightarrow> cnt q = cnt p \<and> (sure \<longrightarrow> free_count (real p) (cnt p) < n)
       | Some bs \<Rightarrow> length bs = n \<and> distinct bs \<and> (\<forall>b \<in> set bs. real p b \<and> cnt p b = 0) \<and>
           (\<forall>b. cnt q b = (if b \<in> set bs then 1 else cnt p b))"
    using alloc_law [OF assms(1), of n] by (auto simp: returns_iff)
  note R = same_real [OF law(3)]
  show ?thesis
  proof (cases r)
    case None
    then show ?thesis using law assms(2) R by simp
  next
    case (Some bs)
    then have bs: "length bs = n" "distinct bs" "\<forall>b \<in> set bs. real p b \<and> cnt p b = 0"
      "\<forall>b. cnt q b = (if b \<in> set bs then 1 else cnt p b)"
      using law(4) by auto
    let ?F = "{b. real p b \<and> cnt p b = 0}"
    have "{b. real q b \<and> cnt q b = 0} = ?F - set bs" using bs(4) R by auto
    moreover have sub: "set bs \<subseteq> ?F" using bs(3) by auto
    moreover have "card (set bs) = n" using bs(1,2) by (simp add: distinct_card)
    moreover have "card (set bs) \<le> card ?F" using card_mono [OF finite_free [OF assms(1)] sub] .
    ultimately show ?thesis
      using Some bs assms(2) R law(1-3) finite_free [OF assms(1)]
      by (auto simp: free_count_def backed_def count_list_distinct card_Diff_subset)
  qed
qed

lemma acquire_backed:
  assumes "ok p" and "backed (real p) (cnt p) f"
    and "\<forall>b \<in> set bs. real p b \<and> cnt p b + count_list bs b \<le> limit"
  shows "returns (acquire bs p) (\<lambda>q. ok q \<and> same p q \<and>
    backed (real q) (cnt q) (\<lambda>b. f b + count_list bs b) \<and>
    free_count (real q) (cnt q) = free_count (real p) (cnt p) - card {b \<in> set bs. cnt p b = 0} \<and>
    card {b \<in> set bs. cnt p b = 0} \<le> free_count (real p) (cnt p))"
proof (rule returns_mono [OF acquire_law [OF assms(1,3)]])
  fix q
  assume q: "ok q \<and> same p q \<and> (\<forall>b. cnt q b = cnt p b + count_list bs b)"
  then have R: "real q = real p" by (blast intro: same_real)
  let ?F = "{b. real p b \<and> cnt p b = 0}" and ?B = "{b \<in> set bs. cnt p b = 0}"
  have "{b. real q b \<and> cnt q b = 0} = ?F - ?B"
    using q R by (auto simp: count_list_0_iff)
  moreover have sub: "?B \<subseteq> ?F" using assms(3) by auto
  moreover have "card ?B \<le> card ?F" by (rule card_mono [OF finite_free [OF assms(1)] sub])
  ultimately show "ok q \<and> same p q \<and> backed (real q) (cnt q) (\<lambda>b. f b + count_list bs b) \<and>
    free_count (real q) (cnt q) = free_count (real p) (cnt p) - card ?B \<and>
    card ?B \<le> free_count (real p) (cnt p)"
    using q R assms(2,3)
    by (auto simp: backed_def free_count_def card_Diff_subset count_list_pos)
qed

lemma release_backed:
  assumes "ok p" and "backed (real p) (cnt p) (\<lambda>b. f b + count_list bs b)" and "length bs \<le> limit"
  shows "returns (release bs p) (\<lambda>q. ok q \<and> same p q \<and> backed (real q) (cnt q) f \<and>
    free_count (real q) (cnt q) = free_count (real p) (cnt p) + card {b \<in> set bs. f b = 0})"
proof -
  have real: "\<forall>b \<in> set bs. real p b"
    using assms(2) count_list_pos [of bs] by (auto simp: backed_def)
  have "count_list bs b \<le> cnt p b" for b
  proof (cases "b \<in> set bs")
    case True
    then show ?thesis using real assms(2) by (auto simp: backed_def)
  qed (simp add: count_notin)
  then have "returns (release bs p) (\<lambda>q. ok q \<and> same p q \<and> (\<forall>b. cnt q b = cnt p b - count_list bs b))"
    using real by (intro release_law [OF assms(1,3)]) auto
  then show ?thesis
  proof (rule returns_mono)
    fix q
    assume q: "ok q \<and> same p q \<and> (\<forall>b. cnt q b = cnt p b - count_list bs b)"
    then have R: "real q = real p" by (blast intro: same_real)
    let ?F = "{b. real p b \<and> cnt p b = 0}" and ?B = "{b \<in> set bs. f b = 0}"
    have r: "real p b \<Longrightarrow> cnt p b = f b + count_list bs b" for b using assms(2) by (simp add: backed_def)
    have pos: "b \<in> set bs \<Longrightarrow> 0 < count_list bs b" for b by (simp add: count_list_pos)
    have "{b. real q b \<and> cnt q b = 0} = ?F \<union> ?B"
      using q R real by (auto simp: r count_notin)
    moreover have "?F \<inter> ?B = {}" using real pos by (fastforce simp: r)
    ultimately have "free_count (real q) (cnt q) = free_count (real p) (cnt p) + card ?B"
      using finite_free [OF assms(1)] by (simp add: free_count_def card_Un_disjoint)
    moreover have "backed (real q) (cnt q) f"
      using q R assms(2) r by (auto simp: backed_def)
    ultimately show "ok q \<and> same p q \<and> backed (real q) (cnt q) f \<and>
        free_count (real q) (cnt q) = free_count (real p) (cnt p) + card ?B"
      using q by blast
  qed
qed

end

text \<open>What the pool's operations leave alone, as the manager sees it.\<close>

abbreviation same_frame :: "BlockPool \<Rightarrow> BlockPool \<Rightarrow> bool" where
  "same_frame p q \<equiv> frame q = frame p"

lemma get_new_blocks_alloc:
  assumes "env_ok env" and "pool_ok env p"
  shows "returns (get_new_blocks env n p) (\<lambda>(r, q).
    (env_ok env \<and> pool_ok env q) \<and> same_frame p q \<and>
    (case r of
       None \<Rightarrow> refs q = refs p \<and> (debug_assertions env \<longrightarrow> free_count (real_block p) (refs p) < n)
     | Some bs \<Rightarrow> length bs = n \<and> distinct bs \<and> (\<forall>b \<in> set bs. real_block p b \<and> refs p b = 0) \<and>
         (\<forall>b. refs q b = (if b \<in> set bs then 1 else refs p b))))"
proof -
  obtain r q where rq: "get_new_blocks env n p = Inr (r, q)" "pool_ok env q" "case r of
      None \<Rightarrow> data_same p q \<and> (debug_assertions env \<longrightarrow> card (idle p) < n)
    | Some bs \<Rightarrow> length bs = n \<and> n \<le> card (idle p) \<and> new_blocks p bs q"
    using get_new_blocks_effect [OF assms(2,1), of n] by (auto simp: returns_iff)
  then show ?thesis
    using assms(1) by (cases r) (auto simp: free_count_def idle_def data_same_def new_blocks_def)
qed

interpretation ba: block_allocator "\<lambda>p. env_ok env \<and> pool_ok env p" real_block refs same_frame
  "debug_assertions env" u32_max "get_new_blocks env" "touch env" "free_blocks env" for env
proof unfold_locales
  fix p q :: BlockPool and n bs
  show "same_frame p q \<Longrightarrow> real_block q = real_block p" by (rule frame_fields)
  show "finite {b. real_block p b}"
    by (rule finite_subset [of _ "{..<num_gpu_blocks p}"]) (auto simp: real_block_def)
  show "env_ok env \<and> pool_ok env p \<Longrightarrow> returns (get_new_blocks env n p) (\<lambda>(r, q).
      (env_ok env \<and> pool_ok env q) \<and> same_frame p q \<and>
      (case r of
         None \<Rightarrow> refs q = refs p \<and> (debug_assertions env \<longrightarrow> free_count (real_block p) (refs p) < n)
       | Some bs \<Rightarrow> length bs = n \<and> distinct bs \<and> (\<forall>b \<in> set bs. real_block p b \<and> refs p b = 0) \<and>
           (\<forall>b. refs q b = (if b \<in> set bs then 1 else refs p b))))"
    using get_new_blocks_alloc [of env p n] by blast
  show "env_ok env \<and> pool_ok env p \<Longrightarrow> \<forall>b \<in> set bs. real_block p b \<and> refs p b + count_list bs b \<le> u32_max \<Longrightarrow>
      returns (touch env bs p) (\<lambda>q. (env_ok env \<and> pool_ok env q) \<and> same_frame p q \<and>
        (\<forall>b. refs q b = refs p b + count_list bs b))"
    using touch_effect [of env p bs] by (auto elim!: returns_mono simp: refs_outcome_def)
  show "env_ok env \<and> pool_ok env p \<Longrightarrow> length bs \<le> u32_max \<Longrightarrow> \<forall>b \<in> set bs. real_block p b \<Longrightarrow>
      \<forall>b. count_list bs b \<le> refs p b \<Longrightarrow>
      returns (free_blocks env bs p) (\<lambda>q. (env_ok env \<and> pool_ok env q) \<and> same_frame p q \<and>
        (\<forall>b. refs q b = refs p b - count_list bs b))"
    using free_blocks_effect [of env p bs] by (auto elim!: returns_mono simp: refs_outcome_def)
qed

section \<open>Invariant\<close>

definition owned :: "(nat \<times> RequestBlocks) list \<Rightarrow> nat \<Rightarrow> nat" where
  "owned tbl b = sum_list (map (\<lambda>(_, q). count_list (block_ids q) b) tbl)"

definition reserved :: "(nat \<times> RequestBlocks) list \<Rightarrow> nat" where
  "reserved tbl = sum_list (map (\<lambda>(_, q). reserved_blocks q) tbl)"

abbreviation pool_free :: "BlockPool \<Rightarrow> nat" where
  "pool_free p \<equiv> free_count (real_block p) (refs p)"

definition manager_ok :: "rt_env \<Rightarrow> KVCacheManager \<Rightarrow> bool" where
  "manager_ok env m \<longleftrightarrow>
     env_ok env \<and> pool_ok env (block_pool m) \<and> 0 < block_size m \<and>
     enable_caching (block_pool m) = caching_enabled m \<and>
     retention_group_ids (block_pool m) = kv_cache_group_ids m \<and>
     distinct (map fst (req_to_blocks m)) \<and>
     backed (real_block (block_pool m)) (refs (block_pool m)) (owned (req_to_blocks m)) \<and>
     total_reserved_blocks m = reserved (req_to_blocks m) \<and>
     total_reserved_blocks m \<le> pool_free (block_pool m)"

lemma sum_list_update:
  fixes f :: "'v \<Rightarrow> nat"
  assumes "distinct (map fst al)"
  shows "sum_list (map (\<lambda>(_, v). f v) (AList.update k v al)) + (case map_of al k of None \<Rightarrow> 0 | Some u \<Rightarrow> f u) =
    sum_list (map (\<lambda>(_, v). f v) al) + f v"
  using assms by (induction al) (auto split: option.split simp: map_of_eq_None_iff)

lemma sum_list_delete:
  fixes f :: "'v \<Rightarrow> nat"
  assumes "distinct (map fst al)"
  shows "sum_list (map (\<lambda>(_, v). f v) (AList.delete k al)) + (case map_of al k of None \<Rightarrow> 0 | Some u \<Rightarrow> f u) =
    sum_list (map (\<lambda>(_, v). f v) al)"
  using assms by (induction al) (auto split: option.split simp: map_of_eq_None_iff)

lemma owned_update:
  "distinct (map fst tbl) \<Longrightarrow>
   owned (AList.update k q tbl) b + (case map_of tbl k of None \<Rightarrow> 0 | Some u \<Rightarrow> count_list (block_ids u) b) =
   owned tbl b + count_list (block_ids q) b"
  unfolding owned_def by (rule sum_list_update)

lemma reserved_update:
  "distinct (map fst tbl) \<Longrightarrow>
   reserved (AList.update k q tbl) + (case map_of tbl k of None \<Rightarrow> 0 | Some u \<Rightarrow> reserved_blocks u) =
   reserved tbl + reserved_blocks q"
  unfolding reserved_def by (rule sum_list_update)

lemma owned_delete:
  "distinct (map fst tbl) \<Longrightarrow>
   owned (AList.delete k tbl) b + (case map_of tbl k of None \<Rightarrow> 0 | Some u \<Rightarrow> count_list (block_ids u) b) = owned tbl b"
  unfolding owned_def by (rule sum_list_delete)

lemma reserved_delete:
  "distinct (map fst tbl) \<Longrightarrow>
   reserved (AList.delete k tbl) + (case map_of tbl k of None \<Rightarrow> 0 | Some u \<Rightarrow> reserved_blocks u) = reserved tbl"
  unfolding reserved_def by (rule sum_list_delete)

lemma pool_free_eq: "pool_ok env p \<Longrightarrow> num_free_blocks p = pool_free p"
  using num_free_blocks_idle [of p] by (simp add: pool_ok_def free_count_def idle_def)

lemma pool_free_usable:
  assumes "pool_ok env p"
  shows "pool_free p < num_gpu_blocks p" and "num_gpu_blocks p \<le> usize_max"
  using idle_less [of p] pool_ok_parts(2) [OF assms]
  by (simp_all add: free_count_def idle_def shape_ok_def Let_def)

lemma manager_parts:
  assumes "manager_ok env m"
  shows "env_ok env" and "pool_ok env (block_pool m)" and "0 < block_size m"
    and "enable_caching (block_pool m) = caching_enabled m"
    and "distinct (map fst (req_to_blocks m))"
    and "backed (real_block (block_pool m)) (refs (block_pool m)) (owned (req_to_blocks m))"
    and "total_reserved_blocks m = reserved (req_to_blocks m)"
    and "total_reserved_blocks m \<le> pool_free (block_pool m)"
    and "env_ok env \<and> pool_ok env (block_pool m)"
    and "retention_group_ids (block_pool m) = kv_cache_group_ids m"
  using assms by (auto simp: manager_ok_def)

lemma num_unreserved_ok [simp]:
  "manager_ok env m \<Longrightarrow> num_unreserved_blocks m = Inr (pool_free (block_pool m) - total_reserved_blocks m)"
  using pool_free_eq [of env "block_pool m"] by (auto simp: num_unreserved_blocks_def manager_ok_def)

text \<open>The debug assertion of the source holds in every consistent state.\<close>

lemma reservation_assert_ok:
  assumes "manager_ok env m"
  shows "debug_assert_reservation_invariant env m = Inr ()"
proof -
  note parts = manager_parts [OF assms]
  note lt = pool_free_usable [OF parts(2)] and eq = pool_free_eq [OF parts(2)]
  have "num_active_blocks m + total_reserved_blocks m \<le> num_usable_blocks m"
    using parts(8) lt(1) eq by (simp add: num_active_blocks_def num_usable_blocks_def)
  moreover then have "num_active_blocks m + total_reserved_blocks m \<le> usize_max"
    using lt(2) by (simp add: num_usable_blocks_def)
  ultimately show ?thesis
    using parts(7) by (simp add: debug_assert_reservation_invariant_def reserved_def)
qed

text \<open>A consistent state from a new pool and a new table.\<close>

lemma manager_okI:
  assumes "manager_ok env m" and "env_ok env \<and> pool_ok env p" and "same_frame (block_pool m) p"
    and "distinct (map fst tbl)" and "backed (real_block p) (refs p) (owned tbl)"
    and "t = reserved tbl" and "t \<le> pool_free p"
    and "m' = m\<lparr>block_pool := p, req_to_blocks := tbl, total_reserved_blocks := t\<rparr>"
  shows "manager_ok env m'"
  using assms frame_fields [OF assms(3)] by (simp add: manager_ok_def)

section \<open>Touching a cached prefix\<close>

lemma count_evictable_eq:
  assumes "\<forall>b \<in> set bs. b < length (blocks p)"
  shows "count_evictable p bs = Inr (length (filter (\<lambda>b. refs p b = 0) bs))"
  using assms by (induction bs) (simp_all add: block_ref_cnt_def refs_def)

lemma card_filter_le: "card {b \<in> set bs. P b} \<le> length (filter P bs)"
  by (metis card_length set_filter)

text \<open>A prefix a caller may pass: real blocks with room in their counts, and none without caching.\<close>

definition valid_prefix :: "KVCacheManager \<Rightarrow> nat list \<Rightarrow> bool" where
  "valid_prefix m bs \<longleftrightarrow>
     (\<forall>b \<in> set bs. real_block (block_pool m) b \<and> refs (block_pool m) b + count_list bs b \<le> u32_max) \<and>
     (\<not> caching_enabled m \<longrightarrow> bs = [])"

definition idle_in :: "KVCacheManager \<Rightarrow> nat list \<Rightarrow> nat" where
  "idle_in m bs = length (filter (\<lambda>b. refs (block_pool m) b = 0) bs)"

lemma num_evictable_eq:
  assumes "manager_ok env m" and "valid_prefix m bs"
  shows "num_evictable m bs = Inr (idle_in m bs)"
proof -
  have "shape_ok (block_pool m)" by (rule pool_ok_parts(2) [OF manager_parts(2) [OF assms(1)]])
  then have "\<forall>b \<in> set bs. b < length (blocks (block_pool m))"
    using assms(2) real_block_bounds(1) by (auto simp: valid_prefix_def)
  then show ?thesis
    using assms(2) by (auto simp: num_evictable_def idle_in_def count_evictable_eq valid_prefix_def)
qed

lemma touch_computed_effect:
  assumes ok: "manager_ok env m" and v: "valid_prefix m bs"
  shows "returns (touch_computed env bs m) (\<lambda>m'. \<exists>p. m' = m\<lparr>block_pool := p\<rparr> \<and> env_ok env \<and> pool_ok env p \<and>
    same_frame (block_pool m) p \<and>
    backed (real_block p) (refs p) (\<lambda>b. owned (req_to_blocks m) b + count_list bs b) \<and>
    pool_free (block_pool m) \<le> pool_free p + idle_in m bs)"
proof (cases "bs \<noteq> [] \<and> caching_enabled m")
  case False
  then have "bs = []" using v by (auto simp: valid_prefix_def)
  then show ?thesis
    using manager_parts [OF ok] by (simp add: touch_computed_def exI [of _ "block_pool m"])
next
  case True
  note parts = manager_parts [OF ok]
  have "card {b \<in> set bs. refs (block_pool m) b = 0} \<le> idle_in m bs"
    unfolding idle_in_def by (rule card_filter_le)
  then show ?thesis
    using True ba.acquire_backed [OF parts(9,6), of bs] v
    by (auto simp: touch_computed_def valid_prefix_def elim!: returns_mono)
qed

section \<open>Reservations\<close>

definition prompt_fits :: "KVCacheManager \<Rightarrow> nat \<Rightarrow> nat list \<Rightarrow> bool" where
  "prompt_fits m k computed \<longleftrightarrow>
     k - length computed + idle_in m computed + total_reserved_blocks m \<le> pool_free (block_pool m)"

lemma idle_in_le: "idle_in m bs \<le> length bs"
  by (simp add: idle_in_def)

lemma needed_room:
  assumes "num_tokens \<le> usize_max" and "length computed \<le> u32_max" and "0 < b"
  shows "div_ceil num_tokens b - length computed + idle_in m computed \<le> usize_max"
proof -
  have "div_ceil num_tokens b \<le> num_tokens" using assms(3) by (intro div_ceil_least) auto
  moreover have "u32_max \<le> usize_max" by (simp add: int_max_defs)
  ultimately show ?thesis using assms(1,2) idle_in_le [of m computed] by linarith
qed

lemma reserve_prompt_effect:
  assumes ok: "manager_ok env m" and v: "valid_prefix m computed"
    and bounds: "num_tokens \<le> usize_max" "length computed \<le> u32_max"
  shows "returns (reserve_prompt env r num_tokens computed m) (\<lambda>(res, m'). manager_ok env m' \<and>
    (let k = div_ceil num_tokens (block_size m) in
     case res of
       None \<Rightarrow> m' = m \<and>
         (map_of (req_to_blocks m) r \<noteq> None \<or> k < length computed \<or> \<not> prompt_fits m k computed)
     | Some _ \<Rightarrow> map_of (req_to_blocks m) r = None \<and> length computed \<le> k \<and> prompt_fits m k computed \<and>
         map_of (req_to_blocks m') = (map_of (req_to_blocks m))(r \<mapsto>
           \<lparr>block_ids = computed, cached_count = length computed, reserved_blocks = k - length computed\<rparr>) \<and>
         same_frame (block_pool m) (block_pool m') \<and> block_size m' = block_size m))"
proof -
  note parts = manager_parts [OF ok]
  let ?k = "div_ceil num_tokens (block_size m)"
  let ?n = "?k - length computed"
  let ?q = "\<lparr>block_ids = computed, cached_count = length computed, reserved_blocks = ?n\<rparr>"
  let ?tbl = "AList.update r ?q (req_to_blocks m)"
  have needed: "?n + idle_in m computed \<le> usize_max" by (rule needed_room [OF bounds parts(3)])
  consider (known) "map_of (req_to_blocks m) r \<noteq> None" | (short) "map_of (req_to_blocks m) r = None" "?k < length computed"
    | (full) "map_of (req_to_blocks m) r = None" "length computed \<le> ?k" "\<not> prompt_fits m ?k computed"
    | (fits) "map_of (req_to_blocks m) r = None" "length computed \<le> ?k" "prompt_fits m ?k computed"
    by (meson not_le)
  then show ?thesis
  proof cases
    case known
    then show ?thesis using ok by (simp add: reserve_prompt_def)
  next
    case short
    then show ?thesis using ok parts(3) by (simp add: reserve_prompt_def checked_sub_def)
  next
    case full
    have "?n + idle_in m computed > pool_free (block_pool m) - total_reserved_blocks m"
      using full(3) parts(8) unfolding prompt_fits_def by linarith
    then show ?thesis
      using full ok parts(3) needed num_evictable_eq [OF ok v] by (simp add: reserve_prompt_def)
  next
    case fits
    then have le: "?n + idle_in m computed \<le> pool_free (block_pool m) - total_reserved_blocks m"
      using parts(8) unfolding prompt_fits_def by linarith
    obtain p where p: "touch_computed env computed m = Inr (m\<lparr>block_pool := p\<rparr>)" "env_ok env \<and> pool_ok env p"
      "same_frame (block_pool m) p"
      "backed (real_block p) (refs p) (\<lambda>b. owned (req_to_blocks m) b + count_list computed b)"
      "pool_free (block_pool m) \<le> pool_free p + idle_in m computed"
      using touch_computed_effect [OF ok v] by (auto simp: returns_iff)
    define m' where "m' = m\<lparr>block_pool := p, req_to_blocks := ?tbl,
        total_reserved_blocks := total_reserved_blocks m + ?n\<rparr>"
    have own: "owned ?tbl = (\<lambda>b. owned (req_to_blocks m) b + count_list computed b)"
      using owned_update [OF parts(5), of r ?q] fits(1) by (auto simp: fun_eq_iff)
    have sum: "total_reserved_blocks m + ?n = reserved ?tbl"
      using reserved_update [OF parts(5), of r ?q] fits(1) parts(7) by simp
    have room: "total_reserved_blocks m + ?n \<le> pool_free p"
      using fits(3) p(5) unfolding prompt_fits_def by linarith
    then have room': "total_reserved_blocks m + ?n \<le> usize_max"
      using pool_free_usable [of env p] p(2) by auto
    have ok': "manager_ok env m'"
      by (rule manager_okI [OF ok p(2,3) _ _ sum room m'_def])
        (use parts(5) p(4) own in \<open>simp_all add: distinct_update\<close>)
    have run: "reserve_prompt env r num_tokens computed m = Inr (Some (), m')"
      using fits(1,2) parts(3) needed num_evictable_eq [OF ok v] ok le p(1) room' reservation_assert_ok [OF ok']
      by (simp add: reserve_prompt_def Let_def m'_def)
    show ?thesis unfolding run using ok' fits p(3) by (simp add: m'_def)
  qed
qed

section \<open>Allocation\<close>

text \<open>
  Growing the table of a running request. \<open>spare\<close> is what it may take beyond its own reservation.
\<close>

definition grown :: "KVCacheManager \<Rightarrow> nat \<Rightarrow> RequestBlocks \<Rightarrow> nat list \<Rightarrow> KVCacheManager \<Rightarrow> bool" where
  "grown m r req new_ids m' \<longleftrightarrow>
     map_of (req_to_blocks m') = (map_of (req_to_blocks m))(r \<mapsto>
       req\<lparr>block_ids := block_ids req @ new_ids,
           reserved_blocks := reserved_blocks req - length new_ids\<rparr>) \<and>
     block_size m' = block_size m \<and> same_frame (block_pool m) (block_pool m')"

lemma request_reserved_le:
  assumes "manager_ok env m" and "map_of (req_to_blocks m) r = Some req"
  shows "reserved_blocks req \<le> total_reserved_blocks m"
    and "count_list (block_ids req) b \<le> owned (req_to_blocks m) b"
  using reserved_delete [OF manager_parts(5) [OF assms(1)], of r] owned_delete [OF manager_parts(5) [OF assms(1)], of r b]
    assms(2) manager_parts(7) [OF assms(1)] by simp_all

lemma extend_slots_effect:
  assumes ok: "manager_ok env m" and req: "map_of (req_to_blocks m) r = Some req"
  shows "returns (extend_slots env r k req m) (\<lambda>(res, m'). manager_ok env m' \<and>
    (let n = k - length (block_ids req);
         fits = (n - reserved_blocks req + total_reserved_blocks m \<le> pool_free (block_pool m)) in
     case res of
       None \<Rightarrow> req_to_blocks m' = req_to_blocks m \<and> (debug_assertions env \<longrightarrow> \<not> fits)
     | Some new_ids \<Rightarrow> fits \<and> length new_ids = n \<and> distinct new_ids \<and>
         (\<forall>b \<in> set new_ids. real_block (block_pool m) b \<and> owned (req_to_blocks m) b = 0) \<and>
         grown m r req new_ids m'))"
proof -
  note parts = manager_parts [OF ok]
  define n where "n = k - length (block_ids req)"
  define nr where "nr = min n (reserved_blocks req)"
  note fold = extend_slots_def Let_def n_def [symmetric] nr_def [symmetric]
  let ?f = "pool_free (block_pool m)"
  note le = request_reserved_le [OF ok req]
  have split: "n - nr = n - reserved_blocks req" and nr: "nr \<le> reserved_blocks req" by (auto simp: nr_def)
  consider (none) "n = 0" | (full) "n \<noteq> 0" "\<not> n - reserved_blocks req + total_reserved_blocks m \<le> ?f"
    | (fits) "n \<noteq> 0" "n - reserved_blocks req + total_reserved_blocks m \<le> ?f" by blast
  then show ?thesis
  proof cases
    case none
    then show ?thesis
      using ok req parts(8) by (simp add: fold grown_def map_upd_triv)
  next
    case full
    then have "n - nr > ?f - total_reserved_blocks m" unfolding split using parts(8) by linarith
    then show ?thesis using full ok by (simp add: fold)
  next
    case fits
    have go: "\<not> n - nr > ?f - total_reserved_blocks m" unfolding split using fits(2) parts(8) by linarith
    have enough: "n \<le> ?f" using fits(2) le(1) by linarith
    obtain res p where g: "get_new_blocks env n (block_pool m) = Inr (res, p)" "env_ok env \<and> pool_ok env p"
      "same_frame (block_pool m) p"
      "case res of
         None \<Rightarrow> backed (real_block p) (refs p) (owned (req_to_blocks m)) \<and> pool_free p = ?f \<and>
           (debug_assertions env \<longrightarrow> ?f < n)
       | Some bs \<Rightarrow> length bs = n \<and> distinct bs \<and>
           (\<forall>b \<in> set bs. real_block (block_pool m) b \<and> owned (req_to_blocks m) b = 0) \<and>
           backed (real_block p) (refs p) (\<lambda>b. owned (req_to_blocks m) b + count_list bs b) \<and> n \<le> ?f \<and>
           pool_free p = ?f - n"
      using ba.alloc_backed [OF parts(9,6), of n] by (auto simp: returns_iff)
    show ?thesis
    proof (cases res)
      case None
      have "manager_ok env (m\<lparr>block_pool := p\<rparr>)"
        by (rule manager_okI [OF ok g(2,3) parts(5) _ parts(7)]) (use g(4) None parts(8) in simp_all)
      moreover have "extend_slots env r k req m = Inr (None, m\<lparr>block_pool := p\<rparr>)"
        using fits(1) go ok g(1) None by (simp add: fold)
      ultimately show ?thesis using g(4) None enough by (auto simp: fold)
    next
      case (Some bs)
      let ?q = "req\<lparr>block_ids := block_ids req @ bs, reserved_blocks := reserved_blocks req - nr\<rparr>"
      let ?tbl = "AList.update r ?q (req_to_blocks m)"
      define m' where "m' = m\<lparr>block_pool := p, req_to_blocks := ?tbl,
          total_reserved_blocks := total_reserved_blocks m - nr\<rparr>"
      have own: "owned ?tbl = (\<lambda>b. owned (req_to_blocks m) b + count_list bs b)"
        using owned_update [OF parts(5), of r ?q] req by (auto simp: fun_eq_iff)
      have sum: "total_reserved_blocks m - nr = reserved ?tbl"
        using reserved_update [OF parts(5), of r ?q] req parts(7) le(1) nr by simp
      have room: "total_reserved_blocks m - nr \<le> pool_free p"
        using fits(2) le(1) g(4) Some by (auto simp: nr_def)
      have ok': "manager_ok env m'"
        by (rule manager_okI [OF ok g(2,3) _ _ sum room m'_def])
          (use parts(5) g(4) Some own in \<open>simp_all add: distinct_update\<close>)
      have run: "extend_slots env r k req m = Inr (Some bs, m')"
        using fits(1) go ok g(1) Some le(1) nr reservation_assert_ok [OF ok']
        by (simp add: fold m'_def)
      have "reserved_blocks req - nr = reserved_blocks req - n" by (simp add: nr_def)
      then show ?thesis
        unfolding run using ok' g(3,4) Some fits(2) by (simp add: fold grown_def m'_def)
    qed
  qed
qed

lemma admit_blocks_effect:
  assumes p: "env_ok env \<and> pool_ok env p" "backed (real_block p) (refs p) f" and dbg: "debug_assertions env"
    and enough: "n \<le> pool_free p"
  shows "\<exists>bs p'. admit_blocks env n (m\<lparr>block_pool := p\<rparr>) = Inr (bs, m\<lparr>block_pool := p'\<rparr>) \<and>
    (env_ok env \<and> pool_ok env p') \<and> same_frame p p' \<and> length bs = n \<and> distinct bs \<and>
    (\<forall>b \<in> set bs. real_block p b \<and> f b = 0) \<and>
    backed (real_block p') (refs p') (\<lambda>b. f b + count_list bs b) \<and> pool_free p' = pool_free p - n"
proof (cases "n = 0")
  case True
  then show ?thesis
    using p by (intro exI [of _ "[]"] exI [of _ p]) (simp add: admit_blocks_def)
next
  case False
  obtain res q where q: "get_new_blocks env n p = Inr (res, q)" "env_ok env \<and> pool_ok env q" "same_frame p q"
    "case res of
       None \<Rightarrow> backed (real_block q) (refs q) f \<and> pool_free q = pool_free p \<and>
         (debug_assertions env \<longrightarrow> pool_free p < n)
     | Some bs \<Rightarrow> length bs = n \<and> distinct bs \<and> (\<forall>b \<in> set bs. real_block p b \<and> f b = 0) \<and>
         backed (real_block q) (refs q) (\<lambda>b. f b + count_list bs b) \<and> n \<le> pool_free p \<and>
         pool_free q = pool_free p - n"
    using ba.alloc_backed [OF p, of n] by (auto simp: returns_iff)
  then obtain bs where "res = Some bs" using dbg enough by (cases res) auto
  then show ?thesis
    using False q by (intro exI [of _ bs] exI [of _ q]) (simp add: admit_blocks_def)
qed

lemma admit_slots_effect:
  assumes ok: "manager_ok env m" and new: "map_of (req_to_blocks m) r = None" and v: "valid_prefix m computed"
    and needed: "k - length computed + idle_in m computed \<le> usize_max" and dbg: "debug_assertions env"
  shows "returns (admit_slots env r k computed m) (\<lambda>(res, m'). manager_ok env m' \<and>
    (case res of
       None \<Rightarrow> m' = m \<and> \<not> prompt_fits m k computed
     | Some new_ids \<Rightarrow> prompt_fits m k computed \<and> length new_ids = k - length computed \<and> distinct new_ids \<and>
         (\<forall>b \<in> set new_ids. real_block (block_pool m) b \<and> owned (req_to_blocks m) b = 0 \<and> b \<notin> set computed) \<and>
         map_of (req_to_blocks m') = (map_of (req_to_blocks m))(r \<mapsto>
           \<lparr>block_ids = computed @ new_ids, cached_count = length computed, reserved_blocks = 0\<rparr>) \<and>
         block_size m' = block_size m \<and> same_frame (block_pool m) (block_pool m')))"
proof (cases "prompt_fits m k computed")
  case False
  then have "k - length computed + idle_in m computed > pool_free (block_pool m) - total_reserved_blocks m"
    using manager_parts(8) [OF ok] unfolding prompt_fits_def by linarith
  then show ?thesis
    using False ok needed num_evictable_eq [OF ok v] by (simp add: admit_slots_def Let_def)
next
  case True
  note parts = manager_parts [OF ok]
  let ?n = "k - length computed"
  have go: "\<not> ?n + idle_in m computed > pool_free (block_pool m) - total_reserved_blocks m"
    using True parts(8) unfolding prompt_fits_def by linarith
  obtain p where p: "touch_computed env computed m = Inr (m\<lparr>block_pool := p\<rparr>)" "env_ok env \<and> pool_ok env p"
    "same_frame (block_pool m) p"
    "backed (real_block p) (refs p) (\<lambda>b. owned (req_to_blocks m) b + count_list computed b)"
    "pool_free (block_pool m) \<le> pool_free p + idle_in m computed"
    using touch_computed_effect [OF ok v] by (auto simp: returns_iff)
  have enough: "?n + total_reserved_blocks m \<le> pool_free p"
    using True p(5) unfolding prompt_fits_def by linarith
  let ?f = "\<lambda>b. owned (req_to_blocks m) b + count_list computed b"
  obtain bs p' where g: "admit_blocks env ?n (m\<lparr>block_pool := p\<rparr>) = Inr (bs, m\<lparr>block_pool := p'\<rparr>)"
      "env_ok env \<and> pool_ok env p'" "same_frame p p'" "length bs = ?n" "distinct bs"
      "\<forall>b \<in> set bs. real_block p b \<and> ?f b = 0"
      "backed (real_block p') (refs p') (\<lambda>b. ?f b + count_list bs b)" "pool_free p' = pool_free p - ?n"
    using admit_blocks_effect [OF p(2,4) dbg, of ?n m] enough by auto
  let ?q = "\<lparr>block_ids = computed @ bs, cached_count = length computed, reserved_blocks = 0\<rparr>"
  let ?tbl = "AList.update r ?q (req_to_blocks m)"
  define m' where "m' = m\<lparr>block_pool := p', req_to_blocks := ?tbl\<rparr>"
  have m': "m' = m\<lparr>block_pool := p', req_to_blocks := ?tbl, total_reserved_blocks := total_reserved_blocks m\<rparr>"
    by (simp add: m'_def)
  have own: "owned ?tbl = (\<lambda>b. ?f b + count_list bs b)"
    using owned_update [OF parts(5), of r ?q] new by (auto simp: fun_eq_iff)
  have sum: "total_reserved_blocks m = reserved ?tbl"
    using reserved_update [OF parts(5), of r ?q] new parts(7) by simp
  have room: "total_reserved_blocks m \<le> pool_free p'" using enough g(8) by linarith
  have fr: "same_frame (block_pool m) p'" using p(3) g(3) by simp
  have ok': "manager_ok env m'"
    by (rule manager_okI [OF ok g(2) fr _ _ sum room m'])
      (use parts(5) g(7) own in \<open>simp_all add: distinct_update\<close>)
  have run: "admit_slots env r k computed m = Inr (Some bs, m')"
    using go ok needed num_evictable_eq [OF ok v] p(1) g(1) reservation_assert_ok [OF ok']
    by (simp add: admit_slots_def Let_def m'_def)
  have "\<forall>b \<in> set bs. real_block (block_pool m) b \<and> owned (req_to_blocks m) b = 0 \<and> b \<notin> set computed"
    using g(6) frame_fields(2) [OF p(3)] by (auto simp: count_list_0_iff)
  then show ?thesis
    unfolding run using ok' True fr g(4,5) by (simp add: m'_def)
qed

section \<open>Release and trimming\<close>

lemma free_request_effect:
  assumes ok: "manager_ok env m" and req: "map_of (req_to_blocks m) r = Some req"
    and len: "length (block_ids req) \<le> u32_max"
  shows "returns (free_request env r m) (\<lambda>m'. manager_ok env m' \<and>
    req_to_blocks m' = AList.delete r (req_to_blocks m) \<and> block_size m' = block_size m \<and>
    same_frame (block_pool m) (block_pool m') \<and>
    free_blocks env (rev (block_ids req)) (block_pool m) = Inr (block_pool m'))"
proof -
  note parts = manager_parts [OF ok]
  let ?tbl = "AList.delete r (req_to_blocks m)"
  have own: "owned (req_to_blocks m) = (\<lambda>b. owned ?tbl b + count_list (rev (block_ids req)) b)"
    using owned_delete [OF parts(5), of r] req by (auto simp: fun_eq_iff count_list_rev)
  have sum: "total_reserved_blocks m - reserved_blocks req = reserved ?tbl"
    using reserved_delete [OF parts(5), of r] req parts(7) by simp
  obtain p where p: "free_blocks env (rev (block_ids req)) (block_pool m) = Inr p" "env_ok env \<and> pool_ok env p"
    "same_frame (block_pool m) p" "backed (real_block p) (refs p) (owned ?tbl)"
    "pool_free p = pool_free (block_pool m) + card {b \<in> set (rev (block_ids req)). owned ?tbl b = 0}"
    using ba.release_backed [OF parts(9), of "owned ?tbl" "rev (block_ids req)"] parts(6) len own
    by (auto simp: returns_iff)
  define m' where "m' = m\<lparr>req_to_blocks := ?tbl,
      total_reserved_blocks := total_reserved_blocks m - reserved_blocks req, block_pool := p\<rparr>"
  have room: "total_reserved_blocks m - reserved_blocks req \<le> pool_free p" using parts(8) p(5) by linarith
  have ok': "manager_ok env m'"
    by (rule manager_okI [OF ok p(2,3) _ p(4) sum room]) (use parts(5) in \<open>simp_all add: distinct_delete m'_def\<close>)
  have "free_request env r m = Inr m'"
    using req p(1) request_reserved_le(1) [OF ok req] reservation_assert_ok [OF ok']
    by (simp add: free_request_def Let_def m'_def)
  then show ?thesis using ok' p(1,3) by (simp add: m'_def)
qed

text \<open>
  A request may be trimmed when it holds no reservation, or when the blocks it gives up are its own:
  trimming turns each of them into reserved capacity.
\<close>

definition trimmable :: "KVCacheManager \<Rightarrow> RequestBlocks \<Rightarrow> nat \<Rightarrow> bool" where
  "trimmable m req k \<longleftrightarrow>
     reserved_blocks req = 0 \<or> (\<forall>b \<in> set (drop k (block_ids req)). owned (req_to_blocks m) b = 1)"

definition trimmed :: "RequestBlocks \<Rightarrow> nat \<Rightarrow> RequestBlocks" where
  "trimmed req k =
     (if k < length (block_ids req) then
        req\<lparr>block_ids := take k (block_ids req), cached_count := min (cached_count req) k,
            reserved_blocks := reserved_blocks req +
              (if reserved_blocks req \<noteq> 0 then length (block_ids req) - k else 0)\<rparr>
      else req\<lparr>cached_count := min (cached_count req) (length (block_ids req))\<rparr>)"

lemma count_list_take_drop: "count_list (take k xs) b + count_list (drop k xs) b = count_list xs b"
  by (metis append_take_drop_id count_list_append)

lemma distinct_count_list: "\<forall>b \<in> set xs. count_list xs b = 1 \<Longrightarrow> distinct xs"
  by (induction xs) (auto simp: count_list_0_iff split: if_splits)

lemma trim_exclusive:
  assumes ok: "manager_ok env m" and req: "map_of (req_to_blocks m) r = Some req" and t: "trimmable m req k"
    and f: "\<And>b. owned (req_to_blocks m) b = f b + count_list (drop k (block_ids req)) b"
    and "reserved_blocks req \<noteq> 0"
  shows "card {b \<in> set (rev (drop k (block_ids req))). f b = 0} = length (block_ids req) - k"
proof -
  let ?d = "drop k (block_ids req)"
  have one: "\<forall>b \<in> set ?d. f b + count_list ?d b = 1" using t assms(5) f by (auto simp: trimmable_def)
  have "f b = 0" "count_list ?d b = 1" if "b \<in> set ?d" for b
    using one [rule_format, OF that] iffD2 [OF count_list_pos that] by linarith+
  then have "{b \<in> set (rev ?d). f b = 0} = set ?d" "distinct ?d"
    by (auto intro: distinct_count_list)
  then show ?thesis by (simp add: distinct_card)
qed

lemma trim_request_effect:
  assumes ok: "manager_ok env m" and req: "map_of (req_to_blocks m) r = Some req"
    and len: "length (block_ids req) \<le> u32_max"
    and t: "trimmable m req (div_ceil num_tokens (block_size m))"
  shows "returns (trim_request_to_num_tokens env r num_tokens m) (\<lambda>m'. manager_ok env m' \<and>
    map_of (req_to_blocks m') = (map_of (req_to_blocks m))(r \<mapsto> trimmed req (div_ceil num_tokens (block_size m))) \<and>
    block_size m' = block_size m \<and> same_frame (block_pool m) (block_pool m'))"
proof -
  note parts = manager_parts [OF ok]
  define k where "k = div_ceil num_tokens (block_size m)"
  let ?q = "trimmed req k" and ?d = "drop k (block_ids req)"
  let ?tbl = "AList.update r ?q (req_to_blocks m)"
  have own: "owned ?tbl b + count_list (block_ids req) b = owned (req_to_blocks m) b + count_list (block_ids ?q) b" for b
    using owned_update [OF parts(5), of r ?q b] req by simp
  have sum: "reserved ?tbl + reserved_blocks req = total_reserved_blocks m + reserved_blocks ?q"
    using reserved_update [OF parts(5), of r ?q] req parts(7) by simp
  show ?thesis
  proof (cases "length (block_ids req) \<le> k")
    case True
    then have q: "block_ids ?q = block_ids req" "reserved_blocks ?q = reserved_blocks req"
      by (simp_all add: trimmed_def)
    have o: "owned ?tbl = owned (req_to_blocks m)" using own q(1) by (auto simp: fun_eq_iff)
    define m' where "m' = m\<lparr>req_to_blocks := ?tbl\<rparr>"
    have ok': "manager_ok env m'"
      by (rule manager_okI [OF ok parts(9) refl, of ?tbl "total_reserved_blocks m"])
        (use parts o sum q in \<open>simp_all add: distinct_update m'_def\<close>)
    moreover have "trim_request_to_num_tokens env r num_tokens m = Inr m'"
      using parts(3) req True by (simp add: trim_request_to_num_tokens_def k_def [symmetric] m'_def trimmed_def)
    ultimately show ?thesis using k_def by (simp add: m'_def)
  next
    case False
    define res where "res = (if reserved_blocks req \<noteq> 0 then length ?d else 0)"
    have q: "block_ids ?q = take k (block_ids req)" "reserved_blocks ?q = reserved_blocks req + res"
      using False by (simp_all add: trimmed_def res_def)
    have f: "owned (req_to_blocks m) b = owned ?tbl b + count_list ?d b" for b
      using own [of b] q(1) count_list_take_drop [of k "block_ids req" b] by simp
    have "backed (real_block (block_pool m)) (refs (block_pool m)) (\<lambda>b. owned ?tbl b + count_list (rev ?d) b)"
      using parts(6) f by (simp add: count_list_rev backed_def)
    moreover have "length (rev ?d) \<le> u32_max" using len by simp
    ultimately obtain p where p: "free_blocks env (rev ?d) (block_pool m) = Inr p" "env_ok env \<and> pool_ok env p"
      "same_frame (block_pool m) p" "backed (real_block p) (refs p) (owned ?tbl)"
      "pool_free p = pool_free (block_pool m) + card {b \<in> set (rev ?d). owned ?tbl b = 0}"
      using ba.release_backed [OF parts(9), of "owned ?tbl" "rev ?d"] unfolding returns_iff by blast
    have room: "total_reserved_blocks m + res \<le> pool_free p"
      using trim_exclusive [OF ok req t [folded k_def] f] p(5) parts(8) by (cases "reserved_blocks req = 0") (auto simp: res_def)
    have max: "total_reserved_blocks m + res \<le> usize_max" "reserved_blocks req + res \<le> usize_max"
      using room pool_free_usable [of env p] p(2) request_reserved_le(1) [OF ok req] by auto
    define m' where "m' = m\<lparr>req_to_blocks := ?tbl, block_pool := p, total_reserved_blocks := total_reserved_blocks m + res\<rparr>"
    have sum': "total_reserved_blocks m + res = reserved ?tbl" using sum q(2) by simp
    have ok': "manager_ok env m'"
      by (rule manager_okI [OF ok p(2,3) _ p(4) sum' room]) (use parts(5) in \<open>simp_all add: distinct_update m'_def\<close>)
    have "?q = req\<lparr>block_ids := take k (block_ids req), cached_count := min (cached_count req) (min (length (block_ids req)) k),
        reserved_blocks := reserved_blocks req + res\<rparr>"
      using False by (simp add: trimmed_def res_def min_def)
    then have "trim_request_to_num_tokens env r num_tokens m = Inr m'"
      using parts(3) req False p(1) max reservation_assert_ok [OF ok']
      by (simp add: trim_request_to_num_tokens_def k_def [symmetric] m'_def Let_def res_def)
    then show ?thesis using ok' p(3) k_def by (simp add: m'_def)
  qed
qed

end
