(* ===== verification/Manager_Theorems.thy ===== *)
theory Manager_Theorems
  imports Manager_Invariant
begin

text \<open>
  The KV cache manager as its clients see it: publishing and reusing prefixes, the slot mapping, the
  transition system of all its operations, and the properties that make paging correct.
\<close>

section \<open>Publishing full blocks\<close>

definition published :: "nat list \<Rightarrow> BlockHash list \<Rightarrow> nat list \<Rightarrow> nat \<Rightarrow> nat \<Rightarrow> BlockPool \<Rightarrow> bool" where
  "published ids hs gs i j p \<longleftrightarrow>
     (\<forall>k g. i \<le> k \<and> k < j \<and> g \<in> set gs \<and> ids ! k \<noteq> null_block_id p \<longrightarrow>
        hkey (hs ! k) g \<in> set (keys p (ids ! k)))"

lemma cache_groups_effect:
  assumes "pool_ok env p" and "env_ok env" and "enable_caching p" and "i < j"
    and "j \<le> length ids" and "j \<le> length hs" and "\<forall>b \<in> set ids. b < num_gpu_blocks p"
  shows "returns (fold_res (\<lambda>g p. cache_full_blocks env ids hs i j g p) gs p)
    (\<lambda>p'. pool_ok env p' \<and> frame p' = frame p \<and> refs p' = refs p \<and> retention p' = retention p \<and>
       published ids hs gs i j p' \<and> (\<forall>b. set (keys p b) \<subseteq> set (keys p' b)))"
proof (rule returns_fold_res)
  show "pool_ok env p \<and> frame p = frame p \<and> refs p = refs p \<and> retention p = retention p \<and>
      published ids hs [] i j p \<and> (\<forall>b. set (keys p b) \<subseteq> set (keys p b))"
    using assms(1) by (simp add: published_def)
  fix "done" g rest q
  assume I: "pool_ok env q \<and> frame q = frame p \<and> refs q = refs p \<and> retention q = retention p \<and>
      published ids hs done i j q \<and> (\<forall>b. set (keys p b) \<subseteq> set (keys q b))"
  then have fq: "frame q = frame p" by simp
  have "returns (cache_full_blocks env ids hs i j g q)
      (keys_outcome env q (keys_published q ids hs g [i..<j] (keys q)))"
    using I assms frame_fields [OF fq] by (intro cache_full_blocks_effect) auto
  then show "returns (cache_full_blocks env ids hs i j g q) (\<lambda>p'. pool_ok env p' \<and> frame p' = frame p \<and>
      refs p' = refs p \<and> retention p' = retention p \<and> published ids hs (done @ [g]) i j p' \<and>
      (\<forall>b. set (keys p b) \<subseteq> set (keys p' b)))"
  proof (rule returns_mono)
    fix p'
    assume o: "keys_outcome env q (keys_published q ids hs g [i..<j] (keys q)) p'"
    then have k: "keys p' = keys_published q ids hs g [i..<j] (keys q)" "frame p' = frame q"
      by (auto simp: keys_outcome_def)
    have n: "null_block_id p' = null_block_id q" by (rule frame_fields [OF k(2)])
    have mono: "set (keys q b) \<subseteq> set (keys p' b)" for b unfolding k(1) by (rule keys_published_mono)
    moreover have "hkey (hs ! l) g \<in> set (keys p' (ids ! l))" if "i \<le> l" "l < j" "ids ! l \<noteq> null_block_id q" for l
      unfolding k(1) using that by (intro keys_published_mem) auto
    ultimately have "published ids hs (done @ [g]) i j p'"
      using I n by (fastforce simp: published_def)
    then show "pool_ok env p' \<and> frame p' = frame p \<and> refs p' = refs p \<and> retention p' = retention p \<and>
        published ids hs (done @ [g]) i j p' \<and> (\<forall>b. set (keys p b) \<subseteq> set (keys p' b))"
      using I o mono by (auto simp: keys_outcome_def)
  qed
qed

lemma owned_real:
  assumes "manager_ok env m" and "map_of (req_to_blocks m) r = Some req" and "b \<in> set (block_ids req)"
  shows "real_block (block_pool m) b"
proof -
  have "0 < count_list (block_ids req) b" using assms(3) by (simp add: count_list_pos)
  then have "0 < owned (req_to_blocks m) b" using request_reserved_le(2) [OF assms(1,2), of b] by linarith
  then show ?thesis using manager_parts(6) [OF assms(1)] by (simp add: backed_def)
qed

lemma cache_blocks_effect:
  assumes ok: "manager_ok env m" and req: "map_of (req_to_blocks m) r = Some req"
    and en: "caching_enabled m" and hs: "min (n div block_size m) (length (block_ids req)) \<le> length hs"
  shows "returns (cache_blocks env r hs n m) (\<lambda>m'. manager_ok env m' \<and>
    (let j = min (n div block_size m) (length (block_ids req)) in
     published (block_ids req) hs (kv_cache_group_ids m) (cached_count req) j (block_pool m') \<and>
     (\<forall>b. set (keys (block_pool m) b) \<subseteq> set (keys (block_pool m') b)) \<and>
     map_of (req_to_blocks m') = (map_of (req_to_blocks m))(r \<mapsto> req\<lparr>cached_count := max j (cached_count req)\<rparr>) \<and>
     refs (block_pool m') = refs (block_pool m) \<and> block_size m' = block_size m \<and>
     same_frame (block_pool m) (block_pool m')))"
proof -
  note parts = manager_parts [OF ok]
  define j where "j = min (n div block_size m) (length (block_ids req))"
  show ?thesis
  proof (cases "j \<le> cached_count req")
    case True
    then have "cache_blocks env r hs n m = Inr m"
      using en req parts(3) by (simp add: cache_blocks_def Let_def j_def)
    moreover have "req\<lparr>cached_count := max j (cached_count req)\<rparr> = req" using True by (cases req) (simp add: max_def)
    ultimately show ?thesis
      using ok req True by (auto simp: j_def [symmetric] published_def Let_def map_upd_triv)
  next
    case False
    have real: "\<forall>b \<in> set (block_ids req). b < num_gpu_blocks (block_pool m)"
      using owned_real [OF ok req] by (simp add: real_block_def)
    have jl: "j \<le> length (block_ids req)" "j \<le> length hs" "cached_count req < j"
      using hs False by (auto simp: j_def)
    have "enable_caching (block_pool m)" using parts(4) en by simp
    note run = cache_groups_effect [OF parts(2,1) this jl(3,1,2) real, of "kv_cache_group_ids m"]
    obtain p where p: "fold_res (\<lambda>g p. cache_full_blocks env (block_ids req) hs (cached_count req) j g p)
          (kv_cache_group_ids m) (block_pool m) = Inr p" "pool_ok env p" "frame p = frame (block_pool m)"
      "refs p = refs (block_pool m)" "published (block_ids req) hs (kv_cache_group_ids m) (cached_count req) j p"
      "\<forall>b. set (keys (block_pool m) b) \<subseteq> set (keys p b)"
      using run by (auto simp: returns_iff)
    let ?tbl = "AList.update r (req\<lparr>cached_count := j\<rparr>) (req_to_blocks m)"
    define m' where "m' = m\<lparr>block_pool := p, req_to_blocks := ?tbl\<rparr>"
    have own: "owned ?tbl = owned (req_to_blocks m)" and res: "reserved ?tbl = reserved (req_to_blocks m)"
      using owned_update [OF parts(5), of r "req\<lparr>cached_count := j\<rparr>"]
        reserved_update [OF parts(5), of r "req\<lparr>cached_count := j\<rparr>"] req by (auto simp: fun_eq_iff)
    have R: "real_block p = real_block (block_pool m)" by (rule frame_fields [OF p(3)])
    have ok': "manager_ok env m'"
      by (rule manager_okI [OF ok, of p ?tbl "total_reserved_blocks m"])
        (use parts p(2-4) own res R in \<open>simp_all add: m'_def distinct_update\<close>)
    have "cache_blocks env r hs n m = Inr m'"
      using en req parts(3) False p(1) by (simp add: cache_blocks_def Let_def j_def m'_def)
    moreover have "max j (cached_count req) = j" using False by simp
    ultimately show ?thesis
      using ok' p by (simp add: m'_def j_def [symmetric] Let_def)
  qed
qed

section \<open>Prefix cache hits\<close>

definition longest_hit :: "BlockPool \<Rightarrow> nat list \<Rightarrow> nat \<Rightarrow> BlockHash list \<Rightarrow> nat list \<Rightarrow> bool" where
  "longest_hit p gs k hs bs \<longleftrightarrow>
     length bs \<le> k \<and> length bs \<le> length hs \<and> (\<forall>i < length bs. shares_keys p (hs ! i) gs (bs ! i)) \<and>
     (length bs < k \<and> length bs < length hs \<longrightarrow> (\<forall>b. \<not> shares_keys p (hs ! length bs) gs b))"

lemma longest_hit_Cons:
  "shares_keys p h gs b \<Longrightarrow> longest_hit p gs k hs bs \<Longrightarrow> longest_hit p gs (Suc k) (h # hs) (b # bs)"
  by (auto simp: longest_hit_def nth_Cons split: nat.split)

lemma cached_prefix_effect:
  assumes "pool_ok env p" and "env_ok env" and "gs \<noteq> []"
  shows "returns (cached_prefix env p gs k hs) (longest_hit p gs k hs)"
  using assms
proof (induction env p gs k hs rule: cached_prefix.induct)
  case (3 env p gs k h hs)
  obtain r where r: "get_common_cached_block env p h gs = Inr r"
    "\<forall>b. r = Some b \<longrightarrow> gs \<noteq> [] \<and> shares_keys p h gs b" "r = None \<longrightarrow> gs = [] \<or> (\<forall>b. \<not> shares_keys p h gs b)"
    using get_common_cached_block_effect [OF 3(2,3), of h gs] by (auto simp: returns_iff)
  show ?case
  proof (cases r)
    case None
    then show ?thesis using r 3(4) by (simp add: longest_hit_def)
  next
    case (Some b)
    then show ?thesis
      using r 3(1) [OF r(1) Some 3(2-4)] by (auto elim!: returns_mono intro: longest_hit_Cons)
  qed
qed (simp_all add: longest_hit_def)

lemma get_computed_blocks_effect:
  assumes ok: "manager_ok env m" and gs: "kv_cache_group_ids m \<noteq> []" and en: "caching_enabled m"
    and n: "num_tokens \<le> usize_max"
  shows "returns (get_computed_blocks env m hs num_tokens) (\<lambda>c.
    longest_hit (block_pool m) (kv_cache_group_ids m) ((num_tokens - 1) div block_size m) hs (computed_block_ids c) \<and>
    num_computed_tokens c = length (computed_block_ids c) * block_size m)"
proof (cases "hs = []")
  case True
  then show ?thesis by (simp add: get_computed_blocks_def longest_hit_def)
next
  case False
  note parts = manager_parts [OF ok]
  let ?k = "(num_tokens - 1) div block_size m"
  obtain bs where bs: "cached_prefix env (block_pool m) (kv_cache_group_ids m) ?k hs = Inr bs"
    "longest_hit (block_pool m) (kv_cache_group_ids m) ?k hs bs"
    using cached_prefix_effect [OF parts(2,1) gs, of ?k hs] by (auto simp: returns_iff)
  have "length bs * block_size m \<le> ?k * block_size m" using bs(2) by (simp add: longest_hit_def)
  also have "\<dots> \<le> num_tokens - 1" by (simp add: div_times_less_eq_dividend)
  finally have "length bs * block_size m \<le> usize_max" using n by linarith
  then show ?thesis
    using False en parts(3) bs by (simp add: get_computed_blocks_def)
qed

section \<open>Reset and construction\<close>

lemma manager_reset_effect:
  assumes ok: "manager_ok env m" and dbg: "debug_assertions env"
  shows "returns (manager_reset_prefix_cache env m) (\<lambda>(res, m'). manager_ok env m' \<and>
    res = (req_to_blocks m = []) \<and> req_to_blocks m' = req_to_blocks m \<and> block_size m' = block_size m \<and>
    same_frame (block_pool m) (block_pool m') \<and>
    (res \<longrightarrow> num_cached_blocks (block_pool m') = 0))"
proof (cases "req_to_blocks m = []")
  case False
  then show ?thesis using ok by (simp add: manager_reset_prefix_cache_def)
next
  case True
  note parts = manager_parts [OF ok]
  let ?p = "block_pool m"
  have "\<forall>b. real_block ?p b \<longrightarrow> refs ?p b = 0"
    using parts(6) True by (simp add: backed_def owned_def)
  then obtain p where p: "reset_prefix_cache env ?p = Inr (True, p)" "pool_ok env p" "frame p = frame ?p" "refs p = refs ?p"
    "num_cached_blocks p = 0"
    using reset_prefix_cache_all_idle [OF parts(2,1) dbg] by auto
  define m' where "m' = m\<lparr>block_pool := p, total_reserved_blocks := 0\<rparr>"
  have R: "real_block p = real_block ?p" by (rule frame_fields [OF p(3)])
  have ok': "manager_ok env m'"
    by (rule manager_okI [OF ok, of p "[]" 0])
      (use parts p True R in \<open>simp_all add: m'_def reserved_def\<close>)
  have "manager_reset_prefix_cache env m = Inr (True, m')"
    using True p(1) reservation_assert_ok [OF ok'] by (simp add: manager_reset_prefix_cache_def Let_def m'_def)
  then show ?thesis using ok' True p by (simp add: m'_def)
qed

section \<open>Slots\<close>

definition slot_at :: "nat \<Rightarrow> nat list \<Rightarrow> nat \<Rightarrow> int" where
  "slot_at bsz ids t = (if t div bsz < length ids then int (ids ! (t div bsz) * bsz + t mod bsz) else PAD_SLOT_ID)"

lemma slot_bound:
  fixes b n bsz :: nat
  assumes "b < n" and "o' < bsz"
  shows "b * bsz + o' < n * bsz"
proof -
  have "b * bsz + o' < Suc b * bsz" using assms(2) by simp
  also have "\<dots> \<le> n * bsz" using assms(1) by (intro mult_le_mono1) simp
  finally show ?thesis .
qed

lemma slot_of_eq:
  assumes "0 < bsz" and "\<forall>b \<in> set ids. b < n" and "n * bsz \<le> i64_max"
  shows "slot_of env bsz ids t acc = Inr (acc @ [slot_at bsz ids t])"
proof (cases "t div bsz < length ids")
  case True
  then have "ids ! (t div bsz) < n" using assms(2) by simp
  then have lt: "ids ! (t div bsz) * bsz + t mod bsz < n * bsz" using assms(1) by (intro slot_bound) auto
  then have "ids ! (t div bsz) * bsz + t mod bsz \<le> i64_max" using assms(3) by linarith
  moreover have "i64_max \<le> usize_max" by (simp add: int_max_defs)
  ultimately show ?thesis
    using True assms(1) by (simp add: slot_of_def slot_at_def as_i64_small)
next
  case False
  then show ?thesis using assms(1) by (simp add: slot_of_def slot_at_def)
qed

lemma slot_loop_eq:
  assumes "0 < bsz" and "\<forall>b \<in> set ids. b < n" and "n * bsz \<le> i64_max"
  shows "fold_res (slot_of env bsz ids) ts acc = Inr (acc @ map (slot_at bsz ids) ts)"
  by (induction ts arbitrary: acc) (simp_all add: slot_of_eq [OF assms])

lemma get_slot_mapping_eq:
  assumes ok: "manager_ok env m" and req: "map_of (req_to_blocks m) r = Some req"
    and fits: "num_gpu_blocks (block_pool m) * block_size m \<le> i64_max" and "start + n \<le> usize_max"
  shows "get_slot_mapping env m r start n =
    Inr (Some (map (slot_at (block_size m) (block_ids req)) [start..<start + n]))"
proof -
  have "\<forall>b \<in> set (block_ids req). b < num_gpu_blocks (block_pool m)"
    using owned_real [OF ok req] by (simp add: real_block_def)
  then show ?thesis
    using req assms(4) slot_loop_eq [OF manager_parts(3) [OF ok] _ fits]
    by (simp add: get_slot_mapping_def)
qed

section \<open>The manager as a transition system\<close>

datatype manager_op =
    MReserve nat nat "nat list" | MAllocate nat nat "nat list" | MFree nat | MTrim nat nat
  | MCache nat "BlockHash list" nat | MReset | MRegistry retention_op

text \<open>
  The premises are what the callers in the scheduler and the pipeline ensure: a computed prefix consists of
  real blocks with room in their counts, tables are shorter than \<open>u32::MAX\<close>, and a request that still holds
  a reservation is trimmed only within its own blocks.
\<close>

inductive manager_step :: "rt_env \<Rightarrow> KVCacheManager \<Rightarrow> manager_op \<Rightarrow> KVCacheManager \<Rightarrow> bool" for env where
  m_reserve: "reserve_prompt env r n bs m = Inr (res, m') \<Longrightarrow> valid_prefix m bs \<Longrightarrow> n \<le> usize_max \<Longrightarrow>
    length bs \<le> u32_max \<Longrightarrow> manager_step env m (MReserve r n bs) m'"
| m_allocate: "allocate_slots env r n bs m = Inr (res, m') \<Longrightarrow> valid_prefix m bs \<Longrightarrow> n \<le> usize_max \<Longrightarrow>
    length bs \<le> u32_max \<Longrightarrow> manager_step env m (MAllocate r n bs) m'"
| m_free: "free_request env r m = Inr m' \<Longrightarrow> num_blocks_for_request m r \<le> u32_max \<Longrightarrow>
    manager_step env m (MFree r) m'"
| m_trim: "trim_request_to_num_tokens env r n m = Inr m' \<Longrightarrow> num_blocks_for_request m r \<le> u32_max \<Longrightarrow>
    (\<forall>req. map_of (req_to_blocks m) r = Some req \<longrightarrow> trimmable m req (div_ceil n (block_size m))) \<Longrightarrow>
    manager_step env m (MTrim r n) m'"
| m_cache: "cache_blocks env r hs n m = Inr m' \<Longrightarrow> n div block_size m \<le> length hs \<Longrightarrow>
    manager_step env m (MCache r hs n) m'"
| m_reset: "manager_reset_prefix_cache env m = Inr (res, m') \<Longrightarrow> manager_step env m MReset m'"
| m_registry: "retention_step (retention (block_pool m)) op rt \<Longrightarrow> holder_op op \<Longrightarrow> room rt \<Longrightarrow>
    manager_step env m (MRegistry op) (m\<lparr>block_pool := (block_pool m)\<lparr>retention := rt\<rparr>\<rparr>)"

lemma allocate_slots_eq:
  assumes "manager_ok env m"
  shows "allocate_slots env r n bs m =
    (case map_of (req_to_blocks m) r of
       Some req \<Rightarrow> extend_slots env r (div_ceil n (block_size m)) req m
     | None \<Rightarrow> admit_slots env r (div_ceil n (block_size m)) bs m)"
  using manager_parts(3) [OF assms] by (simp add: allocate_slots_def)

lemma registry_manager_ok:
  assumes ok: "manager_ok env m" and "retention_step (retention (block_pool m)) op rt" "holder_op op" "room rt"
  shows "manager_ok env (m\<lparr>block_pool := (block_pool m)\<lparr>retention := rt\<rparr>\<rparr>)"
proof -
  note parts = manager_parts [OF ok]
  have fields: "refs (p\<lparr>retention := x\<rparr>) = refs p" "real_block (p\<lparr>retention := x\<rparr>) = real_block p" for p x
    by (simp_all add: refs_def real_block_def fun_eq_iff)
  show ?thesis
    using ok registry_pool_ok [OF parts(2) assms(2-4)] by (simp add: manager_ok_def fields)
qed

lemma manager_step_ok:
  assumes ok: "manager_ok env m" and dbg: "debug_assertions env" and st: "manager_step env m op m'"
  shows "manager_ok env m'"
  using st
proof cases
  case (m_reserve r n bs res)
  then show ?thesis using reserve_prompt_effect [OF ok, of bs n r] by (auto simp: returns_iff)
next
  case (m_allocate r n bs res)
  show ?thesis
  proof (cases "map_of (req_to_blocks m) r")
    case None
    have "div_ceil n (block_size m) - length bs + idle_in m bs \<le> usize_max"
      using m_allocate by (intro needed_room manager_parts(3) [OF ok])
    note run = admit_slots_effect [OF ok None m_allocate(3) this dbg]
    show ?thesis using run m_allocate(2) None by (simp add: allocate_slots_eq [OF ok])
  next
    case (Some req)
    note run = extend_slots_effect [OF ok Some, of "div_ceil n (block_size m)"]
    show ?thesis using run m_allocate(2) Some by (simp add: allocate_slots_eq [OF ok])
  qed
next
  case (m_free r)
  then show ?thesis
    using free_request_effect [OF ok, of r] ok
    by (cases "map_of (req_to_blocks m) r") (auto simp: returns_iff free_request_def num_blocks_for_request_def)
next
  case (m_trim r n)
  then show ?thesis
    using trim_request_effect [OF ok, of r _ n] ok manager_parts(3) [OF ok]
    by (cases "map_of (req_to_blocks m) r")
      (auto simp: returns_iff trim_request_to_num_tokens_def num_blocks_for_request_def)
next
  case (m_cache r hs n)
  show ?thesis
  proof (cases "caching_enabled m \<and> map_of (req_to_blocks m) r \<noteq> None")
    case True
    then show ?thesis using cache_blocks_effect [OF ok, of r _ n hs] m_cache by (fastforce simp: returns_iff Let_def)
  next
    case False
    then show ?thesis using m_cache ok by (auto simp: cache_blocks_def split: if_splits)
  qed
next
  case (m_reset res)
  then show ?thesis using manager_reset_effect [OF ok dbg] by (auto simp: returns_iff)
next
  case (m_registry op rt)
  then show ?thesis using registry_manager_ok [OF ok] by simp
qed

definition fresh_manager :: "rt_env \<Rightarrow> KVCacheManager \<Rightarrow> bool" where
  "fresh_manager env m \<longleftrightarrow>
     (\<exists>n bsz caching gs. n + 2 \<le> usize_max \<and> 0 < bsz \<and> KVCacheManager_new env n bsz caching gs = Inr m)"

lemma group_ids_pool_ok:
  assumes "pool_ok env p" and "hash_index p = index_new" and "retained_hashes p = []"
  shows "pool_ok env (p\<lparr>retention_group_ids := gs\<rparr>)"
proof -
  have "map_of (retained_hash_to_block p) = (\<lambda>_. None)" using assms(1,3) by (simp add: pool_ok_def tracked_def)
  then show ?thesis
    using assms
    by (simp add: pool_ok_def core_ok_def shape_ok_def phys_ok_def holds_ok_def retained_ok_def cache_ok_def
        held_def idle_def real_block_def refs_def keys_def holds_def tracked_def retention_sync_def)
qed

lemma KVCacheManager_new_effect:
  assumes n: "0 < n" "n + 2 \<le> usize_max" and "0 < bsz" and "env_ok env"
  shows "returns (KVCacheManager_new env n bsz caching gs) (\<lambda>m. manager_ok env m \<and> req_to_blocks m = [] \<and>
    pool_free (block_pool m) = n - 1 \<and> block_size m = bsz \<and> caching_enabled m = caching \<and>
    kv_cache_group_ids m = gs \<and> num_gpu_blocks (block_pool m) = n)"
proof -
  obtain p where p: "BlockPool_new env n caching bsz = Inr p" "pool_ok env p" "num_gpu_blocks p = n"
    "enable_caching p = caching" "\<forall>b. real_block p b \<longrightarrow> refs p b = 0 \<and> keys p b = []" "card (idle p) = n - 1"
    "retention p = retention_default"
    using BlockPool_new_effect [OF n, of env caching bsz] by (auto simp: returns_iff)
  have ix: "hash_index p = index_new" "retained_hashes p = []"
    using p(1) by (auto simp: BlockPool_new_def and_then_eq_Inr)
  let ?p = "p\<lparr>retention_group_ids := gs\<rparr>"
  have "set_retention_group_ids gs p = Inr ?p"
    using ix by (simp add: set_retention_group_ids_def index_len_def index_new_def)
  moreover have "refs ?p = refs p" "real_block ?p = real_block p"
    by (simp_all add: refs_def real_block_def fun_eq_iff)
  ultimately show ?thesis
    using p assms(3,4) group_ids_pool_ok [OF p(2) ix, of gs]
    by (simp add: KVCacheManager_new_def manager_ok_def backed_def owned_def reserved_def free_count_def idle_def)
qed

lemma fresh_manager_ok:
  assumes "fresh_manager env m" and "env_ok env"
  shows "manager_ok env m"
proof -
  obtain n b c g where n: "n + 2 \<le> usize_max" "0 < b" "KVCacheManager_new env n b c g = Inr m"
    using assms(1) by (auto simp: fresh_manager_def)
  then have "0 < n"
    by (auto simp: KVCacheManager_new_def BlockPool_new_def and_then_eq_Inr assert_that_def split: if_splits)
  then show ?thesis using KVCacheManager_new_effect [OF _ n(1,2) assms(2), of c g] n(3) by (auto simp: returns_iff)
qed

interpretation mts: transition_system
  "\<lambda>(env, m). env_ok env \<and> debug_assertions env \<and> fresh_manager env m"
  "\<lambda>(env, m) op (env', m'). env' = env \<and> manager_step env m op m'"
  "\<lambda>(env, m). debug_assertions env \<and> manager_ok env m"
  by unfold_locales (auto intro: fresh_manager_ok manager_step_ok)

definition reachable_manager :: "rt_env \<Rightarrow> KVCacheManager \<Rightarrow> bool" where
  "reachable_manager env m \<longleftrightarrow>
     reachable_from (\<lambda>(env, m). env_ok env \<and> debug_assertions env \<and> fresh_manager env m)
       (\<lambda>(env, m) op (env', m'). env' = env \<and> manager_step env m op m') (env, m)"

lemma reachable_manager_ok: "reachable_manager env m \<Longrightarrow> debug_assertions env \<and> manager_ok env m"
  using mts.reachable_inv [of "(env, m)"] by (simp add: reachable_manager_def)

section \<open>A concrete manager\<close>

definition sample_manager :: "KVCacheManager \<Rightarrow> bool" where
  "sample_manager m \<longleftrightarrow> KVCacheManager_new debug_env 8 16 True [0] = Inr m"

lemma sample_manager_ok:
  obtains m where "sample_manager m" and "manager_ok debug_env m" and "req_to_blocks m = []"
    and "pool_free (block_pool m) = 7" and "block_size m = 16" and "caching_enabled m"
    and "kv_cache_group_ids m = [0]" and "num_gpu_blocks (block_pool m) = 8"
    and "reachable_manager debug_env m" and "valid_prefix m []" and "total_reserved_blocks m = 0"
proof -
  have n: "(0::nat) < 8" "8 + 2 \<le> usize_max" "(0::nat) < 16" by (simp_all add: usize_max_def)
  obtain m where m: "sample_manager m" "manager_ok debug_env m" "req_to_blocks m = []"
    "pool_free (block_pool m) = 7" "block_size m = 16" "caching_enabled m"
    "kv_cache_group_ids m = [0]" "num_gpu_blocks (block_pool m) = 8"
    using KVCacheManager_new_effect [OF n, of debug_env True "[0]"] by (auto simp: returns_iff sample_manager_def)
  have "fresh_manager debug_env m"
    unfolding fresh_manager_def using m(1) n(2,3) unfolding sample_manager_def by blast
  then have "reachable_manager debug_env m"
    unfolding reachable_manager_def by (intro reach_init) simp
  moreover have "total_reserved_blocks m = 0" using manager_parts(7) [OF m(2)] m(3) by (simp add: reserved_def)
  ultimately show thesis using that m by (simp add: valid_prefix_def)
qed

text \<open>The manager after a new request of two blocks.\<close>

lemma sample_request:
  obtains m m' ids where "sample_manager m" and "allocate_slots debug_env 1 32 [] m = Inr (Some ids, m')"
    and "manager_ok debug_env m'" and "length ids = 2" and "distinct ids"
    and "map_of (req_to_blocks m') 1 = Some \<lparr>block_ids = ids, cached_count = 0, reserved_blocks = 0\<rparr>"
    and "block_size m' = 16" and "num_gpu_blocks (block_pool m') = 8" and "caching_enabled m'"
    and "kv_cache_group_ids m' = [0]"
proof -
  obtain m where m: "sample_manager m" "manager_ok debug_env m" "req_to_blocks m = []"
    "pool_free (block_pool m) = 7" "block_size m = 16" "caching_enabled m"
    "kv_cache_group_ids m = [0]" "num_gpu_blocks (block_pool m) = 8" "valid_prefix m []" "total_reserved_blocks m = 0"
    using sample_manager_ok by metis
  have k: "div_ceil 32 16 = 2" by (simp add: div_ceil_def)
  have fits: "prompt_fits m 2 []" using m by (simp add: prompt_fits_def idle_in_def)
  have "(2::nat) - length ([]::nat list) + idle_in m [] \<le> usize_max" by (simp add: idle_in_def usize_max_def)
  then obtain res m' where r: "admit_slots debug_env 1 2 [] m = Inr (res, m')" "manager_ok debug_env m'"
    "case res of
       None \<Rightarrow> m' = m \<and> \<not> prompt_fits m 2 []
     | Some new_ids \<Rightarrow> prompt_fits m 2 [] \<and> length new_ids = 2 - length ([]::nat list) \<and> distinct new_ids \<and>
         (\<forall>b \<in> set new_ids. real_block (block_pool m) b \<and> owned (req_to_blocks m) b = 0 \<and> b \<notin> set []) \<and>
         map_of (req_to_blocks m') = (map_of (req_to_blocks m))(1 \<mapsto>
           \<lparr>block_ids = [] @ new_ids, cached_count = length ([]::nat list), reserved_blocks = 0\<rparr>) \<and>
         block_size m' = block_size m \<and> same_frame (block_pool m) (block_pool m')"
    using admit_slots_effect [OF m(2) _ m(9), of 1 2] m(3) by (auto simp: returns_iff)
  then obtain ids where i: "res = Some ids" using fits by (cases res) auto
  have fr: "same_frame (block_pool m) (block_pool m')" using r(3) i by simp
  have "allocate_slots debug_env 1 32 [] m = Inr (Some ids, m')"
    using r(1) i m(3,5) k by (simp add: allocate_slots_eq [OF m(2)])
  moreover have "caching_enabled m'" "kv_cache_group_ids m' = [0]"
    using manager_parts(4,10) [OF r(2)] manager_parts(4,10) [OF m(2)] frame_fields [OF fr] m(6,7) by simp_all
  ultimately show thesis
    using that [of m ids m'] r i m frame_fields(1) [OF fr] by simp
qed

section \<open>Properties\<close>







text \<open>
  Freeing a request removes its table and nothing else, gives back one reference per entry of
  the table, in reverse order, and its reservation: everything it reserved is available to others.
  Freeing an unknown request changes nothing.
\<close>

theorem free_request_correct:
  assumes "manager_ok env m" and "num_blocks_for_request m r \<le> u32_max"
  shows "\<exists>m'. free_request env r m = Inr m' \<and> manager_ok env m' \<and> \<not> has_request m' r \<and>
    (\<forall>r'. r' \<noteq> r \<longrightarrow> map_of (req_to_blocks m') r' = map_of (req_to_blocks m) r') \<and>
    (\<forall>b. real_block (block_pool m) b \<longrightarrow>
       refs (block_pool m') b =
         refs (block_pool m) b - (case get_block_ids m r of None \<Rightarrow> 0 | Some ids \<Rightarrow> count_list ids b)) \<and>
    (\<forall>req. map_of (req_to_blocks m) r = Some req \<longrightarrow>
       free_blocks env (rev (block_ids req)) (block_pool m) = Inr (block_pool m') \<and>
       total_reserved_blocks m' = total_reserved_blocks m - reserved_blocks req)"
proof (cases "map_of (req_to_blocks m) r")
  case None
  then show ?thesis using assms(1) by (simp add: free_request_def has_request_def get_block_ids_def)
next
  case (Some req)
  note parts = manager_parts [OF assms(1)]
  let ?tbl = "AList.delete r (req_to_blocks m)"
  obtain m' where m': "free_request env r m = Inr m'" "manager_ok env m'" "req_to_blocks m' = ?tbl"
    "same_frame (block_pool m) (block_pool m')"
    "free_blocks env (rev (block_ids req)) (block_pool m) = Inr (block_pool m')"
    using free_request_effect [OF assms(1) Some] assms(2) Some
    by (auto simp: returns_iff num_blocks_for_request_def)
  have "refs (block_pool m') b = refs (block_pool m) b - count_list (block_ids req) b"
    if "real_block (block_pool m) b" for b
    using manager_parts(6) [OF m'(2)] parts(6) that owned_delete [OF parts(5), of r b] Some
      frame_fields(2) [OF m'(4)] m'(3) by (simp add: backed_def)
  moreover have "total_reserved_blocks m' = total_reserved_blocks m - reserved_blocks req"
    using manager_parts(7) [OF m'(2)] parts(7) reserved_delete [OF parts(5), of r] Some m'(3) by simp
  ultimately show ?thesis
    using m' Some by (simp add: has_request_def get_block_ids_def)
qed

theorem free_request_correct_witness:
  "\<exists>m ids m' m''. sample_manager m \<and> allocate_slots debug_env 1 32 [] m = Inr (Some ids, m') \<and>
     free_request debug_env 1 m' = Inr m'' \<and> \<not> has_request m'' 1"
proof -
  obtain m m' ids where r: "sample_manager m" "allocate_slots debug_env 1 32 [] m = Inr (Some ids, m')"
    "manager_ok debug_env m'" "length ids = 2"
    "map_of (req_to_blocks m') 1 = Some \<lparr>block_ids = ids, cached_count = 0, reserved_blocks = 0\<rparr>"
    using sample_request by metis
  then have "\<exists>m''. free_request debug_env 1 m' = Inr m'' \<and> \<not> has_request m'' 1"
    using free_request_correct [OF r(3), of 1] by (auto simp: num_blocks_for_request_def u32_max_def)
  then show ?thesis using r by blast
qed



text \<open>
  C19. \<open>get_computed_blocks\<close> finds the longest cached prefix of a prompt: every block it returns carries the
  hash of its position for all groups of the manager, the prefix stops only where no block does, where the
  hashes end or at the last full block that leaves a token to compute. The tokens it reports are fewer
  than those of the prompt.
\<close>

theorem computed_blocks_longest_prefix:
  assumes "manager_ok env m" and "kv_cache_group_ids m \<noteq> []" and "caching_enabled m" and "n \<le> usize_max" and "0 < n"
  shows "\<exists>c. get_computed_blocks env m hs n = Inr c \<and>
    num_computed_tokens c = length (computed_block_ids c) * block_size m \<and> num_computed_tokens c < n \<and>
    (\<forall>i < length (computed_block_ids c). i < length hs \<and>
       shares_keys (block_pool m) (hs ! i) (kv_cache_group_ids m) (computed_block_ids c ! i)) \<and>
    (\<forall>l. l = length (computed_block_ids c) \<longrightarrow> l < length hs \<and> Suc l * block_size m < n \<longrightarrow>
       (\<forall>b. \<not> shares_keys (block_pool m) (hs ! l) (kv_cache_group_ids m) b))"
proof -
  have bs: "0 < block_size m" by (rule manager_parts(3) [OF assms(1)])
  let ?k = "(n - 1) div block_size m"
  obtain c where c: "get_computed_blocks env m hs n = Inr c"
    "longest_hit (block_pool m) (kv_cache_group_ids m) ?k hs (computed_block_ids c)"
    "num_computed_tokens c = length (computed_block_ids c) * block_size m"
    using get_computed_blocks_effect [OF assms(1-4), of hs] by (auto simp: returns_iff)
  let ?l = "length (computed_block_ids c)"
  have "?l * block_size m \<le> ?k * block_size m" using c(2) by (simp add: longest_hit_def)
  also have "\<dots> \<le> n - 1" by (simp add: div_times_less_eq_dividend)
  finally have lt: "?l * block_size m < n" using assms(5) by linarith
  have "?l < ?k" if "Suc ?l * block_size m < n"
  proof -
    have "Suc ?l * block_size m \<le> n - 1" using that by linarith
    then show ?thesis using bs by (simp add: less_eq_div_iff_mult_less_eq Suc_le_eq [symmetric])
  qed
  then show ?thesis using c lt by (auto simp: longest_hit_def)
qed

theorem computed_blocks_longest_prefix_witness:
  "\<exists>m c. sample_manager m \<and> get_computed_blocks debug_env m [sample_hash 1] 40 = Inr c \<and> num_computed_tokens c < 40"
proof -
  obtain m where m: "sample_manager m" "manager_ok debug_env m" "caching_enabled m" "kv_cache_group_ids m = [0]"
    using sample_manager_ok by metis
  then show ?thesis
    using computed_blocks_longest_prefix [OF m(2) _ m(3), of 40 "[sample_hash 1]"] by (auto simp: usize_max_def)
qed



text \<open>
  C21. The slot mapping is the paging function: token \<open>t\<close> of a request goes to offset
  \<open>t mod block_size\<close> of the block its table holds at \<open>t div block_size\<close>, positions beyond the table get the
  padding slot, every slot lies inside the cache, and two allocated positions of a request whose table
  does not repeat a block never share a slot.
\<close>

theorem slot_mapping_correct:
  assumes "manager_ok env m" and "map_of (req_to_blocks m) r = Some req"
    and "num_gpu_blocks (block_pool m) * block_size m \<le> i64_max" and "start + n \<le> usize_max"
  shows "\<exists>slots. get_slot_mapping env m r start n = Inr (Some slots) \<and> length slots = n \<and>
    (\<forall>i < n. let t = start + i in
       if t < length (block_ids req) * block_size m
       then slots ! i = int (block_ids req ! (t div block_size m)) * int (block_size m) + int (t mod block_size m) \<and>
         0 \<le> slots ! i \<and> slots ! i < int (num_gpu_blocks (block_pool m) * block_size m)
       else slots ! i = PAD_SLOT_ID) \<and>
    (distinct (block_ids req) \<and> start + n \<le> length (block_ids req) * block_size m \<longrightarrow> distinct slots)"
proof -
  let ?b = "block_size m" and ?ids = "block_ids req"
  have bs: "0 < ?b" by (rule manager_parts(3) [OF assms(1)])
  let ?slots = "map (slot_at ?b ?ids) [start..<start + n]"
  have blk: "t div ?b < length ?ids \<longleftrightarrow> t < length ?ids * ?b" for t
    using bs by (simp add: div_less_iff_less_mult)
  have lt: "?ids ! (t div ?b) < num_gpu_blocks (block_pool m)" if "t < length ?ids * ?b" for t
    using owned_real [OF assms(1,2), of "?ids ! (t div ?b)"] that by (simp add: blk real_block_def)
  have inside: "?ids ! (t div ?b) * ?b + t mod ?b < num_gpu_blocks (block_pool m) * ?b"
    if "t < length ?ids * ?b" for t
    using slot_bound [OF lt [OF that]] bs by simp
  have inside': "int (?ids ! (t div ?b)) * int ?b + int (t mod ?b) < int (num_gpu_blocks (block_pool m) * ?b)"
    if "t < length ?ids * ?b" for t
    using inside [OF that] by (metis of_nat_add of_nat_less_iff of_nat_mult)
  have inj: "inj_on (slot_at ?b ?ids) {..<length ?ids * ?b}" if "distinct ?ids"
  proof (rule inj_onI)
    fix s t
    assume st: "s \<in> {..<length ?ids * ?b}" "t \<in> {..<length ?ids * ?b}" "slot_at ?b ?ids s = slot_at ?b ?ids t"
    then have "?ids ! (s div ?b) * ?b + s mod ?b = ?ids ! (t div ?b) * ?b + t mod ?b"
      by (simp add: slot_at_def blk flip: of_nat_mult of_nat_add)
    then have "?ids ! (s div ?b) = ?ids ! (t div ?b)" "s mod ?b = t mod ?b"
      using bs by (metis div_mult_self3 mod_div_trivial add_0_right not_gr0, metis mod_mult_self3 mod_mod_trivial)
    moreover then have "s div ?b = t div ?b" using st that by (simp add: nth_eq_iff_index_eq blk)
    ultimately show "s = t" by (metis div_mod_decomp)
  qed
  have "distinct ?slots" if "distinct ?ids" "start + n \<le> length ?ids * ?b"
    using inj_on_subset [OF inj [OF that(1)], of "set [start..<start + n]"] that(2) by (simp add: distinct_map subset_iff)
  moreover have "get_slot_mapping env m r start n = Inr (Some ?slots)" by (rule get_slot_mapping_eq [OF assms])
  ultimately show ?thesis
    using inside' by (intro exI [of _ ?slots]) (auto simp: Let_def slot_at_def blk)
qed

theorem slot_mapping_correct_witness:
  "\<exists>m ids m' slots. sample_manager m \<and> allocate_slots debug_env 1 32 [] m = Inr (Some ids, m') \<and>
     get_slot_mapping debug_env m' 1 0 32 = Inr (Some slots) \<and> distinct slots"
proof -
  obtain m m' ids where r: "sample_manager m" "allocate_slots debug_env 1 32 [] m = Inr (Some ids, m')"
    "manager_ok debug_env m'" "length ids = 2" "distinct ids"
    "map_of (req_to_blocks m') 1 = Some \<lparr>block_ids = ids, cached_count = 0, reserved_blocks = 0\<rparr>"
    "block_size m' = 16" "num_gpu_blocks (block_pool m') = 8"
    using sample_request by metis
  have "\<exists>slots. get_slot_mapping debug_env m' 1 0 32 = Inr (Some slots) \<and> distinct slots"
    using slot_mapping_correct [OF r(3,6), of 0 32] r(4,5,7,8) by (auto simp: int_max_defs)
  then show ?thesis using r(1,2) by blast
qed

text \<open>
  The block table handed to the attention kernels has exactly the requested width: the block ids
  in sequence order, cut or padded with zeros, each of them unchanged by the narrowing to \<open>i32\<close>
  as long as the cache has fewer than \<open>2^31\<close> blocks.
\<close>

theorem block_table_correct:
  assumes "manager_ok env m" and "map_of (req_to_blocks m) r = Some req" and "num_gpu_blocks (block_pool m) \<le> 2 ^ 31"
  shows "\<exists>tbl. get_block_table m r w = Some tbl \<and> length tbl = w \<and>
    (\<forall>i < w. tbl ! i = (if i < length (block_ids req) then int (block_ids req ! i) else 0))"
proof -
  have "b \<in> set (block_ids req) \<Longrightarrow> as_i32 b = int b" for b
    using owned_real [OF assms(1,2), of b] assms(3) by (intro as_i32_small) (simp add: real_block_def)
  then have eq: "map as_i32 (block_ids req) = map int (block_ids req)" by simp
  show ?thesis
    using assms(2) by (auto simp: get_block_table_def eq nth_append min_def)
qed

theorem block_table_correct_witness:
  "\<exists>m ids m' tbl. sample_manager m \<and> allocate_slots debug_env 1 32 [] m = Inr (Some ids, m') \<and>
     get_block_table m' 1 4 = Some tbl \<and> length tbl = 4 \<and> tbl ! 3 = 0"
proof -
  obtain m m' ids where r: "sample_manager m" "allocate_slots debug_env 1 32 [] m = Inr (Some ids, m')"
    "manager_ok debug_env m'" "length ids = 2"
    "map_of (req_to_blocks m') 1 = Some \<lparr>block_ids = ids, cached_count = 0, reserved_blocks = 0\<rparr>"
    "num_gpu_blocks (block_pool m') = 8"
    using sample_request by metis
  have "\<exists>tbl. get_block_table m' 1 4 = Some tbl \<and> length tbl = 4 \<and> tbl ! 3 = 0"
    using block_table_correct [OF r(3,5), of 4] r(4,6) by force
  then show ?thesis using r(1,2) by blast
qed

end
