(* ===== verification/Windowed_Pool.thy ===== *)
theory Windowed_Pool
  imports Rust_Prelude
begin

text \<open>
  The sliding-window KV pool (\<open>paged_attention/windowed_pool.rs\<close>): its configuration with every
  validation, the ring addressing of pages and slots, live sequence slots with generations, checkpoint
  slots, snapshot and restore, planning and committing context writes, and the scratch batches
  handed to the attention kernels.

  The tensors belong to candle and are a parameter (\<open>candle\<close>): the operations the pool calls on
  them, each of which may return an error. \<open>checks\<close> is the overflow-check flag of the build profile.
  The shared checkpoint registry (\<open>Arc<Mutex<_>>\<close>) is a field of the pool with an identity, which is what
  \<open>Arc::ptr_eq\<close> compares. A mutating method returns its result together with the state it leaves, also on
  an error.
\<close>

section \<open>Errors\<close>

datatype windowed_error =
    LiveCapacityZero | NoLayers | MaxQueryLenZero | UnsupportedPageSize nat | HeadsOrDimZero
  | ZeroWindow nat | FullAttentionLayer nat | TokenCapacityOverflow | SlotCapacityOverflow
  | BlockCountOverflow | SlotCountOverflow | BlockCountExceedsU32 | SlotCountExceedsI64
  | TensorSizeOverflow | ByteSizeOverflow
  | CheckpointGenerationOverflow | CheckpointCapacityExhausted nat
  | CacheShapeMismatch | CachesNotBF16 | CachesOnDifferentDevices | CachesNotContiguous
  | PositionMismatch nat nat nat | NotAcquired nat | NotQueryReady nat | AlreadyAcquired nat
  | DifferentPool | StaleCheckpoint | GenerationOverflow | PoolCapacityExhausted nat | SlotsAlias
  | EmptyContextWrite | ContextPositionOverflow | ReleasedBeforeCommit nat | StaleContextWrite nat
  | EmptyBatch | DuplicateSequence nat | BucketTooSmall nat nat | TableExceedsWidth nat
  | QueryLenOutOfRange nat nat | ContextNotInitialized nat nat nat | ScratchPositionOverflow
  | ScratchRangeEmpty | BlockIndexExceedsU32 | ExceedsPageRing
  | CumulativeExceedsU32 string | CumulativeOverflow string
  | CandleError string

section \<open>Configuration\<close>

record WindowedKvPoolConfig =
  live_sequence_capacity :: nat
  checkpoint_capacity :: nat
  layer_windows :: "nat list"
  max_window :: nat
  max_query_len :: nat
  page_size :: nat
  pages_per_sequence :: nat
  num_kv_heads :: nat
  head_dim :: nat
  bytes_per_slot :: nat

definition SUPPORTED_BLOCK_SIZE :: "nat list" where
  "SUPPORTED_BLOCK_SIZE = [8, 16, 32]"

definition KV_CACHE_TENSOR_COUNT :: nat where
  "KV_CACHE_TENSOR_COUNT = 2"

definition BF16_SIZE :: nat where
  "BF16_SIZE = 2"

fun checked_windows :: "nat \<Rightarrow> nat option list \<Rightarrow> (windowed_error, nat list) result" where
  "checked_windows layer [] = okay []"
| "checked_windows layer (None # ws) = bail (FullAttentionLayer layer)"
| "checked_windows layer (Some w # ws) =
     (if w = 0 then bail (ZeroWindow layer)
      else try_then (checked_windows (layer + 1) ws) (\<lambda>ws'. okay (w # ws')))"

abbreviation umul :: "nat \<Rightarrow> nat \<Rightarrow> nat option" where
  "umul \<equiv> checked_mul usize_max"

abbreviation uadd :: "nat \<Rightarrow> nat \<Rightarrow> nat option" where
  "uadd \<equiv> checked_add usize_max"

definition max_of :: "nat list \<Rightarrow> nat" where
  "max_of xs = fold max xs 0"

definition new_with_capacities ::
    "nat \<Rightarrow> nat \<Rightarrow> nat option list \<Rightarrow> nat \<Rightarrow> nat \<Rightarrow> nat \<Rightarrow> nat \<Rightarrow> (windowed_error, WindowedKvPoolConfig) result" where
  "new_with_capacities live ckpt windows mql psz heads dim =
     (if live = 0 then bail LiveCapacityZero
      else if windows = [] then bail NoLayers
      else if mql = 0 then bail MaxQueryLenZero
      else if psz \<notin> set SUPPORTED_BLOCK_SIZE then bail (UnsupportedPageSize psz)
      else if heads = 0 \<or> dim = 0 then bail HeadsOrDimZero
      else
        try_then (checked_windows 0 windows) (\<lambda>layers.
        let mw = max_of layers in
        try_then (ok_or TokenCapacityOverflow
          (Option.bind (checked_sub mw 1) (\<lambda>v. Option.bind (uadd v mql) (\<lambda>v. uadd v (psz - 1))))) (\<lambda>retained.
        let pages = div_ceil retained psz in
        try_then (ok_or SlotCapacityOverflow (uadd live ckpt)) (\<lambda>slots.
        try_then (ok_or BlockCountOverflow (umul slots pages)) (\<lambda>blocks.
        try_then (ok_or SlotCountOverflow (umul blocks psz)) (\<lambda>total_slots.
        if u32_max < blocks then bail BlockCountExceedsU32
        else if i64_max < total_slots then bail SlotCountExceedsI64
        else
          try_then (ok_or TensorSizeOverflow
            (Option.bind (umul (length layers) pages) (\<lambda>v. Option.bind (umul v heads) (\<lambda>v.
             Option.bind (umul v psz) (\<lambda>v. umul v dim))))) (\<lambda>elements.
          try_then (ok_or ByteSizeOverflow
            (Option.bind (umul elements BF16_SIZE) (\<lambda>v. umul v KV_CACHE_TENSOR_COUNT))) (\<lambda>slot_bytes.
          try_then (ok_or ByteSizeOverflow (umul slot_bytes slots)) (\<lambda>_.
          okay \<lparr>live_sequence_capacity = live, checkpoint_capacity = ckpt, layer_windows = layers,
              max_window = mw, max_query_len = mql, page_size = psz, pages_per_sequence = pages,
              num_kv_heads = heads, head_dim = dim, bytes_per_slot = slot_bytes\<rparr>)))))))))"

definition slot_capacity :: "bool \<Rightarrow> WindowedKvPoolConfig \<Rightarrow> nat res" where
  "slot_capacity checks c = add_plain checks usize_max (live_sequence_capacity c) (checkpoint_capacity c)"

definition num_layers :: "WindowedKvPoolConfig \<Rightarrow> nat" where
  "num_layers c = length (layer_windows c)"

definition physical_blocks :: "bool \<Rightarrow> WindowedKvPoolConfig \<Rightarrow> nat res" where
  "physical_blocks checks c =
     and_then (slot_capacity checks c) (\<lambda>n. mul_plain checks usize_max n (pages_per_sequence c))"

definition graph_max_kv_len :: "bool \<Rightarrow> WindowedKvPoolConfig \<Rightarrow> nat res" where
  "graph_max_kv_len checks c = mul_plain checks usize_max (pages_per_sequence c) (page_size c)"

definition cache_shape :: "bool \<Rightarrow> WindowedKvPoolConfig \<Rightarrow> nat list res" where
  "cache_shape checks c =
     and_then (physical_blocks checks c) (\<lambda>n.
     Inr [num_layers c, n, num_kv_heads c, page_size c, head_dim c])"

definition origin_for :: "bool \<Rightarrow> WindowedKvPoolConfig \<Rightarrow> nat \<Rightarrow> nat res" where
  "origin_for checks c next_committed =
     and_then (sub_plain checks usize_max (max_window c) 1) (\<lambda>back.
     let oldest = next_committed - back in
     and_then (div_res oldest (page_size c)) (\<lambda>page.
     mul_plain checks usize_max page (page_size c)))"

definition physical_block :: "bool \<Rightarrow> WindowedKvPoolConfig \<Rightarrow> nat \<Rightarrow> nat \<Rightarrow> nat res" where
  "physical_block checks c slot logical_page =
     and_then (mul_plain checks usize_max slot (pages_per_sequence c)) (\<lambda>base.
     if pages_per_sequence c = 0 then Inl DivideByZero
     else add_plain checks usize_max base (logical_page mod pages_per_sequence c))"

definition physical_slot :: "bool \<Rightarrow> WindowedKvPoolConfig \<Rightarrow> nat \<Rightarrow> nat \<Rightarrow> int res" where
  "physical_slot checks c slot pos =
     and_then (div_res pos (page_size c)) (\<lambda>logical_page.
     and_then (physical_block checks c slot logical_page) (\<lambda>block.
     and_then (mul_plain checks usize_max block (page_size c)) (\<lambda>base.
     and_then (add_plain checks usize_max base (pos mod page_size c)) (\<lambda>s.
     expect ''windowed KV slot count was validated at construction''
       (if s \<le> i64_max then Some (int s) else None)))))"

section \<open>Slot metrics\<close>

text \<open>The gauges are output; the two narrowing conversions before them can panic.\<close>

definition publish_slot_metrics :: "nat \<Rightarrow> nat \<Rightarrow> unit res" where
  "publish_slot_metrics used capacity =
     (if u32_max < used then Inl (ExpectFailed ''windowed KV slot usage exceeds u32'')
      else if u32_max < capacity then Inl (ExpectFailed ''windowed KV slot capacity exceeds u32'')
      else Inr ())"

section \<open>Checkpoint slots\<close>

record WindowedKvCheckpointSlots =
  first_pool_slot :: nat
  active_generations :: "nat option list"
  ck_free_slots :: "nat list"
  ck_next_generation :: nat

definition ck_publish_metrics :: "bool \<Rightarrow> WindowedKvCheckpointSlots \<Rightarrow> unit res" where
  "ck_publish_metrics checks s =
     and_then (sub_plain checks usize_max (length (active_generations s)) (length (ck_free_slots s)))
       (\<lambda>used. publish_slot_metrics used (length (active_generations s)))"

definition checkpoint_slots_new :: "bool \<Rightarrow> nat \<Rightarrow> nat \<Rightarrow> WindowedKvCheckpointSlots res" where
  "checkpoint_slots_new checks first capacity =
     and_then (add_plain checks usize_max first capacity) (\<lambda>stop.
     let s = \<lparr>first_pool_slot = first, active_generations = replicate capacity None,
              ck_free_slots = rev [first..<stop], ck_next_generation = 0\<rparr> in
     and_then (ck_publish_metrics checks s) (\<lambda>_. Inr s))"

definition ck_reserve ::
    "bool \<Rightarrow> WindowedKvCheckpointSlots \<Rightarrow> (windowed_error, nat \<times> nat, WindowedKvCheckpointSlots) stateful" where
  "ck_reserve checks s =
     (case checked_add u64_max (ck_next_generation s) 1 of
        None \<Rightarrow> Inr (Inl CheckpointGenerationOverflow, s)
      | Some next \<Rightarrow>
          (case vec_pop (ck_free_slots s) of
             None \<Rightarrow> Inr (Inl (CheckpointCapacityExhausted (length (active_generations s))), s)
           | Some (slot, rest) \<Rightarrow>
               and_then (sub_plain checks usize_max slot (first_pool_slot s)) (\<lambda>i.
               and_then (set_at (active_generations s) i (Some (ck_next_generation s))) (\<lambda>active.
               let s' = s\<lparr>ck_free_slots := rest, ck_next_generation := next, active_generations := active\<rparr> in
               and_then (ck_publish_metrics checks s') (\<lambda>_.
               Inr (Inr (slot, ck_next_generation s), s'))))))"

definition ck_contains :: "WindowedKvCheckpointSlots \<Rightarrow> nat \<Rightarrow> nat \<Rightarrow> bool" where
  "ck_contains s slot gen =
     (case checked_sub slot (first_pool_slot s) of
        None \<Rightarrow> False
      | Some i \<Rightarrow> i < length (active_generations s) \<and> active_generations s ! i = Some gen)"

definition ck_release ::
    "bool \<Rightarrow> WindowedKvCheckpointSlots \<Rightarrow> nat \<Rightarrow> nat \<Rightarrow> (bool \<times> WindowedKvCheckpointSlots) res" where
  "ck_release checks s slot gen =
     (case checked_sub slot (first_pool_slot s) of
        None \<Rightarrow> Inr (False, s)
      | Some i \<Rightarrow>
          if i < length (active_generations s) \<and> active_generations s ! i = Some gen then
            let s' = s\<lparr>active_generations := (active_generations s)[i := None],
                       ck_free_slots := ck_free_slots s @ [slot]\<rparr> in
            and_then (ck_publish_metrics checks s') (\<lambda>_. Inr (True, s'))
          else Inr (False, s))"

section \<open>Pool state\<close>

record 't candle =
  dims :: "'t \<Rightarrow> nat list"
  is_bf16 :: "'t \<Rightarrow> bool"
  same_device :: "'t \<Rightarrow> 't \<Rightarrow> bool"
  is_contiguous :: "'t \<Rightarrow> bool"
  zeros_bf16 :: "nat list \<Rightarrow> string + 't"
  narrow :: "'t \<Rightarrow> nat \<Rightarrow> nat \<Rightarrow> nat \<Rightarrow> string + 't"
  slice_assign :: "'t \<Rightarrow> (nat \<times> nat) list \<Rightarrow> 't \<Rightarrow> string + 't"

record WindowedKvSequenceState =
  seq_id :: nat
  pool_slot :: nat
  origin_pos :: nat
  valid_start_pos :: nat
  next_committed_pos :: nat
  generation :: nat

record WindowedKvCheckpoint =
  ck_pool_slot :: nat
  ck_generation :: nat
  ck_origin_pos :: nat
  ck_valid_start_pos :: nat
  ck_next_committed_pos :: nat
  ck_bytes :: nat
  ck_slots_ptr :: nat

record WindowedKvContextWrite =
  cw_seq_id :: nat
  cw_pool_slot :: nat
  cw_generation :: nat
  cw_expected_next :: nat
  cw_next_committed_pos :: nat
  cw_origin_pos :: nat
  cw_input_token_count :: nat
  cw_retained_input_offset :: nat
  cw_slot_mapping :: "int list"

record WindowedKvQuery =
  query_seq_id :: nat
  query_len :: nat

record WindowedKvBatchRow =
  row_seq_id :: nat
  row_pool_slot :: nat
  row_origin_pos :: nat
  row_next_committed_pos :: nat
  row_query_len :: nat
  row_kv_len :: nat
  row_block_table :: "nat list"
  row_slot_mapping :: "int list"

record WindowedKvBatch =
  batch_rows :: "WindowedKvBatchRow list"
  block_table_width :: nat
  batch_block_tables :: "nat list"
  batch_slot_mapping :: "int list"
  batch_query_lens :: "nat list"
  batch_kv_lens :: "nat list"
  cumulative_query_lens :: "nat list"
  cumulative_kv_lens :: "nat list"
  batch_max_query_len :: nat
  batch_max_kv_len :: nat

record 't WindowedKvPool =
  config :: WindowedKvPoolConfig
  key_cache :: 't
  value_cache :: 't
  live_free_slots :: "nat list"
  checkpoint_slots :: WindowedKvCheckpointSlots
  slots_ptr :: nat
  sequences :: "nat \<rightharpoonup> WindowedKvSequenceState"
  next_generation :: nat

definition live_sequence_count :: "bool \<Rightarrow> 't WindowedKvPool \<Rightarrow> nat res" where
  "live_sequence_count checks p =
     sub_plain checks usize_max (live_sequence_capacity (config p)) (length (live_free_slots p))"

definition publish_live_slot_metrics :: "bool \<Rightarrow> 't WindowedKvPool \<Rightarrow> unit res" where
  "publish_live_slot_metrics checks p =
     and_then (live_sequence_count checks p) (\<lambda>used.
     publish_slot_metrics used (live_sequence_capacity (config p)))"

definition from_tensors ::
    "bool \<Rightarrow> 't candle \<Rightarrow> nat \<Rightarrow> WindowedKvPoolConfig \<Rightarrow> 't \<Rightarrow> 't \<Rightarrow> (windowed_error, 't WindowedKvPool) result" where
  "from_tensors checks ops ptr c k v =
     and_then (cache_shape checks c) (\<lambda>shape.
     if dims ops k \<noteq> shape \<or> dims ops v \<noteq> shape then bail CacheShapeMismatch
     else if \<not> is_bf16 ops k \<or> \<not> is_bf16 ops v then bail CachesNotBF16
     else if \<not> same_device ops k v then bail CachesOnDifferentDevices
     else if \<not> is_contiguous ops k \<or> \<not> is_contiguous ops v then bail CachesNotContiguous
     else
       and_then (checkpoint_slots_new checks (live_sequence_capacity c) (checkpoint_capacity c)) (\<lambda>ck.
       let p = \<lparr>config = c, key_cache = k, value_cache = v,
                live_free_slots = rev [0..<live_sequence_capacity c], checkpoint_slots = ck,
                slots_ptr = ptr, sequences = Map.empty, next_generation = 0\<rparr> in
       and_then (publish_live_slot_metrics checks p) (\<lambda>_. okay p)))"

definition candle_result :: "string + 'a \<Rightarrow> (windowed_error, 'a) result" where
  "candle_result r = (case r of Inl e \<Rightarrow> bail (CandleError e) | Inr x \<Rightarrow> okay x)"

definition windowed_pool_new ::
    "bool \<Rightarrow> 't candle \<Rightarrow> nat \<Rightarrow> WindowedKvPoolConfig \<Rightarrow> (windowed_error, 't WindowedKvPool) result" where
  "windowed_pool_new checks ops ptr c =
     and_then (cache_shape checks c) (\<lambda>shape.
     try_then (candle_result (zeros_bf16 ops shape)) (\<lambda>k.
     try_then (candle_result (zeros_bf16 ops shape)) (\<lambda>v.
     from_tensors checks ops ptr c k v)))"

section \<open>Live sequences\<close>

definition reserve_live_slot ::
    "bool \<Rightarrow> 't WindowedKvPool \<Rightarrow> (windowed_error, nat \<times> nat, 't WindowedKvPool) stateful" where
  "reserve_live_slot checks p =
     (case checked_add u64_max (next_generation p) 1 of
        None \<Rightarrow> Inr (Inl GenerationOverflow, p)
      | Some next \<Rightarrow>
          (case vec_pop (live_free_slots p) of
             None \<Rightarrow> Inr (Inl (PoolCapacityExhausted (live_sequence_capacity (config p))), p)
           | Some (slot, rest) \<Rightarrow>
               let p' = p\<lparr>live_free_slots := rest, next_generation := next\<rparr> in
               and_then (publish_live_slot_metrics checks p') (\<lambda>_.
               Inr (Inr (slot, next_generation p), p'))))"

definition acquire_at ::
    "bool \<Rightarrow> nat \<Rightarrow> nat \<Rightarrow> 't WindowedKvPool \<Rightarrow> (windowed_error, WindowedKvSequenceState, 't WindowedKvPool) stateful" where
  "acquire_at checks sid next_pos p =
     (case sequences p sid of
        Some state \<Rightarrow>
          if next_committed_pos state \<noteq> next_pos
          then Inr (Inl (PositionMismatch sid (next_committed_pos state) next_pos), p)
          else Inr (Inr state, p)
      | None \<Rightarrow>
          try_state (reserve_live_slot checks p) (\<lambda>(slot, gen) p.
          and_then (origin_for checks (config p) next_pos) (\<lambda>origin.
          let state = \<lparr>seq_id = sid, pool_slot = slot, origin_pos = origin, valid_start_pos = next_pos,
                       next_committed_pos = next_pos, generation = gen\<rparr> in
          Inr (Inr state, p\<lparr>sequences := (sequences p)(sid \<mapsto> state)\<rparr>))))"

definition release_sequence :: "bool \<Rightarrow> nat \<Rightarrow> 't WindowedKvPool \<Rightarrow> (bool \<times> 't WindowedKvPool) res" where
  "release_sequence checks sid p =
     (case sequences p sid of
        None \<Rightarrow> Inr (False, p)
      | Some state \<Rightarrow>
          let p' = p\<lparr>sequences := (sequences p)(sid := None),
                     live_free_slots := live_free_slots p @ [pool_slot state]\<rparr> in
          and_then (publish_live_slot_metrics checks p') (\<lambda>_. Inr (True, p')))"

definition clear_sequences :: "bool \<Rightarrow> 't WindowedKvPool \<Rightarrow> 't WindowedKvPool res" where
  "clear_sequences checks p =
     (let p' = p\<lparr>sequences := Map.empty, live_free_slots := rev [0..<live_sequence_capacity (config p)]\<rparr> in
      and_then (publish_live_slot_metrics checks p') (\<lambda>_. Inr p'))"

section \<open>Checkpoints\<close>

text \<open>
  The device-independent path of \<open>copy_pool_slot\<close>: the key cache is already assigned when assigning the
  value cache fails.
\<close>

definition copy_pool_slot ::
    "bool \<Rightarrow> 't candle \<Rightarrow> nat \<Rightarrow> nat \<Rightarrow> 't WindowedKvPool \<Rightarrow> (windowed_error, unit, 't WindowedKvPool) stateful" where
  "copy_pool_slot checks ops source_slot destination_slot p =
     (if source_slot = destination_slot then Inr (Inl SlotsAlias, p)
      else
        let c = config p; pages = pages_per_sequence c in
        and_then (mul_plain checks usize_max source_slot pages) (\<lambda>source_start.
        and_then (mul_plain checks usize_max destination_slot pages) (\<lambda>destination_start.
        case narrow ops (key_cache p) 1 source_start pages of
          Inl e \<Rightarrow> Inr (Inl (CandleError e), p)
        | Inr key_source \<Rightarrow>
            (case narrow ops (value_cache p) 1 source_start pages of
               Inl e \<Rightarrow> Inr (Inl (CandleError e), p)
             | Inr value_source \<Rightarrow>
                 and_then (add_plain checks usize_max destination_start pages) (\<lambda>destination_end.
                 let ranges = [(0, num_layers c), (destination_start, destination_end),
                               (0, num_kv_heads c), (0, page_size c), (0, head_dim c)] in
                 case slice_assign ops (key_cache p) ranges key_source of
                   Inl e \<Rightarrow> Inr (Inl (CandleError e), p)
                 | Inr k \<Rightarrow>
                     let p = p\<lparr>key_cache := k\<rparr> in
                     (case slice_assign ops (value_cache p) ranges value_source of
                        Inl e \<Rightarrow> Inr (Inl (CandleError e), p)
                      | Inr v \<Rightarrow> Inr (Inr (), p\<lparr>value_cache := v\<rparr>)))))))"

definition snapshot_sequence ::
    "bool \<Rightarrow> 't candle \<Rightarrow> nat \<Rightarrow> 't WindowedKvPool \<Rightarrow> (windowed_error, WindowedKvCheckpoint, 't WindowedKvPool) stateful" where
  "snapshot_sequence checks ops sid p =
     (case sequences p sid of
        None \<Rightarrow> Inr (Inl (NotAcquired sid), p)
      | Some state \<Rightarrow>
          if origin_pos state < valid_start_pos state then Inr (Inl (NotQueryReady sid), p)
          else
            and_then (ck_reserve checks (checkpoint_slots p)) (\<lambda>(r, cs).
            let p = p\<lparr>checkpoint_slots := cs\<rparr> in
            case r of
              Inl e \<Rightarrow> Inr (Inl e, p)
            | Inr (slot, gen) \<Rightarrow>
                and_then (copy_pool_slot checks ops (pool_slot state) slot p) (\<lambda>(copied, p).
                case copied of
                  Inl e \<Rightarrow>
                    and_then (ck_release checks (checkpoint_slots p) slot gen) (\<lambda>(_, cs).
                    Inr (Inl e, p\<lparr>checkpoint_slots := cs\<rparr>))
                | Inr _ \<Rightarrow>
                    Inr (Inr \<lparr>ck_pool_slot = slot, ck_generation = gen, ck_origin_pos = origin_pos state,
                          ck_valid_start_pos = valid_start_pos state,
                          ck_next_committed_pos = next_committed_pos state,
                          ck_bytes = bytes_per_slot (config p), ck_slots_ptr = slots_ptr p\<rparr>, p))))"

definition restore_sequence ::
    "bool \<Rightarrow> 't candle \<Rightarrow> nat \<Rightarrow> WindowedKvCheckpoint \<Rightarrow> 't WindowedKvPool \<Rightarrow>
     (windowed_error, WindowedKvSequenceState, 't WindowedKvPool) stateful" where
  "restore_sequence checks ops sid ck p =
     (if sequences p sid \<noteq> None then Inr (Inl (AlreadyAcquired sid), p)
      else if slots_ptr p \<noteq> ck_slots_ptr ck then Inr (Inl DifferentPool, p)
      else if \<not> ck_contains (checkpoint_slots p) (ck_pool_slot ck) (ck_generation ck)
      then Inr (Inl StaleCheckpoint, p)
      else
        try_state (reserve_live_slot checks p) (\<lambda>(slot, gen) p.
        and_then (copy_pool_slot checks ops (ck_pool_slot ck) slot p) (\<lambda>(copied, p).
        case copied of
          Inl e \<Rightarrow>
            let p = p\<lparr>live_free_slots := live_free_slots p @ [slot]\<rparr> in
            and_then (publish_live_slot_metrics checks p) (\<lambda>_. Inr (Inl e, p))
        | Inr _ \<Rightarrow>
            let state = \<lparr>seq_id = sid, pool_slot = slot, origin_pos = ck_origin_pos ck,
                         valid_start_pos = ck_valid_start_pos ck,
                         next_committed_pos = ck_next_committed_pos ck, generation = gen\<rparr> in
            Inr (Inr state, p\<lparr>sequences := (sequences p)(sid \<mapsto> state)\<rparr>))))"

text \<open>Dropping the last clone of a checkpoint handle.\<close>

definition checkpoint_drop :: "bool \<Rightarrow> WindowedKvCheckpoint \<Rightarrow> 't WindowedKvPool \<Rightarrow> 't WindowedKvPool res" where
  "checkpoint_drop checks ck p =
     and_then (ck_release checks (checkpoint_slots p) (ck_pool_slot ck) (ck_generation ck)) (\<lambda>(_, cs).
     Inr (p\<lparr>checkpoint_slots := cs\<rparr>))"

section \<open>Context writes\<close>

definition plan_context_write ::
    "bool \<Rightarrow> 't WindowedKvPool \<Rightarrow> nat \<Rightarrow> nat \<Rightarrow> (windowed_error, WindowedKvContextWrite) result" where
  "plan_context_write checks p sid input_token_count =
     (if input_token_count = 0 then bail EmptyContextWrite
      else
        try_then (ok_or (NotAcquired sid) (sequences p sid)) (\<lambda>state.
        try_then (ok_or ContextPositionOverflow (uadd (next_committed_pos state) input_token_count)) (\<lambda>next.
        and_then (origin_for checks (config p) next) (\<lambda>origin.
        let retained_start = max (next_committed_pos state) origin in
        and_then (sub_plain checks usize_max retained_start (next_committed_pos state)) (\<lambda>off.
        and_then (map_res (physical_slot checks (config p) (pool_slot state)) [retained_start..<next]) (\<lambda>slots.
        okay \<lparr>cw_seq_id = sid, cw_pool_slot = pool_slot state, cw_generation = generation state,
            cw_expected_next = next_committed_pos state, cw_next_committed_pos = next,
            cw_origin_pos = origin, cw_input_token_count = input_token_count,
            cw_retained_input_offset = off, cw_slot_mapping = slots\<rparr>))))))"

definition retained_input_range :: "WindowedKvContextWrite \<Rightarrow> nat \<times> nat" where
  "retained_input_range w = (cw_retained_input_offset w, cw_input_token_count w)"

definition commit_context ::
    "WindowedKvContextWrite \<Rightarrow> 't WindowedKvPool \<Rightarrow> (windowed_error, unit, 't WindowedKvPool) stateful" where
  "commit_context w p =
     (case sequences p (cw_seq_id w) of
        None \<Rightarrow> Inr (Inl (ReleasedBeforeCommit (cw_seq_id w)), p)
      | Some state \<Rightarrow>
          if pool_slot state \<noteq> cw_pool_slot w \<or> generation state \<noteq> cw_generation w \<or>
             next_committed_pos state \<noteq> cw_expected_next w
          then Inr (Inl (StaleContextWrite (cw_seq_id w)), p)
          else
            Inr (Inr (), p\<lparr>sequences := (sequences p)(cw_seq_id w \<mapsto>
              state\<lparr>origin_pos := cw_origin_pos w,
                    valid_start_pos := max (valid_start_pos state) (cw_origin_pos w),
                    next_committed_pos := cw_next_committed_pos w\<rparr>)\<rparr>))"

definition sequence_query_ready :: "'t WindowedKvPool \<Rightarrow> nat \<Rightarrow> bool" where
  "sequence_query_ready p sid =
     (case sequences p sid of None \<Rightarrow> False | Some state \<Rightarrow> valid_start_pos state \<le> origin_pos state)"

section \<open>Scratch batches\<close>

definition push_cumulative_len :: "string \<Rightarrow> nat \<Rightarrow> nat list \<Rightarrow> (windowed_error, nat list) result" where
  "push_cumulative_len name len values =
     (let previous = (if values = [] then 0 else last values) in
      if u32_max < len then bail (CumulativeExceedsU32 name)
      else try_then (ok_or (CumulativeOverflow name) (checked_add u32_max previous len)) (\<lambda>next.
        okay (values @ [next])))"

definition scratch_row ::
    "bool \<Rightarrow> 't WindowedKvPool \<Rightarrow> WindowedKvQuery \<Rightarrow> (windowed_error, WindowedKvBatchRow) result" where
  "scratch_row checks p q =
     (let c = config p in
      if query_len q = 0 \<or> max_query_len c < query_len q
      then bail (QueryLenOutOfRange (max_query_len c) (query_len q))
      else
        try_then (ok_or (NotAcquired (query_seq_id q)) (sequences p (query_seq_id q))) (\<lambda>state.
        if origin_pos state < valid_start_pos state
        then bail (ContextNotInitialized (query_seq_id q) (valid_start_pos state) (origin_pos state))
        else
          try_then (ok_or ScratchPositionOverflow (uadd (next_committed_pos state) (query_len q))) (\<lambda>end_pos.
          and_then (div_res (origin_pos state) (page_size c)) (\<lambda>first_page.
          try_then (ok_or ScratchRangeEmpty (checked_sub end_pos 1)) (\<lambda>last_pos.
          and_then (div_res last_pos (page_size c)) (\<lambda>last_page.
          try_then (map_result (\<lambda>page.
              and_then (physical_block checks c (pool_slot state) page) (\<lambda>b.
              if u32_max < b then bail BlockIndexExceedsU32 else okay b)) [first_page..<last_page + 1]) (\<lambda>table.
          if pages_per_sequence c < length table then bail ExceedsPageRing
          else
            and_then (map_res (physical_slot checks c (pool_slot state))
              [next_committed_pos state..<end_pos]) (\<lambda>slots.
            and_then (sub_plain checks usize_max end_pos (origin_pos state)) (\<lambda>kv_len.
            okay \<lparr>row_seq_id = query_seq_id q, row_pool_slot = pool_slot state,
                row_origin_pos = origin_pos state, row_next_committed_pos = next_committed_pos state,
                row_query_len = query_len q, row_kv_len = kv_len, row_block_table = table,
                row_slot_mapping = slots\<rparr>)))))))))"

fun scratch_rows_from ::
    "bool \<Rightarrow> 't WindowedKvPool \<Rightarrow> nat set \<Rightarrow> WindowedKvQuery list \<Rightarrow> (windowed_error, WindowedKvBatchRow list) result" where
  "scratch_rows_from checks p seen [] = okay []"
| "scratch_rows_from checks p seen (q # qs) =
     (if query_seq_id q \<in> seen then bail (DuplicateSequence (query_seq_id q))
      else
        try_then (scratch_row checks p q) (\<lambda>row.
        try_then (scratch_rows_from checks p (insert (query_seq_id q) seen) qs) (\<lambda>rows.
        okay (row # rows))))"

definition scratch_rows ::
    "bool \<Rightarrow> 't WindowedKvPool \<Rightarrow> WindowedKvQuery list \<Rightarrow> (windowed_error, WindowedKvBatchRow list) result" where
  "scratch_rows checks p qs = (if qs = [] then bail EmptyBatch else scratch_rows_from checks p {} qs)"

text \<open>One round of the loop over the rows; the accumulator holds the six growing vectors.\<close>

type_synonym batch_acc = "nat list \<times> int list \<times> nat list \<times> nat list \<times> nat list \<times> nat list"

definition push_row :: "nat \<Rightarrow> WindowedKvBatchRow \<Rightarrow> batch_acc \<Rightarrow> (windowed_error, batch_acc) result" where
  "push_row width row = (\<lambda>(tables, slots, qlens, klens, cq, ck).
     let tables = tables @ row_block_table row @ replicate (width - length (row_block_table row)) 0;
         slots = slots @ row_slot_mapping row;
         qlens = qlens @ [row_query_len row];
         klens = klens @ [row_kv_len row] in
     try_then (push_cumulative_len ''windowed KV cumulative query length'' (row_query_len row) cq) (\<lambda>cq.
     try_then (push_cumulative_len ''windowed KV cumulative context length'' (row_kv_len row) ck) (\<lambda>ck.
     okay (tables, slots, qlens, klens, cq, ck))))"

fun push_rows :: "nat \<Rightarrow> WindowedKvBatchRow list \<Rightarrow> batch_acc \<Rightarrow> (windowed_error, batch_acc) result" where
  "push_rows width [] acc = okay acc"
| "push_rows width (r # rs) acc = try_then (push_row width r acc) (push_rows width rs)"

definition batch_from_rows ::
    "WindowedKvBatchRow list \<Rightarrow> nat \<Rightarrow> nat option \<Rightarrow> (windowed_error, WindowedKvBatch) result" where
  "batch_from_rows rows width max_kv =
     (if \<exists>row \<in> set rows. width < length (row_block_table row) then bail (TableExceedsWidth width)
      else
        try_then (push_rows width rows ([], [], [], [], [0], [0])) (\<lambda>(tables, slots, qlens, klens, cq, ck).
        okay \<lparr>batch_rows = rows, block_table_width = width, batch_block_tables = tables,
            batch_slot_mapping = slots, batch_query_lens = qlens, batch_kv_lens = klens,
            cumulative_query_lens = cq, cumulative_kv_lens = ck, batch_max_query_len = max_of qlens,
            batch_max_kv_len = (case max_kv of None \<Rightarrow> max_of klens | Some n \<Rightarrow> n)\<rparr>))"

definition scratch_batch ::
    "bool \<Rightarrow> 't WindowedKvPool \<Rightarrow> WindowedKvQuery list \<Rightarrow> (windowed_error, WindowedKvBatch) result" where
  "scratch_batch checks p qs =
     try_then (scratch_rows checks p qs) (\<lambda>rows.
     batch_from_rows rows (max (max_of (map (\<lambda>row. length (row_block_table row)) rows)) 1) None)"

definition WINDOW_PAD_SLOT_ID :: int where
  "WINDOW_PAD_SLOT_ID = -1"

definition scratch_graph_batch ::
    "bool \<Rightarrow> 't WindowedKvPool \<Rightarrow> WindowedKvQuery list \<Rightarrow> nat \<Rightarrow> (windowed_error, WindowedKvBatch) result" where
  "scratch_graph_batch checks p qs bucket =
     try_then (scratch_rows checks p qs) (\<lambda>rows.
     if bucket < length rows then bail (BucketTooSmall bucket (length rows))
     else
       and_then (get_at rows 0) (\<lambda>first.
       let pad = \<lparr>row_seq_id = 0, row_pool_slot = 0, row_origin_pos = 0, row_next_committed_pos = 0,
                  row_query_len = row_query_len first, row_kv_len = 0,
                  row_block_table = row_block_table first,
                  row_slot_mapping = replicate (row_query_len first) WINDOW_PAD_SLOT_ID\<rparr>;
           rows = rows @ replicate (bucket - length rows) pad in
       and_then (graph_max_kv_len checks (config p)) (\<lambda>max_kv.
       batch_from_rows rows (pages_per_sequence (config p)) (Some max_kv))))"

end
