(* ===== verification/Windowed_Ring.thy ===== *)
theory Windowed_Ring
  imports Windowed_Pool
begin

text \<open>
  Addressing in the sliding-window pool: what an accepted configuration guarantees, the page and slot
  arithmetic as a ring, and the soundness of the addresses.
\<close>

section \<open>What a valid configuration guarantees\<close>

definition ring_len :: "WindowedKvPoolConfig \<Rightarrow> nat" where
  "ring_len c = pages_per_sequence c * page_size c"

definition total_capacity :: "WindowedKvPoolConfig \<Rightarrow> nat" where
  "total_capacity c = live_sequence_capacity c + checkpoint_capacity c"

definition config_ok :: "WindowedKvPoolConfig \<Rightarrow> bool" where
  "config_ok c \<longleftrightarrow>
     0 < live_sequence_capacity c \<and> 0 < max_window c \<and> 0 < max_query_len c \<and>
     page_size c \<in> set SUPPORTED_BLOCK_SIZE \<and>
     max_window c - 1 + max_query_len c + (page_size c - 1) \<le> ring_len c \<and>
     total_capacity c * pages_per_sequence c \<le> u32_max \<and>
     total_capacity c * ring_len c \<le> i64_max"

lemma max_of_ge: "x \<in> set xs \<Longrightarrow> x \<le> max_of xs"
proof -
  have "m \<le> fold max xs m \<and> (x \<in> set xs \<longrightarrow> x \<le> fold max xs m)" for m
    by (induction xs arbitrary: m) (auto, (meson max.boundedE max.cobounded2 order_trans)+)
  then show "x \<in> set xs \<Longrightarrow> x \<le> max_of xs" by (simp add: max_of_def)
qed

lemma checked_windows_okay:
  "checked_windows l ws = okay ws' \<Longrightarrow> ws = map Some ws' \<and> (\<forall>w \<in> set ws'. 0 < w)"
  by (induction l ws arbitrary: ws' rule: checked_windows.induct)
    (fastforce simp: try_then_ok split: if_splits)+

lemma page_size_pos: "config_ok c \<Longrightarrow> 0 < page_size c"
  by (auto simp: config_ok_def SUPPORTED_BLOCK_SIZE_def)

lemma pages_pos: "config_ok c \<Longrightarrow> 0 < pages_per_sequence c"
  by (cases "pages_per_sequence c = 0") (auto simp: config_ok_def ring_len_def)

lemma ring_pos: "config_ok c \<Longrightarrow> 0 < ring_len c"
  by (auto simp: config_ok_def)

lemma new_with_capacities_config:
  assumes "new_with_capacities live ckpt ws mql psz heads dim = okay c"
  shows "config_ok c \<and> ws = map Some (layer_windows c) \<and> live_sequence_capacity c = live \<and> checkpoint_capacity c = ckpt \<and>
    max_query_len c = mql \<and> page_size c = psz \<and> max_window c = max_of (layer_windows c)"
proof -
  have g: "live \<noteq> 0" "ws \<noteq> []" "mql \<noteq> 0" "psz \<in> set SUPPORTED_BLOCK_SIZE"
    using assms unfolding new_with_capacities_def by (auto split: if_splits)
  obtain ls ret slots blocks tot el sb where s: "checked_windows 0 ws = okay ls"
    "Option.bind (checked_sub (max_of ls) 1) (\<lambda>v. Option.bind (uadd v mql) (\<lambda>v. uadd v (psz - 1))) = Some ret"
    "uadd live ckpt = Some slots" "umul slots (div_ceil ret psz) = Some blocks" "umul blocks psz = Some tot"
    "blocks \<le> u32_max" "tot \<le> i64_max"
    "c = \<lparr>live_sequence_capacity = live, checkpoint_capacity = ckpt, layer_windows = ls,
       max_window = max_of ls, max_query_len = mql, page_size = psz, pages_per_sequence = div_ceil ret psz,
       num_kv_heads = heads, head_dim = dim, bytes_per_slot = sb\<rparr>"
    using assms g unfolding new_with_capacities_def by (auto simp: try_then_ok Let_def split: if_splits)
  have "ls \<noteq> []" and "ws = map Some ls" and pos: "\<forall>w \<in> set ls. 0 < w"
    using checked_windows_okay [OF s(1)] g(2) by auto
  then have mw: "0 < max_of ls" by (metis gr_zeroI leD last_in_set max_of_ge)
  have ret: "ret = max_of ls - 1 + mql + (psz - 1)"
    using s(2) by (auto simp: bind_eq_Some_conv checked_add_def checked_sub_def split: if_splits)
  have "0 < psz" using g(4) by (auto simp: SUPPORTED_BLOCK_SIZE_def)
  then have "ret \<le> div_ceil ret psz * psz" by (rule le_div_ceil_mult)
  then show ?thesis
    using g s mw ret \<open>ws = map Some ls\<close>
    by (auto simp: config_ok_def ring_len_def total_capacity_def checked_add_def checked_mul_def mult.assoc split: if_splits)
qed

section \<open>Ring addresses\<close>

definition ring_slot :: "WindowedKvPoolConfig \<Rightarrow> nat \<Rightarrow> nat \<Rightarrow> nat" where
  "ring_slot c slot pos = slot * ring_len c + pos mod ring_len c"

definition ring_block :: "WindowedKvPoolConfig \<Rightarrow> nat \<Rightarrow> nat \<Rightarrow> nat" where
  "ring_block c slot page = slot * pages_per_sequence c + page mod pages_per_sequence c"

lemma ring_slot_block:
  "ring_slot c slot pos = ring_block c slot (pos div page_size c) * page_size c + pos mod page_size c"
  using mod_mult2_eq [of pos "page_size c" "pages_per_sequence c"]
  by (simp add: ring_slot_def ring_block_def ring_len_def algebra_simps)

lemma below_product: "(a::nat) < n \<Longrightarrow> r < m \<Longrightarrow> a * m + r < n * m"
proof -
  assume "a < n" "r < m"
  then have "a * m + r < Suc a * m" by simp
  also have "\<dots> \<le> n * m" using \<open>a < n\<close> by (intro mult_right_mono) auto
  finally show ?thesis .
qed

lemma ring_block_less:
  "config_ok c \<Longrightarrow> slot < n \<Longrightarrow> ring_block c slot page < n * pages_per_sequence c"
  unfolding ring_block_def by (rule below_product) (auto simp: pages_pos)

lemma ring_slot_less: "config_ok c \<Longrightarrow> slot < n \<Longrightarrow> ring_slot c slot pos < n * ring_len c"
  unfolding ring_slot_def by (rule below_product) (auto simp: ring_pos)

lemma u32_usize: "u32_max \<le> usize_max" and i64_usize: "i64_max \<le> usize_max"
  by (simp_all add: int_max_defs)

lemma physical_block_eq:
  assumes "config_ok c" and "slot < total_capacity c"
  shows "physical_block checks c slot page = Inr (ring_block c slot page)"
    and "ring_block c slot page \<le> u32_max"
proof -
  have less: "ring_block c slot page < total_capacity c * pages_per_sequence c" using assms by (rule ring_block_less)
  then show le: "ring_block c slot page \<le> u32_max"
    using assms(1) by (simp add: config_ok_def)
  then have le': "ring_block c slot page \<le> usize_max" using u32_usize by (rule order_trans)
  then have "slot * pages_per_sequence c \<le> usize_max" by (simp add: ring_block_def)
  then show "physical_block checks c slot page = Inr (ring_block c slot page)"
    using le' pages_pos [OF assms(1)] by (simp add: physical_block_def ring_block_def)
qed

lemma physical_slot_eq:
  assumes "config_ok c" and "slot < total_capacity c"
  shows "physical_slot checks c slot pos = Inr (int (ring_slot c slot pos))"
    and "ring_slot c slot pos \<le> i64_max"
proof -
  have "ring_slot c slot pos < total_capacity c * ring_len c" using assms by (rule ring_slot_less)
  then show le: "ring_slot c slot pos \<le> i64_max"
    using assms(1) by (simp add: config_ok_def)
  then have le': "ring_slot c slot pos \<le> usize_max" using i64_usize by (rule order_trans)
  then have "ring_block c slot (pos div page_size c) * page_size c \<le> usize_max" by (simp add: ring_slot_block)
  then show "physical_slot checks c slot pos = Inr (int (ring_slot c slot pos))"
    using le le' page_size_pos [OF assms(1)] physical_block_eq(1) [OF assms]
    by (simp add: physical_slot_def ring_slot_block)
qed

lemma mod_inj_window:
  assumes "(a::nat) mod r = b mod r" and "a < b + r" and "b < a + r"
  shows "a = b"
proof (rule ccontr)
  have close: "x = y" if "x mod r = y mod r" "x \<le> y" "y < x + r" for x y
  proof -
    have "(y - x) mod r = 0" using that by (metis mod_eq_dvd_iff_nat dvd_imp_mod_0)
    moreover have "y - x < r" using that by auto
    ultimately show "x = y" using that by simp
  qed
  assume "a \<noteq> b"
  then show False using close [of a b] close [of b a] assms by (metis nat_le_linear)
qed

lemma ring_slot_inj:
  assumes "config_ok c" and "ring_slot c s x = ring_slot c t y" and "x < y + ring_len c" and "y < x + ring_len c"
  shows "s = t \<and> x = y"
proof -
  have "ring_slot c s x div ring_len c = s" and "ring_slot c t y div ring_len c = t"
    and "ring_slot c s x mod ring_len c = x mod ring_len c" and "ring_slot c t y mod ring_len c = y mod ring_len c"
    using ring_pos [OF assms(1)] by (simp_all add: ring_slot_def)
  then show ?thesis using assms mod_inj_window by metis
qed

definition origin_of :: "WindowedKvPoolConfig \<Rightarrow> nat \<Rightarrow> nat" where
  "origin_of c n = (n - (max_window c - 1)) div page_size c * page_size c"

lemma origin_of_le: "origin_of c n \<le> n - (max_window c - 1)"
  by (simp add: origin_of_def)

lemma origin_for_eq:
  assumes "config_ok c" and "n \<le> usize_max"
  shows "origin_for checks c n = Inr (origin_of c n)"
proof -
  have "origin_of c n \<le> usize_max" using origin_of_le [of c n] assms(2) by linarith
  then show ?thesis
    using assms page_size_pos [OF assms(1)] by (simp add: origin_for_def origin_of_def config_ok_def)
qed

lemma origin_aligned: "origin_of c n mod page_size c = 0"
  by (simp add: origin_of_def)

lemma window_fits:
  assumes "config_ok c" and "q \<le> max_query_len c"
  shows "n + q \<le> origin_of c n + ring_len c"
proof -
  have "n - (max_window c - 1) < origin_of c n + page_size c"
    using dividend_less_div_times [OF page_size_pos [OF assms(1)], of "n - (max_window c - 1)"]
    by (simp add: origin_of_def add.commute)
  then show ?thesis using assms by (auto simp: config_ok_def)
qed

text \<open>
  C9. Addresses of the sliding-window pool. A configuration that was accepted addresses every token
  position of every pool slot without overflow or panic, inside the allocated tensor; the ring
  of a slot holds the longest attention window, the longest query and the page alignment; and two token
  positions less than a ring apart never share a physical slot, in the same or in different pool slots.
\<close>

theorem ring_addresses_sound:
  assumes "new_with_capacities live ckpt ws mql psz heads dim = okay c"
    and "slot < live + ckpt" and "slot' < live + ckpt"
  shows "\<exists>s s'. physical_slot checks c slot pos = Inr s \<and> physical_slot checks c slot' pos' = Inr s' \<and>
      0 \<le> s \<and> s < int ((live + ckpt) * ring_len c) \<and> (live + ckpt) * ring_len c \<le> i64_max \<and>
      max_of (layer_windows c) - 1 + mql + (psz - 1) \<le> ring_len c \<and>
      (s = s' \<and> pos < pos' + ring_len c \<and> pos' < pos + ring_len c \<longrightarrow> slot = slot' \<and> pos = pos')"
proof -
  have c: "config_ok c" "max_window c = max_of (layer_windows c)" "max_query_len c = mql" "page_size c = psz"
    and cap: "total_capacity c = live + ckpt"
    using new_with_capacities_config [OF assms(1)] by (auto simp: total_capacity_def)
  have less: "int (ring_slot c slot pos) < int ((live + ckpt) * ring_len c)"
    using ring_slot_less [OF c(1) assms(2)] by (simp only: of_nat_less_iff)
  have room: "(live + ckpt) * ring_len c \<le> i64_max" "max_of (layer_windows c) - 1 + mql + (psz - 1) \<le> ring_len c"
    using c cap by (auto simp: config_ok_def)
  show ?thesis
    using less room ring_slot_inj [OF c(1), of slot pos slot' pos']
    by (intro exI [of _ "int (ring_slot c slot pos)"] exI [of _ "int (ring_slot c slot' pos')"] conjI)
      (simp_all add: physical_slot_eq [OF c(1)] cap assms(2,3))
qed

definition sample_config :: WindowedKvPoolConfig where
  "sample_config = \<lparr>live_sequence_capacity = 2, checkpoint_capacity = 1, layer_windows = [20, 12],
     max_window = 20, max_query_len = 4, page_size = 8, pages_per_sequence = 4, num_kv_heads = 2,
     head_dim = 16, bytes_per_slot = 8192\<rparr>"

lemma sample_config_new: "new_with_capacities 2 1 [Some 20, Some 12] 4 8 2 16 = okay sample_config"
  by (simp add: new_with_capacities_def sample_config_def SUPPORTED_BLOCK_SIZE_def max_of_def Let_def
      checked_add_def checked_sub_def checked_mul_def int_max_defs div_ceil_def BF16_SIZE_def KV_CACHE_TENSOR_COUNT_def)

theorem ring_addresses_sound_witness:
  "\<exists>s s'. physical_slot True sample_config 0 37 = Inr s \<and> physical_slot True sample_config 2 37 = Inr s' \<and> s \<noteq> s'"
  using ring_addresses_sound [OF sample_config_new, of 0 2 True 37 37]
    ring_pos [OF conjunct1 [OF new_with_capacities_config [OF sample_config_new]]] by auto

end
