(* ===== verification/Windowed_Invariant.thy ===== *)
theory Windowed_Invariant
  imports Windowed_Ring
begin

text \<open>
  The invariant of the sliding-window pool (exclusive ownership of live slots, exact checkpoint
  registry, ring origins) and the effect of each operation on it. Page contents are observed through a
  function on candle's tensors.
\<close>

section \<open>Invariant\<close>

definition state_ok :: "WindowedKvPoolConfig \<Rightarrow> WindowedKvSequenceState \<Rightarrow> bool" where
  "state_ok c st \<longleftrightarrow> next_committed_pos st \<le> usize_max \<and> valid_start_pos st \<le> next_committed_pos st \<and>
     origin_pos st = origin_of c (next_committed_pos st)"

definition live_ok :: "WindowedKvPoolConfig \<Rightarrow> nat list \<Rightarrow> (nat \<rightharpoonup> WindowedKvSequenceState) \<Rightarrow> nat \<Rightarrow> bool" where
  "live_ok c free seqs gen \<longleftrightarrow>
     distinct free \<and>
     (\<forall>b. b < live_sequence_capacity c \<longleftrightarrow> b \<in> set free \<or> (\<exists>s st. seqs s = Some st \<and> pool_slot st = b)) \<and>
     (\<forall>s st. seqs s = Some st \<longrightarrow>
        pool_slot st \<notin> set free \<and> generation st < gen \<and> seq_id st = s \<and> state_ok c st) \<and>
     (\<forall>s t st tt. seqs s = Some st \<longrightarrow> seqs t = Some tt \<longrightarrow> pool_slot st = pool_slot tt \<longrightarrow> s = t)"

definition ck_ok :: "WindowedKvPoolConfig \<Rightarrow> WindowedKvCheckpointSlots \<Rightarrow> bool" where
  "ck_ok c s \<longleftrightarrow>
     first_pool_slot s = live_sequence_capacity c \<and> length (active_generations s) = checkpoint_capacity c \<and>
     distinct (ck_free_slots s) \<and>
     set (ck_free_slots s) =
       {b. \<exists>i < checkpoint_capacity c. b = live_sequence_capacity c + i \<and> active_generations s ! i = None} \<and>
     (\<forall>i < checkpoint_capacity c. \<forall>g. active_generations s ! i = Some g \<longrightarrow> g < ck_next_generation s)"

abbreviation pool_live_ok :: "'t WindowedKvPool \<Rightarrow> bool" where
  "pool_live_ok p \<equiv> live_ok (config p) (live_free_slots p) (sequences p) (next_generation p)"

definition pool_shape :: "WindowedKvPoolConfig \<Rightarrow> nat list" where
  "pool_shape c = [num_layers c, total_capacity c * pages_per_sequence c, num_kv_heads c, page_size c, head_dim c]"

definition tensors_ok :: "'t candle \<Rightarrow> 't WindowedKvPool \<Rightarrow> bool" where
  "tensors_ok ops p \<longleftrightarrow> config_ok (config p) \<and>
     dims ops (key_cache p) = pool_shape (config p) \<and> dims ops (value_cache p) = pool_shape (config p)"

definition windowed_ok :: "'t candle \<Rightarrow> 't WindowedKvPool \<Rightarrow> bool" where
  "windowed_ok ops p \<longleftrightarrow> tensors_ok ops p \<and> pool_live_ok p \<and> ck_ok (config p) (checkpoint_slots p)"

lemma windowed_parts:
  assumes "windowed_ok ops p"
  shows "config_ok (config p)" and "pool_live_ok p" and "ck_ok (config p) (checkpoint_slots p)"
    and "tensors_ok ops p"
  using assms by (simp_all add: windowed_ok_def tensors_ok_def)

lemma capacity_u32: "config_ok c \<Longrightarrow> total_capacity c \<le> u32_max"
  using pages_pos [of c] by (auto simp: config_ok_def intro: order_trans [rotated])

lemma live_capacity_le: "live_sequence_capacity c \<le> total_capacity c"
  by (simp add: total_capacity_def)

lemma publish_metrics_ok: "used \<le> n \<Longrightarrow> n \<le> u32_max \<Longrightarrow> publish_slot_metrics used n = Inr ()"
  by (simp add: publish_slot_metrics_def)

lemma live_metrics_ok:
  assumes "config_ok (config p)" and "distinct (live_free_slots p)"
    and "set (live_free_slots p) \<subseteq> {..<live_sequence_capacity (config p)}"
  shows "publish_live_slot_metrics checks p = Inr ()"
proof -
  have "length (live_free_slots p) \<le> live_sequence_capacity (config p)"
    using card_mono [OF _ assms(3)] assms(2) by (simp add: distinct_card)
  moreover have "live_sequence_capacity (config p) \<le> u32_max"
    using capacity_u32 [OF assms(1)] live_capacity_le [of "config p"] by linarith
  ultimately show ?thesis
    by (simp add: publish_live_slot_metrics_def live_sequence_count_def publish_metrics_ok)
qed

lemma live_ok_free:
  "live_ok c free seqs g \<Longrightarrow> distinct free \<and> set free \<subseteq> {..<live_sequence_capacity c}"
  by (auto simp: live_ok_def)

lemma live_ok_seq:
  "live_ok c free seqs g \<Longrightarrow> seqs s = Some st \<Longrightarrow>
     pool_slot st < live_sequence_capacity c \<and> pool_slot st \<notin> set free \<and> generation st < g \<and> seq_id st = s \<and> state_ok c st"
  unfolding live_ok_def by blast

lemma live_ok_take:
  assumes "live_ok c (free @ [b]) seqs g" and "seqs s = None" and "pool_slot st = b" and "seq_id st = s"
    and "state_ok c st" and "generation st = g"
  shows "live_ok c free (seqs(s \<mapsto> st)) (Suc g)"
proof -
  have d: "distinct free" "b \<notin> set free" using assms(1) by (auto simp: live_ok_def)
  have own: "pool_slot tt \<noteq> b \<and> pool_slot tt \<notin> set free \<and> generation tt < g \<and> seq_id tt = t \<and> state_ok c tt"
    if "seqs t = Some tt" for t tt
    using live_ok_seq [OF assms(1) that] by auto
  have cover: "x < live_sequence_capacity c \<longleftrightarrow>
      x \<in> set free \<or> (\<exists>t tt. (seqs(s \<mapsto> st)) t = Some tt \<and> pool_slot tt = x)" for x
  proof -
    have "x < live_sequence_capacity c \<longleftrightarrow> x = b \<or> x \<in> set free \<or> (\<exists>t tt. seqs t = Some tt \<and> pool_slot tt = x)"
      using assms(1) by (auto simp: live_ok_def)
    moreover have "(\<exists>t tt. (seqs(s \<mapsto> st)) t = Some tt \<and> pool_slot tt = x) \<longleftrightarrow>
        x = b \<or> (\<exists>t tt. seqs t = Some tt \<and> pool_slot tt = x)"
      using assms(2,3) by (auto, metis option.distinct(1))
    ultimately show ?thesis by blast
  qed
  have inj: "t = u" if "seqs t = Some tt" "seqs u = Some uu" "pool_slot tt = pool_slot uu" for t u tt uu
    using assms(1) that unfolding live_ok_def by blast
  show ?thesis
    unfolding live_ok_def using d own cover inj assms(3-6)
    by (auto simp: less_SucI fun_upd_apply split: if_splits) (metis own)+
qed

lemma live_ok_update:
  assumes "live_ok c free seqs g" and "seqs s = Some st" and "pool_slot st' = pool_slot st"
    and "generation st' = generation st" and "seq_id st' = s" and "state_ok c st'"
  shows "live_ok c free (seqs(s \<mapsto> st')) g"
proof -
  have "(\<exists>t tt. (seqs(s \<mapsto> st')) t = Some tt \<and> pool_slot tt = x) \<longleftrightarrow> (\<exists>t tt. seqs t = Some tt \<and> pool_slot tt = x)" for x
    using assms(2,3) by (auto, metis option.inject)
  then show ?thesis
    using assms live_ok_seq [OF assms(1,2)] unfolding live_ok_def by (auto simp: fun_upd_apply split: if_splits; metis)
qed

lemma live_ok_return:
  assumes "live_ok c free seqs g" and "seqs s = Some st"
  shows "live_ok c (free @ [pool_slot st]) (seqs(s := None)) g"
proof -
  have inj: "t = u" if "seqs t = Some tt" "seqs u = Some uu" "pool_slot tt = pool_slot uu" for t u tt uu
    using assms(1) that unfolding live_ok_def by blast
  have "(x \<in> set free \<or> (\<exists>t tt. seqs t = Some tt \<and> pool_slot tt = x)) \<longleftrightarrow>
      (x = pool_slot st \<or> x \<in> set free \<or> (\<exists>t tt. (seqs(s := None)) t = Some tt \<and> pool_slot tt = x))" for x
    using assms(2) by (auto, metis option.inject)
  then show ?thesis
    using assms(1) live_ok_seq [OF assms(1)] assms(2) inj
    unfolding live_ok_def by (auto simp: fun_upd_apply split: if_splits; metis)
qed

lemma live_ok_fresh: "live_ok c (rev [0..<live_sequence_capacity c]) Map.empty g"
  by (auto simp: live_ok_def)

lemma live_ok_tick: "live_ok c free seqs g \<Longrightarrow> live_ok c free seqs (Suc g)"
  unfolding live_ok_def by (meson less_SucI)
section \<open>Live slots\<close>

lemma reserve_live_slot_effect:
  assumes "windowed_ok ops p"
  obtains (failed) e where "reserve_live_slot checks p = Inr (Inl e, p)"
  | (taken) b rest where "live_free_slots p = rest @ [b]"
      "reserve_live_slot checks p =
         Inr (Inr (b, next_generation p), p\<lparr>live_free_slots := rest, next_generation := Suc (next_generation p)\<rparr>)"
proof (cases "checked_add u64_max (next_generation p) 1")
  case None
  then show thesis using failed by (simp add: reserve_live_slot_def)
next
  case (Some g)
  then have g: "g = Suc (next_generation p)" by (simp add: checked_add_def split: if_splits)
  show thesis
  proof (cases "live_free_slots p" rule: vec_pop_cases)
    case 1
    then show thesis using failed Some by (simp add: reserve_live_slot_def)
  next
    case (2 b rest)
    have "publish_live_slot_metrics checks (p\<lparr>live_free_slots := rest, next_generation := g\<rparr>) = Inr ()"
      using live_ok_free [OF windowed_parts(2) [OF assms]] windowed_parts(1) [OF assms] 2(1)
      by (intro live_metrics_ok) auto
    then show thesis using taken Some 2 g by (simp add: reserve_live_slot_def Let_def)
  qed
qed

lemma acquire_at_effect:
  assumes "windowed_ok ops p" and "n \<le> usize_max"
  obtains (failed) e where "acquire_at checks sid n p = Inr (Inl e, p)"
  | (known) st where "sequences p sid = Some st" "next_committed_pos st = n"
      "acquire_at checks sid n p = Inr (Inr st, p)"
  | (fresh) st b rest where "sequences p sid = None" "live_free_slots p = rest @ [b]"
      "st = \<lparr>seq_id = sid, pool_slot = b, origin_pos = origin_of (config p) n, valid_start_pos = n,
             next_committed_pos = n, generation = next_generation p\<rparr>"
      "acquire_at checks sid n p =
         Inr (Inr st, p\<lparr>live_free_slots := rest, next_generation := Suc (next_generation p),
           sequences := (sequences p)(sid \<mapsto> st)\<rparr>)"
proof (cases "sequences p sid")
  case (Some st)
  then show thesis
    using failed known by (cases "next_committed_pos st = n") (auto simp: acquire_at_def)
next
  case None
  show thesis
    using assms(1)
  proof (cases rule: reserve_live_slot_effect [where checks = checks])
    case (failed e)
    then show thesis using None that(1) by (simp add: acquire_at_def)
  next
    case (taken b rest)
    then show thesis
      using None fresh origin_for_eq [OF windowed_parts(1) [OF assms(1)] assms(2)]
      by (simp add: acquire_at_def Let_def)
  qed
qed

lemma release_sequence_effect:
  assumes "windowed_ok ops p"
  shows "release_sequence checks sid p =
    (case sequences p sid of None \<Rightarrow> Inr (False, p)
     | Some st \<Rightarrow> Inr (True, p\<lparr>sequences := (sequences p)(sid := None),
         live_free_slots := live_free_slots p @ [pool_slot st]\<rparr>))"
proof (cases "sequences p sid")
  case (Some st)
  have "publish_live_slot_metrics checks (p\<lparr>sequences := (sequences p)(sid := None),
      live_free_slots := live_free_slots p @ [pool_slot st]\<rparr>) = Inr ()"
    using live_ok_free [OF live_ok_return [OF windowed_parts(2) [OF assms] Some]] windowed_parts(1) [OF assms]
    by (intro live_metrics_ok) auto
  then show ?thesis using Some by (simp add: release_sequence_def Let_def)
qed (simp add: release_sequence_def)

lemma clear_sequences_effect:
  assumes "windowed_ok ops p"
  shows "clear_sequences checks p =
    Inr (p\<lparr>sequences := Map.empty, live_free_slots := rev [0..<live_sequence_capacity (config p)]\<rparr>)"
proof -
  have "publish_live_slot_metrics checks
      (p\<lparr>sequences := Map.empty, live_free_slots := rev [0..<live_sequence_capacity (config p)]\<rparr>) = Inr ()"
    using windowed_parts(1) [OF assms] by (intro live_metrics_ok) auto
  then show ?thesis by (simp add: clear_sequences_def Let_def)
qed

section \<open>Checkpoint slots\<close>

lemma ck_metrics_ok:
  assumes "config_ok c" and "ck_ok c s"
  shows "ck_publish_metrics checks s = Inr ()"
proof -
  have "set (ck_free_slots s) \<subseteq> {live_sequence_capacity c..<total_capacity c}"
    using assms(2) by (auto simp: ck_ok_def total_capacity_def)
  then have "card (set (ck_free_slots s)) \<le> card {live_sequence_capacity c..<total_capacity c}"
    by (intro card_mono) simp_all
  moreover have "distinct (ck_free_slots s)" using assms(2) by (simp add: ck_ok_def)
  ultimately have "length (ck_free_slots s) \<le> checkpoint_capacity c"
    by (simp add: total_capacity_def distinct_card)
  moreover have "checkpoint_capacity c \<le> u32_max"
    using capacity_u32 [OF assms(1)] by (simp add: total_capacity_def)
  ultimately show ?thesis
    using assms(2) by (simp add: ck_publish_metrics_def ck_ok_def publish_metrics_ok)
qed

lemma ck_contains_range:
  "ck_ok c s \<Longrightarrow> ck_contains s b g \<Longrightarrow>
     live_sequence_capacity c \<le> b \<and> b < total_capacity c \<and> g < ck_next_generation s \<and> b \<notin> set (ck_free_slots s)"
  by (auto simp: ck_contains_def ck_ok_def checked_sub_def total_capacity_def split: if_splits)

lemma ck_free_range:
  "ck_ok c s \<Longrightarrow> b \<in> set (ck_free_slots s) \<Longrightarrow> live_sequence_capacity c \<le> b \<and> b < total_capacity c"
  by (auto simp: ck_ok_def total_capacity_def)

lemma ck_reserve_effect:
  assumes "config_ok c" and "ck_ok c s"
  obtains (failed) e where "ck_reserve checks s = Inr (Inl e, s)"
  | (taken) b s' where "ck_reserve checks s = Inr (Inr (b, ck_next_generation s), s')" "ck_ok c s'"
      "b \<in> set (ck_free_slots s)" "ck_next_generation s' = Suc (ck_next_generation s)"
      "\<And>x g. ck_contains s' x g \<longleftrightarrow> (if x = b then g = ck_next_generation s else ck_contains s x g)"
proof (cases "checked_add u64_max (ck_next_generation s) 1")
  case None
  then show thesis using failed by (simp add: ck_reserve_def)
next
  case (Some g)
  then have g: "g = Suc (ck_next_generation s)" by (simp add: checked_add_def split: if_splits)
  show thesis
  proof (cases "ck_free_slots s" rule: vec_pop_cases)
    case 1
    then show thesis using failed Some by (simp add: ck_reserve_def)
  next
    case (2 b rest)
    have "b \<in> set (ck_free_slots s)" using 2(1) by simp
    then obtain i where i: "i < checkpoint_capacity c" "b = live_sequence_capacity c + i" "active_generations s ! i = None"
      using assms(2) unfolding ck_ok_def by auto
    define s' where "s' = s\<lparr>ck_free_slots := rest, ck_next_generation := g,
      active_generations := (active_generations s)[i := Some (ck_next_generation s)]\<rparr>"
    have d: "distinct rest" "b \<notin> set rest" using assms(2) 2(1) by (auto simp: ck_ok_def)
    have "set rest = set (ck_free_slots s) - {b}" using d 2(1) by auto
    also have "\<dots> = {x. \<exists>j < checkpoint_capacity c. x = live_sequence_capacity c + j \<and> active_generations s' ! j = None}"
      using assms(2) i unfolding ck_ok_def s'_def by (auto simp: nth_list_update split: if_splits)
    finally have ok': "ck_ok c s'"
      using assms(2) d i g unfolding ck_ok_def s'_def by (auto simp: nth_list_update less_SucI)
    have "ck_contains s' x h \<longleftrightarrow> (if x = b then h = ck_next_generation s else ck_contains s x h)" for x h
      using assms(2) i unfolding ck_ok_def s'_def ck_contains_def checked_sub_def
      by (auto simp: nth_list_update split: if_splits)
    moreover have "ck_reserve checks s = Inr (Inr (b, ck_next_generation s), s')"
      using Some 2(2) i(1,2) assms(2) ck_metrics_ok [OF assms(1) ok']
      by (simp add: ck_reserve_def ck_ok_def s'_def)
    ultimately show thesis using taken [of b s'] ok' 2(1) g by (simp add: s'_def)
  qed
qed

lemma ck_release_effect:
  assumes "config_ok c" and "ck_ok c s" and "ck_contains s b g"
  obtains s' where "ck_release checks s b g = Inr (True, s')" "ck_ok c s'"
    "ck_next_generation s' = ck_next_generation s"
    "\<And>x h. ck_contains s' x h \<longleftrightarrow> x \<noteq> b \<and> ck_contains s x h"
proof -
  define i where "i = b - live_sequence_capacity c"
  have i: "i < checkpoint_capacity c" "b = live_sequence_capacity c + i" "active_generations s ! i = Some g"
    using assms(2,3) by (auto simp: i_def ck_ok_def ck_contains_def checked_sub_def split: if_splits)
  define s' where "s' = s\<lparr>active_generations := (active_generations s)[i := None],
      ck_free_slots := ck_free_slots s @ [b]\<rparr>"
  have "b \<notin> set (ck_free_slots s)" using ck_contains_range [OF assms(2,3)] by simp
  moreover have "set (ck_free_slots s @ [b]) =
      {x. \<exists>j < checkpoint_capacity c. x = live_sequence_capacity c + j \<and> active_generations s' ! j = None}"
    using assms(2) i unfolding ck_ok_def s'_def by (auto simp: nth_list_update split: if_splits)
  ultimately have ok': "ck_ok c s'"
    using assms(2) i unfolding ck_ok_def s'_def by (auto simp: nth_list_update split: if_splits)
  have "ck_contains s' x h \<longleftrightarrow> x \<noteq> b \<and> ck_contains s x h" for x h
    using assms(2) i unfolding ck_ok_def s'_def ck_contains_def checked_sub_def
    by (auto simp: nth_list_update split: if_splits)
  moreover have "ck_release checks s b g = Inr (True, s')"
    using assms(2) i ck_metrics_ok [OF assms(1) ok'] by (simp add: ck_release_def ck_ok_def s'_def Let_def)
  ultimately show thesis using that ok' by (simp add: s'_def)
qed
section \<open>Page contents\<close>

text \<open>
  What the pool relies on of candle, through an observation \<open>page t b\<close> of the contents of block \<open>b\<close>
  (index \<open>b\<close> of dimension one, over all layers, heads, positions and channels): \<open>narrow\<close> selects a range
  of that dimension, and \<open>slice_assign\<close> over full ranges of the other dimensions replaces exactly the blocks
  of its range. Both may fail.
\<close>

definition candle_laws :: "'t candle \<Rightarrow> ('t \<Rightarrow> nat \<Rightarrow> 'p) \<Rightarrow> bool" where
  "candle_laws ops page \<longleftrightarrow>
     (\<forall>t s n u i. narrow ops t 1 s n = Inr u \<longrightarrow> i < n \<longrightarrow> page u i = page t (s + i)) \<and>
     (\<forall>t u v d0 d1 d2 d3 d4 a b.
        dims ops t = [d0, d1, d2, d3, d4] \<longrightarrow> a \<le> b \<longrightarrow>
        slice_assign ops t [(0, d0), (a, b), (0, d2), (0, d3), (0, d4)] u = Inr v \<longrightarrow>
        dims ops v = dims ops t \<and>
        (\<forall>i. page v i = (if a \<le> i \<and> i < b then page u (i - a) else page t i)))"

definition slot_pages :: "('t \<Rightarrow> nat \<Rightarrow> 'p) \<Rightarrow> 't WindowedKvPool \<Rightarrow> nat \<Rightarrow> 'p list \<times> 'p list" where
  "slot_pages page p b =
     (let n = pages_per_sequence (config p) in
      (map (\<lambda>i. page (key_cache p) (b * n + i)) [0..<n], map (\<lambda>i. page (value_cache p) (b * n + i)) [0..<n]))"

lemma slot_pages_cong:
  assumes "config q = config p"
    and "\<And>i. i < pages_per_sequence (config p) \<Longrightarrow>
      page (key_cache q) (b * pages_per_sequence (config p) + i) = page (key_cache p) (a * pages_per_sequence (config p) + i) \<and>
      page (value_cache q) (b * pages_per_sequence (config p) + i) = page (value_cache p) (a * pages_per_sequence (config p) + i)"
  shows "slot_pages page q b = slot_pages page p a"
  using assms by (simp add: slot_pages_def Let_def)

lemma block_range_of_slot:
  fixes b d n i :: nat
  assumes "i < n" and "b \<noteq> d"
  shows "\<not> (d * n \<le> b * n + i \<and> b * n + i < d * n + n)"
proof
  assume "d * n \<le> b * n + i \<and> b * n + i < d * n + n"
  then have "(b * n + i) div n = d"
    using assms(1) by (intro div_nat_eqI) (auto simp: algebra_simps)
  then show False using assms by simp
qed

lemma candle_narrow:
  "candle_laws ops page \<Longrightarrow> narrow ops t 1 s n = Inr u \<Longrightarrow> i < n \<Longrightarrow> page u i = page t (s + i)"
  unfolding candle_laws_def by blast

lemma candle_assign:
  assumes "candle_laws ops page" and "dims ops t = [d0, d1, d2, d3, d4]"
    and "slice_assign ops t [(0, d0), (a, a + n), (0, d2), (0, d3), (0, d4)] u = Inr v"
  shows "dims ops v = dims ops t" and "i < n \<Longrightarrow> page v (a + i) = page u i"
    and "\<not> (a \<le> j \<and> j < a + n) \<Longrightarrow> page v j = page t j"
proof -
  have "dims ops v = dims ops t \<and> (\<forall>i. page v i = (if a \<le> i \<and> i < a + n then page u (i - a) else page t i))"
    using assms(1) [unfolded candle_laws_def, THEN conjunct2, rule_format, OF assms(2) _ assms(3)] by simp
  then show "dims ops v = dims ops t" and "i < n \<Longrightarrow> page v (a + i) = page u i"
    and "\<not> (a \<le> j \<and> j < a + n) \<Longrightarrow> page v j = page t j"
    by auto
qed

lemma slot_blocks_bound:
  assumes "config_ok c" and "b < total_capacity c"
  shows "b * pages_per_sequence c + pages_per_sequence c \<le> usize_max"
proof -
  have "Suc b * pages_per_sequence c \<le> total_capacity c * pages_per_sequence c"
    using assms(2) by (intro mult_right_mono) auto
  then show ?thesis using assms(1) u32_usize by (simp add: config_ok_def)
qed

lemma copy_pool_slot_effect:
  assumes "tensors_ok ops p" and "candle_laws ops page" and "src < total_capacity (config p)"
    and "dst < total_capacity (config p)" and "src \<noteq> dst"
  shows "\<exists>r k v. copy_pool_slot checks ops src dst p = Inr (r, p\<lparr>key_cache := k, value_cache := v\<rparr>) \<and>
    dims ops k = pool_shape (config p) \<and> dims ops v = pool_shape (config p) \<and>
    (\<forall>b. b \<noteq> dst \<longrightarrow> slot_pages page (p\<lparr>key_cache := k, value_cache := v\<rparr>) b = slot_pages page p b) \<and>
    (r = Inr () \<longrightarrow> slot_pages page (p\<lparr>key_cache := k, value_cache := v\<rparr>) dst = slot_pages page p src)"
    (is "\<exists>r k v. ?copy = Inr (r, ?q k v) \<and> ?post r k v")
proof -
  let ?n = "pages_per_sequence (config p)"
  let ?rs = "[(0, num_layers (config p)), (dst * ?n, dst * ?n + ?n), (0, num_kv_heads (config p)),
    (0, page_size (config p)), (0, head_dim (config p))]"
  have d: "dims ops (key_cache p) = pool_shape (config p)" "dims ops (value_cache p) = pool_shape (config p)"
    using assms(1) by (simp_all add: tensors_ok_def)
  have b: "src * ?n + ?n \<le> usize_max" "dst * ?n + ?n \<le> usize_max"
    using slot_blocks_bound assms(1,3,4) by (auto simp: tensors_ok_def)
  then have run: "?copy =
     (case narrow ops (key_cache p) 1 (src * ?n) ?n of
        Inl e \<Rightarrow> Inr (Inl (CandleError e), ?q (key_cache p) (value_cache p))
      | Inr ks \<Rightarrow> (case narrow ops (value_cache p) 1 (src * ?n) ?n of
          Inl e \<Rightarrow> Inr (Inl (CandleError e), ?q (key_cache p) (value_cache p))
        | Inr vs \<Rightarrow> (case slice_assign ops (key_cache p) ?rs ks of
            Inl e \<Rightarrow> Inr (Inl (CandleError e), ?q (key_cache p) (value_cache p))
          | Inr k \<Rightarrow> (case slice_assign ops (value_cache p) ?rs vs of
              Inl e \<Rightarrow> Inr (Inl (CandleError e), ?q k (value_cache p))
            | Inr v \<Rightarrow> Inr (Inr (), ?q k v)))))"
    using assms(5) by (simp add: copy_pool_slot_def Let_def cong: sum.case_cong split: sum.split)
  have failed: "?post (Inl e) (key_cache p) (value_cache p)" for e using d by simp
  have outside: "\<not> (dst * ?n \<le> b * ?n + i \<and> b * ?n + i < dst * ?n + ?n)" if "i < ?n" "b \<noteq> dst" for b i
    using block_range_of_slot [OF that] .
  have fin: "?copy = Inr (r, ?q k v) \<Longrightarrow> ?post r k v \<Longrightarrow> ?thesis" for r k v by blast
  show ?thesis
  proof (cases "narrow ops (key_cache p) 1 (src * ?n) ?n")
    case (Inl e)
    show ?thesis by (rule fin [OF _ failed [of "CandleError e"]]) (simp add: run Inl One_nat_def [symmetric] del: One_nat_def)
  next
    case ks: (Inr ks)
    show ?thesis
    proof (cases "narrow ops (value_cache p) 1 (src * ?n) ?n")
      case (Inl e)
      show ?thesis by (rule fin [OF _ failed [of "CandleError e"]]) (simp add: run Inl ks One_nat_def [symmetric] del: One_nat_def)
    next
      case vs: (Inr vs)
      show ?thesis
      proof (cases "slice_assign ops (key_cache p) ?rs ks")
        case (Inl e)
        show ?thesis by (rule fin [OF _ failed [of "CandleError e"]]) (simp add: run Inl ks vs One_nat_def [symmetric] del: One_nat_def)
      next
        case k: (Inr k)
        note ka = candle_assign [OF assms(2) d(1) [unfolded pool_shape_def] k]
        have keep_k: "page k (b * ?n + i) = page (key_cache p) (b * ?n + i)" if "i < ?n" "b \<noteq> dst" for b i
          using ka(3) [OF outside [OF that]] .
        show ?thesis
        proof (cases "slice_assign ops (value_cache p) ?rs vs")
          case (Inl e)
          have "?post (Inl (CandleError e)) k (value_cache p)"
            using d ka(1) keep_k by (auto intro!: slot_pages_cong)
          then show ?thesis by (rule fin [rotated]) (simp add: run ks vs k Inl One_nat_def [symmetric] del: One_nat_def)
        next
          case v: (Inr v)
          note va = candle_assign [OF assms(2) d(2) [unfolded pool_shape_def] v]
          have keep_v: "page v (b * ?n + i) = page (value_cache p) (b * ?n + i)" if "i < ?n" "b \<noteq> dst" for b i
            using va(3) [OF outside [OF that]] .
          have "?post (Inr ()) k v"
            using d ka(1,2) va(1,2) keep_k keep_v candle_narrow [OF assms(2) ks] candle_narrow [OF assms(2) vs]
            by (auto intro!: slot_pages_cong)
          then show ?thesis by (rule fin [rotated]) (simp add: run ks vs k v One_nat_def [symmetric] del: One_nat_def)
        qed
      qed
    qed
  qed
qed

section \<open>Snapshot and restore\<close>

lemma windowed_ok_checkpoints:
  "windowed_ok ops p \<Longrightarrow> ck_ok (config p) s \<Longrightarrow> windowed_ok ops (p\<lparr>checkpoint_slots := s\<rparr>)"
  by (simp add: windowed_ok_def tensors_ok_def)

lemma slot_pages_meta [simp]:
  "slot_pages page (p\<lparr>checkpoint_slots := s\<rparr>) b = slot_pages page p b"
  "slot_pages page (p\<lparr>live_free_slots := f\<rparr>) b = slot_pages page p b"
  "slot_pages page (p\<lparr>next_generation := g\<rparr>) b = slot_pages page p b"
  "slot_pages page (p\<lparr>sequences := m\<rparr>) b = slot_pages page p b"
  "slot_pages page (p\<lparr>checkpoint_slots := s, key_cache := k, value_cache := v\<rparr>) b =
     slot_pages page (p\<lparr>key_cache := k, value_cache := v\<rparr>) b"
  "slot_pages page (p\<lparr>live_free_slots := f, next_generation := g, key_cache := k, value_cache := v\<rparr>) b =
     slot_pages page (p\<lparr>key_cache := k, value_cache := v\<rparr>) b"
  by (simp_all add: slot_pages_def)

lemma snapshot_sequence_effect:
  assumes "windowed_ok ops p" and "candle_laws ops page"
  obtains (failed) e k v s where
      "snapshot_sequence checks ops sid p = Inr (Inl e, p\<lparr>key_cache := k, value_cache := v, checkpoint_slots := s\<rparr>)"
      "windowed_ok ops (p\<lparr>key_cache := k, value_cache := v, checkpoint_slots := s\<rparr>)"
      "ck_next_generation (checkpoint_slots p) \<le> ck_next_generation s"
      "\<And>x g. ck_contains s x g \<longleftrightarrow> ck_contains (checkpoint_slots p) x g"
      "\<And>x. x \<notin> set (ck_free_slots (checkpoint_slots p)) \<Longrightarrow>
         slot_pages page (p\<lparr>key_cache := k, value_cache := v, checkpoint_slots := s\<rparr>) x = slot_pages page p x"
  | (saved) st b k v s where "sequences p sid = Some st" "valid_start_pos st \<le> origin_pos st"
      "b \<in> set (ck_free_slots (checkpoint_slots p))"
      "snapshot_sequence checks ops sid p =
         Inr (Inr \<lparr>ck_pool_slot = b, ck_generation = ck_next_generation (checkpoint_slots p),
             ck_origin_pos = origin_pos st, ck_valid_start_pos = valid_start_pos st,
             ck_next_committed_pos = next_committed_pos st, ck_bytes = bytes_per_slot (config p),
             ck_slots_ptr = slots_ptr p\<rparr>, p\<lparr>key_cache := k, value_cache := v, checkpoint_slots := s\<rparr>)"
      "windowed_ok ops (p\<lparr>key_cache := k, value_cache := v, checkpoint_slots := s\<rparr>)"
      "ck_next_generation s = Suc (ck_next_generation (checkpoint_slots p))"
      "\<And>x g. ck_contains s x g \<longleftrightarrow>
         (if x = b then g = ck_next_generation (checkpoint_slots p) else ck_contains (checkpoint_slots p) x g)"
      "\<And>x. x \<noteq> b \<Longrightarrow>
         slot_pages page (p\<lparr>key_cache := k, value_cache := v, checkpoint_slots := s\<rparr>) x = slot_pages page p x"
      "slot_pages page (p\<lparr>key_cache := k, value_cache := v, checkpoint_slots := s\<rparr>) b = slot_pages page p (pool_slot st)"
proof -
  have stop: thesis if "snapshot_sequence checks ops sid p = Inr (Inl e, p)" for e
    using failed [where e = e and k = "key_cache p" and v = "value_cache p" and s = "checkpoint_slots p"] that assms(1) by simp
  have c: "config_ok (config p)" and ck: "ck_ok (config p) (checkpoint_slots p)" and live: "pool_live_ok p"
    using windowed_parts [OF assms(1)] by auto
  show thesis
  proof (cases "\<exists>st. sequences p sid = Some st \<and> valid_start_pos st \<le> origin_pos st")
    case False
    then have "\<exists>e. snapshot_sequence checks ops sid p = Inr (Inl e, p)"
      by (auto simp: snapshot_sequence_def not_le split: option.split)
    then show thesis using stop by blast
  next
    case True
    then obtain st where st: "sequences p sid = Some st" "valid_start_pos st \<le> origin_pos st" by blast
    from c ck show thesis
    proof (cases rule: ck_reserve_effect [where checks = checks])
      case (failed e)
      then show thesis using st by (intro stop) (auto simp: snapshot_sequence_def)
    next
      case (taken b s)
      let ?p = "p\<lparr>checkpoint_slots := s\<rparr>"
      have b: "b < total_capacity (config p)" "live_sequence_capacity (config p) \<le> b"
        using ck_free_range [OF ck taken(3)] by auto
      have own: "pool_slot st < live_sequence_capacity (config p)" using live_ok_seq [OF live st(1)] by simp
      then have src: "pool_slot st < total_capacity (config p)" "pool_slot st \<noteq> b"
        using live_capacity_le [of "config p"] b by auto
      have ok': "windowed_ok ops ?p" using windowed_ok_checkpoints [OF assms(1) taken(2)] .
      obtain r k v where cp: "copy_pool_slot checks ops (pool_slot st) b ?p = Inr (r, ?p\<lparr>key_cache := k, value_cache := v\<rparr>)"
        "dims ops k = pool_shape (config p)" "dims ops v = pool_shape (config p)"
        "\<And>x. x \<noteq> b \<Longrightarrow> slot_pages page (?p\<lparr>key_cache := k, value_cache := v\<rparr>) x = slot_pages page p x"
        "r = Inr () \<Longrightarrow> slot_pages page (?p\<lparr>key_cache := k, value_cache := v\<rparr>) b = slot_pages page p (pool_slot st)"
        using copy_pool_slot_effect [OF windowed_parts(4) [OF ok'] assms(2), of "pool_slot st" b checks] src b by auto
      have tensors: "windowed_ok ops (p\<lparr>key_cache := k, value_cache := v, checkpoint_slots := s'\<rparr>)"
        if "ck_ok (config p) s'" for s'
        using assms(1) that cp(2,3) by (simp add: windowed_ok_def tensors_ok_def)
      show thesis
      proof (cases r)
        case (Inr u)
        then show thesis
          using taken(1,2,4,5) st cp that(2) [where st = st and b = b and k = k and v = v and s = s] tensors [OF taken(2)] taken(3)
          by (simp add: snapshot_sequence_def not_less)
      next
        case (Inl e)
        have "ck_contains s b (ck_next_generation (checkpoint_slots p))" using taken(5) by simp
        then obtain s' where rel: "ck_release checks s b (ck_next_generation (checkpoint_slots p)) = Inr (True, s')"
          "ck_ok (config p) s'" "ck_next_generation s' = ck_next_generation s"
          "\<And>x h. ck_contains s' x h \<longleftrightarrow> x \<noteq> b \<and> ck_contains s x h"
          using ck_release_effect [OF c taken(2)] by blast
        have "ck_contains s' x g \<longleftrightarrow> ck_contains (checkpoint_slots p) x g" for x g
          using rel(4) taken(5) ck_contains_range [OF ck] taken(3) by auto
        moreover have "slot_pages page (p\<lparr>key_cache := k, value_cache := v, checkpoint_slots := s'\<rparr>) x = slot_pages page p x"
          if "x \<notin> set (ck_free_slots (checkpoint_slots p))" for x
          using cp(4) [of x] that taken(3) by (auto simp: slot_pages_def)
        ultimately show thesis
          using that(1) [where e = e and k = k and v = v and s = s'] Inl taken(1,3,4) st cp(1) rel(1,3) tensors [OF rel(2)]
          by (auto simp: snapshot_sequence_def not_less)
      qed
    qed
  qed
qed

lemma restore_sequence_effect:
  assumes "windowed_ok ops p" and "candle_laws ops page"
    and "ck_slots_ptr h = slots_ptr p \<longrightarrow> ck_contains (checkpoint_slots p) (ck_pool_slot h) (ck_generation h)"
    and "ck_slots_ptr h = slots_ptr p \<longrightarrow> ck_next_committed_pos h \<le> usize_max \<and>
      ck_valid_start_pos h \<le> ck_next_committed_pos h \<and> ck_origin_pos h = origin_of (config p) (ck_next_committed_pos h)"
  obtains (failed) e k v g where
      "restore_sequence checks ops sid h p = Inr (Inl e, p\<lparr>key_cache := k, value_cache := v, next_generation := g\<rparr>)"
      "windowed_ok ops (p\<lparr>key_cache := k, value_cache := v, next_generation := g\<rparr>)"
      "next_generation p \<le> g"
      "\<And>x. x \<notin> set (live_free_slots p) \<Longrightarrow>
         slot_pages page (p\<lparr>key_cache := k, value_cache := v, next_generation := g\<rparr>) x = slot_pages page p x"
  | (restored) st b rest k v q where "sequences p sid = None" "live_free_slots p = rest @ [b]"
      "ck_slots_ptr h = slots_ptr p"
      "st = \<lparr>seq_id = sid, pool_slot = b, origin_pos = ck_origin_pos h, valid_start_pos = ck_valid_start_pos h,
             next_committed_pos = ck_next_committed_pos h, generation = next_generation p\<rparr>"
      "q = p\<lparr>live_free_slots := rest, next_generation := Suc (next_generation p), key_cache := k, value_cache := v,
            sequences := (sequences p)(sid \<mapsto> st)\<rparr>"
      "restore_sequence checks ops sid h p = Inr (Inr st, q)"
      "windowed_ok ops q"
      "\<And>x. x \<noteq> b \<Longrightarrow> slot_pages page q x = slot_pages page p x"
      "slot_pages page q b = slot_pages page p (ck_pool_slot h)"
proof -
  have stop: thesis if "restore_sequence checks ops sid h p = Inr (Inl e, p)" for e
    using failed [where e = e and k = "key_cache p" and v = "value_cache p" and g = "next_generation p"] that assms(1) by simp
  have c: "config_ok (config p)" and ck: "ck_ok (config p) (checkpoint_slots p)" and live: "pool_live_ok p"
    using windowed_parts [OF assms(1)] by auto
  show thesis
  proof (cases "sequences p sid = None \<and> ck_slots_ptr h = slots_ptr p")
    case False
    then have "\<exists>e. restore_sequence checks ops sid h p = Inr (Inl e, p)"
      by (auto simp: restore_sequence_def)
    then show thesis using stop by blast
  next
    case True
    then have has: "ck_contains (checkpoint_slots p) (ck_pool_slot h) (ck_generation h)" using assms(3) by simp
    from assms(1) show thesis
    proof (cases rule: reserve_live_slot_effect [where checks = checks])
      case (failed e)
      then show thesis using True has by (intro stop) (simp add: restore_sequence_def)
    next
      case (taken b rest)
      let ?p = "p\<lparr>live_free_slots := rest, next_generation := Suc (next_generation p)\<rparr>"
      have b: "b < live_sequence_capacity (config p)" "b < total_capacity (config p)"
        using live_ok_free [OF live] live_capacity_le [of "config p"] taken(1) by auto
      have src: "ck_pool_slot h < total_capacity (config p)" "ck_pool_slot h \<noteq> b"
        using ck_contains_range [OF ck has] b by auto
      have "tensors_ok ops ?p" using windowed_parts(4) [OF assms(1)] by (simp add: tensors_ok_def)
      then obtain r k v where cp: "copy_pool_slot checks ops (ck_pool_slot h) b ?p = Inr (r, ?p\<lparr>key_cache := k, value_cache := v\<rparr>)"
        "dims ops k = pool_shape (config p)" "dims ops v = pool_shape (config p)"
        "\<And>x. x \<noteq> b \<Longrightarrow> slot_pages page (?p\<lparr>key_cache := k, value_cache := v\<rparr>) x = slot_pages page p x"
        "r = Inr () \<Longrightarrow> slot_pages page (?p\<lparr>key_cache := k, value_cache := v\<rparr>) b = slot_pages page p (ck_pool_slot h)"
        using copy_pool_slot_effect [of ops ?p page "ck_pool_slot h" b checks] assms(2) src b by auto
      show thesis
      proof (cases r)
        case (Inr u)
        define st where "st = \<lparr>seq_id = sid, pool_slot = b, origin_pos = ck_origin_pos h,
          valid_start_pos = ck_valid_start_pos h, next_committed_pos = ck_next_committed_pos h, generation = next_generation p\<rparr>"
        define q where "q = p\<lparr>live_free_slots := rest, next_generation := Suc (next_generation p),
          key_cache := k, value_cache := v, sequences := (sequences p)(sid \<mapsto> st)\<rparr>"
        have "live_ok (config p) rest ((sequences p)(sid \<mapsto> st)) (Suc (next_generation p))"
          using live taken(1) True assms(4) by (intro live_ok_take) (auto simp: st_def state_ok_def)
        then have "windowed_ok ops q"
          using ck c cp(2,3) by (simp add: windowed_ok_def tensors_ok_def q_def)
        moreover have "slot_pages page q x = slot_pages page (?p\<lparr>key_cache := k, value_cache := v\<rparr>) x" for x
          by (simp add: slot_pages_def q_def)
        moreover have "restore_sequence checks ops sid h p = Inr (Inr st, q)"
          using True has taken(2) cp(1) Inr by (simp add: restore_sequence_def st_def q_def Let_def)
        ultimately show thesis
          using that(2) [OF _ taken(1) _ st_def q_def] True cp(4,5) Inr by simp
      next
        case (Inl e)
        define q where "q = p\<lparr>key_cache := k, value_cache := v, next_generation := Suc (next_generation p)\<rparr>"
        have "windowed_ok ops q"
          using ck c cp(2,3) live_ok_tick [OF live] by (simp add: windowed_ok_def tensors_ok_def q_def)
        moreover have pub: "publish_live_slot_metrics checks q = Inr ()"
          using live_ok_free [OF live] c by (intro live_metrics_ok) (auto simp: q_def)
        have q: "p\<lparr>next_generation := Suc (next_generation p), key_cache := k, value_cache := v,
            live_free_slots := rest @ [b]\<rparr> = q"
          using taken(1) by (simp add: q_def)
        have "restore_sequence checks ops sid h p = Inr (Inl e, q)"
          using True has taken cp(1) Inl pub by (simp add: restore_sequence_def Let_def q)
        moreover have "slot_pages page q x = slot_pages page p x" if "x \<notin> set (live_free_slots p)" for x
          using cp(4) [of x] that taken(1) by (auto simp: slot_pages_def q_def)
        ultimately show thesis
          using that(1) [where e = e and k = k and v = v and g = "Suc (next_generation p)"] by (simp add: q_def)
      qed
    qed
  qed
qed
section \<open>Plans and scratch rows\<close>

lemma map_physical_slots:
  "config_ok c \<Longrightarrow> slot < total_capacity c \<Longrightarrow>
     map_res (physical_slot checks c slot) ps = Inr (map (\<lambda>pos. int (ring_slot c slot pos)) ps)"
  by (rule map_res_pure) (simp add: physical_slot_eq)

lemma live_slot_capacity:
  "windowed_ok ops p \<Longrightarrow> sequences p sid = Some st \<Longrightarrow> pool_slot st < total_capacity (config p)"
  using live_ok_seq [OF windowed_parts(2)] live_capacity_le [of "config p"] by (meson order_less_le_trans)

definition planned :: "WindowedKvPoolConfig \<Rightarrow> WindowedKvSequenceState \<Rightarrow> nat \<Rightarrow> WindowedKvContextWrite" where
  "planned c st n =
     (let start = max (next_committed_pos st) (origin_of c (next_committed_pos st + n)) in
      \<lparr>cw_seq_id = seq_id st, cw_pool_slot = pool_slot st, cw_generation = generation st,
       cw_expected_next = next_committed_pos st, cw_next_committed_pos = next_committed_pos st + n,
       cw_origin_pos = origin_of c (next_committed_pos st + n), cw_input_token_count = n,
       cw_retained_input_offset = start - next_committed_pos st,
       cw_slot_mapping = map (\<lambda>pos. int (ring_slot c (pool_slot st) pos)) [start..<next_committed_pos st + n]\<rparr>)"

lemma plan_context_write_eq:
  assumes "windowed_ok ops p"
  shows "plan_context_write checks p sid n =
    (if n = 0 then bail EmptyContextWrite
     else case sequences p sid of None \<Rightarrow> bail (NotAcquired sid)
       | Some st \<Rightarrow> if next_committed_pos st + n \<le> usize_max then okay (planned (config p) st n)
                    else bail ContextPositionOverflow)"
proof (cases "sequences p sid")
  case None
  then show ?thesis by (simp add: plan_context_write_def)
next
  case (Some st)
  have "seq_id st = sid" using live_ok_seq [OF windowed_parts(2) [OF assms] Some] by simp
  then show ?thesis
    using Some live_slot_capacity [OF assms Some] windowed_parts(1) [OF assms]
    by (simp add: plan_context_write_def planned_def Let_def checked_add_def origin_for_eq map_physical_slots)
qed

definition scratch_of :: "WindowedKvPoolConfig \<Rightarrow> WindowedKvSequenceState \<Rightarrow> nat \<Rightarrow> WindowedKvBatchRow" where
  "scratch_of c st n =
     \<lparr>row_seq_id = seq_id st, row_pool_slot = pool_slot st, row_origin_pos = origin_pos st,
      row_next_committed_pos = next_committed_pos st, row_query_len = n,
      row_kv_len = next_committed_pos st + n - origin_pos st,
      row_block_table = map (ring_block c (pool_slot st))
        [origin_pos st div page_size c..<(next_committed_pos st + n - 1) div page_size c + 1],
      row_slot_mapping = map (\<lambda>pos. int (ring_slot c (pool_slot st) pos))
        [next_committed_pos st..<next_committed_pos st + n]\<rparr>"

lemma ring_table_width:
  assumes "config_ok c" and "0 < n" and "n \<le> max_query_len c"
  shows "(k + n - 1) div page_size c + 1 - origin_of c k div page_size c \<le> pages_per_sequence c"
proof -
  have "k + n - 1 < origin_of c k + ring_len c" using window_fits [OF assms(1,3), of k] assms(2) by linarith
  also have "\<dots> = (origin_of c k div page_size c + pages_per_sequence c) * page_size c"
    using mult_div_mod_eq [of "page_size c" "origin_of c k"] origin_aligned [of c k]
    by (simp add: ring_len_def algebra_simps)
  finally have "(k + n - 1) div page_size c < origin_of c k div page_size c + pages_per_sequence c"
    by (rule less_mult_imp_div_less)
  then show ?thesis by simp
qed

lemma scratch_row_eq:
  assumes "windowed_ok ops p" and "sequences p (query_seq_id q) = Some st"
    and "0 < query_len q" and "query_len q \<le> max_query_len (config p)"
  shows "scratch_row checks p q =
    (if origin_pos st < valid_start_pos st
     then bail (ContextNotInitialized (query_seq_id q) (valid_start_pos st) (origin_pos st))
     else if next_committed_pos st + query_len q \<le> usize_max then okay (scratch_of (config p) st (query_len q))
     else bail ScratchPositionOverflow)"
proof -
  note c = windowed_parts(1) [OF assms(1)]
  have st: "seq_id st = query_seq_id q" "origin_pos st = origin_of (config p) (next_committed_pos st)"
    using live_ok_seq [OF windowed_parts(2) [OF assms(1)] assms(2)] by (simp_all add: state_ok_def)
  have slot: "pool_slot st < total_capacity (config p)" using live_slot_capacity [OF assms(1,2)] .
  have table: "map_result (\<lambda>page. and_then (physical_block checks (config p) (pool_slot st) page)
      (\<lambda>b. if u32_max < b then bail BlockIndexExceedsU32 else okay b)) ps =
      okay (map (ring_block (config p) (pool_slot st)) ps)" for ps
    by (rule map_result_pure) (simp add: physical_block_eq [OF c slot] not_less)
  have le: "origin_pos st \<le> next_committed_pos st"
    using origin_of_le [of "config p" "next_committed_pos st"] st(2) by linarith
  then have pages: "origin_pos st div page_size (config p) \<le> (next_committed_pos st + query_len q - 1) div page_size (config p)"
    using assms(3) by (intro div_le_mono) linarith
  have width: "\<not> pages_per_sequence (config p) <
      Suc ((next_committed_pos st + query_len q - 1) div page_size (config p) - origin_pos st div page_size (config p))"
    using ring_table_width [OF c assms(3,4), of "next_committed_pos st"] pages st(2) by (simp add: Suc_diff_le)
  show ?thesis
    using le pages assms(2-4) st(1) page_size_pos [OF c] table width
    by (simp add: scratch_row_def scratch_of_def Let_def checked_add_def map_physical_slots [OF c slot] not_less Suc_diff_le)
qed

end
