(* ===== verification/Windowed_System.thy ===== *)
theory Windowed_System
  imports Windowed_Invariant
begin

text \<open>
  The sliding-window pool with its clients: live sequences, checkpoint handles, context-write plans and
  kernel launches interleave freely. Every step keeps the invariant, and claims on live and
  checkpoint slots are stamped with generations that are never reused.
\<close>

section \<open>The pool with its clients\<close>

text \<open>
  The system state: the pool, the checkpoint handles that are alive, each with the page contents
  its sequence had when it was taken, and the context-write plans clients hold. A kernel launch changes only pages addressed by
  the slots of a plan or of a scratch row.
\<close>

record ('t, 'p) windowed_system =
  wpool :: "'t WindowedKvPool"
  handles :: "(WindowedKvCheckpoint \<times> 'p list \<times> 'p list) set"
  plans :: "WindowedKvContextWrite set"

definition kernel_write :: "'t candle \<Rightarrow> ('t \<Rightarrow> nat \<Rightarrow> 'p) \<Rightarrow> int list \<Rightarrow> 't WindowedKvPool \<Rightarrow> 't WindowedKvPool \<Rightarrow> bool" where
  "kernel_write ops page slots p q \<longleftrightarrow>
     (\<exists>k v. q = p\<lparr>key_cache := k, value_cache := v\<rparr> \<and>
        dims ops k = dims ops (key_cache p) \<and> dims ops v = dims ops (value_cache p) \<and>
        (\<forall>b. b \<notin> (\<lambda>s. nat s div page_size (config p)) ` set slots \<longrightarrow>
           page k b = page (key_cache p) b \<and> page v b = page (value_cache p) b))"

datatype windowed_op =
    WAcquire nat nat | WRelease nat | WClear | WSnapshot nat | WRestore nat | WDrop | WPlan nat nat
  | WCommit | WKernel

inductive windowed_step ::
    "bool \<Rightarrow> 't candle \<Rightarrow> ('t \<Rightarrow> nat \<Rightarrow> 'p) \<Rightarrow> ('t, 'p) windowed_system \<Rightarrow> windowed_op \<Rightarrow> ('t, 'p) windowed_system \<Rightarrow> bool"
  for checks ops page where
  w_acquire: "n \<le> usize_max \<Longrightarrow> acquire_at checks sid n (wpool s) = Inr (r, p) \<Longrightarrow>
    windowed_step checks ops page s (WAcquire sid n) (s\<lparr>wpool := p\<rparr>)"
| w_release: "release_sequence checks sid (wpool s) = Inr (r, p) \<Longrightarrow>
    windowed_step checks ops page s (WRelease sid) (s\<lparr>wpool := p\<rparr>)"
| w_clear: "clear_sequences checks (wpool s) = Inr p \<Longrightarrow>
    windowed_step checks ops page s WClear (s\<lparr>wpool := p\<rparr>)"
| w_snapshot: "snapshot_sequence checks ops sid (wpool s) = Inr (Inr h, p) \<Longrightarrow> sequences (wpool s) sid = Some st \<Longrightarrow>
    windowed_step checks ops page s (WSnapshot sid)
      (s\<lparr>wpool := p, handles := insert (h, slot_pages page (wpool s) (pool_slot st)) (handles s)\<rparr>)"
| w_snapshot_error: "snapshot_sequence checks ops sid (wpool s) = Inr (Inl e, p) \<Longrightarrow>
    windowed_step checks ops page s (WSnapshot sid) (s\<lparr>wpool := p\<rparr>)"
| w_restore: "(h, k) \<in> handles s \<or> ck_slots_ptr h \<noteq> slots_ptr (wpool s) \<Longrightarrow>
    restore_sequence checks ops sid h (wpool s) = Inr (r, p) \<Longrightarrow>
    windowed_step checks ops page s (WRestore sid) (s\<lparr>wpool := p\<rparr>)"
| w_drop: "(h, k) \<in> handles s \<Longrightarrow> checkpoint_drop checks h (wpool s) = Inr p \<Longrightarrow>
    windowed_step checks ops page s WDrop (s\<lparr>wpool := p, handles := handles s - {(h, k)}\<rparr>)"
| w_plan: "plan_context_write checks (wpool s) sid n = okay w \<Longrightarrow>
    windowed_step checks ops page s (WPlan sid n) (s\<lparr>plans := insert w (plans s)\<rparr>)"
| w_commit: "w \<in> plans s \<Longrightarrow> commit_context w (wpool s) = Inr (r, p) \<Longrightarrow>
    windowed_step checks ops page s WCommit (s\<lparr>wpool := p\<rparr>)"
| w_kernel_plan: "w \<in> plans s \<Longrightarrow> kernel_write ops page (cw_slot_mapping w) (wpool s) p \<Longrightarrow>
    windowed_step checks ops page s WKernel (s\<lparr>wpool := p\<rparr>)"
| w_kernel_row: "scratch_row checks (wpool s) q = okay row \<Longrightarrow> kernel_write ops page (row_slot_mapping row) (wpool s) p \<Longrightarrow>
    windowed_step checks ops page s WKernel (s\<lparr>wpool := p\<rparr>)"

definition windowed_init :: "bool \<Rightarrow> 't candle \<Rightarrow> ('t, 'p) windowed_system \<Rightarrow> bool" where
  "windowed_init checks ops s \<longleftrightarrow>
     (\<exists>live ckpt ws mql psz heads dim c ptr p.
        new_with_capacities live ckpt ws mql psz heads dim = okay c \<and>
        windowed_pool_new checks ops ptr c = okay p \<and> s = \<lparr>wpool = p, handles = {}, plans = {}\<rparr>)"

section \<open>The system invariant\<close>

definition handle_ok :: "('t \<Rightarrow> nat \<Rightarrow> 'p) \<Rightarrow> 't WindowedKvPool \<Rightarrow> WindowedKvCheckpoint \<times> 'p list \<times> 'p list \<Rightarrow> bool" where
  "handle_ok page p = (\<lambda>(h, contents).
     ck_contains (checkpoint_slots p) (ck_pool_slot h) (ck_generation h) \<and> ck_slots_ptr h = slots_ptr p \<and>
     slot_pages page p (ck_pool_slot h) = contents \<and>
     ck_next_committed_pos h \<le> usize_max \<and> ck_valid_start_pos h \<le> ck_origin_pos h \<and>
     ck_origin_pos h = origin_of (config p) (ck_next_committed_pos h))"

definition plan_ok :: "'t WindowedKvPool \<Rightarrow> WindowedKvContextWrite \<Rightarrow> bool" where
  "plan_ok p w \<longleftrightarrow>
     cw_generation w < next_generation p \<and> cw_next_committed_pos w \<le> usize_max \<and>
     cw_expected_next w \<le> cw_next_committed_pos w \<and> cw_origin_pos w = origin_of (config p) (cw_next_committed_pos w) \<and>
     cw_pool_slot w < live_sequence_capacity (config p) \<and>
     (\<forall>x \<in> set (cw_slot_mapping w). \<exists>pos. x = int (ring_slot (config p) (cw_pool_slot w) pos))"

definition system_ok :: "'t candle \<Rightarrow> ('t \<Rightarrow> nat \<Rightarrow> 'p) \<Rightarrow> ('t, 'p) windowed_system \<Rightarrow> bool" where
  "system_ok ops page s \<longleftrightarrow>
     windowed_ok ops (wpool s) \<and> (\<forall>h \<in> handles s. handle_ok page (wpool s) h) \<and>
     (\<forall>h \<in> handles s. \<forall>h' \<in> handles s. ck_pool_slot (fst h) = ck_pool_slot (fst h') \<longrightarrow> h = h') \<and>
     (\<forall>w \<in> plans s. plan_ok (wpool s) w)"

lemma origin_le_next: "origin_of c n \<le> n"
  using origin_of_le [of c n] by linarith

text \<open>Steps that leave the checkpoint registry alone and write only live slots.\<close>

lemma system_ok_live_step:
  assumes "system_ok ops page s" and "windowed_ok ops p" and "config p = config (wpool s)"
    and "checkpoint_slots p = checkpoint_slots (wpool s)" and "slots_ptr p = slots_ptr (wpool s)"
    and "next_generation (wpool s) \<le> next_generation p"
    and "\<And>b. live_sequence_capacity (config p) \<le> b \<Longrightarrow> slot_pages page p b = slot_pages page (wpool s) b"
  shows "system_ok ops page (s\<lparr>wpool := p\<rparr>)"
proof -
  have "handle_ok page p h" if "h \<in> handles s" for h
  proof -
    have h: "handle_ok page (wpool s) h" using assms(1) that by (simp add: system_ok_def)
    then have "live_sequence_capacity (config p) \<le> ck_pool_slot (fst h)"
      using ck_contains_range [OF windowed_parts(3) [OF assms(2)]] assms(4)
      by (cases h) (fastforce simp: handle_ok_def)
    then show ?thesis using h assms(3-5,7) by (cases h) (simp add: handle_ok_def)
  qed
  moreover have "plan_ok p w" if "w \<in> plans s" for w
    using assms(1,3,6) that by (fastforce simp: system_ok_def plan_ok_def)
  ultimately show ?thesis using assms(1,2) by (simp add: system_ok_def)
qed

lemma kernel_live_pages:
  assumes "windowed_ok ops p" and "slot < live_sequence_capacity (config p)"
    and "\<And>x. x \<in> set slots \<Longrightarrow> \<exists>pos. x = int (ring_slot (config p) slot pos)"
    and "kernel_write ops page slots p q"
  shows "windowed_ok ops q \<and> config q = config p \<and> checkpoint_slots q = checkpoint_slots p \<and> slots_ptr q = slots_ptr p \<and>
    next_generation q = next_generation p \<and> (\<forall>b. b \<noteq> slot \<longrightarrow> slot_pages page q b = slot_pages page p b)"
proof -
  let ?c = "config p"
  note c = windowed_parts(1) [OF assms(1)]
  have blocks: "nat x div page_size ?c \<noteq> b * pages_per_sequence ?c + i"
    if x: "x \<in> set slots" and b: "b \<noteq> slot" and i: "i < pages_per_sequence ?c" for x b i
  proof
    assume eq: "nat x div page_size ?c = b * pages_per_sequence ?c + i"
    obtain pos where "x = int (ring_slot ?c slot pos)" using assms(3) [OF x] by blast
    then have "nat x = ring_slot ?c slot pos" by simp
    then have "nat x div page_size ?c = ring_block ?c slot (pos div page_size ?c)"
      using page_size_pos [OF c] by (simp add: ring_slot_block)
    then have "(b * pages_per_sequence ?c + i) div pages_per_sequence ?c =
        (slot * pages_per_sequence ?c + pos div page_size ?c mod pages_per_sequence ?c) div pages_per_sequence ?c"
      using eq by (simp add: ring_block_def)
    then show False using i b pages_pos [OF c] by simp
  qed
  obtain k v where q: "q = p\<lparr>key_cache := k, value_cache := v\<rparr>" "dims ops k = dims ops (key_cache p)"
    "dims ops v = dims ops (value_cache p)"
    "\<And>b. b \<notin> (\<lambda>s. nat s div page_size ?c) ` set slots \<Longrightarrow> page k b = page (key_cache p) b \<and> page v b = page (value_cache p) b"
    using assms(4) unfolding kernel_write_def by blast
  have "slot_pages page q b = slot_pages page p b" if "b \<noteq> slot" for b
    using q(1,4) blocks [OF _ that] by (intro slot_pages_cong) (force simp: q(1))+
  then show ?thesis using assms(1) q(1-3) by (simp add: windowed_ok_def tensors_ok_def)
qed

lemma acquire_step_ok:
  assumes "system_ok ops page s" and "n \<le> usize_max" and "acquire_at checks sid n (wpool s) = Inr (r, p)"
  shows "system_ok ops page (s\<lparr>wpool := p\<rparr>)"
proof -
  have w: "windowed_ok ops (wpool s)" using assms(1) by (simp add: system_ok_def)
  from w assms(2) show ?thesis
  proof (cases rule: acquire_at_effect [where checks = checks and sid = sid])
    case (failed e)
    then show ?thesis using assms by simp
  next
    case (known st)
    then show ?thesis using assms by simp
  next
    case (fresh st b rest)
    have "live_ok (config (wpool s)) rest ((sequences (wpool s))(sid \<mapsto> st)) (Suc (next_generation (wpool s)))"
      using windowed_parts(2) [OF w] fresh(1-3) assms(2)
      by (intro live_ok_take) (auto simp: state_ok_def)
    then have "windowed_ok ops p"
      using w fresh(4) assms(3) by (auto simp: windowed_ok_def tensors_ok_def)
    then show ?thesis
      using assms(1,3) fresh(4) by (intro system_ok_live_step) auto
  qed
qed

lemma release_step_ok:
  assumes "system_ok ops page s" and "release_sequence checks sid (wpool s) = Inr (r, p)"
  shows "system_ok ops page (s\<lparr>wpool := p\<rparr>)"
proof (cases "sequences (wpool s) sid")
  case None
  then show ?thesis using assms by (auto simp: release_sequence_def)
next
  case (Some st)
  have w: "windowed_ok ops (wpool s)" using assms(1) by (simp add: system_ok_def)
  have p: "p = (wpool s)\<lparr>sequences := (sequences (wpool s))(sid := None),
      live_free_slots := live_free_slots (wpool s) @ [pool_slot st]\<rparr>"
    using release_sequence_effect [OF w, of checks sid] assms(2) Some by simp
  have "windowed_ok ops p"
    using w live_ok_return [OF windowed_parts(2) [OF w] Some] p by (simp add: windowed_ok_def tensors_ok_def)
  then show ?thesis
    using assms(1) p by (intro system_ok_live_step) auto
qed

lemma clear_step_ok:
  assumes "system_ok ops page s" and "clear_sequences checks (wpool s) = Inr p"
  shows "system_ok ops page (s\<lparr>wpool := p\<rparr>)"
proof -
  have w: "windowed_ok ops (wpool s)" using assms(1) by (simp add: system_ok_def)
  have p: "p = (wpool s)\<lparr>sequences := Map.empty, live_free_slots := rev [0..<live_sequence_capacity (config (wpool s))]\<rparr>"
    using clear_sequences_effect [OF w, of checks] assms(2) by simp
  have "windowed_ok ops p"
    using w live_ok_fresh [of "config (wpool s)"] p by (simp add: windowed_ok_def tensors_ok_def)
  then show ?thesis
    using assms(1) p by (intro system_ok_live_step) auto
qed

lemma handle_facts:
  assumes "system_ok ops page s" and "(h, contents) \<in> handles s"
  shows "handle_ok page (wpool s) (h, contents)"
  using assms by (auto simp: system_ok_def)

lemma handle_restorable:
  assumes "system_ok ops page s" and "(h, contents) \<in> handles s \<or> ck_slots_ptr h \<noteq> slots_ptr (wpool s)"
  shows "ck_slots_ptr h = slots_ptr (wpool s) \<longrightarrow> ck_contains (checkpoint_slots (wpool s)) (ck_pool_slot h) (ck_generation h)"
    and "ck_slots_ptr h = slots_ptr (wpool s) \<longrightarrow>
       ck_next_committed_pos h \<le> usize_max \<and> ck_valid_start_pos h \<le> ck_next_committed_pos h \<and>
       ck_origin_pos h = origin_of (config (wpool s)) (ck_next_committed_pos h)"
  using handle_facts [OF assms(1), of h contents] assms(2) order_trans [OF _ origin_le_next]
  by (auto simp: handle_ok_def)

lemma restore_step_ok:
  assumes "system_ok ops page s" and "candle_laws ops page"
    and "(h, contents) \<in> handles s \<or> ck_slots_ptr h \<noteq> slots_ptr (wpool s)"
    and "restore_sequence checks ops sid h (wpool s) = Inr (r, p)"
  shows "system_ok ops page (s\<lparr>wpool := p\<rparr>)"
proof -
  have w: "windowed_ok ops (wpool s)" using assms(1) by (simp add: system_ok_def)
  from w assms(2) handle_restorable [OF assms(1,3)] show ?thesis
  proof (cases rule: restore_sequence_effect [where checks = checks and sid = sid])
    case (failed e k v g)
    have "slot_pages page p b = slot_pages page (wpool s) b" if "live_sequence_capacity (config p) \<le> b" for b
      using failed(1) failed(4) [of b] assms(4) that live_ok_free [OF windowed_parts(2) [OF w]] by force
    then show ?thesis using failed(1-3) assms(1,4) by (intro system_ok_live_step) auto
  next
    case (restored st b rest k v q)
    have "b < live_sequence_capacity (config (wpool s))"
      using live_ok_free [OF windowed_parts(2) [OF w]] restored(2) by auto
    then have "slot_pages page p x = slot_pages page (wpool s) x" if "live_sequence_capacity (config p) \<le> x" for x
      using restored(5,6) restored(8) [of x] assms(4) that by auto
    then show ?thesis using restored(5,6,7) assms(1,4) by (intro system_ok_live_step) auto
  qed
qed

lemma commit_step_ok:
  assumes "system_ok ops page s" and "w \<in> plans s" and "commit_context w (wpool s) = Inr (r, p)"
  shows "system_ok ops page (s\<lparr>wpool := p\<rparr>)"
proof (cases "sequences (wpool s) (cw_seq_id w)")
  case None
  then show ?thesis using assms by (auto simp: commit_context_def)
next
  case (Some st)
  have ok: "windowed_ok ops (wpool s)" and pl: "plan_ok (wpool s) w" using assms(1,2) by (auto simp: system_ok_def)
  note own = live_ok_seq [OF windowed_parts(2) [OF ok] Some]
  let ?st = "st\<lparr>origin_pos := cw_origin_pos w, valid_start_pos := max (valid_start_pos st) (cw_origin_pos w),
      next_committed_pos := cw_next_committed_pos w\<rparr>"
  show ?thesis
  proof (cases "p = wpool s")
    case True
    then show ?thesis using assms(1) by simp
  next
    case False
    then have p: "p = (wpool s)\<lparr>sequences := (sequences (wpool s))(cw_seq_id w \<mapsto> ?st)\<rparr>"
      and nxt: "next_committed_pos st = cw_expected_next w"
      using assms(3) Some by (auto simp: commit_context_def split: if_splits)
    have "state_ok (config (wpool s)) ?st"
      using pl own nxt origin_le_next [of "config (wpool s)" "cw_next_committed_pos w"]
      by (auto simp: plan_ok_def state_ok_def)
    then have "windowed_ok ops p"
      using ok live_ok_update [OF windowed_parts(2) [OF ok] Some, of ?st] own p
      by (simp add: windowed_ok_def tensors_ok_def)
    then show ?thesis using assms(1) p by (intro system_ok_live_step) auto
  qed
qed

lemma unique_insert:
  "\<forall>x \<in> H. \<forall>y \<in> H. f x = f y \<longrightarrow> x = y \<Longrightarrow> (\<And>x. x \<in> H \<Longrightarrow> f x \<noteq> f a) \<Longrightarrow>
     \<forall>x \<in> insert a H. \<forall>y \<in> insert a H. f x = f y \<longrightarrow> x = y"
  by (metis insert_iff)

lemma snapshot_step_ok:
  assumes "system_ok ops page s" and "candle_laws ops page"
    and "snapshot_sequence checks ops sid (wpool s) = Inr (Inr h, p)" and "sequences (wpool s) sid = Some st"
  shows "system_ok ops page (s\<lparr>wpool := p, handles := insert (h, slot_pages page (wpool s) (pool_slot st)) (handles s)\<rparr>)"
proof -
  have w: "windowed_ok ops (wpool s)" using assms(1) by (simp add: system_ok_def)
  from w assms(2) show ?thesis
  proof (cases rule: snapshot_sequence_effect [where checks = checks and sid = sid])
    case (failed e k v s')
    then show ?thesis using assms(3) by simp
  next
    case (saved st' b k v s')
    have st: "st' = st" using saved(1) assms(4) by simp
    have h: "h = \<lparr>ck_pool_slot = b, ck_generation = ck_next_generation (checkpoint_slots (wpool s)),
        ck_origin_pos = origin_pos st, ck_valid_start_pos = valid_start_pos st,
        ck_next_committed_pos = next_committed_pos st, ck_bytes = bytes_per_slot (config (wpool s)),
        ck_slots_ptr = slots_ptr (wpool s)\<rparr>"
      and p: "p = (wpool s)\<lparr>key_cache := k, value_cache := v, checkpoint_slots := s'\<rparr>"
      using saved(4) assms(3) st by auto
    have new: "handle_ok page p (h, slot_pages page (wpool s) (pool_slot st))"
      using saved(2,7,9) live_ok_seq [OF windowed_parts(2) [OF w] assms(4)] st unfolding h p
      by (simp add: handle_ok_def state_ok_def)
    have apart: "ck_pool_slot g \<noteq> b" if "(g, ks) \<in> handles s" for g ks
      using handle_facts [OF assms(1) that] ck_contains_range [OF windowed_parts(3) [OF w]] saved(3)
      by (fastforce simp: handle_ok_def)
    have old: "handle_ok page p (g, ks)" if "(g, ks) \<in> handles s" for g ks
      using handle_facts [OF assms(1) that] saved(7) saved(8) [OF apart [OF that]] apart [OF that] unfolding p
      by (simp add: handle_ok_def)
    have "plan_ok p x" if "x \<in> plans s" for x
      using assms(1) that unfolding p by (auto simp: system_ok_def plan_ok_def)
    moreover have "\<forall>x \<in> insert (h, slot_pages page (wpool s) (pool_slot st)) (handles s).
        \<forall>y \<in> insert (h, slot_pages page (wpool s) (pool_slot st)) (handles s).
          ck_pool_slot (fst x) = ck_pool_slot (fst y) \<longrightarrow> x = y"
    proof (rule unique_insert)
      show "ck_pool_slot (fst x) \<noteq> ck_pool_slot (fst (h, slot_pages page (wpool s) (pool_slot st)))"
        if "x \<in> handles s" for x
        using apart [of "fst x" "snd x"] that h by simp
    qed (use assms(1) in \<open>simp add: system_ok_def\<close>)
    moreover have "windowed_ok ops p" using saved(5) p by simp
    ultimately show ?thesis using new old by (auto simp: system_ok_def)
  qed
qed

lemma snapshot_error_step_ok:
  assumes "system_ok ops page s" and "candle_laws ops page"
    and "snapshot_sequence checks ops sid (wpool s) = Inr (Inl e, p)"
  shows "system_ok ops page (s\<lparr>wpool := p\<rparr>)"
proof -
  have w: "windowed_ok ops (wpool s)" using assms(1) by (simp add: system_ok_def)
  from w assms(2) show ?thesis
  proof (cases rule: snapshot_sequence_effect [where checks = checks and sid = sid])
    case (saved st b k v s')
    then show ?thesis using assms(3) by simp
  next
    case (failed e' k v s')
    have p: "p = (wpool s)\<lparr>key_cache := k, value_cache := v, checkpoint_slots := s'\<rparr>"
      using failed(1) assms(3) by simp
    have "handle_ok page p (g, ks)" if "(g, ks) \<in> handles s" for g ks
      using handle_facts [OF assms(1) that] failed(4) failed(5) [of "ck_pool_slot g"]
        ck_contains_range [OF windowed_parts(3) [OF w]] unfolding p
      by (auto simp: handle_ok_def)
    moreover have "plan_ok p x" if "x \<in> plans s" for x
      using assms(1) that unfolding p by (auto simp: system_ok_def plan_ok_def)
    ultimately show ?thesis
      using assms(1) failed(2) p unfolding system_ok_def by fastforce
  qed
qed

lemma drop_step_ok:
  assumes "system_ok ops page s" and "(h, ks) \<in> handles s" and "checkpoint_drop checks h (wpool s) = Inr p"
  shows "system_ok ops page (s\<lparr>wpool := p, handles := handles s - {(h, ks)}\<rparr>)"
proof -
  have w: "windowed_ok ops (wpool s)" using assms(1) by (simp add: system_ok_def)
  have "ck_contains (checkpoint_slots (wpool s)) (ck_pool_slot h) (ck_generation h)"
    using handle_facts [OF assms(1,2)] by (simp add: handle_ok_def)
  then obtain c where c: "ck_release checks (checkpoint_slots (wpool s)) (ck_pool_slot h) (ck_generation h) = Inr (True, c)"
    "ck_ok (config (wpool s)) c" "\<And>x g. ck_contains c x g \<longleftrightarrow> x \<noteq> ck_pool_slot h \<and> ck_contains (checkpoint_slots (wpool s)) x g"
    using ck_release_effect [OF windowed_parts(1) [OF w] windowed_parts(3) [OF w]] by blast
  have p: "p = (wpool s)\<lparr>checkpoint_slots := c\<rparr>" using assms(3) c(1) by (simp add: checkpoint_drop_def)
  have "handle_ok page p (g, k)" if "(g, k) \<in> handles s - {(h, ks)}" for g k
  proof -
    have "ck_pool_slot g \<noteq> ck_pool_slot h" using assms(1,2) that unfolding system_ok_def by fastforce
    then show ?thesis using handle_facts [OF assms(1), of g k] that c(3) unfolding p by (simp add: handle_ok_def)
  qed
  moreover have "plan_ok p x" if "x \<in> plans s" for x
    using assms(1) that unfolding p by (auto simp: system_ok_def plan_ok_def)
  ultimately show ?thesis
    using assms(1) windowed_ok_checkpoints [OF w c(2)] p unfolding system_ok_def by fastforce
qed

lemma plan_step_ok:
  assumes "system_ok ops page s" and "plan_context_write checks (wpool s) sid n = okay w"
  shows "system_ok ops page (s\<lparr>plans := insert w (plans s)\<rparr>)"
proof -
  have ok: "windowed_ok ops (wpool s)" using assms(1) by (simp add: system_ok_def)
  obtain st where st: "sequences (wpool s) sid = Some st" "next_committed_pos st + n \<le> usize_max"
    "w = planned (config (wpool s)) st n"
    using assms(2) plan_context_write_eq [OF ok, of checks sid n] by (auto split: if_splits option.splits)
  have "plan_ok (wpool s) w"
    using live_ok_seq [OF windowed_parts(2) [OF ok] st(1)] st(2,3)
    by (auto simp: plan_ok_def planned_def Let_def)
  then show ?thesis using assms(1) by (auto simp: system_ok_def)
qed

lemma kernel_step_ok:
  assumes "system_ok ops page s" and "slot < live_sequence_capacity (config (wpool s))"
    and "\<And>x. x \<in> set slots \<Longrightarrow> \<exists>pos. x = int (ring_slot (config (wpool s)) slot pos)"
    and "kernel_write ops page slots (wpool s) p"
  shows "system_ok ops page (s\<lparr>wpool := p\<rparr>)"
proof -
  have "windowed_ok ops (wpool s)" using assms(1) by (simp add: system_ok_def)
  note k = kernel_live_pages [OF this assms(2-4)]
  then show ?thesis using assms(1,2) by (intro system_ok_live_step) auto
qed

lemma windowed_step_ok:
  assumes "candle_laws ops page" and "system_ok ops page s" and "windowed_step checks ops page s l t"
  shows "system_ok ops page t"
  using assms(3,2,1)
proof (induction rule: windowed_step.induct)
  case (w_kernel_plan w s p)
  then have "plan_ok (wpool s) w" by (simp add: system_ok_def)
  then show ?case
    using w_kernel_plan by (intro kernel_step_ok [of _ _ _ "cw_pool_slot w"]) (auto simp: plan_ok_def)
next
  case (w_kernel_row s q row p)
  have ok: "windowed_ok ops (wpool s)" using w_kernel_row by (simp add: system_ok_def)
  obtain st where st: "sequences (wpool s) (query_seq_id q) = Some st"
    "0 < query_len q" "query_len q \<le> max_query_len (config (wpool s))"
    using w_kernel_row(1) by (auto simp: scratch_row_def Let_def try_then_ok split: if_splits)
  have row: "row = scratch_of (config (wpool s)) st (query_len q)"
    using w_kernel_row(1) scratch_row_eq [OF ok st] by (simp split: if_splits)
  have "pool_slot st < live_sequence_capacity (config (wpool s))"
    using live_ok_seq [OF windowed_parts(2) [OF ok] st(1)] by simp
  then show ?case
    using w_kernel_row row by (intro kernel_step_ok [of _ _ _ "pool_slot st"]) (auto simp: scratch_of_def)
qed (auto intro: acquire_step_ok release_step_ok clear_step_ok snapshot_step_ok snapshot_error_step_ok
    restore_step_ok drop_step_ok plan_step_ok commit_step_ok)

lemma checkpoint_slots_new_eq:
  assumes "config_ok c"
  shows "\<exists>s. checkpoint_slots_new checks (live_sequence_capacity c) (checkpoint_capacity c) = Inr s \<and> ck_ok c s"
proof -
  let ?s = "\<lparr>first_pool_slot = live_sequence_capacity c, active_generations = replicate (checkpoint_capacity c) None,
    ck_free_slots = rev [live_sequence_capacity c..<total_capacity c], ck_next_generation = 0\<rparr>"
  have "(x \<in> {live_sequence_capacity c..<total_capacity c}) \<longleftrightarrow>
      (\<exists>i < checkpoint_capacity c. x = live_sequence_capacity c + i)" for x
    by (auto simp: total_capacity_def intro!: exI [of _ "x - live_sequence_capacity c"])
  then have "{live_sequence_capacity c..<total_capacity c} = {b. \<exists>i < checkpoint_capacity c. b = live_sequence_capacity c + i}"
    by blast
  then have ok: "ck_ok c ?s" by (simp add: ck_ok_def cong: conj_cong)
  have "total_capacity c \<le> usize_max" using capacity_u32 [OF assms] u32_usize by linarith
  then show ?thesis
    using ok ck_metrics_ok [OF assms ok, of checks] by (simp add: checkpoint_slots_new_def total_capacity_def Let_def)
qed

lemma cache_shape_eq: "config_ok c \<Longrightarrow> cache_shape checks c = Inr (pool_shape c)"
proof -
  assume c: "config_ok c"
  have "total_capacity c \<le> usize_max" "total_capacity c * pages_per_sequence c \<le> usize_max"
    using capacity_u32 [OF c] u32_usize c by (auto simp: config_ok_def)
  then show ?thesis
    by (simp add: cache_shape_def physical_blocks_def slot_capacity_def pool_shape_def total_capacity_def)
qed

lemma from_tensors_ok:
  assumes "config_ok c" and "from_tensors checks ops ptr c k v = okay p"
  shows "windowed_ok ops p"
proof -
  obtain s where s: "checkpoint_slots_new checks (live_sequence_capacity c) (checkpoint_capacity c) = Inr s" "ck_ok c s"
    using checkpoint_slots_new_eq [OF assms(1)] by blast
  let ?p = "\<lparr>config = c, key_cache = k, value_cache = v, live_free_slots = rev [0..<live_sequence_capacity c],
    checkpoint_slots = s, slots_ptr = ptr, sequences = Map.empty, next_generation = 0\<rparr>"
  have "publish_live_slot_metrics checks ?p = Inr ()"
    using assms(1) by (intro live_metrics_ok) auto
  then have "p = ?p \<and> dims ops k = pool_shape c \<and> dims ops v = pool_shape c"
    using assms(2) cache_shape_eq [OF assms(1), of checks] s(1) by (auto simp: from_tensors_def Let_def split: if_splits)
  then show ?thesis using s(2) assms(1) live_ok_fresh [of c 0] by (simp add: windowed_ok_def tensors_ok_def)
qed

lemma windowed_init_ok:
  assumes "windowed_init checks ops s"
  shows "system_ok ops page s"
proof -
  obtain live ckpt ws mql psz heads dim c ptr p where i: "new_with_capacities live ckpt ws mql psz heads dim = okay c"
    "windowed_pool_new checks ops ptr c = okay p" "s = \<lparr>wpool = p, handles = {}, plans = {}\<rparr>"
    using assms unfolding windowed_init_def by blast
  have c: "config_ok c" using new_with_capacities_config [OF i(1)] by simp
  then obtain k v where "from_tensors checks ops ptr c k v = okay p"
    using i(2) cache_shape_eq [OF c, of checks] by (auto simp: windowed_pool_new_def try_then_ok)
  then show ?thesis using from_tensors_ok [OF c] i(3) by (simp add: system_ok_def)
qed

text \<open>The steps of a system whose tensors follow candle's laws.\<close>

definition windowed_move ::
    "bool \<Rightarrow> 't candle \<Rightarrow> ('t \<Rightarrow> nat \<Rightarrow> 'p) \<Rightarrow> ('t, 'p) windowed_system \<Rightarrow> windowed_op \<Rightarrow> ('t, 'p) windowed_system \<Rightarrow> bool" where
  "windowed_move checks ops page s l t \<longleftrightarrow> candle_laws ops page \<and> windowed_step checks ops page s l t"

definition live_claims :: "('t, 'p) windowed_system \<Rightarrow> (nat \<times> nat) set" where
  "live_claims s = {(sid, generation st) | sid st. sequences (wpool s) sid = Some st}"

definition checkpoint_claims :: "('t, 'p) windowed_system \<Rightarrow> (nat \<times> nat) set" where
  "checkpoint_claims s = {(b, g). ck_contains (checkpoint_slots (wpool s)) b g}"

abbreviation live_clock :: "('t, 'p) windowed_system \<Rightarrow> nat" where
  "live_clock s \<equiv> next_generation (wpool s)"

abbreviation checkpoint_clock :: "('t, 'p) windowed_system \<Rightarrow> nat" where
  "checkpoint_clock s \<equiv> ck_next_generation (checkpoint_slots (wpool s))"

text \<open>What one step does to the two families of claims.\<close>

definition claims_step :: "('t, 'p) windowed_system \<Rightarrow> ('t, 'p) windowed_system \<Rightarrow> bool" where
  "claims_step s t \<longleftrightarrow>
     live_clock s \<le> live_clock t \<and> checkpoint_clock s \<le> checkpoint_clock t \<and>
     live_claims t \<subseteq> live_claims s \<union> {(k, g). live_clock s \<le> g} \<and>
     checkpoint_claims t \<subseteq> checkpoint_claims s \<union> {(k, g). checkpoint_clock s \<le> g}"

lemma claims_step_same:
  assumes "checkpoint_slots (wpool t) = checkpoint_slots (wpool s)" and "live_clock s \<le> live_clock t"
    and "\<And>sid st. sequences (wpool t) sid = Some st \<Longrightarrow>
      (\<exists>st'. sequences (wpool s) sid = Some st' \<and> generation st' = generation st) \<or> live_clock s \<le> generation st"
  shows "claims_step s t"
  using assms by (fastforce simp: claims_step_def live_claims_def checkpoint_claims_def)

lemma claims_step_checkpoints:
  assumes "sequences (wpool t) = sequences (wpool s)" and "live_clock t = live_clock s"
    and "checkpoint_clock s \<le> checkpoint_clock t"
    and "\<And>b g. ck_contains (checkpoint_slots (wpool t)) b g \<Longrightarrow>
      ck_contains (checkpoint_slots (wpool s)) b g \<or> checkpoint_clock s \<le> g"
  shows "claims_step s t"
  using assms by (auto simp: claims_step_def live_claims_def checkpoint_claims_def)

lemma snapshot_claims:
  assumes "system_ok ops page s" and "candle_laws ops page" and "snapshot_sequence checks ops sid (wpool s) = Inr (r, p)"
    and "wpool t = p"
  shows "claims_step s t"
proof -
  have "windowed_ok ops (wpool s)" using assms(1) by (simp add: system_ok_def)
  from this assms(2) show ?thesis
  proof (cases rule: snapshot_sequence_effect [where checks = checks and sid = sid])
    case (failed e k v s')
    then show ?thesis using assms(3,4) by (intro claims_step_checkpoints) auto
  next
    case (saved st b k v s')
    then show ?thesis using assms(3,4) by (intro claims_step_checkpoints) (auto split: if_splits)
  qed
qed

lemma restore_claims:
  assumes "system_ok ops page s" and "candle_laws ops page"
    and "(h, contents) \<in> handles s \<or> ck_slots_ptr h \<noteq> slots_ptr (wpool s)"
    and "restore_sequence checks ops sid h (wpool s) = Inr (r, p)" and "wpool t = p"
  shows "claims_step s t"
proof -
  have w: "windowed_ok ops (wpool s)" using assms(1) by (simp add: system_ok_def)
  from w assms(2) handle_restorable [OF assms(1,3)] show ?thesis
  proof (cases rule: restore_sequence_effect [where checks = checks and sid = sid])
    case (failed e k v g)
    then show ?thesis using assms(4,5) by (intro claims_step_same) auto
  next
    case (restored st b rest k v q)
    then show ?thesis using assms(4,5) by (intro claims_step_same) (auto split: if_splits)
  qed
qed

lemma acquire_claims:
  assumes "system_ok ops page s" and "n \<le> usize_max" and "acquire_at checks sid n (wpool s) = Inr (r, p)" and "wpool t = p"
  shows "claims_step s t"
proof -
  have "windowed_ok ops (wpool s)" using assms(1) by (simp add: system_ok_def)
  from this assms(2) show ?thesis
  proof (cases rule: acquire_at_effect [where checks = checks and sid = sid])
    case (failed e)
    then show ?thesis using assms(3,4) by (intro claims_step_same) auto
  next
    case (known st)
    then show ?thesis using assms(3,4) by (intro claims_step_same) auto
  next
    case (fresh st b rest)
    then show ?thesis using assms(3,4) by (intro claims_step_same) (auto split: if_splits)
  qed
qed

lemma release_claims:
  assumes "system_ok ops page s" and "release_sequence checks sid (wpool s) = Inr (r, p)" and "wpool t = p"
  shows "claims_step s t"
proof -
  have "windowed_ok ops (wpool s)" using assms(1) by (simp add: system_ok_def)
  then show ?thesis
    using release_sequence_effect [of ops "wpool s" checks sid] assms(2,3)
    by (intro claims_step_same) (auto split: option.splits if_splits)
qed

lemma drop_claims:
  assumes "system_ok ops page s" and "(h, ks) \<in> handles s" and "checkpoint_drop checks h (wpool s) = Inr p" and "wpool t = p"
  shows "claims_step s t"
proof -
  have w: "windowed_ok ops (wpool s)" using assms(1) by (simp add: system_ok_def)
  have "ck_contains (checkpoint_slots (wpool s)) (ck_pool_slot h) (ck_generation h)"
    using handle_facts [OF assms(1,2)] by (simp add: handle_ok_def)
  then obtain c where c: "ck_release checks (checkpoint_slots (wpool s)) (ck_pool_slot h) (ck_generation h) = Inr (True, c)"
    "ck_next_generation c = ck_next_generation (checkpoint_slots (wpool s))"
    "\<And>x g. ck_contains c x g \<longleftrightarrow> x \<noteq> ck_pool_slot h \<and> ck_contains (checkpoint_slots (wpool s)) x g"
    using ck_release_effect [OF windowed_parts(1) [OF w] windowed_parts(3) [OF w]] by blast
  then have "p = (wpool s)\<lparr>checkpoint_slots := c\<rparr>" using assms(3) by (simp add: checkpoint_drop_def)
  then show ?thesis using assms(4) c(2,3) by (intro claims_step_checkpoints) auto
qed

lemma commit_claims:
  assumes "commit_context w (wpool s) = Inr (r, p)" and "wpool t = p"
  shows "claims_step s t"
  using assms(1)
  by (intro claims_step_same) (auto simp: assms(2) commit_context_def split: option.splits if_splits)

lemma kernel_claims: "kernel_write ops page slots (wpool s) (wpool t) \<Longrightarrow> claims_step s t"
  by (intro claims_step_same) (auto simp: kernel_write_def)

lemma windowed_step_claims:
  assumes "candle_laws ops page" and "system_ok ops page s" and "windowed_step checks ops page s l t"
  shows "claims_step s t"
  using assms(3,2,1)
proof (induction rule: windowed_step.induct)
  case (w_clear s p)
  then show ?case
    using clear_sequences_effect [of ops "wpool s" checks]
    by (intro claims_step_same) (auto simp: system_ok_def)
next
  case (w_plan s sid n w)
  then show ?case by (intro claims_step_same) auto
next
  case (w_snapshot sid s h p st)
  then show ?case by (intro snapshot_claims) auto
next
  case (w_drop h k s p)
  then show ?case by (intro drop_claims) auto
qed (auto intro: acquire_claims release_claims snapshot_claims restore_claims drop_claims commit_claims kernel_claims)

lemma move_claims:
  assumes "system_ok ops page s" and "windowed_move checks ops page s l t"
  shows "claims_step s t"
  using windowed_step_claims [of ops page s checks l t] assms by (simp add: windowed_move_def)

interpretation wlive: stamped_system "windowed_init checks ops" "windowed_move checks ops page" "system_ok ops page"
    live_claims live_clock
  for checks ops page
proof
  show "system_ok ops page s" if "windowed_init checks ops s" for s using windowed_init_ok [OF that] .
  show "system_ok ops page t" if "system_ok ops page s" "windowed_move checks ops page s l t" for s l t
    using windowed_step_ok that by (auto simp: windowed_move_def)
  show "live_clock s \<le> live_clock t" if "system_ok ops page s" "windowed_move checks ops page s l t" for s l t
    using move_claims [OF that(1,2)] by (simp add: claims_step_def)
  show "g < live_clock s" if "system_ok ops page s" "(k, g) \<in> live_claims s" for s k g
    using that live_ok_seq [OF windowed_parts(2)] by (fastforce simp: live_claims_def system_ok_def)
  show "(k, g) \<in> live_claims s \<or> live_clock s \<le> g"
    if "system_ok ops page s" "windowed_move checks ops page s l t" "(k, g) \<in> live_claims t" for s l t k g
    using move_claims [OF that(1,2)] that(3) by (auto simp: claims_step_def)
qed

interpretation wckpt: stamped_system "windowed_init checks ops" "windowed_move checks ops page" "system_ok ops page"
    checkpoint_claims checkpoint_clock
  for checks ops page
proof
  show "checkpoint_clock s \<le> checkpoint_clock t" if "system_ok ops page s" "windowed_move checks ops page s l t" for s l t
    using move_claims [OF that(1,2)] by (simp add: claims_step_def)
  show "g < checkpoint_clock s" if "system_ok ops page s" "(k, g) \<in> checkpoint_claims s" for s k g
    using that ck_contains_range [OF windowed_parts(3)] by (fastforce simp: checkpoint_claims_def system_ok_def)
  show "(k, g) \<in> checkpoint_claims s \<or> checkpoint_clock s \<le> g"
    if "system_ok ops page s" "windowed_move checks ops page s l t" "(k, g) \<in> checkpoint_claims t" for s l t k g
    using move_claims [OF that(1,2)] that(3) by (auto simp: claims_step_def)
qed

end
