(* ===== verification/Windowed_Theorems.thy ===== *)
theory Windowed_Theorems
  imports Windowed_System
begin

text \<open>
  The properties of the sliding-window pool over all reachable system states: exclusive slots,
  the snapshot and restore round trip, refusal of stale context writes, the attention view of a scratch
  row, and the layout of scratch batches; with a concrete system as their witness.
\<close>

definition windowed_reachable :: "bool \<Rightarrow> 't candle \<Rightarrow> ('t \<Rightarrow> nat \<Rightarrow> 'p) \<Rightarrow> ('t, 'p) windowed_system \<Rightarrow> bool" where
  "windowed_reachable checks ops page s \<longleftrightarrow> reachable_from (windowed_init checks ops) (windowed_move checks ops page) s"

definition windowed_later ::
    "bool \<Rightarrow> 't candle \<Rightarrow> ('t \<Rightarrow> nat \<Rightarrow> 'p) \<Rightarrow> ('t, 'p) windowed_system \<Rightarrow> ('t, 'p) windowed_system \<Rightarrow> bool" where
  "windowed_later checks ops page s t \<longleftrightarrow> reachable_from (\<lambda>x. x = s) (windowed_move checks ops page) t"

lemma reachable_system_ok: "windowed_reachable checks ops page s \<Longrightarrow> system_ok ops page s"
  unfolding windowed_reachable_def by (rule wlive.reachable_inv)

lemma later_system_ok: "system_ok ops page s \<Longrightarrow> windowed_later checks ops page s t \<Longrightarrow> system_ok ops page t"
  unfolding windowed_later_def by (rule wlive.later_inv)

lemma reachable_windowed_ok: "windowed_reachable checks ops page s \<Longrightarrow> windowed_ok ops (wpool s)"
  using reachable_system_ok by (auto simp: system_ok_def)

lemma live_count_eq:
  assumes "windowed_ok ops p"
  shows "live_sequence_count checks p = Inr (card (dom (sequences p)))"
proof -
  let ?slot = "\<lambda>sid. pool_slot (the (sequences p sid))"
  let ?n = "live_sequence_capacity (config p)"
  note live = windowed_parts(2) [OF assms]
  have inj: "inj_on ?slot (dom (sequences p))"
    using live unfolding live_ok_def inj_on_def dom_def by fastforce
  have "?slot ` dom (sequences p) = {..<?n} - set (live_free_slots p)"
  proof
    show "?slot ` dom (sequences p) \<subseteq> {..<?n} - set (live_free_slots p)" using live_ok_seq [OF live] by auto
    show "{..<?n} - set (live_free_slots p) \<subseteq> ?slot ` dom (sequences p)"
      using live unfolding live_ok_def by (auto simp: image_iff dom_def) (metis option.sel)
  qed
  moreover have free: "set (live_free_slots p) \<subseteq> {..<?n}" "distinct (live_free_slots p)"
    using live_ok_free [OF live] by auto
  ultimately have "card (dom (sequences p)) = ?n - length (live_free_slots p)"
    using card_image [OF inj] card_Diff_subset [OF _ free(1)] by (simp add: distinct_card)
  moreover have "length (live_free_slots p) \<le> ?n" using free card_mono [OF _ free(1)] by (simp add: distinct_card)
  ultimately show ?thesis by (simp add: live_sequence_count_def)
qed

text \<open>
  C5. Ownership in the sliding-window pool. In every state reachable by any interleaving of
  acquire, release, clear, snapshot, restore, handle drops, plans, commits and kernel launches, failed tensor
  operations included: each live slot is either free or owned by exactly one sequence, so no slot
  leaks and none is shared; the live count, which is published as a metric, is the number of sequences; and every live checkpoint
  handle holds a checkpoint slot of its own whose pages are those of its sequence at the snapshot.
\<close>

theorem windowed_slots_exclusive:
  assumes "windowed_reachable checks ops page s"
  shows "(\<forall>b. b < live_sequence_capacity (config (wpool s)) \<longleftrightarrow>
        (b \<in> set (live_free_slots (wpool s))) \<noteq> (\<exists>!sid. \<exists>st. sequences (wpool s) sid = Some st \<and> pool_slot st = b)) \<and>
    live_sequence_count checks (wpool s) = Inr (card (dom (sequences (wpool s)))) \<and>
    (\<forall>(h, contents) \<in> handles s. live_sequence_capacity (config (wpool s)) \<le> ck_pool_slot h \<and>
        slot_pages page (wpool s) (ck_pool_slot h) = contents \<and>
        (\<forall>(h', contents') \<in> handles s. ck_pool_slot h' = ck_pool_slot h \<longrightarrow> h' = h))"
proof (intro conjI)
  have ok: "system_ok ops page s" using assms by (rule reachable_system_ok)
  then have w: "windowed_ok ops (wpool s)" by (simp add: system_ok_def)
  note live = windowed_parts(2) [OF w]
  show "\<forall>b. b < live_sequence_capacity (config (wpool s)) \<longleftrightarrow>
      (b \<in> set (live_free_slots (wpool s))) \<noteq> (\<exists>!sid. \<exists>st. sequences (wpool s) sid = Some st \<and> pool_slot st = b)"
  proof
    fix b
    have "(\<exists>!sid. \<exists>st. sequences (wpool s) sid = Some st \<and> pool_slot st = b) \<longleftrightarrow>
        (\<exists>sid st. sequences (wpool s) sid = Some st \<and> pool_slot st = b)"
      using live unfolding live_ok_def by blast
    moreover have "b \<in> set (live_free_slots (wpool s)) \<Longrightarrow> \<not> (\<exists>sid st. sequences (wpool s) sid = Some st \<and> pool_slot st = b)"
      using live unfolding live_ok_def by blast
    ultimately show "b < live_sequence_capacity (config (wpool s)) \<longleftrightarrow>
        (b \<in> set (live_free_slots (wpool s))) \<noteq> (\<exists>!sid. \<exists>st. sequences (wpool s) sid = Some st \<and> pool_slot st = b)"
      using live unfolding live_ok_def by blast
  qed
  show "live_sequence_count checks (wpool s) = Inr (card (dom (sequences (wpool s))))" using w by (rule live_count_eq)
  show "\<forall>(h, contents) \<in> handles s. live_sequence_capacity (config (wpool s)) \<le> ck_pool_slot h \<and>
        slot_pages page (wpool s) (ck_pool_slot h) = contents \<and>
        (\<forall>(h', contents') \<in> handles s. ck_pool_slot h' = ck_pool_slot h \<longrightarrow> h' = h)"
  proof (clarify, intro conjI)
    fix h k v assume h: "(h, k, v) \<in> handles s"
    note hk = handle_facts [OF ok h]
    show "live_sequence_capacity (config (wpool s)) \<le> ck_pool_slot h"
      using hk ck_contains_range [OF windowed_parts(3) [OF w]] by (fastforce simp: handle_ok_def)
    show "slot_pages page (wpool s) (ck_pool_slot h) = (k, v)" using hk by (simp add: handle_ok_def)
    show "\<forall>(h', contents') \<in> handles s. ck_pool_slot h' = ck_pool_slot h \<longrightarrow> h' = h"
      using ok h unfolding system_ok_def by fastforce
  qed
qed

section \<open>A concrete system\<close>

text \<open>Tensors as their shape and the contents of their blocks, with copying \<open>narrow\<close> and \<open>slice_assign\<close>.\<close>

definition block_tensors :: "(nat list \<times> (nat \<Rightarrow> nat)) candle" where
  "block_tensors = \<lparr>dims = fst, is_bf16 = (\<lambda>_. True), same_device = (\<lambda>_ _. True), is_contiguous = (\<lambda>_. True),
     zeros_bf16 = (\<lambda>d. Inr (d, \<lambda>_. 0)),
     narrow = (\<lambda>(d, f) k s n. Inr (d[k := n], \<lambda>i. f (s + i))),
     slice_assign = (\<lambda>(d, f) rs (d', g). Inr (d, \<lambda>i. if fst (rs ! 1) \<le> i \<and> i < snd (rs ! 1) then g (i - fst (rs ! 1)) else f i))\<rparr>"

lemma block_tensors_laws: "candle_laws block_tensors snd"
  by (auto simp: candle_laws_def block_tensors_def)

lemma sample_config_fields [simp]:
  "live_sequence_capacity sample_config = 2" "checkpoint_capacity sample_config = 1" "max_window sample_config = 20"
  "max_query_len sample_config = 4" "page_size sample_config = 8" "pages_per_sequence sample_config = 4"
  by (simp_all add: sample_config_def)

lemma block_tensors_simps [simp]:
  "dims block_tensors t = fst t" "is_bf16 block_tensors t" "same_device block_tensors t u" "is_contiguous block_tensors t"
  "zeros_bf16 block_tensors d = Inr (d, \<lambda>_. 0)"
  by (simp_all add: block_tensors_def)

lemma sample_config_ok: "config_ok sample_config"
  using new_with_capacities_config [OF sample_config_new] by simp

definition sample_pool :: "(nat list \<times> (nat \<Rightarrow> nat)) WindowedKvPool" where
  "sample_pool = \<lparr>config = sample_config, key_cache = (pool_shape sample_config, \<lambda>_. 0),
     value_cache = (pool_shape sample_config, \<lambda>_. 0), live_free_slots = [1, 0],
     checkpoint_slots = \<lparr>first_pool_slot = 2, active_generations = [None], ck_free_slots = [2], ck_next_generation = 0\<rparr>,
     slots_ptr = 5, sequences = Map.empty, next_generation = 0\<rparr>"

lemma sample_pool_new: "windowed_pool_new True block_tensors 5 sample_config = okay sample_pool"
  by (simp add: windowed_pool_new_def cache_shape_eq [OF sample_config_ok] candle_result_def from_tensors_def
      sample_pool_def checkpoint_slots_new_def ck_publish_metrics_def publish_slot_metrics_def
      publish_live_slot_metrics_def live_sequence_count_def int_max_defs upt_rec Let_def)

definition sample_system :: "(nat list \<times> (nat \<Rightarrow> nat), nat) windowed_system" where
  "sample_system = \<lparr>wpool = sample_pool, handles = {}, plans = {}\<rparr>"

lemma sample_reachable: "windowed_reachable True block_tensors snd sample_system"
  unfolding windowed_reachable_def
proof (rule reach_init)
  show "windowed_init True block_tensors sample_system"
    unfolding windowed_init_def sample_system_def using sample_config_new sample_pool_new by blast
qed

definition sample_state :: WindowedKvSequenceState where
  "sample_state = \<lparr>seq_id = 7, pool_slot = 0, origin_pos = 0, valid_start_pos = 0, next_committed_pos = 0, generation = 0\<rparr>"

lemma sample_acquire: "acquire_at True 7 0 sample_pool =
  Inr (Inr sample_state, sample_pool\<lparr>live_free_slots := [1], next_generation := 1, sequences := [7 \<mapsto> sample_state]\<rparr>)"
  by (simp add: acquire_at_def sample_pool_def reserve_live_slot_def checked_add_def int_max_defs vec_pop_def
      publish_live_slot_metrics_def live_sequence_count_def publish_slot_metrics_def origin_for_def
      sample_state_def Let_def)

definition acquired_system :: "(nat list \<times> (nat \<Rightarrow> nat), nat) windowed_system" where
  "acquired_system = sample_system\<lparr>wpool :=
     sample_pool\<lparr>live_free_slots := [1], next_generation := 1, sequences := [7 \<mapsto> sample_state]\<rparr>\<rparr>"

lemma reachable_move:
  assumes "windowed_reachable checks ops page s" and "candle_laws ops page" and "windowed_step checks ops page s l t"
  shows "windowed_reachable checks ops page t"
  using assms unfolding windowed_reachable_def windowed_move_def by (blast intro: reach_step)

lemma acquired_reachable: "windowed_reachable True block_tensors snd acquired_system"
proof (rule reachable_move [OF sample_reachable block_tensors_laws])
  show "windowed_step True block_tensors snd sample_system (WAcquire 7 0) acquired_system"
    unfolding acquired_system_def using sample_acquire by (intro w_acquire) (auto simp: sample_system_def)
qed

theorem windowed_slots_exclusive_witness:
  "live_sequence_count True (wpool acquired_system) = Inr 1 \<and>
   0 \<notin> set (live_free_slots (wpool acquired_system)) \<and>
   (\<exists>!sid. \<exists>st. sequences (wpool acquired_system) sid = Some st \<and> pool_slot st = 0)"
proof -
  have a: "sequences (wpool acquired_system) = [7 \<mapsto> sample_state]" "live_free_slots (wpool acquired_system) = [1]"
    "live_sequence_capacity (config (wpool acquired_system)) = 2"
    by (simp_all add: acquired_system_def sample_pool_def)
  note w = windowed_slots_exclusive [OF acquired_reachable]
  have "\<exists>!sid. \<exists>st. sequences (wpool acquired_system) sid = Some st \<and> pool_slot st = 0"
    using w [THEN conjunct1, THEN spec, of 0] unfolding a by simp
  moreover have "live_sequence_count True (wpool acquired_system) = Inr 1"
    using w [THEN conjunct2, THEN conjunct1] unfolding a by simp
  ultimately show ?thesis using a(2) by simp
qed

section \<open>Checkpoints\<close>

lemma yields_all: "(\<And>x. Q x) \<Longrightarrow> yields m Q"
  by (cases m) simp_all

lemma yields_constI: "P \<Longrightarrow> yields m (\<lambda>_. P)"
  by (cases m) simp_all

lemma reserve_live_slot_error:
  "yields (reserve_live_slot checks p) (\<lambda>(r, q). \<forall>e. r = Inl e \<longrightarrow> e = GenerationOverflow \<or> (\<exists>n. e = PoolCapacityExhausted n))"
  unfolding reserve_live_slot_def Let_def by (auto intro!: yields_all split: option.split prod.split)

lemma copy_pool_slot_error:
  "yields (copy_pool_slot checks ops a b p) (\<lambda>(r, q). \<forall>e. r = Inl e \<longrightarrow> e = SlotsAlias \<or> (\<exists>m. e = CandleError m))"
  unfolding copy_pool_slot_def Let_def by (auto intro!: yields_all split: sum.split)

lemma restore_error:
  assumes "slots_ptr p = ck_slots_ptr h" and "ck_contains (checkpoint_slots p) (ck_pool_slot h) (ck_generation h)"
  shows "yields (restore_sequence checks ops sid h p) (\<lambda>(r, q). r \<noteq> Inl StaleCheckpoint \<and> r \<noteq> Inl DifferentPool)"
  using assms unfolding restore_sequence_def try_state_def Let_def
  by (auto intro!: yields_mono [OF reserve_live_slot_error] simp: prod.case_distrib split: sum.split)
    (rule yields_mono [OF copy_pool_slot_error], auto intro!: yields_constI split: sum.split)

text \<open>
  C6. Snapshot and restore of a sliding window is a round trip. Take a checkpoint of a sequence in
  a reachable state and let any steps follow, by the same and by other sequences, kernel launches included, as long as
  the handle is not dropped. Restoring it never panics and is never refused as stale or foreign, and if it
  returns a sequence, its pages are exactly those the original sequence had at the snapshot, it is at the same
  positions, it is query-ready, and no page of any other live sequence has changed.
\<close>

theorem snapshot_restore_roundtrip:
  assumes "candle_laws ops page" and "windowed_reachable checks ops page s" and "sequences (wpool s) sid = Some st"
    and "snapshot_sequence checks ops sid (wpool s) = Inr (Inr h, p)"
    and "contents = slot_pages page (wpool s) (pool_slot st)"
    and "windowed_later checks ops page (s\<lparr>wpool := p, handles := insert (h, contents) (handles s)\<rparr>) t"
    and "(h, contents) \<in> handles t"
  shows "\<exists>r q. restore_sequence checks ops sid' h (wpool t) = Inr (r, q) \<and> r \<noteq> Inl StaleCheckpoint \<and> r \<noteq> Inl DifferentPool \<and>
    (\<forall>st'. r = Inr st' \<longrightarrow>
       slot_pages page q (pool_slot st') = contents \<and> next_committed_pos st' = next_committed_pos st \<and>
       origin_pos st' = origin_pos st \<and> valid_start_pos st' = valid_start_pos st \<and> sequence_query_ready q sid' \<and>
       (\<forall>sid'' st''. sequences (wpool t) sid'' = Some st'' \<longrightarrow>
          slot_pages page q (pool_slot st'') = slot_pages page (wpool t) (pool_slot st'')))"
proof -
  have s: "system_ok ops page s" using assms(2) by (rule reachable_system_ok)
  then have sw: "windowed_ok ops (wpool s)" by (simp add: system_ok_def)
  have t: "system_ok ops page t"
    using later_system_ok [OF snapshot_step_ok [OF s assms(1,4,3)]] assms(5,6) by simp
  then have w: "windowed_ok ops (wpool t)" by (simp add: system_ok_def)
  note live = windowed_parts(2) [OF w]
  have hk: "handle_ok page (wpool t) (h, contents)" using handle_facts [OF t assms(7)] .
  have fields: "ck_next_committed_pos h = next_committed_pos st" "ck_origin_pos h = origin_pos st"
    "ck_valid_start_pos h = valid_start_pos st"
    using snapshot_sequence_effect [OF sw assms(1), of checks sid] assms(3,4) by fastforce+
  have "(h, contents) \<in> handles t \<or> ck_slots_ptr h \<noteq> slots_ptr (wpool t)" using assms(7) by simp
  note r = handle_restorable [OF t this]
  have known: "restore_sequence checks ops sid' h (wpool t) \<noteq> Inr (Inl e, q)" if "e \<in> {StaleCheckpoint, DifferentPool}" for e q
    using restore_error [of "wpool t" h checks ops sid'] hk that by (auto simp: handle_ok_def)
  from w assms(1) r show ?thesis
  proof (cases rule: restore_sequence_effect [where checks = checks and sid = sid'])
    case (failed e k v g)
    then show ?thesis using known by (metis insertCI sum.simps(4))
  next
    case (restored st' b rest k v q)
    have "pool_slot st'' \<noteq> b" if "sequences (wpool t) sid'' = Some st''" for sid'' st''
      using live_ok_seq [OF live that] restored(2) by auto
    then show ?thesis
      using restored hk fields
      by (intro exI [of _ "Inr st'"] exI [of _ q]) (simp add: handle_ok_def sequence_query_ready_def)
  qed
qed

lemma sample_tensor_ops [simp]:
  "narrow block_tensors (d, f) k s n = Inr (d[k := n], \<lambda>i. f (s + i))"
  "slice_assign block_tensors (d, f) rs (d', g) =
     Inr (d, \<lambda>i. if fst (rs ! 1) \<le> i \<and> i < snd (rs ! 1) then g (i - fst (rs ! 1)) else f i)"
  by (simp_all add: block_tensors_def)

lemma acquired_parts:
  "windowed_ok block_tensors (wpool acquired_system)" "sequences (wpool acquired_system) 7 = Some sample_state"
  "pool_slot sample_state = 0" "valid_start_pos sample_state = 0" "origin_pos sample_state = 0" "config (wpool acquired_system) = sample_config"
  using reachable_windowed_ok [OF acquired_reachable]
  by (simp_all add: acquired_system_def sample_pool_def sample_state_def)

lemma acquired_snapshot:
  "\<exists>h p. snapshot_sequence True block_tensors 7 (wpool acquired_system) = Inr (Inr h, p)"
  by (simp add: snapshot_sequence_def acquired_system_def sample_pool_def sample_state_def ck_reserve_def checked_add_def
      int_max_defs vec_pop_def ck_publish_metrics_def publish_slot_metrics_def copy_pool_slot_def Let_def pool_shape_def)

theorem snapshot_restore_roundtrip_witness:
  "\<exists>h p r q. snapshot_sequence True block_tensors 7 (wpool acquired_system) = Inr (Inr h, p) \<and>
     restore_sequence True block_tensors 8 h p = Inr (r, q) \<and> r \<noteq> Inl StaleCheckpoint"
proof -
  obtain h p where hp: "snapshot_sequence True block_tensors 7 (wpool acquired_system) = Inr (Inr h, p)"
    using acquired_snapshot by blast
  let ?c = "slot_pages snd (wpool acquired_system) (pool_slot sample_state)"
  let ?t = "acquired_system\<lparr>wpool := p, handles := insert (h, ?c) (handles acquired_system)\<rparr>"
  have "windowed_later True block_tensors snd ?t ?t" by (simp add: windowed_later_def reach_init)
  then have "\<exists>r q. restore_sequence True block_tensors 8 h (wpool ?t) = Inr (r, q) \<and> r \<noteq> Inl StaleCheckpoint"
    using snapshot_restore_roundtrip [OF block_tensors_laws acquired_reachable acquired_parts(2) hp refl, of ?t 8] by auto
  then show ?thesis using hp by auto
qed

section \<open>Context writes\<close>

lemma commit_needs_claim:
  assumes "commit_context w p = Inr (Inr u, q)"
  shows "\<exists>st. sequences p (cw_seq_id w) = Some st \<and> generation st = cw_generation w \<and>
    next_committed_pos st = cw_expected_next w"
  using assms by (auto simp: commit_context_def split: option.splits if_splits)

lemma commit_no_claim:
  "(cw_seq_id w, cw_generation w) \<notin> live_claims s \<Longrightarrow> \<exists>e. commit_context w (wpool s) = Inr (Inl e, wpool s)"
  by (auto simp: commit_context_def live_claims_def split: option.splits)

text \<open>
  C7. A context write is committed at most for the sequence it was planned for. After the
  sequence is released, whatever follows, re-acquisition of the same sequence id and reuse of its pool slot included,
  the commit of the old plan is refused and changes nothing. A plan that is committed cannot be
  committed a second time in a row either.
\<close>

theorem stale_plan_refused:
  assumes "candle_laws ops page" and "windowed_reachable checks ops page s"
    and "plan_context_write checks (wpool s) sid n = okay w"
  shows "(\<exists>p. release_sequence checks sid (wpool s) = Inr (True, p) \<and>
      (\<forall>t. windowed_later checks ops page (s\<lparr>wpool := p\<rparr>) t \<longrightarrow>
         (\<exists>e. commit_context w (wpool t) = Inr (Inl e, wpool t)))) \<and>
    (\<exists>p. commit_context w (wpool s) = Inr (Inr (), p) \<and>
      commit_context w p = Inr (Inl (StaleContextWrite sid), p))"
proof -
  have s: "system_ok ops page s" using assms(2) by (rule reachable_system_ok)
  then have ok: "windowed_ok ops (wpool s)" by (simp add: system_ok_def)
  obtain st where st: "sequences (wpool s) sid = Some st" "w = planned (config (wpool s)) st n" "0 < n"
    using assms(3) plan_context_write_eq [OF ok, of checks sid n] by (auto split: if_splits option.splits)
  have w: "cw_seq_id w = sid" "cw_generation w = generation st" "cw_pool_slot w = pool_slot st"
    "cw_expected_next w = next_committed_pos st" "cw_next_committed_pos w = next_committed_pos st + n"
    using st live_ok_seq [OF windowed_parts(2) [OF ok] st(1)] by (simp_all add: planned_def Let_def)
  define p where "p = (wpool s)\<lparr>sequences := (sequences (wpool s))(sid := None),
      live_free_slots := live_free_slots (wpool s) @ [pool_slot st]\<rparr>"
  have rel: "release_sequence checks sid (wpool s) = Inr (True, p)"
    using release_sequence_effect [OF ok] st(1) by (simp add: p_def)
  have p: "system_ok ops page (s\<lparr>wpool := p\<rparr>)" using release_step_ok [OF s rel] .
  have gone: "(sid, generation st) \<notin> live_claims (s\<lparr>wpool := p\<rparr>)" by (simp add: live_claims_def p_def)
  have old: "generation st < live_clock (s\<lparr>wpool := p\<rparr>)"
    using live_ok_seq [OF windowed_parts(2) [OF ok] st(1)] by (simp add: p_def)
  have "\<exists>e. commit_context w (wpool t) = Inr (Inl e, wpool t)" if "windowed_later checks ops page (s\<lparr>wpool := p\<rparr>) t" for t
    using wlive.gone_stays_gone [OF p gone old] that commit_no_claim [of w t] w by (simp add: windowed_later_def)
  moreover have "\<exists>p. commit_context w (wpool s) = Inr (Inr (), p) \<and> commit_context w p = Inr (Inl (StaleContextWrite sid), p)"
    using st(1,3) w by (auto simp: commit_context_def)
  ultimately show ?thesis using rel by blast
qed

theorem stale_plan_refused_witness:
  "\<exists>w p e. plan_context_write True (wpool acquired_system) 7 3 = okay w \<and>
     release_sequence True 7 (wpool acquired_system) = Inr (True, p) \<and>
     commit_context w p = Inr (Inl e, p)"
proof -
  obtain w where w: "plan_context_write True (wpool acquired_system) 7 3 = okay w"
    using plan_context_write_eq [OF acquired_parts(1), of True 7 3] acquired_parts(2)
    by (auto simp: sample_state_def int_max_defs)
  have "windowed_later True block_tensors snd x x" for x by (simp add: windowed_later_def reach_init)
  then show ?thesis
    using stale_plan_refused [OF block_tensors_laws acquired_reachable w] w by fastforce
qed

section \<open>Scratch rows\<close>

lemma scratch_table_lookup:
  assumes c: "config_ok c" and org: "origin_pos st = origin_of c (next_committed_pos st)"
    and pos: "origin_pos st \<le> pos" "pos < next_committed_pos st + n"
  shows "(pos - origin_pos st) div page_size c < length (row_block_table (scratch_of c st n)) \<and>
    row_block_table (scratch_of c st n) ! ((pos - origin_pos st) div page_size c) = ring_block c (pool_slot st) (pos div page_size c)"
proof -
  obtain w0 where w0: "origin_pos st = w0 * page_size c" unfolding org origin_of_def by blast
  obtain d where d: "pos = d + w0 * page_size c" using pos(1) w0 by (metis add.commute le_Suc_ex)
  then have i: "(pos - origin_pos st) div page_size c = d div page_size c" "pos div page_size c = w0 + d div page_size c"
    using w0 page_size_pos [OF c] by simp_all
  have "pos div page_size c \<le> (next_committed_pos st + n - 1) div page_size c" using pos(2) by (intro div_le_mono) linarith
  moreover have "origin_pos st div page_size c = w0" using w0 page_size_pos [OF c] by simp
  ultimately show ?thesis
    unfolding i by (simp add: scratch_of_def less_Suc_eq_le nth_append del: upt_Suc)
qed

lemma window_slots_distinct:
  assumes c: "config_ok c" and fits: "stop \<le> start + ring_len c"
  shows "inj_on (ring_slot c slot) {start..<stop}"
proof (rule inj_onI)
  fix x y assume "x \<in> {start..<stop}" "y \<in> {start..<stop}"
  then have "x < y + ring_len c" "y < x + ring_len c" using fits by auto
  then show "ring_slot c slot x = ring_slot c slot y \<Longrightarrow> x = y" using ring_slot_inj [OF c] by blast
qed

text \<open>
  C8. The attention view of a query-ready sequence. In every reachable state a scratch row for a query
  of admissible length is built without error or panic (the check that it fits the page ring never fires); its context reaches
  back at least the longest attention window; every position from the origin to the end of the query is
  found through the block table at exactly its physical slot; and these slots are pairwise distinct, so
  the query tokens, which go to the slots of the slot mapping, overwrite nothing inside the window.
\<close>

theorem scratch_row_covers_window:
  assumes "windowed_reachable checks ops page s" and "sequences (wpool s) (query_seq_id q) = Some st"
    and "valid_start_pos st \<le> origin_pos st" and "0 < query_len q" and "query_len q \<le> max_query_len (config (wpool s))"
    and "next_committed_pos st + query_len q \<le> usize_max"
  shows "\<exists>row. scratch_row checks (wpool s) q = okay row \<and>
    row_origin_pos row \<le> next_committed_pos st - (max_window (config (wpool s)) - 1) \<and>
    row_origin_pos row + row_kv_len row = next_committed_pos st + query_len q \<and>
    length (row_block_table row) \<le> pages_per_sequence (config (wpool s)) \<and>
    (\<forall>pos. row_origin_pos row \<le> pos \<and> pos < next_committed_pos st + query_len q \<longrightarrow>
      (let i = (pos - row_origin_pos row) div page_size (config (wpool s)) in
       i < length (row_block_table row) \<and>
       physical_slot checks (config (wpool s)) (pool_slot st) pos =
         Inr (int (row_block_table row ! i * page_size (config (wpool s)) + pos mod page_size (config (wpool s)))))) \<and>
    row_slot_mapping row = map (\<lambda>pos. int (ring_slot (config (wpool s)) (pool_slot st) pos))
      [next_committed_pos st..<next_committed_pos st + query_len q] \<and>
    inj_on (ring_slot (config (wpool s)) (pool_slot st)) {row_origin_pos row..<next_committed_pos st + query_len q}"
proof -
  have ok: "windowed_ok ops (wpool s)" using assms(1) by (rule reachable_windowed_ok)
  define c where "c = config (wpool s)"
  define row where "row = scratch_of c st (query_len q)"
  define stop where "stop = next_committed_pos st + query_len q"
  have c: "config_ok c" unfolding c_def using windowed_parts(1) [OF ok] .
  have org: "origin_pos st = origin_of c (next_committed_pos st)"
    using live_ok_seq [OF windowed_parts(2) [OF ok] assms(2)] by (simp add: state_ok_def c_def)
  have slot: "pool_slot st < total_capacity c" unfolding c_def using live_slot_capacity [OF ok assms(2)] .
  have q: "0 < query_len q" "query_len q \<le> max_query_len c" using assms(4,5) by (simp_all add: c_def)
  have run: "scratch_row checks (wpool s) q = okay row"
    using scratch_row_eq [OF ok assms(2,4,5), of checks] assms(3,6) by (simp add: row_def c_def)
  have reach: "origin_pos st \<le> next_committed_pos st - (max_window c - 1)" unfolding org by (rule origin_of_le)
  have fits: "stop \<le> origin_pos st + ring_len c" using window_fits [OF c q(2)] by (simp add: stop_def org)
  have lookup: "(pos - origin_pos st) div page_size c < length (row_block_table row) \<and>
      row_block_table row ! ((pos - origin_pos st) div page_size c) = ring_block c (pool_slot st) (pos div page_size c)"
    if "origin_pos st \<le> pos" "pos < stop" for pos
    unfolding row_def using that by (intro scratch_table_lookup [OF c org]) (simp_all add: stop_def)
  have inj: "inj_on (ring_slot c (pool_slot st)) {origin_pos st..<stop}" by (rule window_slots_distinct [OF c fits])
  have addr: "physical_slot checks c (pool_slot st) pos =
      Inr (int (row_block_table row ! ((pos - origin_pos st) div page_size c) * page_size c + pos mod page_size c))"
    if "origin_pos st \<le> pos" "pos < stop" for pos
    using lookup [OF that] physical_slot_eq(1) [OF c slot] by (simp only: ring_slot_block)
  have fields: "row_origin_pos row = origin_pos st" "row_kv_len row = stop - origin_pos st"
    "row_slot_mapping row = map (\<lambda>pos. int (ring_slot c (pool_slot st) pos)) [next_committed_pos st..<stop]"
    by (simp_all add: row_def scratch_of_def stop_def)
  have width: "length (row_block_table row) \<le> pages_per_sequence c"
    using ring_table_width [OF c q, of "next_committed_pos st"] by (simp add: row_def scratch_of_def org del: upt_Suc)
  have "origin_pos st + row_kv_len row = stop" using reach by (simp add: fields stop_def)
  then show ?thesis
    using run reach width lookup addr inj
    unfolding c_def [symmetric] stop_def [symmetric] Let_def by (intro exI [of _ row]) (simp add: fields)
qed

theorem scratch_row_covers_window_witness:
  "\<exists>row. scratch_row True (wpool acquired_system) \<lparr>query_seq_id = 7, query_len = 3\<rparr> = okay row \<and>
     row_origin_pos row + row_kv_len row = 3 \<and> length (row_block_table row) \<le> 4"
  using scratch_row_covers_window [OF acquired_reachable, of "\<lparr>query_seq_id = 7, query_len = 3\<rparr>" sample_state] acquired_parts
  by (auto simp: sample_state_def int_max_defs)

section \<open>Batches\<close>

definition prefix_sums :: "nat list \<Rightarrow> nat list" where
  "prefix_sums xs = map (\<lambda>i. sum_list (take i xs)) [0..<length xs + 1]"

lemma prefix_sums_snoc: "prefix_sums (xs @ [x]) = prefix_sums xs @ [sum_list xs + x]"
  by (simp add: prefix_sums_def)

lemma prefix_sums_last: "prefix_sums xs \<noteq> [] \<and> last (prefix_sums xs) = sum_list xs"
  by (simp add: prefix_sums_def)

definition padded_table :: "nat \<Rightarrow> WindowedKvBatchRow \<Rightarrow> nat list" where
  "padded_table width row = row_block_table row @ replicate (width - length (row_block_table row)) 0"

definition layout :: "nat \<Rightarrow> WindowedKvBatchRow list \<Rightarrow> batch_acc" where
  "layout width rows = (concat (map (padded_table width) rows), concat (map row_slot_mapping rows),
     map row_query_len rows, map row_kv_len rows, prefix_sums (map row_query_len rows), prefix_sums (map row_kv_len rows))"

lemma push_cumulative_okay:
  "push_cumulative_len name len (prefix_sums xs) = okay ys \<Longrightarrow>
     ys = prefix_sums (xs @ [len]) \<and> sum_list xs + len \<le> u32_max"
  using prefix_sums_last [of xs]
  by (auto simp: push_cumulative_len_def try_then_ok Let_def checked_add_def prefix_sums_snoc split: if_splits)

lemma push_row_okay:
  assumes "push_row width row (layout width rows) = okay acc"
  shows "acc = layout width (rows @ [row]) \<and> sum_list (map row_query_len (rows @ [row])) \<le> u32_max \<and>
    sum_list (map row_kv_len (rows @ [row])) \<le> u32_max"
  using assms
  by (auto simp: push_row_def layout_def try_then_ok padded_table_def dest!: push_cumulative_okay)

lemma push_rows_okay:
  "push_rows width rest (layout width rows) = okay acc \<Longrightarrow>
     sum_list (map row_query_len rows) \<le> u32_max \<and> sum_list (map row_kv_len rows) \<le> u32_max \<Longrightarrow>
     acc = layout width (rows @ rest) \<and> sum_list (map row_query_len (rows @ rest)) \<le> u32_max \<and>
     sum_list (map row_kv_len (rows @ rest)) \<le> u32_max"
proof (induction rest arbitrary: rows)
  case (Cons r rest)
  then obtain acc' where "push_row width r (layout width rows) = okay acc'" "push_rows width rest acc' = okay acc"
    by (auto simp: try_then_ok)
  then show ?case using Cons.IH [of "rows @ [r]"] push_row_okay by fastforce
qed simp

lemma scratch_rows_from_okay:
  "scratch_rows_from checks p seen qs = okay rows \<Longrightarrow>
     distinct (map query_seq_id qs) \<and> set (map query_seq_id qs) \<inter> seen = {} \<and>
     list_all2 (\<lambda>q row. scratch_row checks p q = okay row) qs rows"
  by (induction qs arbitrary: seen rows) (fastforce simp: try_then_ok split: if_splits)+

text \<open>
  The flat layout of a scratch batch. If a batch is built, the sequences of its queries are pairwise
  different, it has one row per query in order, the block tables are the rows' tables padded with zeros to one common width
  of at least one, the slot mapping is the concatenation of the rows' mappings, and the cumulative lengths are
  the prefix sums of the query and context lengths, starting at zero and within 32 bits.
\<close>

theorem scratch_batch_layout:
  assumes "scratch_batch checks p qs = okay b"
  shows "distinct (map query_seq_id qs) \<and>
    list_all2 (\<lambda>q row. scratch_row checks p q = okay row) qs (batch_rows b) \<and>
    0 < block_table_width b \<and> (\<forall>row \<in> set (batch_rows b). length (padded_table (block_table_width b) row) = block_table_width b) \<and>
    batch_block_tables b = concat (map (padded_table (block_table_width b)) (batch_rows b)) \<and>
    batch_slot_mapping b = concat (map row_slot_mapping (batch_rows b)) \<and>
    cumulative_query_lens b = prefix_sums (map row_query_len (batch_rows b)) \<and>
    cumulative_kv_lens b = prefix_sums (map row_kv_len (batch_rows b)) \<and>
    (\<forall>n \<in> set (cumulative_query_lens b) \<union> set (cumulative_kv_lens b). n \<le> u32_max)"
proof -
  obtain rows where rows: "scratch_rows checks p qs = okay rows"
    "batch_from_rows rows (max (max_of (map (\<lambda>row. length (row_block_table row)) rows)) 1) None = okay b"
    using assms by (auto simp: scratch_batch_def try_then_ok)
  define width where "width = max (max_of (map (\<lambda>row. length (row_block_table row)) rows)) 1"
  have fits: "\<not> (\<exists>row \<in> set rows. width < length (row_block_table row))"
    and run: "try_then (push_rows width rows ([], [], [], [], [0], [0])) (\<lambda>(tables, slots, qlens, klens, cq, ck).
        okay \<lparr>batch_rows = rows, block_table_width = width, batch_block_tables = tables,
            batch_slot_mapping = slots, batch_query_lens = qlens, batch_kv_lens = klens,
            cumulative_query_lens = cq, cumulative_kv_lens = ck, batch_max_query_len = max_of qlens,
            batch_max_kv_len = max_of klens\<rparr>) = okay b"
    using rows(2) unfolding width_def [symmetric] batch_from_rows_def by (simp_all split: if_splits)
  have "layout width [] = ([], [], [], [], [0], [0])" by (simp add: layout_def prefix_sums_def)
  then have sums: "sum_list (map row_query_len rows) \<le> u32_max" "sum_list (map row_kv_len rows) \<le> u32_max"
    and acc: "push_rows width rows ([], [], [], [], [0], [0]) = okay (layout width rows)"
    using run push_rows_okay [of width rows "[]"] by (auto simp: try_then_ok int_max_defs)
  have qs: "distinct (map query_seq_id qs)" "list_all2 (\<lambda>q row. scratch_row checks p q = okay row) qs rows"
    using rows(1) scratch_rows_from_okay [of checks p "{}" qs rows] by (auto simp: scratch_rows_def split: if_splits)
  have small: "n \<le> u32_max" if "n \<in> set (prefix_sums xs)" "sum_list xs \<le> u32_max" for n xs
    using that by (auto simp: prefix_sums_def) (metis append_take_drop_id le_add1 order_trans sum_list_append)
  show ?thesis
    using run fits qs small [OF _ sums(1)] small [OF _ sums(2)]
    by (auto simp: acc layout_def padded_table_def not_less width_def [symmetric]) (simp add: width_def)
qed

theorem scratch_batch_layout_witness:
  "\<exists>b. scratch_batch True (wpool acquired_system) [\<lparr>query_seq_id = 7, query_len = 3\<rparr>] = okay b \<and>
     cumulative_query_lens b = [0, 3] \<and> batch_slot_mapping b = [0, 1, 2]"
proof -
  let ?q = "\<lparr>query_seq_id = 7, query_len = 3\<rparr>"
  have row: "scratch_row True (wpool acquired_system) ?q = okay (scratch_of sample_config sample_state 3)"
    using scratch_row_eq [OF acquired_parts(1), of ?q sample_state True] acquired_parts by (simp add: sample_state_def int_max_defs)
  then have "\<exists>b. scratch_batch True (wpool acquired_system) [?q] = okay b"
    by (simp add: scratch_batch_def scratch_rows_def batch_from_rows_def push_row_def push_cumulative_len_def
        scratch_of_def sample_state_def int_max_defs checked_add_def max_of_def Let_def)
  then obtain b where b: "scratch_batch True (wpool acquired_system) [?q] = okay b" by blast
  note l = scratch_batch_layout [OF b]
  then have "batch_rows b = [scratch_of sample_config sample_state 3]" using row by (auto simp: list_all2_Cons1)
  then show ?thesis
    using b l by (simp add: prefix_sums_def scratch_of_def sample_state_def ring_slot_def ring_len_def upt_rec)
qed

end
