(* ===== verification/Prompt_Chunks.thy ===== *)
theory Prompt_Chunks
  imports Block_Hash
begin

text \<open>
  The chunking of a prompt for prefill (\<open>pipeline/prompt_chunks.rs\<close>) with the replay clamp of
  \<open>speculative/target.rs\<close>: components of overlapping multimodal spans, the reusable recurrent boundary,
  the chunk loop, and the grouping of chunks into one forward. The chunk loop may run
  forever in the source, so it is a partial function; that it returns is proved.
\<close>

section \<open>Replay of a cached prefix\<close>

datatype SpeculativePrefixReplay = NotRequired | Suffix nat | Full

fun replay_tokens :: "SpeculativePrefixReplay \<Rightarrow> nat \<Rightarrow> nat" where
  "replay_tokens NotRequired cached = 0"
| "replay_tokens (Suffix tokens) cached = min tokens cached"
| "replay_tokens Full cached = cached"

record SpeculativePrefixCheckpointPolicy =
  fallback_replay :: SpeculativePrefixReplay
  text_auxiliary_state :: bool

definition uses_auxiliary_state :: "SpeculativePrefixCheckpointPolicy \<Rightarrow> nat \<Rightarrow> bool" where
  "uses_auxiliary_state policy modality_signature \<longleftrightarrow> text_auxiliary_state policy \<and> modality_signature = 0"

definition replay_for :: "SpeculativePrefixCheckpointPolicy \<Rightarrow> nat \<Rightarrow> SpeculativePrefixReplay" where
  "replay_for policy modality_signature =
     (if uses_auxiliary_state policy modality_signature then NotRequired else fallback_replay policy)"

definition round_down :: "nat \<Rightarrow> nat \<Rightarrow> nat res" where
  "round_down n bs = (if bs = 0 then Inl DivideByZero else Inr (n - n mod bs))"

fun clamp_speculative_prefix_cache_hit :: "nat \<Rightarrow> nat \<Rightarrow> SpeculativePrefixReplay \<Rightarrow> nat res" where
  "clamp_speculative_prefix_cache_hit cached bs NotRequired = Inr cached"
| "clamp_speculative_prefix_cache_hit cached bs (Suffix tokens) = round_down (cached - tokens) bs"
| "clamp_speculative_prefix_cache_hit cached bs Full = round_down 0 bs"

section \<open>Chunk groups\<close>

record PromptChunkPlan =
  chunk_start :: nat
  chunk_end :: nat
  chunk_policy :: MultimodalAttentionPolicy

fun chunk_at :: "nat \<times> PromptChunkPlan list \<Rightarrow> (PromptChunkPlan \<times> bool) option" where
  "chunk_at (i, plan) = (if i < length plan then Some (plan ! i, i + 1 = length plan) else None)"

definition chunk_query_len :: "bool \<Rightarrow> PromptChunkPlan \<Rightarrow> nat res" where
  "chunk_query_len checks c = sub_plain checks usize_max (chunk_end c) (chunk_start c)"

text \<open>The \<open>filter_map\<close> over the enumerated plans; the query length is only computed when it is compared.\<close>

fun active_group ::
    "bool \<Rightarrow> bool \<Rightarrow> MultimodalAttentionPolicy \<Rightarrow> bool \<Rightarrow> nat \<Rightarrow> nat \<Rightarrow> (nat \<times> PromptChunkPlan list) list \<Rightarrow> nat list res" where
  "active_group checks uniform policy final qlen idx [] = Inr []"
| "active_group checks uniform policy final qlen idx (p # ps) =
     (case chunk_at p of
        None \<Rightarrow> active_group checks uniform policy final qlen (idx + 1) ps
      | Some (c, is_last) \<Rightarrow>
          if chunk_policy c = policy \<and> is_last = final then
            and_then (if uniform then and_then (chunk_query_len checks c) (\<lambda>l. Inr (l = qlen)) else Inr True) (\<lambda>keep.
            and_then (active_group checks uniform policy final qlen (idx + 1) ps) (\<lambda>rest.
            Inr (if keep then idx # rest else rest)))
          else active_group checks uniform policy final qlen (idx + 1) ps)"

definition next_prompt_chunk_group ::
    "bool \<Rightarrow> nat list \<Rightarrow> PromptChunkPlan list list \<Rightarrow> bool \<Rightarrow> (nat list \<times> MultimodalAttentionPolicy \<times> bool) option res" where
  "next_prompt_chunk_group checks plan_indices chunk_plans uniform =
     (let ps = zip plan_indices chunk_plans in
      case List.map_filter chunk_at ps of
        [] \<Rightarrow> Inr None
      | (c, final) # _ \<Rightarrow>
          and_then (chunk_query_len checks c) (\<lambda>qlen.
          and_then (active_group checks uniform (chunk_policy c) final qlen 0 ps) (\<lambda>active.
          Inr (Some (active, chunk_policy c, final)))))"

section \<open>Components of overlapping spans\<close>

definition max_opt :: "nat list \<Rightarrow> nat option" where
  "max_opt xs = (if xs = [] then None else Some (Max (set xs)))"

definition min_opt :: "nat list \<Rightarrow> nat option" where
  "min_opt xs = (if xs = [] then None else Some (Min (set xs)))"

definition unwrap_or :: "'a \<Rightarrow> 'a option \<Rightarrow> 'a" where
  "unwrap_or d x = (case x of None \<Rightarrow> d | Some y \<Rightarrow> y)"

text \<open>
  The two component functions of the source differ only in the spans they select; \<open>extended_end\<close> is
  the body of their loop.
\<close>

definition extended_end :: "(MultimodalSpan \<Rightarrow> bool) \<Rightarrow> MultimodalSpan list \<Rightarrow> nat \<Rightarrow> nat \<Rightarrow> nat \<Rightarrow> nat" where
  "extended_end sel features pos total_len stop =
     min (unwrap_or stop (max_opt (map span_end
       (filter (\<lambda>f. sel f \<and> offset f < stop \<and> pos < span_end f) features)))) total_len"

lemma max_opt_Some: "max_opt xs = Some m \<longleftrightarrow> m \<in> set xs \<and> (\<forall>x \<in> set xs. x \<le> m)"
  by (cases "xs = []") (auto simp: max_opt_def intro!: Max_eqI)

lemma max_opt_None [simp]: "max_opt xs = None \<longleftrightarrow> xs = []"
  by (simp add: max_opt_def)

lemma opt_Nil [simp]: "max_opt [] = None" "min_opt [] = None"
  by (simp_all add: max_opt_def min_opt_def)

lemma min_opt_Some: "min_opt xs = Some m \<longleftrightarrow> m \<in> set xs \<and> (\<forall>x \<in> set xs. m \<le> x)"
  by (cases "xs = []") (auto simp: min_opt_def intro!: Min_eqI)

lemma min_opt_None [simp]: "min_opt xs = None \<longleftrightarrow> xs = []"
  by (simp add: min_opt_def)

lemma unwrap_or_simps [simp]: "unwrap_or d None = d" "unwrap_or d (Some x) = x"
  by (simp_all add: unwrap_or_def)

lemma extended_end_mono:
  assumes "e \<le> e'"
  shows "extended_end sel fs pos n e \<le> extended_end sel fs pos n e'"
proof -
  let ?S = "\<lambda>e. map span_end (filter (\<lambda>f. sel f \<and> offset f < e \<and> pos < span_end f) fs)"
  have "unwrap_or e (max_opt (?S e)) \<le> unwrap_or e' (max_opt (?S e'))"
  proof (cases "max_opt (?S e)")
    case None
    show ?thesis
    proof (cases "max_opt (?S e')")
      case (Some m)
      then obtain f where "f \<in> set fs" "sel f" "pos < span_end f" "m = span_end f"
        by (auto simp: max_opt_Some)
      then have "e \<le> offset f" using None by (force simp: filter_empty_conv not_less)
      then show ?thesis using None Some \<open>m = span_end f\<close> by (simp add: span_end_def)
    qed (use None assms in simp)
  next
    case (Some m)
    then have "m \<in> set (?S e')" using assms by (auto simp: max_opt_Some)
    moreover from this obtain m' where "max_opt (?S e') = Some m'" by (metis empty_iff list.set(1) max_opt_None not_Some_eq)
    moreover have "m \<le> m'" using calculation unfolding max_opt_Some by blast
    ultimately show ?thesis using Some by simp
  qed
  then show ?thesis by (simp add: extended_end_def)
qed

lemma extended_end_le: "extended_end sel fs pos n e \<le> n"
  by (simp add: extended_end_def)

function component_loop :: "(MultimodalSpan \<Rightarrow> bool) \<Rightarrow> MultimodalSpan list \<Rightarrow> nat \<Rightarrow> nat \<Rightarrow> nat \<Rightarrow> nat" where
  "component_loop sel features pos total_len stop =
     (let e = extended_end sel features pos total_len stop in
      if e = stop then stop else component_loop sel features pos total_len e)"
  by pat_completeness auto

text \<open>From any start the ends move in one direction: upwards, bounded by the prompt, or downwards.\<close>

definition loop_rank :: "(nat \<Rightarrow> nat) \<Rightarrow> nat \<Rightarrow> nat \<Rightarrow> nat" where
  "loop_rank f n e = (if f e = e then 0 else if e < f e then Suc (n - e) else Suc e)"

lemma loop_rank_decreases:
  assumes "\<And>x y. x \<le> y \<Longrightarrow> f x \<le> f y" and "\<And>x. f x \<le> n" and "f e \<noteq> e"
  shows "loop_rank f n (f e) < loop_rank f n e"
  using assms(1) [of e "f e"] assms(1) [of "f e" e] assms(2) [of "f e"] assms(2) [of e] assms(3)
  by (auto simp: loop_rank_def)

termination component_loop
  by (relation "measure (\<lambda>(sel, fs, pos, n, e). loop_rank (extended_end sel fs pos n) n e)")
    (auto intro!: loop_rank_decreases extended_end_mono extended_end_le)

declare component_loop.simps [simp del]

definition component_end :: "(MultimodalSpan \<Rightarrow> bool) \<Rightarrow> nat \<Rightarrow> nat \<Rightarrow> MultimodalSpan list \<Rightarrow> nat option" where
  "component_end sel pos total_len features =
     map_option (\<lambda>e. component_loop sel features pos total_len (min e total_len))
       (max_opt (map span_end (filter (\<lambda>f. sel f \<and> offset f \<le> pos \<and> pos < span_end f) features)))"

definition noncausal_component_end :: "nat \<Rightarrow> nat \<Rightarrow> MultimodalSpan list \<Rightarrow> nat option" where
  "noncausal_component_end = component_end (\<lambda>f. attention_policy f = NonCausal)"

definition causal_unsplittable_component_end :: "nat \<Rightarrow> nat \<Rightarrow> MultimodalSpan list \<Rightarrow> nat option" where
  "causal_unsplittable_component_end = component_end (\<lambda>f. attention_policy f = Causal \<and> \<not> splittable f)"

section \<open>Reusable boundaries\<close>

definition normalize_prefix_boundary :: "nat \<Rightarrow> nat \<Rightarrow> MultimodalSpan list \<Rightarrow> nat" where
  "normalize_prefix_boundary boundary bs features =
     foldl (\<lambda>b f. if offset f < b \<and> b < span_end f then offset f div bs * bs else b) boundary (rev features)"

definition effective_recurrent_prefix_boundary ::
    "nat \<Rightarrow> nat \<Rightarrow> nat \<Rightarrow> SpeculativePrefixReplay \<Rightarrow> MultimodalSpan list \<Rightarrow> nat option res" where
  "effective_recurrent_prefix_boundary max_cached minimum_exclusive bs replay features =
     (if bs = 0 \<or> max_cached = 0 then Inr None
      else
        let sorted = sort_key offset features;
            capped = normalize_prefix_boundary max_cached bs sorted in
        and_then (clamp_speculative_prefix_cache_hit capped bs replay) (\<lambda>replayed.
        let b = normalize_prefix_boundary replayed bs sorted in
        Inr (if minimum_exclusive < b then Some b else None)))"

definition recurrent_checkpoint_boundary ::
    "nat \<Rightarrow> nat \<Rightarrow> nat option \<Rightarrow> SpeculativePrefixReplay \<Rightarrow> MultimodalSpan list \<Rightarrow> nat option res" where
  "recurrent_checkpoint_boundary total_len prefix_len block_size replay features =
     (case block_size of
        None \<Rightarrow> Inr None
      | Some bs \<Rightarrow>
          if bs = 0 then Inr None
          else
            and_then (effective_recurrent_prefix_boundary ((total_len - 1) div bs * bs) prefix_len bs replay features) (\<lambda>b.
            Inr (case b of None \<Rightarrow> None | Some b \<Rightarrow> if b < total_len then Some b else None)))"

definition cap_at_reusable_boundary :: "nat \<Rightarrow> nat \<Rightarrow> nat option \<Rightarrow> nat" where
  "cap_at_reusable_boundary pos stop boundary =
     (case boundary of None \<Rightarrow> stop | Some b \<Rightarrow> if pos < b \<and> b < stop then b else stop)"

section \<open>The chunk loop\<close>

definition starts_after :: "nat \<Rightarrow> MultimodalSpan list \<Rightarrow> nat list" where
  "starts_after pos features = map offset (filter (\<lambda>f. pos < offset f) features)"

text \<open>One round of the loop: the chunk that starts at \<open>pos\<close>.\<close>

definition next_chunk ::
    "bool \<Rightarrow> nat \<Rightarrow> nat \<Rightarrow> nat option \<Rightarrow> nat option \<Rightarrow> MultimodalSpan list \<Rightarrow> nat \<Rightarrow> PromptChunkPlan res" where
  "next_chunk checks total_len chunk_size block_align boundary features pos =
     (case noncausal_component_end pos total_len features of
        Some stop \<Rightarrow>
          Inr \<lparr>chunk_start = pos, chunk_end = cap_at_reusable_boundary pos stop boundary, chunk_policy = NonCausal\<rparr>
      | None \<Rightarrow>
          (case causal_unsplittable_component_end pos total_len features of
             Some stop \<Rightarrow>
               let stop = unwrap_or stop (min_opt (map offset (filter (\<lambda>f.
                     attention_policy f = NonCausal \<and> pos < offset f \<and> offset f < stop) features))) in
               Inr \<lparr>chunk_start = pos, chunk_end = cap_at_reusable_boundary pos stop boundary, chunk_policy = Causal\<rparr>
           | None \<Rightarrow>
               let active = filter (\<lambda>f. offset f \<le> pos \<and> pos < span_end f) features;
                   next_start = unwrap_or total_len (min_opt (starts_after pos features)) in
               if active \<noteq> [] then
                 let policy = (if \<exists>f \<in> set active. attention_policy f = NonCausal then NonCausal else Causal);
                     next_end = unwrap_or total_len (min_opt (map span_end active));
                     stop = min (min (min next_start next_end) (min (pos + chunk_size) usize_max)) total_len in
                 Inr \<lparr>chunk_start = pos, chunk_end = cap_at_reusable_boundary pos stop boundary, chunk_policy = policy\<rparr>
               else
                 and_then (add_plain checks usize_max pos chunk_size) (\<lambda>limit.
                 let stop = min (min limit next_start) total_len;
                     stop = (case block_align of
                               None \<Rightarrow> stop
                             | Some bs \<Rightarrow>
                                 if bs = 0 then stop
                                 else
                                   let aligned = stop div bs * bs in
                                   if pos < aligned \<and> aligned < stop then aligned else stop) in
                 Inr \<lparr>chunk_start = pos, chunk_end = cap_at_reusable_boundary pos stop boundary, chunk_policy = Causal\<rparr>)))"

partial_function (option) chunk_loop ::
    "(nat \<Rightarrow> PromptChunkPlan res) \<Rightarrow> nat \<Rightarrow> nat \<Rightarrow> PromptChunkPlan list \<Rightarrow> PromptChunkPlan list res option" where
  "chunk_loop step total_len pos chunks =
     (if pos < total_len then
        case step pos of
          Inl e \<Rightarrow> Some (Inl e)
        | Inr c \<Rightarrow> chunk_loop step total_len (chunk_end c) (chunks @ [c])
      else Some (Inr chunks))"

definition build_prompt_chunk_plan ::
    "bool \<Rightarrow> nat \<Rightarrow> nat \<Rightarrow> nat \<Rightarrow> nat option \<Rightarrow> SpeculativePrefixReplay \<Rightarrow> MultimodalSpan list \<Rightarrow>
     PromptChunkPlan list res option" where
  "build_prompt_chunk_plan checks total_len prefix_len chunk_size block_align replay features =
     (let pos = min prefix_len total_len in
      case recurrent_checkpoint_boundary total_len pos block_align replay features of
        Inl e \<Rightarrow> Some (Inl e)
      | Inr boundary \<Rightarrow>
          chunk_loop (next_chunk checks total_len chunk_size block_align boundary
              (sort_key offset (filter (\<lambda>f. offset f < total_len \<and> pos < span_end f) features))) total_len pos [])"

end
