(* ===== verification/Prompt_Chunk_Theorems.thy ===== *)
theory Prompt_Chunk_Theorems
  imports Prompt_Chunks
begin

text \<open>
  Correctness of prompt chunking: the component loop reaches a closed component, reusable
  boundaries never cut a span, the chunk loop ends with a partition of the uncached prompt, and a chunk
  group is exactly the set of compatible rows.
\<close>

lemma unwrap_min_le: "x \<in> set xs \<Longrightarrow> unwrap_or d (min_opt xs) \<le> x"
  by (auto simp: unwrap_or_def min_opt_def)

lemma unwrap_min_P: "P d \<Longrightarrow> (\<And>x. x \<in> set xs \<Longrightarrow> P x) \<Longrightarrow> P (unwrap_or d (min_opt xs))"
  by (auto simp: unwrap_or_def min_opt_def)

lemma max_opt_ge: "x \<in> set xs \<Longrightarrow> \<exists>m. max_opt xs = Some m \<and> x \<le> m"
  by (cases "max_opt xs") (auto simp: max_opt_Some)

section \<open>Components\<close>

lemma component_loop_fix:
  "extended_end sel fs pos n (component_loop sel fs pos n e) = component_loop sel fs pos n e"
proof (induction sel fs pos n e rule: component_loop.induct)
  case (1 sel fs pos n e)
  then show ?case
    using component_loop.simps [of sel fs pos n e] by (cases "extended_end sel fs pos n e = e") (auto simp: Let_def)
qed

lemma component_loop_ge:
  "e \<le> extended_end sel fs pos n e \<Longrightarrow> e \<le> component_loop sel fs pos n e"
proof (induction sel fs pos n e rule: component_loop.induct)
  case (1 sel fs pos n e)
  let ?e = "extended_end sel fs pos n e"
  show ?case
  proof (cases "?e = e")
    case True
    then show ?thesis using component_loop.simps [of sel fs pos n e] by simp
  next
    case False
    then have "?e \<le> component_loop sel fs pos n ?e"
      using 1 extended_end_mono [of e ?e] by simp
    then show ?thesis
      using False 1(2) component_loop.simps [of sel fs pos n e] by (simp add: Let_def)
  qed
qed

lemma component_end_spec:
  assumes "component_end sel pos n fs = Some stop" and "pos < n"
  shows "pos < stop" and "stop \<le> n"
    and "\<And>f. f \<in> set fs \<Longrightarrow> sel f \<Longrightarrow> offset f < stop \<Longrightarrow> stop < span_end f \<Longrightarrow> stop = n"
proof -
  let ?S = "\<lambda>e. map span_end (filter (\<lambda>f. sel f \<and> offset f < e \<and> pos < span_end f) fs)"
  obtain m where m: "max_opt (map span_end (filter (\<lambda>f. sel f \<and> offset f \<le> pos \<and> pos < span_end f) fs)) = Some m"
    and stop: "stop = component_loop sel fs pos n (min m n)"
    using assms(1) by (auto simp: component_end_def)
  obtain g where g: "g \<in> set fs" "sel g" "offset g \<le> pos" "pos < span_end g" "m = span_end g"
    using m by (auto simp: max_opt_Some)
  have "span_end g \<in> set (?S (min m n))" using g assms(2) by auto
  then obtain m' where m': "max_opt (?S (min m n)) = Some m'" "span_end g \<le> m'"
    using max_opt_ge by blast
  then have "min m n \<le> extended_end sel fs pos n (min m n)" using g(5) by (simp add: extended_end_def)
  then have "min m n \<le> stop" unfolding stop by (rule component_loop_ge)
  then show "pos < stop" using g assms(2) by simp
  have fix_: "extended_end sel fs pos n stop = stop" unfolding stop by (rule component_loop_fix)
  then show "stop \<le> n" using extended_end_le [of sel fs pos n stop] by simp
  show "stop = n" if "f \<in> set fs" "sel f" "offset f < stop" "stop < span_end f" for f
  proof -
    have "span_end f \<in> set (?S stop)" using that \<open>pos < stop\<close> by auto
    then obtain k where "max_opt (?S stop) = Some k" "span_end f \<le> k"
      using max_opt_ge by blast
    then show ?thesis using fix_ that(4) by (simp add: extended_end_def min_def split: if_splits)
  qed
qed

lemma component_end_None:
  "component_end sel pos n fs = None \<Longrightarrow> f \<in> set fs \<Longrightarrow> sel f \<Longrightarrow> \<not> (offset f \<le> pos \<and> pos < span_end f)"
  by (auto simp: component_end_def filter_empty_conv)

section \<open>Reusable boundaries\<close>

definition inside :: "nat \<Rightarrow> MultimodalSpan \<Rightarrow> bool" where
  "inside b f \<longleftrightarrow> offset f < b \<and> b < span_end f"

lemma normalize_fold:
  assumes "sorted_wrt (\<lambda>f g. offset g \<le> offset f) xs"
    and "r = foldl (\<lambda>b f. if offset f < b \<and> b < span_end f then offset f div bs * bs else b) b xs"
  shows "r \<le> b \<and> (r = b \<or> (\<exists>f \<in> set xs. r \<le> offset f)) \<and> (\<forall>f \<in> set xs. \<not> inside r f)"
  using assms
proof (induction xs arbitrary: b)
  case (Cons x xs)
  define b' where "b' = (if offset x < b \<and> b < span_end x then offset x div bs * bs else b)"
  have ih: "r \<le> b'" "r = b' \<or> (\<exists>f \<in> set xs. r \<le> offset f)" "\<forall>f \<in> set xs. \<not> inside r f"
    using Cons.IH [of b'] Cons.prems by (auto simp: b'_def)
  have down: "f \<in> set xs \<Longrightarrow> offset f \<le> offset x" for f using Cons.prems(1) by auto
  have "offset x div bs * bs \<le> offset x" by simp
  then have "b' \<le> b" and "b' = b \<or> b' \<le> offset x" and "\<not> (offset x < b \<and> b < span_end x) \<or> b' \<le> offset x"
    by (auto simp: b'_def simp del: div_times_less_eq_dividend)
  then show ?case
    using ih by (fastforce simp: inside_def dest: down)
qed simp

lemma normalize_prefix_boundary_spec:
  assumes "sorted (map offset fs)"
  shows "normalize_prefix_boundary b bs fs \<le> b" and "f \<in> set fs \<Longrightarrow> \<not> inside (normalize_prefix_boundary b bs fs) f"
proof -
  have "sorted_wrt (\<lambda>f g. offset g \<le> offset f) (rev fs)"
    using assms by (simp add: sorted_map sorted_wrt_rev)
  from normalize_fold [OF this refl, of bs b]
  show "normalize_prefix_boundary b bs fs \<le> b" and "f \<in> set fs \<Longrightarrow> \<not> inside (normalize_prefix_boundary b bs fs) f"
    unfolding normalize_prefix_boundary_def by auto
qed

lemma clamp_replay_total: "0 < bs \<Longrightarrow> \<exists>r. clamp_speculative_prefix_cache_hit n bs replay = Inr r \<and> r \<le> n"
  by (cases replay) (auto simp: round_down_def)

lemma recurrent_checkpoint_boundary_spec:
  "\<exists>b. recurrent_checkpoint_boundary n pos align replay fs = Inr b \<and>
     (\<forall>x. b = Some x \<longrightarrow> pos < x \<and> x < n \<and> (\<forall>f \<in> set fs. \<not> inside x f))"
proof (cases align)
  case (Some bs)
  let ?fs = "sort_key offset fs" and ?m = "(n - 1) div bs * bs"
  have inside: "\<not> inside (normalize_prefix_boundary y bs ?fs) f" if "f \<in> set fs" for y f
    using normalize_prefix_boundary_spec(2) [of ?fs f y bs] that by simp
  show ?thesis
  proof (cases "bs = 0")
    case False
    then obtain r where r: "clamp_speculative_prefix_cache_hit (normalize_prefix_boundary ?m bs ?fs) bs replay = Inr r"
      using clamp_replay_total by blast
    show ?thesis
      using Some False r inside [of _ r]
      by (auto simp: recurrent_checkpoint_boundary_def effective_recurrent_prefix_boundary_def Let_def)
  qed (use Some in \<open>simp add: recurrent_checkpoint_boundary_def\<close>)
qed (simp add: recurrent_checkpoint_boundary_def)

section \<open>The chunk loop\<close>

lemma cap_spec:
  assumes "pos < stop" and "\<And>x. boundary = Some x \<Longrightarrow> x < n"
  shows "pos < cap_at_reusable_boundary pos stop boundary" and "cap_at_reusable_boundary pos stop boundary \<le> stop"
    and "cap_at_reusable_boundary pos stop boundary = stop \<or> boundary = Some (cap_at_reusable_boundary pos stop boundary)"
  using assms by (auto simp: cap_at_reusable_boundary_def split: option.splits)

definition chunk_ok :: "nat \<Rightarrow> MultimodalSpan list \<Rightarrow> nat \<Rightarrow> PromptChunkPlan \<Rightarrow> bool" where
  "chunk_ok n fs pos c \<longleftrightarrow> chunk_start c = pos \<and> pos < chunk_end c \<and> chunk_end c \<le> n \<and>
     (\<forall>f \<in> set fs. attention_policy f = NonCausal \<longrightarrow> inside (chunk_end c) f \<longrightarrow> chunk_end c = n)"

lemma chunk_okI:
  assumes "pos < stop" and "stop \<le> n" and "\<And>x. boundary = Some x \<Longrightarrow> x < n \<and> (\<forall>f \<in> set fs. \<not> inside x f)"
    and "\<And>f. f \<in> set fs \<Longrightarrow> attention_policy f = NonCausal \<Longrightarrow> inside stop f \<Longrightarrow> stop = n"
  shows "chunk_ok n fs pos \<lparr>chunk_start = pos, chunk_end = cap_at_reusable_boundary pos stop boundary, chunk_policy = policy\<rparr>"
  using cap_spec [of pos stop boundary n] assms unfolding chunk_ok_def by fastforce

lemma next_chunk_ok:
  assumes "pos < n" and "0 < cs" and "n + cs \<le> usize_max"
    and "\<And>x. boundary = Some x \<Longrightarrow> x < n \<and> (\<forall>f \<in> set fs. \<not> inside x f)"
  shows "\<exists>c. next_chunk checks n cs align boundary fs pos = Inr c \<and> chunk_ok n fs pos c"
proof (cases "noncausal_component_end pos n fs")
  case (Some stop)
  note e = component_end_spec [OF Some [unfolded noncausal_component_end_def] assms(1)]
  have "chunk_ok n fs pos \<lparr>chunk_start = pos, chunk_end = cap_at_reusable_boundary pos stop boundary, chunk_policy = NonCausal\<rparr>"
    using e assms(4) by (intro chunk_okI) (auto simp: inside_def)
  then show ?thesis using Some by (simp add: next_chunk_def)
next
  case noncausal: None
  have later: "f \<in> set fs \<Longrightarrow> attention_policy f = NonCausal \<Longrightarrow> inside stop f \<Longrightarrow> pos < stop \<Longrightarrow> pos < offset f" for f stop
    using component_end_None [OF noncausal [unfolded noncausal_component_end_def], of f] by (auto simp: inside_def)
  show ?thesis
  proof (cases "causal_unsplittable_component_end pos n fs")
    case (Some stop)
    note e = component_end_spec [OF Some [unfolded causal_unsplittable_component_end_def] assms(1)]
    let ?os = "map offset (filter (\<lambda>f. attention_policy f = NonCausal \<and> pos < offset f \<and> offset f < stop) fs)"
    define cut where "cut = unwrap_or stop (min_opt ?os)"
    have cut: "pos < cut" "cut \<le> stop"
      unfolding cut_def by (rule unwrap_min_P; use e(1) in auto)+
    have below: "cut \<le> offset f" if "f \<in> set fs" "attention_policy f = NonCausal" "pos < offset f" "offset f < stop" for f
      unfolding cut_def using that by (intro unwrap_min_le) auto
    have "\<not> inside cut f" if "f \<in> set fs" "attention_policy f = NonCausal" for f
      using later [OF that _ cut(1)] below [OF that] cut(2) by (auto simp: inside_def)
    then have "chunk_ok n fs pos \<lparr>chunk_start = pos, chunk_end = cap_at_reusable_boundary pos cut boundary, chunk_policy = Causal\<rparr>"
      using cut e(2) assms(4) by (intro chunk_okI) auto
    then show ?thesis using Some noncausal by (simp add: next_chunk_def cut_def)
  next
    case causal: None
    define nx where "nx = unwrap_or n (min_opt (starts_after pos fs))"
    have "pos < nx"
      unfolding nx_def by (rule unwrap_min_P; use assms(1) in \<open>auto simp: starts_after_def\<close>)
    have nx: "nx \<le> offset f" if "f \<in> set fs" "pos < offset f" for f
      unfolding nx_def using that by (intro unwrap_min_le) (auto simp: starts_after_def)
    have upto: "chunk_ok n fs pos \<lparr>chunk_start = pos, chunk_end = cap_at_reusable_boundary pos stop boundary, chunk_policy = policy\<rparr>"
      if stop: "pos < stop" "stop \<le> nx" "stop \<le> n" for stop policy
    proof -
      have "\<not> inside stop f" if "f \<in> set fs" "attention_policy f = NonCausal" for f
        using later [OF that _ stop(1)] nx [OF that(1)] stop(2) by (auto simp: inside_def)
      then show ?thesis using stop assms(4) by (intro chunk_okI) auto
    qed
    let ?active = "filter (\<lambda>f. offset f \<le> pos \<and> pos < span_end f) fs"
    show ?thesis
    proof (cases "?active = []")
      case False
      define ne where "ne = unwrap_or n (min_opt (map span_end ?active))"
      have "pos < ne" unfolding ne_def by (rule unwrap_min_P; use assms(1) in auto)
      then show ?thesis
        using noncausal causal False \<open>pos < nx\<close> assms(1-3)
        by (simp add: next_chunk_def Let_def nx_def [symmetric] ne_def [symmetric] upto)
    next
      case True
      define stop where "stop = min (min (pos + cs) nx) n"
      define stop' where "stop' = (case align of None \<Rightarrow> stop | Some bs \<Rightarrow> if bs = 0 then stop
        else if pos < stop div bs * bs \<and> stop div bs * bs < stop then stop div bs * bs else stop)"
      have "pos < stop'" "stop' \<le> stop" using \<open>pos < nx\<close> assms(1,2) by (auto simp: stop'_def stop_def split: option.split)
      then have "chunk_ok n fs pos \<lparr>chunk_start = pos, chunk_end = cap_at_reusable_boundary pos stop' boundary, chunk_policy = Causal\<rparr>"
        by (intro upto) (auto simp: stop_def)
      moreover have "pos + cs \<le> usize_max" using assms(1,3) by simp
      then have "next_chunk checks n cs align boundary fs pos =
          Inr \<lparr>chunk_start = pos, chunk_end = cap_at_reusable_boundary pos stop' boundary, chunk_policy = Causal\<rparr>"
        using noncausal causal True
        by (cases align) (simp_all add: next_chunk_def Let_def nx_def [symmetric] stop_def stop'_def)
      ultimately show ?thesis by blast
    qed
  qed
qed

fun covers :: "nat \<Rightarrow> nat \<Rightarrow> PromptChunkPlan list \<Rightarrow> bool" where
  "covers pos n [] \<longleftrightarrow> pos = n"
| "covers pos n (c # cs) \<longleftrightarrow> chunk_start c = pos \<and> pos < chunk_end c \<and> covers (chunk_end c) n cs"

lemma covers_after: "covers pos n cs \<Longrightarrow> c \<in> set cs \<Longrightarrow> pos \<le> chunk_start c \<and> chunk_start c < chunk_end c \<and> pos < chunk_end c"
  by (induction pos n cs rule: covers.induct) fastforce+

lemma chunk_loop_covers:
  assumes "\<And>pos. pos < n \<Longrightarrow> \<exists>c. step pos = Inr c \<and> chunk_ok n fs pos c" and "pos \<le> n"
  shows "\<exists>cs. chunk_loop step n pos acc = Some (Inr (acc @ cs)) \<and> covers pos n cs \<and>
    (\<forall>c \<in> set cs. \<exists>p. chunk_ok n fs p c)"
  using assms(2)
proof (induction "n - pos" arbitrary: pos acc rule: less_induct)
  case less
  show ?case
  proof (cases "pos < n")
    case True
    then obtain c where c: "step pos = Inr c" "chunk_ok n fs pos c" using assms(1) by blast
    then have "n - chunk_end c < n - pos" "chunk_end c \<le> n" using True by (auto simp: chunk_ok_def)
    then obtain cs where "chunk_loop step n (chunk_end c) (acc @ [c]) = Some (Inr ((acc @ [c]) @ cs))" "covers (chunk_end c) n cs"
      "\<forall>c \<in> set cs. \<exists>p. chunk_ok n fs p c"
      using less(1) by blast
    then show ?thesis
      using c True by (intro exI [of _ "c # cs"]) (auto simp: chunk_loop.simps [of step n pos] chunk_ok_def)
  next
    case False
    then show ?thesis using less(2) by (intro exI [of _ "[]"]) (simp add: chunk_loop.simps)
  qed
qed

lemma plan_partitions:
  assumes "0 < chunk_size" and "total_len + chunk_size \<le> usize_max"
  shows "\<exists>plan. build_prompt_chunk_plan checks total_len prefix_len chunk_size block_align replay features = Some (Inr plan) \<and>
    covers (min prefix_len total_len) total_len plan \<and>
    (\<forall>c \<in> set plan. \<forall>f \<in> set features. attention_policy f = NonCausal \<longrightarrow>
       offset f < chunk_end c \<and> chunk_end c < span_end f \<longrightarrow> chunk_end c = total_len)"
proof -
  define pos where "pos = min prefix_len total_len"
  define fs where "fs = sort_key offset (filter (\<lambda>f. offset f < total_len \<and> pos < span_end f) features)"
  obtain b where b: "recurrent_checkpoint_boundary total_len pos block_align replay features = Inr b"
    "\<And>x. b = Some x \<Longrightarrow> x < total_len \<and> (\<forall>f \<in> set features. \<not> inside x f)"
    using recurrent_checkpoint_boundary_spec by blast
  have "\<exists>c. next_chunk checks total_len chunk_size block_align b fs p = Inr c \<and> chunk_ok total_len fs p c"
    if "p < total_len" for p
    using that assms b(2) by (intro next_chunk_ok) (auto simp: fs_def)
  then obtain cs where cs: "chunk_loop (next_chunk checks total_len chunk_size block_align b fs) total_len pos [] = Some (Inr cs)"
    "covers pos total_len cs" "\<forall>c \<in> set cs. \<exists>p. chunk_ok total_len fs p c"
    using chunk_loop_covers [of total_len _ fs pos "[]"] by (force simp: pos_def)
  have first: "c \<in> set cs \<Longrightarrow> pos < chunk_end c" for c
    using covers_after [OF cs(2)] by blast
  have "chunk_end c = total_len"
    if split: "c \<in> set cs" "f \<in> set features" "attention_policy f = NonCausal" "offset f < chunk_end c" "chunk_end c < span_end f" for c f
  proof -
    obtain p where p: "chunk_ok total_len fs p c" using cs(3) split(1) by blast
    then have "f \<in> set fs" using split first [OF split(1)] by (auto simp: fs_def chunk_ok_def)
    then show ?thesis using p split by (auto simp: chunk_ok_def inside_def)
  qed
  moreover have "build_prompt_chunk_plan checks total_len prefix_len chunk_size block_align replay features = Some (Inr cs)"
    unfolding build_prompt_chunk_plan_def Let_def pos_def [symmetric] using b(1) cs(1) by (simp add: fs_def)
  ultimately show ?thesis using cs(2) unfolding pos_def by blast
qed


definition text_image :: MultimodalSpan where
  "text_image = \<lparr>kind = Image, item_start = 0, item_end = 1, hashes = [9], offset = 6, span_len = 5,
     attention_policy = NonCausal, splittable = False\<rparr>"


section \<open>Chunk groups\<close>

definition in_group :: "bool \<Rightarrow> MultimodalAttentionPolicy \<Rightarrow> bool \<Rightarrow> nat \<Rightarrow> nat \<times> PromptChunkPlan list \<Rightarrow> bool" where
  "in_group uniform policy final qlen p \<longleftrightarrow>
     (\<exists>c. chunk_at p = Some (c, final) \<and> chunk_policy c = policy \<and> (uniform \<longrightarrow> chunk_end c - chunk_start c = qlen))"

lemma active_group_eq:
  assumes "\<And>p c l. p \<in> set ps \<Longrightarrow> chunk_at p = Some (c, l) \<Longrightarrow> chunk_start c \<le> chunk_end c"
  shows "active_group checks uniform policy final qlen idx ps =
    Inr (map fst (filter (\<lambda>x. in_group uniform policy final qlen (snd x)) (enumerate idx ps)))"
  using assms
proof (induction ps arbitrary: idx)
  case (Cons p ps)
  have ih: "active_group checks uniform policy final qlen i ps =
      Inr (map fst (filter (\<lambda>x. in_group uniform policy final qlen (snd x)) (enumerate i ps)))" for i
    using Cons.prems by (intro Cons.IH) (meson list.set_intros(2))
  show ?case
  proof (cases "chunk_at p")
    case None
    then show ?thesis by (simp add: ih in_group_def del: chunk_at.simps)
  next
    case (Some cl)
    obtain c l where cl: "cl = (c, l)" by (cases cl)
    then have "chunk_start c \<le> chunk_end c" using Cons.prems [of p] Some by (simp del: chunk_at.simps)
    then show ?thesis using Some cl by (auto simp: ih in_group_def chunk_query_len_def simp del: chunk_at.simps)
  qed
qed simp

lemma map_filter_hd:
  "List.map_filter f xs = y # ys \<Longrightarrow> \<exists>i < length xs. f (xs ! i) = Some y \<and> (\<forall>j < i. f (xs ! j) = None)"
proof (induction xs)
  case (Cons x xs)
  show ?case
  proof (cases "f x")
    case None
    then obtain i where "i < length xs" "f (xs ! i) = Some y" "\<forall>j < i. f (xs ! j) = None"
      using Cons by (auto simp: map_filter_simps)
    then show ?thesis using None by (intro exI [of _ "Suc i"]) (auto simp: less_Suc_eq_0_disj nth_Cons')
  next
    case (Some z)
    then show ?thesis using Cons.prems by (intro exI [of _ 0]) (auto simp: map_filter_simps)
  qed
qed (simp add: map_filter_simps)

lemma group_exact:
  assumes "\<forall>plan \<in> set plans. \<forall>c \<in> set plan. chunk_start c \<le> chunk_end c"
  shows "\<exists>g. next_prompt_chunk_group checks idxs plans uniform = Inr g \<and>
    (g = None \<longleftrightarrow> (\<forall>p \<in> set (zip idxs plans). chunk_at p = None)) \<and>
    (\<forall>active policy final. g = Some (active, policy, final) \<longrightarrow>
       (\<exists>first c. chunk_at (zip idxs plans ! first) = Some (c, final) \<and> chunk_policy c = policy \<and>
          (\<forall>i < first. chunk_at (zip idxs plans ! i) = None) \<and> active \<noteq> [] \<and> hd active = first \<and> sorted_wrt (<) active \<and>
          set active = {i. i < length (zip idxs plans) \<and>
            in_group uniform policy final (chunk_end c - chunk_start c) (zip idxs plans ! i)}))"
proof (cases "List.map_filter chunk_at (zip idxs plans)")
  case Nil
  then have "\<forall>p \<in> set (zip idxs plans). chunk_at p = None"
    unfolding List.map_filter_def by (simp add: filter_empty_conv comp_def del: chunk_at.simps) (metis not_None_eq surj_pair)
  then show ?thesis using Nil by (simp add: next_prompt_chunk_group_def del: chunk_at.simps)
next
  case (Cons cf rest)
  obtain c final where cf: "cf = (c, final)" by (cases cf)
  let ?ps = "zip idxs plans"
  have valid: "chunk_start d \<le> chunk_end d" if "p \<in> set ?ps" "chunk_at p = Some (d, l)" for p d l
  proof -
    obtain i plan where p: "p = (i, plan)" by fastforce
    have "plan \<in> set plans" using that(1) p by (metis set_zip_rightD)
    then show ?thesis using that(2) p assms by (auto split: if_splits)
  qed
  obtain first where first: "first < length ?ps" "chunk_at (?ps ! first) = Some (c, final)"
    "\<forall>j < first. chunk_at (?ps ! j) = None"
    using map_filter_hd [OF Cons] cf by blast
  define qlen where "qlen = chunk_end c - chunk_start c"
  have le: "chunk_start c \<le> chunk_end c" using valid first(1,2) nth_mem by blast
  define active where "active = map fst (filter (\<lambda>x. in_group uniform (chunk_policy c) final qlen (snd x)) (enumerate 0 ?ps))"
  have run: "next_prompt_chunk_group checks idxs plans uniform = Inr (Some (active, chunk_policy c, final))"
    using Cons cf le active_group_eq [OF valid]
    by (simp add: next_prompt_chunk_group_def chunk_query_len_def active_def qlen_def del: chunk_at.simps)
  have set: "set active = {i. i < length ?ps \<and> in_group uniform (chunk_policy c) final qlen (?ps ! i)}"
    by (force simp: active_def in_set_enumerate_eq image_iff)
  have sorted: "sorted_wrt (<) active"
  proof -
    have "sorted_wrt (\<lambda>x y. fst x < fst y) (enumerate 0 ?ps)"
      by (simp add: sorted_wrt_iff_nth_less enumerate_eq_zip)
    then show ?thesis unfolding active_def sorted_wrt_map by (rule sorted_wrt_filter)
  qed
  have "first \<in> set active" using first(1,2) unfolding set by (simp add: in_group_def qlen_def del: chunk_at.simps)
  moreover have "first \<le> i" if "i \<in> set active" for i
  proof (rule ccontr)
    assume "\<not> first \<le> i"
    then have "chunk_at (?ps ! i) = None" using first(3) by simp
    then show False using that unfolding set in_group_def by simp
  qed
  ultimately have "active \<noteq> [] \<and> hd active = first"
    using sorted by (cases active) (force simp: less_le_not_le)+
  moreover have "\<not> (\<forall>p \<in> set ?ps. chunk_at p = None)" 
    using nth_mem [OF first(1)] first(2) by (metis option.distinct(1))
  ultimately show ?thesis
    unfolding run using first(2,3) sorted set unfolding qlen_def by blast
qed

text \<open>
  C28. Which rows share a forward. A group is missing exactly when no row has a chunk left. Otherwise the
  group leads with the first row that has one, and it consists of exactly the rows whose next chunk has the same
  attention policy as that row's, agrees with it on being the last of its plan, and, where uniform queries
  are required, has the same length; the rows come in order, each once.
\<close>

theorem chunk_group_exact:
  assumes "\<forall>plan \<in> set plans. \<forall>c \<in> set plan. chunk_start c \<le> chunk_end c"
  shows "\<exists>g. next_prompt_chunk_group checks idxs plans uniform = Inr g \<and>
    (g = None \<longleftrightarrow> (\<forall>p \<in> set (zip idxs plans). chunk_at p = None)) \<and>
    (\<forall>active policy final. g = Some (active, policy, final) \<longrightarrow>
       (\<exists>first c. chunk_at (zip idxs plans ! first) = Some (c, final) \<and> chunk_policy c = policy \<and>
          (\<forall>i < first. chunk_at (zip idxs plans ! i) = None) \<and> active \<noteq> [] \<and> hd active = first \<and> sorted_wrt (<) active \<and>
          set active = {i. i < length (zip idxs plans) \<and>
            in_group uniform policy final (chunk_end c - chunk_start c) (zip idxs plans ! i)}))"
  using assms by (rule group_exact)

theorem chunk_group_exact_witness:
  "\<exists>active. next_prompt_chunk_group True [0, 0] [[\<lparr>chunk_start = 0, chunk_end = 4, chunk_policy = Causal\<rparr>],
       [\<lparr>chunk_start = 2, chunk_end = 6, chunk_policy = Causal\<rparr>]] True = Inr (Some (active, Causal, True)) \<and> hd active = 0"
proof -
  let ?plans = "[[\<lparr>chunk_start = 0, chunk_end = 4, chunk_policy = Causal\<rparr>],
       [\<lparr>chunk_start = 2, chunk_end = 6, chunk_policy = Causal\<rparr>]]"
  have "\<exists>g. next_prompt_chunk_group True [0, 0] ?plans True = Inr g \<and> g = Some ([0, 1], Causal, True)"
    by (simp add: next_prompt_chunk_group_def map_filter_simps chunk_query_len_def Let_def)
  then show ?thesis using chunk_group_exact [of ?plans True "[0, 0]" True] by auto
qed

end
