(* ===== verification/Sequences.thy ===== *)
theory Sequences
  imports Block_Hash "HOL-Library.Multiset"
begin

text \<open>
  The sequences the schedulers work on (\<open>sequence.rs\<close>) and the modality signature of \<open>scheduler/mod.rs\<close>.
  A sequence carries the fields that the schedulers read or write. Of a tensor cache only the
  length of its first layer is read, and it is kept as that number; the inner option of \<open>xlora_cache\<close> is the
  first layer's entry.
\<close>

section \<open>Sequences\<close>

datatype StopReason =
    Eos | StopTok nat | Length nat | ModelLength nat | StopString nat nat | Canceled | GeneratedImage
  | GeneratedSpeech | ToolCalls

datatype SequenceState =
    Done StopReason | RunningPrompt | RunningCompletion | Waiting | Error | RunningPrefillPrompt
  | FinishedAborted | FinishedIgnored | Swapped

datatype SeqStepType = PromptAndDecode | OneShot

datatype PrefillTokenView = PrefixInclusive | SuffixOnly

record Sequence =
  sid :: nat
  timestamp :: nat
  seq_state :: SequenceState
  scheduling_urgency :: nat
  token_offset :: nat
  return_raw_logits :: bool
  stepping_type :: SeqStepType
  seq_adapter :: "nat list option"
  images_given :: bool
  has_images :: bool
  has_audios :: bool
  has_videos :: bool
  mm_features :: "MultimodalSpan list"
  response_closed :: bool
  recurrent_state_idx :: "nat option"
  staged_speculative_tokens :: "token list"
  prefill_prompt_toks :: "(token list \<times> PrefillTokenView) option"
  prefix_cache_len :: nat
  prefix_cache_hit_recorded :: bool
  block_hash_revision :: nat
  computed_tokens :: nat
  xlora_cache :: "nat option option"
  layer_cache :: "nat option"
  seq_tokens :: "token list"

text \<open>\<open>Sequence::len\<close>: a prefill view, then the X-LoRA cache, then the plain cache, then the tokens.\<close>

definition seq_len :: "Sequence \<Rightarrow> nat" where
  "seq_len s =
     (case prefill_prompt_toks s of
        Some (toks, _) \<Rightarrow> length toks
      | None \<Rightarrow>
          (case xlora_cache s of
             Some (Some n) \<Rightarrow> n + 1
           | _ \<Rightarrow> (case layer_cache s of Some n \<Rightarrow> n + 1 | None \<Rightarrow> length (seq_tokens s))))"

definition get_toks :: "Sequence \<Rightarrow> token list" where
  "get_toks s = (case prefill_prompt_toks s of Some (toks, _) \<Rightarrow> toks | None \<Rightarrow> seq_tokens s)"

definition has_suffix_only_prefill_toks :: "Sequence \<Rightarrow> bool" where
  "has_suffix_only_prefill_toks s \<longleftrightarrow> map_option snd (prefill_prompt_toks s) = Some SuffixOnly"

definition is_xlora :: "Sequence \<Rightarrow> bool" where
  "is_xlora s \<longleftrightarrow> xlora_cache s \<noteq> None"

definition active_staged_speculative_len :: "Sequence \<Rightarrow> nat" where
  "active_staged_speculative_len s = length (staged_speculative_tokens s)"

definition clear_staged_speculative_tokens :: "Sequence \<Rightarrow> Sequence" where
  "clear_staged_speculative_tokens s = s\<lparr>staged_speculative_tokens := []\<rparr>"

definition set_prefix_cache_len :: "nat \<Rightarrow> Sequence \<Rightarrow> Sequence" where
  "set_prefix_cache_len n s = s\<lparr>prefix_cache_len := n\<rparr>"

definition seq_computed :: "Sequence \<Rightarrow> nat" where
  "seq_computed s = min (computed_tokens s) (seq_len s)"

definition set_num_computed_tokens :: "nat \<Rightarrow> Sequence \<Rightarrow> Sequence" where
  "set_num_computed_tokens n s = s\<lparr>computed_tokens := min n (seq_len s)\<rparr>"

definition num_uncomputed_tokens :: "Sequence \<Rightarrow> nat" where
  "num_uncomputed_tokens s = seq_len s - seq_computed s"

definition record_prefix_cache_hit :: "Sequence \<Rightarrow> bool \<times> Sequence" where
  "record_prefix_cache_hit s =
     (if stepping_type s \<noteq> PromptAndDecode \<or> prefix_cache_hit_recorded s then (False, s)
      else (True, s\<lparr>prefix_cache_hit_recorded := True\<rparr>))"

definition is_running :: "Sequence \<Rightarrow> bool" where
  "is_running s \<longleftrightarrow> seq_state s = RunningCompletion \<or> seq_state s = RunningPrompt"

definition is_completion :: "Sequence \<Rightarrow> bool" where
  "is_completion s \<longleftrightarrow> seq_state s = RunningCompletion"

definition is_prompt :: "Sequence \<Rightarrow> bool" where
  "is_prompt s \<longleftrightarrow> seq_state s = RunningPrompt \<or> seq_state s = RunningPrefillPrompt"

definition is_waiting :: "Sequence \<Rightarrow> bool" where
  "is_waiting s \<longleftrightarrow> seq_state s = Waiting"

definition is_finished_paged_attn :: "Sequence \<Rightarrow> bool" where
  "is_finished_paged_attn s \<longleftrightarrow>
     (case seq_state s of Error \<Rightarrow> True | FinishedAborted \<Rightarrow> True | FinishedIgnored \<Rightarrow> True | Done _ \<Rightarrow> True | _ \<Rightarrow> False)"

definition set_state :: "SequenceState \<Rightarrow> Sequence \<Rightarrow> Sequence" where
  "set_state st s = s\<lparr>seq_state := st\<rparr>"

definition add_urgency :: "Sequence \<Rightarrow> Sequence" where
  "add_urgency s = s\<lparr>scheduling_urgency := (scheduling_urgency s + 1) mod (usize_max + 1)\<rparr>"

definition reset_urgency :: "Sequence \<Rightarrow> Sequence" where
  "reset_urgency s = s\<lparr>scheduling_urgency := 0\<rparr>"

definition IMAGE_MODALITY :: nat where "IMAGE_MODALITY = 1"

definition AUDIO_MODALITY :: nat where "AUDIO_MODALITY = 2"

definition VIDEO_MODALITY :: nat where "VIDEO_MODALITY = 4"

text \<open>The three flags are distinct bits, so or-ing them into the signature is adding them.\<close>

definition modality_signature :: "Sequence \<Rightarrow> nat" where
  "modality_signature s =
     (if has_images s \<or> (\<exists>f \<in> set (mm_features s). kind f = Image) then IMAGE_MODALITY else 0) +
     (if has_audios s \<or> (\<exists>f \<in> set (mm_features s). kind f = Audio) then AUDIO_MODALITY else 0) +
     (if has_videos s \<or> (\<exists>f \<in> set (mm_features s). kind f = Video) then VIDEO_MODALITY else 0)"

section \<open>Prefix hits inside multimodal items\<close>

text \<open>
  The loop of \<open>clamp_prefix_cache_len_for_mm_features\<close> lowers the prefix to the block of the earliest item
  that it would cut.
\<close>

definition cut_starts :: "nat \<Rightarrow> MultimodalSpan list \<Rightarrow> nat \<Rightarrow> nat list" where
  "cut_starts bs features n =
     map (\<lambda>f. offset f div bs * bs) (filter (\<lambda>f. offset f < n \<and> n < span_end f) features)"

definition clamp_mm_step :: "nat \<Rightarrow> MultimodalSpan list \<Rightarrow> nat \<Rightarrow> nat" where
  "clamp_mm_step bs features n = (if cut_starts bs features n = [] then n else Min (set (cut_starts bs features n)))"

lemma clamp_mm_step_less: "clamp_mm_step bs features n \<noteq> n \<Longrightarrow> clamp_mm_step bs features n < n"
proof -
  assume "clamp_mm_step bs features n \<noteq> n"
  then have ne: "cut_starts bs features n \<noteq> []" by (auto simp: clamp_mm_step_def)
  then have "Min (set (cut_starts bs features n)) \<in> set (cut_starts bs features n)" by (intro Min_in) auto
  moreover have "\<forall>x \<in> set (cut_starts bs features n). \<exists>f :: MultimodalSpan. offset f < n \<and> x = offset f div bs * bs"
    by (auto simp: cut_starts_def)
  ultimately obtain f :: MultimodalSpan where "offset f < n" "Min (set (cut_starts bs features n)) = offset f div bs * bs" by blast
  then have "Min (set (cut_starts bs features n)) < n" by (metis div_times_less_eq_dividend order_le_less_trans)
  then show ?thesis using ne by (simp add: clamp_mm_step_def)
qed

function clamp_mm_loop :: "nat \<Rightarrow> MultimodalSpan list \<Rightarrow> nat \<Rightarrow> nat" where
  "clamp_mm_loop bs features n =
     (let next = clamp_mm_step bs features n in if next = n then n else clamp_mm_loop bs features next)"
  by pat_completeness auto
termination
  by (relation "measure (\<lambda>(bs, features, n). n)") (auto intro: clamp_mm_step_less)

declare clamp_mm_loop.simps [simp del]

definition clamp_prefix_cache_len_for_mm_features :: "nat \<Rightarrow> nat \<Rightarrow> MultimodalSpan list \<Rightarrow> nat" where
  "clamp_prefix_cache_len_for_mm_features prefix_len bs features =
     (if prefix_len = 0 \<or> bs = 0 then prefix_len else clamp_mm_loop bs features prefix_len)"

lemma clamp_mm_loop_le: "clamp_mm_loop bs features n \<le> n"
proof (induction bs features n rule: clamp_mm_loop.induct)
  case (1 bs features n)
  then show ?case
    using clamp_mm_step_less [of bs features n]
    by (subst clamp_mm_loop.simps) (force simp: Let_def)
qed

lemma clamp_mm_loop_dvd: "bs dvd n \<Longrightarrow> bs dvd clamp_mm_loop bs features n"
proof (induction bs features n rule: clamp_mm_loop.induct)
  case (1 bs features n)
  have "bs dvd clamp_mm_step bs features n"
  proof (cases "cut_starts bs features n = []")
    case False
    then have "Min (set (cut_starts bs features n)) \<in> set (cut_starts bs features n)" by (intro Min_in) auto
    moreover have "\<forall>x \<in> set (cut_starts bs features n). bs dvd x" by (auto simp: cut_starts_def)
    ultimately show ?thesis using False by (simp add: clamp_mm_step_def)
  qed (use "1.prems" in \<open>simp add: clamp_mm_step_def\<close>)
  then show ?case using 1 by (subst clamp_mm_loop.simps) (simp add: Let_def)
qed

lemma clamp_mm_le: "clamp_prefix_cache_len_for_mm_features n bs features \<le> n"
  by (simp add: clamp_prefix_cache_len_for_mm_features_def clamp_mm_loop_le)

lemma clamp_mm_dvd: "bs dvd n \<Longrightarrow> bs dvd clamp_prefix_cache_len_for_mm_features n bs features"
  by (simp add: clamp_prefix_cache_len_for_mm_features_def clamp_mm_loop_dvd)

section \<open>Field lemmas\<close>

lemma set_state_fields [simp]:
  "sid (set_state st s) = sid s" "seq_state (set_state st s) = st" "seq_len (set_state st s) = seq_len s"
  "token_offset (set_state st s) = token_offset s" "return_raw_logits (set_state st s) = return_raw_logits s"
  "get_toks (set_state st s) = get_toks s" "seq_computed (set_state st s) = seq_computed s"
  by (simp_all add: set_state_def seq_len_def get_toks_def seq_computed_def cong: option.case_cong)

lemma urgency_len [simp]: "seq_len (s\<lparr>scheduling_urgency := u\<rparr>) = seq_len s"
  by (simp add: seq_len_def cong: option.case_cong)

lemma seq_computed_le: "seq_computed s \<le> seq_len s"
  by (simp add: seq_computed_def)

lemma state_predicates [simp]:
  "is_prompt (set_state RunningPrompt s)" "\<not> is_completion (set_state RunningPrompt s)"
  "is_completion (set_state RunningCompletion s)" "\<not> is_prompt (set_state RunningCompletion s)"
  "\<not> is_finished_paged_attn (set_state RunningPrompt s)" "\<not> is_finished_paged_attn (set_state RunningCompletion s)"
  "\<not> is_finished_paged_attn (set_state Waiting s)"
  by (simp_all add: is_prompt_def is_completion_def is_finished_paged_attn_def set_state_def)

end
