(* ===== verification/Default_Scheduler.thy ===== *)
theory Default_Scheduler
  imports Sequences
begin

text \<open>
  The default (non-paged) scheduler (\<open>scheduler/default_scheduler.rs\<close>): admission from the waiting queue,
  bucketing by length, media, offset and raw request, cancellation and the removal of finished sequences.

  Priorities are \<open>f64\<close> values and the operations on
  them a parameter (\<open>f64_ops\<close>). The order in which a \<open>HashMap\<close> is iterated is a parameter too, one order per place
  that iterates. The urgency counter wraps, as in a release build; the counters of the interval logger are left out.
\<close>

section \<open>Bucketing\<close>

datatype ordering = Less | Equal | Greater

record 'f f64_ops =
  compute_priority :: "nat \<Rightarrow> nat \<Rightarrow> 'f"
  add_f64 :: "'f \<Rightarrow> 'f \<Rightarrow> 'f"
  partial_cmp :: "'f \<Rightarrow> 'f \<Rightarrow> ordering option"

type_synonym BucketKey = "nat \<times> nat \<times> nat \<times> nat option"
type_synonym map_orders = "nat \<Rightarrow> BucketKey list \<Rightarrow> BucketKey list"

definition bucket_key :: "bool \<Rightarrow> Sequence \<Rightarrow> BucketKey" where
  "bucket_key uniform s =
     (seq_len s,
      if uniform then modality_signature s else if images_given s \<and> is_prompt s then 1 else 0,
      token_offset s,
      if return_raw_logits s then Some (sid s) else None)"

abbreviation priority_of :: "'f f64_ops \<Rightarrow> Sequence \<Rightarrow> 'f" where
  "priority_of ops s \<equiv> compute_priority ops (scheduling_urgency s) (seq_len s)"

type_synonym 'f buckets = "(BucketKey \<times> Sequence list) list \<times> (BucketKey \<times> 'f) list"

definition bucket_one :: "'f f64_ops \<Rightarrow> bool \<Rightarrow> bool \<Rightarrow> Sequence \<Rightarrow> 'f buckets \<Rightarrow> 'f buckets res" where
  "bucket_one ops discrete uniform s = (\<lambda>(buckets, prios).
     let key = bucket_key uniform s in
     case map_of buckets key of
       Some bucket \<Rightarrow>
         and_then (if discrete then Inr prios
           else and_then (expect ''unwrap'' (map_of prios key)) (\<lambda>q.
             Inr (AList.update key (add_f64 ops q (priority_of ops s)) prios))) (\<lambda>prios.
         Inr (AList.update key (bucket @ [s]) buckets, prios))
     | None \<Rightarrow>
         Inr (AList.update key [s] buckets,
              if discrete then prios else AList.update key (priority_of ops s) prios))"

text \<open>\<open>min_by_key\<close> keeps the first minimum, \<open>max_by\<close> the last maximum of the iteration.\<close>

fun min_len_key :: "BucketKey list \<Rightarrow> BucketKey option" where
  "min_len_key [] = None"
| "min_len_key (k # ks) =
     Some (foldl (\<lambda>best k. if fst k < fst best then k else best) k ks)"

definition max_step :: "'f f64_ops \<Rightarrow> BucketKey \<times> 'f \<Rightarrow> BucketKey \<times> 'f \<Rightarrow> (BucketKey \<times> 'f) res" where
  "max_step ops x best =
     and_then (expect ''unwrap'' (partial_cmp ops (snd best) (snd x))) (\<lambda>c.
     Inr (if c = Greater then best else x))"

fun max_priority :: "'f f64_ops \<Rightarrow> (BucketKey \<times> 'f) list \<Rightarrow> (BucketKey \<times> 'f) option res" where
  "max_priority ops [] = Inr None"
| "max_priority ops (x # xs) = and_then (fold_res (max_step ops) xs x) (\<lambda>y. Inr (Some y))"

definition in_order :: "BucketKey list \<Rightarrow> (BucketKey \<times> 'a) list \<Rightarrow> (BucketKey \<times> 'a) list" where
  "in_order ks al = map (\<lambda>k. (k, the (map_of al k))) ks"

definition bucket_and_waitlist_seqs_waiting ::
    "'f f64_ops \<Rightarrow> map_orders \<Rightarrow> Sequence list \<Rightarrow> Sequence list \<Rightarrow> bool \<Rightarrow> bool \<Rightarrow> (Sequence list \<times> Sequence list) res" where
  "bucket_and_waitlist_seqs_waiting ops ord running waiting discrete uniform =
     and_then (fold_res (bucket_one ops discrete uniform) running ([], [])) (\<lambda>(buckets, prios).
     if length buckets \<le> 1 then
       Inr (map reset_urgency (concat (map snd (in_order (ord 0 (map fst buckets)) buckets))), waiting)
     else
       and_then (expect ''No sequence buckets.'' (min_len_key (ord 1 (map fst buckets)))) (\<lambda>min_key.
       and_then (if discrete then Inr min_key
         else and_then (max_priority ops (in_order (ord 2 (map fst prios)) prios)) (\<lambda>best.
           Inr (case best of Some (k, _) \<Rightarrow> k | None \<Rightarrow> min_key))) (\<lambda>key.
       and_then (expect ''unwrap'' (map_of buckets key)) (\<lambda>chosen.
       let rest = AList.delete key buckets in
       Inr (map reset_urgency chosen,
            waiting @ map add_urgency (concat (map snd (in_order (ord 3 (map fst rest)) rest))))))))"

section \<open>The scheduler\<close>

datatype DefaultSchedulerMethod = Fixed nat

record DefaultScheduler =
  ds_waiting :: "Sequence list"
  ds_running :: "Sequence list"
  ds_method :: DefaultSchedulerMethod
  requires_uniform_media_batch :: bool

record DefaultSchedulerOutput =
  completion :: "Sequence list"
  prompt :: "Sequence list"

definition DefaultScheduler_new :: "DefaultSchedulerMethod \<Rightarrow> DefaultScheduler" where
  "DefaultScheduler_new m = \<lparr>ds_waiting = [], ds_running = [], ds_method = m, requires_uniform_media_batch = False\<rparr>"

fun sequence_fits :: "DefaultSchedulerMethod \<Rightarrow> Sequence list \<Rightarrow> bool" where
  "sequence_fits (Fixed n) running \<longleftrightarrow> length running + 1 \<le> n"

definition bucket_and_waitlist_seqs ::
    "'f f64_ops \<Rightarrow> map_orders \<Rightarrow> Sequence list \<Rightarrow> DefaultScheduler \<Rightarrow> DefaultScheduler res" where
  "bucket_and_waitlist_seqs ops ord running d =
     and_then (bucket_and_waitlist_seqs_waiting ops ord running (ds_waiting d) True (requires_uniform_media_batch d))
       (\<lambda>(running, waiting). Inr (d\<lparr>ds_running := running, ds_waiting := waiting\<rparr>))"

fun admit_waiting ::
    "DefaultSchedulerMethod \<Rightarrow> Sequence list \<Rightarrow> Sequence list \<Rightarrow> Sequence list \<Rightarrow> Sequence list \<times> Sequence list" where
  "admit_waiting m running new_waiting [] = (running, new_waiting)"
| "admit_waiting m running new_waiting (s # rest) =
     (if sequence_fits m running then
        admit_waiting m (running @ [if is_waiting s then set_state RunningPrompt s else s]) new_waiting rest
      else admit_waiting m running (new_waiting @ [s]) rest)"

text \<open>The flag is \<open>TERMINATE_ALL_NEXT_STEP\<close>, read and cleared by the step.\<close>

definition schedule ::
    "'f f64_ops \<Rightarrow> map_orders \<Rightarrow> bool \<Rightarrow> DefaultScheduler \<Rightarrow> (DefaultSchedulerOutput \<times> bool \<times> DefaultScheduler) res" where
  "schedule ops ord terminate d =
     (let running = filter is_running (ds_running d); waiting = ds_waiting d in
      if waiting = [] \<and> running = [] then
        Inr (\<lparr>completion = [], prompt = []\<rparr>, terminate, d\<lparr>ds_running := [], ds_waiting := []\<rparr>)
      else if running = [] then
        and_then (bucket_and_waitlist_seqs ops ord (map (set_state RunningPrompt) waiting)
          (d\<lparr>ds_running := [], ds_waiting := []\<rparr>)) (\<lambda>d.
        Inr (\<lparr>completion = [], prompt = ds_running d\<rparr>, terminate, d))
      else if waiting = [] then
        and_then (bucket_and_waitlist_seqs ops ord running (d\<lparr>ds_running := [], ds_waiting := []\<rparr>)) (\<lambda>d.
        let d = (if terminate then d\<lparr>ds_running := map (set_state (Done Canceled)) (ds_running d)\<rparr> else d) in
        Inr (\<lparr>completion = ds_running d, prompt = []\<rparr>, False, d))
      else
        let (running, new_waiting) = admit_waiting (ds_method d) running [] (sort_key sid waiting) in
        and_then (bucket_and_waitlist_seqs_waiting ops ord running new_waiting False (requires_uniform_media_batch d))
          (\<lambda>(running, new_waiting).
        Inr (\<lparr>completion = filter is_completion running, prompt = filter (\<lambda>s. \<not> is_completion s) running\<rparr>,
             terminate, d\<lparr>ds_running := running, ds_waiting := new_waiting\<rparr>)))"

definition waiting_len :: "DefaultScheduler \<Rightarrow> nat" where
  "waiting_len d = length (ds_waiting d)"

definition running_len :: "DefaultScheduler \<Rightarrow> nat" where
  "running_len d = length (ds_running d)"

definition add_seq :: "Sequence \<Rightarrow> DefaultScheduler \<Rightarrow> DefaultScheduler" where
  "add_seq s d =
     (if is_running s then d\<lparr>ds_running := ds_running d @ [s]\<rparr> else d\<lparr>ds_waiting := ds_waiting d @ [s]\<rparr>)"

definition cancel_if_closed :: "Sequence \<Rightarrow> Sequence" where
  "cancel_if_closed s =
     (if response_closed s \<and> \<not> is_finished_paged_attn s then set_state (Done Canceled) s else s)"

definition cancel_closed_response_groups :: "DefaultScheduler \<Rightarrow> DefaultScheduler" where
  "cancel_closed_response_groups d =
     d\<lparr>ds_running := map cancel_if_closed (ds_running d), ds_waiting := map cancel_if_closed (ds_waiting d)\<rparr>"

definition free_finished_sequence_groups :: "DefaultScheduler \<Rightarrow> DefaultScheduler" where
  "free_finished_sequence_groups d =
     d\<lparr>ds_running := filter (\<lambda>s. \<not> is_finished_paged_attn s) (ds_running d),
       ds_waiting := filter (\<lambda>s. \<not> is_finished_paged_attn s) (ds_waiting d)\<rparr>"

definition get_finished_recurrent_slots :: "DefaultScheduler \<Rightarrow> (nat \<times> nat) list" where
  "get_finished_recurrent_slots d =
     List.map_filter (\<lambda>s. map_option (\<lambda>slot. (sid s, slot)) (recurrent_state_idx s))
       (filter is_finished_paged_attn (ds_running d @ ds_waiting d))"

definition get_finished_sequence_ids :: "DefaultScheduler \<Rightarrow> nat list" where
  "get_finished_sequence_ids d = map sid (filter is_finished_paged_attn (ds_running d @ ds_waiting d))"

definition set_requires_uniform_media_batch :: "bool \<Rightarrow> DefaultScheduler \<Rightarrow> DefaultScheduler" where
  "set_requires_uniform_media_batch b d = d\<lparr>requires_uniform_media_batch := b\<rparr>"

end
