(* ===== verification/Default_Scheduler_Theorems.thy ===== *)
theory Default_Scheduler_Theorems
  imports Default_Scheduler
begin

text \<open>
  Correctness of the default scheduler: bucketing splits the running sequences without loss, every
  scheduling step conserves the sequences and runs a uniform batch, and where the limit on
  running sequences holds.
\<close>

section \<open>What is assumed of the parameters\<close>

text \<open>
  A \<open>HashMap\<close> iterates over each entry once, in some order. No priority is a NaN: sums and
  comparisons stay within a set of comparable values.
\<close>

definition orders_ok :: "map_orders \<Rightarrow> bool" where
  "orders_ok ord \<longleftrightarrow> (\<forall>i ks. mset (ord i ks) = mset ks)"

definition f64_ok :: "'f f64_ops \<Rightarrow> ('f \<Rightarrow> bool) \<Rightarrow> bool" where
  "f64_ok ops good \<longleftrightarrow> (\<forall>u l. good (compute_priority ops u l)) \<and>
     (\<forall>a b. good a \<longrightarrow> good b \<longrightarrow> good (add_f64 ops a b) \<and> partial_cmp ops a b \<noteq> None)"

section \<open>Bucketing\<close>

definition buckets_ok :: "('f \<Rightarrow> bool) \<Rightarrow> bool \<Rightarrow> bool \<Rightarrow> Sequence list \<Rightarrow> 'f buckets \<Rightarrow> bool" where
  "buckets_ok good discrete uniform done' = (\<lambda>(buckets, prios).
     distinct (map fst buckets) \<and> (\<forall>(k, b) \<in> set buckets. b \<noteq> [] \<and> (\<forall>s \<in> set b. bucket_key uniform s = k)) \<and>
     mset (concat (map snd buckets)) = mset done' \<and>
     (if discrete then prios = [] else map fst prios = map fst buckets \<and> (\<forall>(k, q) \<in> set prios. good q)))"

lemma mset_concat_update:
  "map_of al k = Some b \<Longrightarrow> distinct (map fst al) \<Longrightarrow>
     mset (concat (map snd (AList.update k (b @ [s]) al))) = add_mset s (mset (concat (map snd al)))"
  by (induction al) (auto split: if_splits)

lemma update_new: "map_of al k = None \<Longrightarrow> AList.update k v al = al @ [(k, v)]"
  by (induction al) (auto split: if_splits)

lemma set_update_subset: "distinct (map fst al) \<Longrightarrow> set (AList.update k v al) \<subseteq> insert (k, v) (set al)"
  by (induction al) auto

lemma keys_update: "map fst (AList.update k v al) = (if k \<in> set (map fst al) then map fst al else map fst al @ [k])"
  by (simp add: update_keys)

lemma bucket_one_ok:
  assumes "f64_ok ops good" and "buckets_ok good discrete uniform pre bp"
  shows "returns (bucket_one ops discrete uniform s bp) (buckets_ok good discrete uniform (pre @ [s]))"
proof -
  obtain buckets prios where bp: "bp = (buckets, prios)" by (cases bp)
  let ?k = "bucket_key uniform s"
  have b: "distinct (map fst buckets)" "\<forall>(k, b) \<in> set buckets. b \<noteq> [] \<and> (\<forall>s \<in> set b. bucket_key uniform s = k)"
    "mset (concat (map snd buckets)) = mset pre"
    and p: "if discrete then prios = [] else map fst prios = map fst buckets \<and> (\<forall>(k, q) \<in> set prios. good q)"
    using assms(2) by (simp_all add: buckets_ok_def bp)
  show ?thesis
  proof (cases "map_of buckets ?k")
    case None
    then have new: "?k \<notin> set (map fst buckets)" by (simp add: map_of_eq_None_iff)
    then have "\<not> discrete \<Longrightarrow> map_of prios ?k = None" 
      using p by (metis (mono_tags, lifting) list.set_map map_of_eq_None_iff)
    then show ?thesis
      using None b p new assms(1) by (auto simp: bucket_one_def bp buckets_ok_def update_new f64_ok_def Let_def)
  next
    case (Some bucket)
    then have mem: "(?k, bucket) \<in> set buckets" "?k \<in> set (map fst buckets)"
      by (auto dest!: map_of_SomeD) (metis fst_conv image_eqI)
    define buckets' where "buckets' = AList.update ?k (bucket @ [s]) buckets"
    have b': "distinct (map fst buckets')" "map fst buckets' = map fst buckets"
      "mset (concat (map snd buckets')) = mset (pre @ [s])"
      using b mem(2) mset_concat_update [OF Some b(1), of s] by (simp_all add: buckets'_def keys_update)
    have "\<forall>(k, b) \<in> set buckets'. b \<noteq> [] \<and> (\<forall>s \<in> set b. bucket_key uniform s = k)"
      using set_update_subset [OF b(1), of ?k "bucket @ [s]"] b(2) mem(1) unfolding buckets'_def by fastforce
    note b' = b' this
    show ?thesis
    proof (cases discrete)
      case True
      then show ?thesis using Some b' p by (simp add: bucket_one_def bp buckets_ok_def buckets'_def [symmetric] Let_def)
    next
      case False
      then obtain q where q: "map_of prios ?k = Some q" "good q"
        using p mem(2) by (metis (no_types, lifting) case_prodD map_of_SomeD map_of_eq_None_iff option.exhaust list.set_map)
      define prios' where "prios' = AList.update ?k (add_f64 ops q (priority_of ops s)) prios"
      have "map fst prios' = map fst buckets'" using p mem(2) b'(2) False by (simp add: prios'_def keys_update)
      moreover have "distinct (map fst prios)" using p b(1) False by simp
      then have "\<forall>(k, q) \<in> set prios'. good q"
        using set_update_subset [of prios ?k "add_f64 ops q (priority_of ops s)"] p q(2) assms(1) False
        unfolding prios'_def f64_ok_def by fastforce
      ultimately show ?thesis
        using Some q(1) b' False
        by (simp add: bucket_one_def bp buckets_ok_def buckets'_def [symmetric] prios'_def [symmetric] Let_def)
    qed
  qed
qed

lemma in_order_self: "distinct (map fst al) \<Longrightarrow> in_order (map fst al) al = al"
  unfolding in_order_def by (auto simp: comp_def intro!: map_idI dest: map_of_is_SomeI)

lemma in_order_mset:
  assumes "mset ks = mset (map fst al)" and "distinct (map fst al)"
  shows "mset (in_order ks al) = mset al"
proof -
  have "mset (in_order ks al) = mset (in_order (map fst al) al)"
    unfolding in_order_def mset_map using assms(1) by simp
  then show ?thesis using in_order_self [OF assms(2)] by simp
qed

lemma concat_order:
  assumes "mset xs = mset ys"
  shows "mset (concat (map snd xs)) = mset (concat (map snd ys))"
proof -
  have "mset (map (mset \<circ> snd) xs) = mset (map (mset \<circ> snd) ys)" using assms by (simp only: mset_map)
  then have "sum_list (map (mset \<circ> snd) xs) = sum_list (map (mset \<circ> snd) ys)"
    by (metis sum_mset_sum_list)
  then show ?thesis by (simp add: mset_concat)
qed

lemma concat_delete:
  "map_of al k = Some b \<Longrightarrow> distinct (map fst al) \<Longrightarrow>
     mset (concat (map snd al)) = mset b + mset (concat (map snd (AList.delete k al)))"
proof (induction al)
  case (Cons x al)
  then show ?case
    using delete_idem [of k al] by (cases "fst x = k") (auto simp: dom_map_of_conv_image_fst)
qed simp

lemma min_len_key_mem: "ks \<noteq> [] \<Longrightarrow> \<exists>k. min_len_key ks = Some k \<and> k \<in> set ks"
proof (cases ks)
  case (Cons k ks')
  have "foldl (\<lambda>best k. if fst k < fst best then k else best) b xs \<in> insert b (set xs)" for b :: BucketKey and xs
    by (induction xs arbitrary: b) auto
  then show ?thesis using Cons by auto
qed simp

lemma max_priority_mem:
  assumes "f64_ok ops good" and "\<forall>(k, q) \<in> set xs. good q" and "xs \<noteq> []"
  shows "\<exists>y \<in> set xs. max_priority ops xs = Inr (Some y)"
proof (cases xs)
  case (Cons x rest)
  have "returns (fold_res (max_step ops) rest x) (\<lambda>y. y \<in> set xs)"
  proof (rule returns_fold_res)
    fix pre z post y assume z: "rest = pre @ z # post" "y \<in> set xs"
    then have "good (snd y)" "good (snd z)" using assms(2) Cons by (cases y, cases z; fastforce)+
    then obtain c where "partial_cmp ops (snd y) (snd z) = Some c" using assms(1) by (force simp: f64_ok_def)
    then show "returns (max_step ops z y) (\<lambda>y. y \<in> set xs)" using z Cons by (simp add: max_step_def)
  qed (simp add: Cons)
  then show ?thesis using Cons by (auto simp: returns_iff)
qed (use assms in simp)

definition one_batch :: "bool \<Rightarrow> Sequence list \<Rightarrow> bool" where
  "one_batch uniform ss \<longleftrightarrow> (\<forall>s \<in> set ss. \<forall>t \<in> set ss. bucket_key uniform s = bucket_key uniform t)"

lemma urgency_ids [simp]: "sid (reset_urgency s) = sid s" "sid (add_urgency s) = sid s" "sid (set_state st s) = sid s"
  "bucket_key u (reset_urgency s) = bucket_key u s" "seq_state (reset_urgency s) = seq_state s"
  by (simp_all add: reset_urgency_def add_urgency_def set_state_def bucket_key_def modality_signature_def is_prompt_def)

lemma bucketing_spec:
  assumes "f64_ok ops good" and "orders_ok ord"
  shows "\<exists>run wait chosen held. bucket_and_waitlist_seqs_waiting ops ord running waiting discrete uniform = Inr (run, wait) \<and>
    run = map reset_urgency chosen \<and> wait = waiting @ map add_urgency held \<and> mset chosen + mset held = mset running \<and>
    one_batch uniform run \<and> (running \<noteq> [] \<longrightarrow> run \<noteq> [])"
proof -
  have "returns (fold_res (bucket_one ops discrete uniform) running ([], [])) (buckets_ok good discrete uniform running)"
  proof (rule returns_fold_res)
    show "buckets_ok good discrete uniform [] ([], [])" by (simp add: buckets_ok_def)
  qed (rule bucket_one_ok [OF assms(1)])
  then obtain buckets prios where run: "fold_res (bucket_one ops discrete uniform) running ([], []) = Inr (buckets, prios)"
    and ok: "buckets_ok good discrete uniform running (buckets, prios)"
    by (auto simp: returns_iff)
  have b: "distinct (map fst buckets)" "\<forall>(k, b) \<in> set buckets. b \<noteq> [] \<and> (\<forall>s \<in> set b. bucket_key uniform s = k)"
    "mset (concat (map snd buckets)) = mset running"
    and p: "if discrete then prios = [] else map fst prios = map fst buckets \<and> (\<forall>(k, q) \<in> set prios. good q)"
    using ok by (simp_all add: buckets_ok_def)
  have ord: "mset (ord i ks) = mset ks" for i ks using assms(2) by (simp add: orders_ok_def)
  have all: "mset (concat (map snd (in_order (ord i (map fst al)) al))) = mset (concat (map snd al))"
    if "distinct (map fst al)" for i and al :: "(BucketKey \<times> Sequence list) list"
    using concat_order [OF in_order_mset [OF ord that]] .
  have batch: "one_batch uniform (map reset_urgency b) \<and> b \<noteq> []" if "map_of buckets k = Some b" for k b
    using b(2) map_of_SomeD [OF that] by (fastforce simp: one_batch_def)
  show ?thesis
  proof (cases "length buckets \<le> 1")
    case True
    let ?run = "concat (map snd (in_order (ord 0 (map fst buckets)) buckets))"
    have m: "mset ?run = mset running" using all [OF b(1)] b(3) by simp
    then have set: "set ?run = set running" by (metis set_mset_mset)
    have "one_batch uniform (map reset_urgency ?run)"
    proof (cases buckets)
      case Nil
      then show ?thesis using set b(3) by (auto simp: one_batch_def)
    next
      case (Cons kb rest)
      then have "buckets = [kb]" using True by simp
      then have "\<forall>s \<in> set running. bucket_key uniform s = fst kb" using b(2,3) by (cases kb) (auto dest!: mset_eq_setD)
      then show ?thesis unfolding one_batch_def using set by simp
    qed
    moreover have "running \<noteq> [] \<longrightarrow> ?run \<noteq> []" using m by (metis mset_zero_iff)
    ultimately show ?thesis
      using True run m
      by - (rule exI [of _ "map reset_urgency ?run"], rule exI [of _ waiting], rule exI [of _ ?run], rule exI [of _ "[]"],
        simp add: bucket_and_waitlist_seqs_waiting_def)
  next
    case False
    obtain mk where mk: "min_len_key (ord 1 (map fst buckets)) = Some mk" "mk \<in> set (map fst buckets)"
      using min_len_key_mem [of "ord 1 (map fst buckets)"] ord [of 1 "map fst buckets"] False
      by (metis One_nat_def length_map list.size(3) mset_eq_setD nat_le_linear not_less_eq_eq size_mset)
    have "\<exists>key. key \<in> set (map fst buckets) \<and>
      (if discrete then Inr mk else and_then (max_priority ops (in_order (ord 2 (map fst prios)) prios)) (\<lambda>best.
           Inr (case best of Some (k, _) \<Rightarrow> k | None \<Rightarrow> mk))) = (Inr key :: BucketKey res)"
    proof (cases discrete)
      case True
      then show ?thesis using mk(2) by auto
    next
      case notd: False
      let ?xs = "in_order (ord 2 (map fst prios)) prios"
      have keys: "map fst prios = map fst buckets" and good: "\<forall>(k, q) \<in> set prios. good q" using p notd by auto
      have "distinct (map fst prios)" using keys b(1) by simp
      then have same: "mset ?xs = mset prios" using in_order_mset [OF ord] by blast
      then have sx: "set ?xs = set prios" by (metis set_mset_mset)
      have "prios \<noteq> []" using keys False by auto
      then have "?xs \<noteq> []" using sx by (metis set_empty)
      then obtain y where y: "y \<in> set ?xs" "max_priority ops ?xs = Inr (Some y)"
        using max_priority_mem [OF assms(1), of ?xs] good sx by auto
      then have "fst y \<in> set (map fst buckets)" using sx keys by (metis imageI list.set_map)
      then show ?thesis using notd y(2) by (cases y) auto
    qed
    then obtain key where key: "key \<in> set (map fst buckets)"
      "(if discrete then Inr mk else and_then (max_priority ops (in_order (ord 2 (map fst prios)) prios)) (\<lambda>best.
           Inr (case best of Some (k, _) \<Rightarrow> k | None \<Rightarrow> mk))) = (Inr key :: BucketKey res)"
      by blast
    then obtain chosen where chosen: "map_of buckets key = Some chosen" by (metis list.set_map map_of_eq_None_iff option.exhaust)
    let ?rest = "AList.delete key buckets"
    let ?held = "concat (map snd (in_order (ord 3 (map fst ?rest)) ?rest))"
    have "distinct (map fst ?rest)" using b(1) by (simp add: distinct_delete)
    then have "mset chosen + mset ?held = mset running"
      using all [of ?rest 3] concat_delete [OF chosen b(1)] b(3) by simp
    then show ?thesis
      using False run mk(1) key(2) chosen batch [OF chosen]
      by - (rule exI [of _ "map reset_urgency chosen"], rule exI [of _ "waiting @ map add_urgency ?held"],
        rule exI [of _ chosen], rule exI [of _ ?held], simp add: bucket_and_waitlist_seqs_waiting_def Let_def)
  qed
qed

section \<open>Scheduling\<close>

lemma admit_waiting_ids:
  "admit_waiting m running nw ws = (run, wait) \<Longrightarrow>
     mset (map sid run) + mset (map sid wait) = mset (map sid running) + mset (map sid nw) + mset (map sid ws)"
  by (induction m running nw ws rule: admit_waiting.induct) (auto split: if_splits)

lemma admit_waiting_mono:
  "admit_waiting m running nw ws = (run, wait) \<Longrightarrow> length running \<le> length run"
  by (induction m running nw ws rule: admit_waiting.induct) (force split: if_splits)+

lemma sort_ids: "mset (map sid (sort_key sid ws)) = mset (map sid ws)"
  by (simp only: mset_map mset_sort)

lemma bucketed_ids:
  assumes "run = map reset_urgency chosen" and "wait = waiting @ map add_urgency held" and "mset chosen + mset held = mset running"
  shows "mset (map sid (run @ wait)) = mset (map sid running) + mset (map sid waiting)"
proof -
  have "mset (map sid chosen) + mset (map sid held) = mset (map sid running)"
    using assms(3) by (metis image_mset_union mset_map)
  moreover have "map sid run = map sid chosen" "map sid wait = map sid waiting @ map sid held"
    using assms(1,2) by (simp_all add: comp_def)
  ultimately show ?thesis by (simp add: ac_simps del: mset_map)
qed

definition same_shape :: "Sequence list \<Rightarrow> bool" where
  "same_shape ss \<longleftrightarrow> (\<forall>s \<in> set ss. \<forall>t \<in> set ss.
     seq_len s = seq_len t \<and> token_offset s = token_offset t \<and> (return_raw_logits s \<longrightarrow> sid s = sid t))"

lemma bucket_key_shape:
  "bucket_key uniform s = bucket_key uniform t \<Longrightarrow>
     seq_len s = seq_len t \<and> token_offset s = token_offset t \<and> (return_raw_logits s \<longrightarrow> sid s = sid t)"
  by (simp add: bucket_key_def split: if_splits)

lemma one_batch_shape: "one_batch uniform ss \<Longrightarrow> same_shape ss"
  unfolding one_batch_def same_shape_def
proof (intro ballI)
  fix s t assume "\<forall>s \<in> set ss. \<forall>t \<in> set ss. bucket_key uniform s = bucket_key uniform t" "s \<in> set ss" "t \<in> set ss"
  then have "bucket_key uniform s = bucket_key uniform t" by blast
  then show "seq_len s = seq_len t \<and> token_offset s = token_offset t \<and> (return_raw_logits s \<longrightarrow> sid s = sid t)"
    by (rule bucket_key_shape)
qed

lemma same_shape_state: "same_shape ss \<Longrightarrow> same_shape (map (set_state st) ss)"
  unfolding same_shape_def list.set_map ball_simps(9) set_state_fields urgency_ids .

text \<open>What every branch of the scheduler establishes.\<close>

definition scheduled :: "DefaultScheduler \<Rightarrow> DefaultSchedulerOutput \<Rightarrow> DefaultScheduler \<Rightarrow> bool" where
  "scheduled d out d' \<longleftrightarrow>
     mset (map sid (ds_running d' @ ds_waiting d')) = mset (map sid (filter is_running (ds_running d) @ ds_waiting d)) \<and>
     mset (completion out @ prompt out) = mset (ds_running d') \<and> same_shape (ds_running d') \<and>
     (filter is_running (ds_running d) @ ds_waiting d \<noteq> [] \<longrightarrow> ds_running d' \<noteq> [])"

lemma schedule_spec:
  assumes "f64_ok ops good" and "orders_ok ord"
  shows "\<exists>out t' d'. schedule ops ord terminate d = Inr (out, t', d') \<and> scheduled d out d'"
proof -
  let ?running = "filter is_running (ds_running d)" and ?u = "requires_uniform_media_batch d"
  consider (idle) "ds_waiting d = []" "?running = []" | (fresh) "ds_waiting d \<noteq> []" "?running = []"
    | (decode) "ds_waiting d = []" "?running \<noteq> []" | (mixed) "ds_waiting d \<noteq> []" "?running \<noteq> []" by blast
  then show ?thesis
  proof cases
    case idle
    then show ?thesis by (simp add: schedule_def Let_def scheduled_def same_shape_def)
  next
    case fresh
    let ?start = "map (set_state RunningPrompt) (ds_waiting d)"
    obtain run wait chosen held where b: "bucket_and_waitlist_seqs_waiting ops ord ?start [] True ?u = Inr (run, wait)"
      "run = map reset_urgency chosen" "wait = [] @ map add_urgency held" "mset chosen + mset held = mset ?start"
      "one_batch ?u run" "?start \<noteq> [] \<longrightarrow> run \<noteq> []"
      using bucketing_spec [OF assms, of ?start "[]" True ?u] by blast
    have "map sid ?start = map sid (ds_waiting d)" by (simp add: comp_def)
    then have "scheduled d \<lparr>completion = [], prompt = run\<rparr> (d\<lparr>ds_running := run, ds_waiting := wait\<rparr>)"
      using bucketed_ids [OF b(2-4)] one_batch_shape [OF b(5)] b(6) fresh
      unfolding scheduled_def by (simp add: comp_def del: mset_map)
    then show ?thesis
      using fresh b(1) by (simp add: schedule_def Let_def bucket_and_waitlist_seqs_def)
  next
    case decode
    obtain run wait chosen held where b: "bucket_and_waitlist_seqs_waiting ops ord ?running [] True ?u = Inr (run, wait)"
      "run = map reset_urgency chosen" "wait = [] @ map add_urgency held" "mset chosen + mset held = mset ?running"
      "one_batch ?u run" "?running \<noteq> [] \<longrightarrow> run \<noteq> []"
      using bucketing_spec [OF assms, of ?running "[]" True ?u] by blast
    define run' where "run' = (if terminate then map (set_state (Done Canceled)) run else run)"
    have "map sid run' = map sid run" "same_shape run'" "run' \<noteq> []"
      using one_batch_shape [OF b(5)] same_shape_state b(6) decode by (auto simp: run'_def comp_def)
    moreover obtain d' where "schedule ops ord terminate d = Inr (\<lparr>completion = run', prompt = []\<rparr>, False, d')"
      "ds_running d' = run'" "ds_waiting d' = wait"
      using decode b(1) by (cases terminate) (simp_all add: schedule_def Let_def bucket_and_waitlist_seqs_def run'_def)
    ultimately show ?thesis
      using bucketed_ids [OF b(2-4)] decode unfolding scheduled_def by (simp del: mset_map) blast
  next
    case mixed
    obtain run0 wait0 where a: "admit_waiting (ds_method d) ?running [] (sort_key sid (ds_waiting d)) = (run0, wait0)" by fastforce
    obtain run wait chosen held where b: "bucket_and_waitlist_seqs_waiting ops ord run0 wait0 False ?u = Inr (run, wait)"
      "run = map reset_urgency chosen" "wait = wait0 @ map add_urgency held" "mset chosen + mset held = mset run0"
      "one_batch ?u run" "run0 \<noteq> [] \<longrightarrow> run \<noteq> []"
      using bucketing_spec [OF assms, of run0 wait0 False ?u] by blast
    have "run0 \<noteq> []" using admit_waiting_mono [OF a] mixed(2) by auto
    moreover have "mset (map sid run0) + mset (map sid wait0) = mset (map sid (?running @ ds_waiting d))"
      using admit_waiting_ids [OF a] sort_ids [of "ds_waiting d"] by simp
    moreover have "mset (filter is_completion run @ filter (\<lambda>s. \<not> is_completion s) run) = mset run" by simp
    ultimately have "scheduled d \<lparr>completion = filter is_completion run, prompt = filter (\<lambda>s. \<not> is_completion s) run\<rparr>
        (d\<lparr>ds_running := run, ds_waiting := wait\<rparr>)"
      using bucketed_ids [OF b(2-4)] one_batch_shape [OF b(5)] b(6) unfolding scheduled_def by (simp del: mset_map)
    then show ?thesis
      using mixed a b(1) by (simp add: schedule_def Let_def)
  qed
qed

text \<open>
  C11. The default scheduler loses no sequence and mixes no shapes. A scheduling step never panics; the
  sequences it keeps, running and waiting together, are exactly the ones that were still running plus the ones
  that were waiting, each once; the batch it hands out is exactly the running list; all sequences of the
  batch have the same length and offset, and one that returns raw logits runs alone (when ids
  are unique); and while there is any live sequence the batch is not empty.
\<close>

theorem schedule_conserves_and_progresses:
  assumes "f64_ok ops good" and "orders_ok ord"
  shows "\<exists>out t' d'. schedule ops ord terminate d = Inr (out, t', d') \<and>
     mset (map sid (ds_running d' @ ds_waiting d')) = mset (map sid (filter is_running (ds_running d) @ ds_waiting d)) \<and>
     mset (completion out @ prompt out) = mset (ds_running d') \<and>
     (\<forall>s \<in> set (ds_running d'). \<forall>t \<in> set (ds_running d').
        seq_len s = seq_len t \<and> token_offset s = token_offset t \<and> (return_raw_logits s \<longrightarrow> sid s = sid t)) \<and>
     (filter is_running (ds_running d) @ ds_waiting d \<noteq> [] \<longrightarrow> ds_running d' \<noteq> [])"
  using schedule_spec [OF assms, of terminate d] unfolding scheduled_def same_shape_def by blast

text \<open>Priorities on which every operation is exact, as on the small integers of \<open>f64\<close>.\<close>

definition sample_f64 :: "nat f64_ops" where
  "sample_f64 = \<lparr>compute_priority = (+), add_f64 = (+),
     partial_cmp = (\<lambda>a b. Some (if a < b then Less else if a = b then Equal else Greater))\<rparr>"

definition sample_seq :: "nat \<Rightarrow> nat \<Rightarrow> SequenceState \<Rightarrow> Sequence" where
  "sample_seq i n st = \<lparr>sid = i, timestamp = i, seq_state = st, scheduling_urgency = 0, token_offset = 0,
     return_raw_logits = False, stepping_type = PromptAndDecode, seq_adapter = None, images_given = False,
     has_images = False, has_audios = False, has_videos = False, mm_features = [], response_closed = False,
     recurrent_state_idx = None, staged_speculative_tokens = [], prefill_prompt_toks = None, prefix_cache_len = 0,
     prefix_cache_hit_recorded = False, block_hash_revision = 0, computed_tokens = 0, xlora_cache = None,
     layer_cache = None, seq_tokens = replicate n 0\<rparr>"

lemma sample_parameters: "f64_ok sample_f64 (\<lambda>_. True)" "orders_ok (\<lambda>_ ks. ks)"
  by (simp_all add: f64_ok_def sample_f64_def orders_ok_def)

theorem schedule_conserves_and_progresses_witness:
  "\<exists>out t' d'. schedule sample_f64 (\<lambda>_ ks. ks) False
       (add_seq (sample_seq 1 5 RunningCompletion) (add_seq (sample_seq 2 7 Waiting) (DefaultScheduler_new (Fixed 4)))) = Inr (out, t', d') \<and>
     mset (map sid (ds_running d' @ ds_waiting d')) = {#1, 2#} \<and> ds_running d' \<noteq> []"
  using schedule_conserves_and_progresses [OF sample_parameters, of False
      "add_seq (sample_seq 1 5 RunningCompletion) (add_seq (sample_seq 2 7 Waiting) (DefaultScheduler_new (Fixed 4)))"]
  by (auto simp: add_seq_def DefaultScheduler_new_def sample_seq_def is_running_def)

section \<open>The limit on running sequences\<close>

lemma admit_waiting_limit:
  "admit_waiting (Fixed n) running nw ws = (run, wait) \<Longrightarrow> length running \<le> n \<Longrightarrow> length run \<le> n"
  by (induction "Fixed n" running nw ws rule: admit_waiting.induct) (auto split: if_splits)

text \<open>
  C29. The limit of \<open>Fixed(n)\<close> holds for admission beside running sequences: with at least one running
  sequence and at most \<open>n\<close> of them, a step never runs more than \<open>n\<close>. It does not hold when nothing is
  running: then the whole waiting queue is started at once, so that three sequences run under a limit of one.
\<close>

theorem fixed_limit_only_beside_running:
  assumes "f64_ok ops good" and "orders_ok ord"
    and "filter is_running (ds_running d) \<noteq> []" and "length (filter is_running (ds_running d)) \<le> n" and "ds_method d = Fixed n"
  shows "(\<exists>out t' d'. schedule ops ord terminate d = Inr (out, t', d') \<and> length (ds_running d') \<le> n) \<and>
    (\<exists>out d'. schedule sample_f64 (\<lambda>_ ks. ks) False \<lparr>ds_waiting = [sample_seq 1 5 Waiting, sample_seq 2 5 Waiting, sample_seq 3 5 Waiting],
        ds_running = [], ds_method = Fixed 1, requires_uniform_media_batch = False\<rparr> = Inr (out, False, d') \<and>
      length (ds_running d') = 3)"
proof
  let ?running = "filter is_running (ds_running d)" and ?u = "requires_uniform_media_batch d"
  show "\<exists>out t' d'. schedule ops ord terminate d = Inr (out, t', d') \<and> length (ds_running d') \<le> n"
  proof (cases "ds_waiting d = []")
    case True
    obtain run wait chosen held where b: "bucket_and_waitlist_seqs_waiting ops ord ?running [] True ?u = Inr (run, wait)"
      "run = map reset_urgency chosen" "mset chosen + mset held = mset ?running"
      using bucketing_spec [OF assms(1,2), of ?running "[]" True ?u] by blast
    have "length run + length held = length ?running" using b(2,3) by (metis length_map size_mset size_union)
    then show ?thesis
      using True assms(3,4) b(1) by (cases terminate) (auto simp: schedule_def Let_def bucket_and_waitlist_seqs_def)
  next
    case False
    obtain run0 wait0 where a: "admit_waiting (ds_method d) ?running [] (sort_key sid (ds_waiting d)) = (run0, wait0)" by fastforce
    obtain run wait chosen held where b: "bucket_and_waitlist_seqs_waiting ops ord run0 wait0 False ?u = Inr (run, wait)"
      "run = map reset_urgency chosen" "mset chosen + mset held = mset run0"
      using bucketing_spec [OF assms(1,2), of run0 wait0 False ?u] by blast
    have "length run + length held = length run0" using b(2,3) by (metis length_map size_mset size_union)
    then have "length run \<le> n" using admit_waiting_limit [of n ?running "[]"] a assms(4,5) by fastforce
    then show ?thesis using False assms(3) a b(1) by (simp add: schedule_def Let_def)
  qed
  show "\<exists>out d'. schedule sample_f64 (\<lambda>_ ks. ks) False \<lparr>ds_waiting = [sample_seq 1 5 Waiting, sample_seq 2 5 Waiting, sample_seq 3 5 Waiting],
        ds_running = [], ds_method = Fixed 1, requires_uniform_media_batch = False\<rparr> = Inr (out, False, d') \<and> length (ds_running d') = 3"
    by (simp add: schedule_def bucket_and_waitlist_seqs_def bucket_and_waitlist_seqs_waiting_def bucket_one_def
        bucket_key_def sample_seq_def set_state_def seq_len_def in_order_def is_prompt_def Let_def)
qed

theorem fixed_limit_only_beside_running_witness:
  "\<exists>out t' d'. schedule sample_f64 (\<lambda>_ ks. ks) False
       (add_seq (sample_seq 1 5 RunningCompletion) (add_seq (sample_seq 2 5 Waiting) (DefaultScheduler_new (Fixed 1)))) = Inr (out, t', d') \<and>
     length (ds_running d') \<le> 1"
  using fixed_limit_only_beside_running [OF sample_parameters, of
      "add_seq (sample_seq 1 5 RunningCompletion) (add_seq (sample_seq 2 5 Waiting) (DefaultScheduler_new (Fixed 1)))" 1 False]
  by (simp add: add_seq_def DefaultScheduler_new_def sample_seq_def is_running_def)

end
