(* ===== verification/Encoder_Cache.thy ===== *)
theory Encoder_Cache
  imports Rust_Prelude
begin

text \<open>
  The multimodal encoder cache of \<open>paged_attention/encoder_cache.rs\<close>: an LRU map from modality and content
  hash to encoder outputs with an entry or byte capacity, the process-wide residency counters every cache
  keeps up to date, the batch lookup with its deduplication inside a batch, and the cached encoding of a
  batch of images.

  The tensors of the candle library are a type parameter; the operations the cache calls on them are the
  record \<open>tensor_ops\<close>. An insertion-ordered \<open>IndexMap\<close> is an association list, oldest entry first:
  \<open>AList.delete\<close> is \<open>shift_remove\<close> and \<open>AList.update\<close> is \<open>insert\<close> (in place for a key that is present,
  at the end for a new one). The metrics facade is a log of the calls made to it. A lock is poisoned only
  after a panic in another holder, and a panic ends a run of the model.
\<close>

section \<open>Keys, metrics and the process-wide residency\<close>

datatype CacheModality = Image | Video | Audio

type_synonym CacheKey = "CacheModality \<times> 64 word"

record 't tensor_ops =
  elem_count :: "'t \<Rightarrow> nat"
  dtype_size_in_bytes :: "'t \<Rightarrow> nat"
  force_contiguous :: "'t \<Rightarrow> string + 't"
  detach :: "'t \<Rightarrow> 't"
  dim0 :: "'t \<Rightarrow> string + nat"
  row_at :: "'t \<Rightarrow> nat \<Rightarrow> string + 't"
  stack0 :: "'t list \<Rightarrow> string + 't"

datatype EvictionReason = EntryCapacity | LogicalByteCapacity | IncompatibleShape

datatype RejectionReason = EntryExceedsLogicalByteCapacity | StorageCompactionFailed

datatype metric =
    ResidentEntries nat
  | ResidentLogicalBytes nat
  | Evictions EvictionReason nat
  | InsertRejections RejectionReason nat
  | IntraBatchDeduplications nat

record ProcessResidency =
  resident_entry_count :: nat
  resident_logical_bytes :: nat

record EncoderProcess =
  PROCESS_RESIDENCY :: ProcessResidency
  metrics :: "metric list"

definition emit :: "metric \<Rightarrow> EncoderProcess \<Rightarrow> EncoderProcess" where
  "emit e w = w\<lparr>metrics := metrics w @ [e]\<rparr>"

definition adjust_process_residency :: "nat \<Rightarrow> nat \<Rightarrow> nat \<Rightarrow> nat res" where
  "adjust_process_residency counter previous current =
     (if previous \<le> current
      then expect ''encoder cache process residency overflow''
             (checked_add usize_max counter (current - previous))
      else expect ''encoder cache process residency underflow''
             (checked_sub counter (previous - current)))"

definition publish_process_residency_metrics :: "EncoderProcess \<Rightarrow> EncoderProcess" where
  "publish_process_residency_metrics w =
     emit (ResidentLogicalBytes (resident_logical_bytes (PROCESS_RESIDENCY w)))
       (emit (ResidentEntries (resident_entry_count (PROCESS_RESIDENCY w))) w)"

definition update_process_residency :: "nat \<Rightarrow> nat \<Rightarrow> nat \<Rightarrow> nat \<Rightarrow> EncoderProcess \<Rightarrow> EncoderProcess res" where
  "update_process_residency previous_entries current_entries previous_bytes current_bytes w =
     and_then (adjust_process_residency (resident_entry_count (PROCESS_RESIDENCY w)) previous_entries current_entries)
       (\<lambda>n. and_then (adjust_process_residency (resident_logical_bytes (PROCESS_RESIDENCY w)) previous_bytes current_bytes)
         (\<lambda>b. Inr (publish_process_residency_metrics
               (w\<lparr>PROCESS_RESIDENCY := \<lparr>resident_entry_count = n, resident_logical_bytes = b\<rparr>\<rparr>))))"

section \<open>Capacity policy and entries\<close>

datatype EncoderCacheCapacityPolicy = Entries nat | LogicalBytes nat

fun eviction_reason :: "EncoderCacheCapacityPolicy \<Rightarrow> EvictionReason" where
  "eviction_reason (Entries _) = EntryCapacity"
| "eviction_reason (LogicalBytes _) = LogicalByteCapacity"

record 't EncoderCacheEntry =
  entry_outputs :: "'t list"
  entry_logical_bytes :: nat

definition tensor_logical_bytes :: "'t tensor_ops \<Rightarrow> 't \<Rightarrow> nat \<Rightarrow> nat res" where
  "tensor_logical_bytes ops tensor acc =
     and_then (expect ''encoder cache tensor byte size overflow''
                 (checked_mul usize_max (elem_count ops tensor) (dtype_size_in_bytes ops tensor)))
       (\<lambda>tensor_bytes. expect ''encoder cache entry byte size overflow'' (checked_add usize_max acc tensor_bytes))"

definition logical_bytes :: "'t tensor_ops \<Rightarrow> 't list \<Rightarrow> nat res" where
  "logical_bytes ops outputs = fold_res (tensor_logical_bytes ops) outputs 0"

definition entry_new :: "'t tensor_ops \<Rightarrow> 't list \<Rightarrow> 't EncoderCacheEntry res" where
  "entry_new ops outputs =
     and_then (logical_bytes ops outputs)
       (\<lambda>n. Inr \<lparr>entry_outputs = outputs, entry_logical_bytes = n\<rparr>)"

definition compact_tensor :: "'t tensor_ops \<Rightarrow> 't \<Rightarrow> string + 't" where
  "compact_tensor ops tensor = and_then (force_contiguous ops tensor) (\<lambda>t. Inr (detach ops t))"

definition entry_compact :: "'t tensor_ops \<Rightarrow> 't list \<Rightarrow> (string, 't EncoderCacheEntry) result" where
  "entry_compact ops outputs =
     (case map_res (compact_tensor ops) outputs of
        Inl e \<Rightarrow> bail e
      | Inr outputs \<Rightarrow> and_then (entry_new ops outputs) okay)"

section \<open>The cache manager\<close>

record 't EncoderCacheManager =
  encoder_cache :: "(CacheKey \<times> 't EncoderCacheEntry) list"
  capacity_policy :: EncoderCacheCapacityPolicy
  cached_logical_bytes :: nat
  hits :: nat
  misses :: nat

type_synonym 't encoder_state = "'t EncoderCacheManager \<times> EncoderProcess"

definition resident_entries :: "'t EncoderCacheManager \<Rightarrow> nat" where
  "resident_entries m = length (encoder_cache m)"

definition fetch_add_one :: "nat \<Rightarrow> nat" where
  "fetch_add_one n = (n + 1) mod (usize_max + 1)"

definition with_capacity_policy :: "EncoderCacheCapacityPolicy \<Rightarrow> EncoderProcess \<Rightarrow> 't encoder_state" where
  "with_capacity_policy policy w =
     (\<lparr>encoder_cache = [], capacity_policy = policy, cached_logical_bytes = 0, hits = 0, misses = 0\<rparr>,
      emit (InsertRejections StorageCompactionFailed 0)
       (emit (InsertRejections EntryExceedsLogicalByteCapacity 0)
        (emit (Evictions IncompatibleShape 0)
         (emit (Evictions LogicalByteCapacity 0)
          (emit (Evictions EntryCapacity 0)
           (publish_process_residency_metrics w))))))"

definition encoder_cache_new :: "nat \<Rightarrow> EncoderProcess \<Rightarrow> 't encoder_state" where
  "encoder_cache_new max_entries w = with_capacity_policy (Entries max_entries) w"

definition exceeds_capacity_with :: "nat \<Rightarrow> 't EncoderCacheManager \<Rightarrow> bool res" where
  "exceeds_capacity_with entry_bytes m =
     (case capacity_policy m of
        Entries max_entries \<Rightarrow> Inr (0 < max_entries \<and> max_entries \<le> length (encoder_cache m))
      | LogicalBytes max_bytes \<Rightarrow>
          if 0 < max_bytes
          then and_then (expect ''encoder cache byte accounting overflow''
                           (checked_add usize_max (cached_logical_bytes m) entry_bytes))
                 (\<lambda>n. Inr (max_bytes < n))
          else Inr False)"

definition exceeds_current_capacity :: "'t EncoderCacheManager \<Rightarrow> bool res" where
  "exceeds_current_capacity m =
     (case capacity_policy m of
        Entries max_entries \<Rightarrow> Inr (0 < max_entries \<and> max_entries < length (encoder_cache m))
      | LogicalBytes max_bytes \<Rightarrow> Inr (0 < max_bytes \<and> max_bytes < cached_logical_bytes m))"

text \<open>The eviction loop of both capacity checks: the front entry goes first.\<close>

function evict_while :: "('t EncoderCacheManager \<Rightarrow> bool res) \<Rightarrow> 't EncoderCacheManager \<Rightarrow> nat \<Rightarrow>
    ('t EncoderCacheManager \<times> nat) res" where
  "evict_while exceeds m evicted =
     and_then (exceeds m) (\<lambda>over.
       if \<not> over then Inr (m, evicted)
       else case encoder_cache m of
         [] \<Rightarrow> Inl (ExpectFailed ''nonempty encoder cache required for capacity eviction'')
       | (_, oldest) # rest \<Rightarrow>
           and_then (expect ''encoder cache byte accounting underflow''
                       (checked_sub (cached_logical_bytes m) (entry_logical_bytes oldest))) (\<lambda>n.
           and_then (expect ''encoder cache eviction count overflow'' (checked_add usize_max evicted 1)) (\<lambda>evicted.
           evict_while exceeds (m\<lparr>encoder_cache := rest, cached_logical_bytes := n\<rparr>) evicted)))"
  by pat_completeness auto
termination
  by (relation "measure (\<lambda>(exceeds, m, evicted). length (encoder_cache m))") auto

declare evict_while.simps [simp del]

definition count_evictions :: "EncoderCacheCapacityPolicy \<Rightarrow> nat \<Rightarrow> EncoderProcess \<Rightarrow> EncoderProcess" where
  "count_evictions policy evicted w =
     (if 0 < evicted then emit (Evictions (eviction_reason policy) (min evicted u64_max)) w else w)"

definition set_capacity_policy :: "EncoderCacheCapacityPolicy \<Rightarrow> 't encoder_state \<Rightarrow> 't encoder_state res" where
  "set_capacity_policy policy = (\<lambda>(m, w).
     and_then (evict_while exceeds_current_capacity (m\<lparr>capacity_policy := policy\<rparr>) 0) (\<lambda>(m', evicted).
     and_then (update_process_residency (length (encoder_cache m)) (length (encoder_cache m'))
                 (cached_logical_bytes m) (cached_logical_bytes m') (count_evictions policy evicted w)) (\<lambda>w.
     Inr (m', w))))"

definition set_max_logical_bytes :: "nat \<Rightarrow> 't encoder_state \<Rightarrow> 't encoder_state res" where
  "set_max_logical_bytes max_bytes s =
     and_then (assert_that ''encoder cache byte capacity must be nonzero'' (0 < max_bytes))
       (\<lambda>_. set_capacity_policy (LogicalBytes max_bytes) s)"

definition get_validated :: "CacheModality \<Rightarrow> 64 word \<Rightarrow> ('t list \<Rightarrow> bool) \<Rightarrow> 't encoder_state \<Rightarrow>
    ('t list option \<times> 't encoder_state) res" where
  "get_validated modality content_hash is_valid = (\<lambda>(m, w).
     let key = (modality, content_hash) in
     case map_of (encoder_cache m) key of
       None \<Rightarrow> Inr (None, m\<lparr>misses := fetch_add_one (misses m)\<rparr>, w)
     | Some entry \<Rightarrow>
         let rest = AList.delete key (encoder_cache m) in
         if \<not> is_valid (entry_outputs entry) then
           and_then (expect ''encoder cache byte accounting underflow''
                       (checked_sub (cached_logical_bytes m) (entry_logical_bytes entry))) (\<lambda>n.
           and_then (update_process_residency (length (encoder_cache m)) (length rest)
                       (cached_logical_bytes m) n (emit (Evictions IncompatibleShape 1) w)) (\<lambda>w.
           Inr (None, m\<lparr>encoder_cache := rest, cached_logical_bytes := n, misses := fetch_add_one (misses m)\<rparr>, w)))
         else
           Inr (Some (entry_outputs entry),
                m\<lparr>encoder_cache := AList.update key entry rest, hits := fetch_add_one (hits m)\<rparr>, w))"

definition encoder_get :: "CacheModality \<Rightarrow> 64 word \<Rightarrow> 't encoder_state \<Rightarrow> ('t list option \<times> 't encoder_state) res" where
  "encoder_get modality content_hash = get_validated modality content_hash (\<lambda>_. True)"

definition too_large :: "EncoderCacheCapacityPolicy \<Rightarrow> nat \<Rightarrow> bool" where
  "too_large policy entry_bytes =
     (case policy of LogicalBytes max_bytes \<Rightarrow> 0 < max_bytes \<and> max_bytes < entry_bytes | Entries _ \<Rightarrow> False)"

definition remove_previous :: "CacheKey \<Rightarrow> 't EncoderCacheManager \<Rightarrow> 't EncoderCacheManager res" where
  "remove_previous key m =
     (case map_of (encoder_cache m) key of
        None \<Rightarrow> Inr m
      | Some previous \<Rightarrow>
          and_then (expect ''encoder cache byte accounting underflow''
                      (checked_sub (cached_logical_bytes m) (entry_logical_bytes previous)))
            (\<lambda>n. Inr (m\<lparr>encoder_cache := AList.delete key (encoder_cache m), cached_logical_bytes := n\<rparr>)))"

definition store_entry :: "CacheKey \<Rightarrow> 't EncoderCacheEntry \<Rightarrow> 't encoder_state \<Rightarrow> 't encoder_state res" where
  "store_entry key entry = (\<lambda>(m, w).
     and_then (remove_previous key m) (\<lambda>m1.
     and_then (evict_while (exceeds_capacity_with (entry_logical_bytes entry)) m1 0) (\<lambda>(m2, evicted).
     and_then (expect ''encoder cache byte accounting overflow''
                 (checked_add usize_max (cached_logical_bytes m2) (entry_logical_bytes entry))) (\<lambda>n.
     let m3 = m2\<lparr>encoder_cache := AList.update key entry (encoder_cache m2), cached_logical_bytes := n\<rparr> in
     and_then (update_process_residency (length (encoder_cache m)) (length (encoder_cache m3))
                 (cached_logical_bytes m) (cached_logical_bytes m3) (count_evictions (capacity_policy m2) evicted w)) (\<lambda>w.
     Inr (m3, w))))))"

definition encoder_insert :: "'t tensor_ops \<Rightarrow> CacheModality \<Rightarrow> 64 word \<Rightarrow> 't list \<Rightarrow> 't encoder_state \<Rightarrow>
    't encoder_state res" where
  "encoder_insert ops modality content_hash outputs = (\<lambda>(m, w).
     and_then (logical_bytes ops outputs) (\<lambda>entry_bytes.
     if too_large (capacity_policy m) entry_bytes
     then Inr (m, emit (InsertRejections EntryExceedsLogicalByteCapacity 1) w)
     else and_then (entry_compact ops outputs) (\<lambda>compacted. case compacted of
            Inl _ \<Rightarrow> Inr (m, emit (InsertRejections StorageCompactionFailed 1) w)
          | Inr entry \<Rightarrow> store_entry (modality, content_hash) entry (m, w))))"

definition encoder_drop :: "'t encoder_state \<Rightarrow> EncoderProcess res" where
  "encoder_drop = (\<lambda>(m, w). update_process_residency (resident_entries m) 0 (cached_logical_bytes m) 0 w)"

section \<open>Batch lookup\<close>

record 't EncoderCacheBatchLookup =
  batch_outputs :: "'t list option list"
  miss_groups :: "nat list list"

datatype Resolution = Hit nat | Miss nat

type_synonym 't lookup_acc = "'t EncoderCacheBatchLookup \<times> (64 word \<times> Resolution) list \<times> nat \<times> 't encoder_state"

text \<open>
  One turn of the loop over \<open>hashes.iter().enumerate()\<close>. The number of deduplicated items is at most the
  length of a slice, so it is kept as a natural number.
\<close>

definition lookup_one :: "CacheModality \<Rightarrow> (nat \<Rightarrow> 't list \<Rightarrow> bool) \<Rightarrow> nat \<times> 64 word \<Rightarrow> 't lookup_acc \<Rightarrow>
    't lookup_acc res" where
  "lookup_one modality is_valid = (\<lambda>(index, hash) (l, resolutions, deduplicated, s).
     case map_of resolutions hash of
       Some (Hit first_idx) \<Rightarrow>
         and_then (get_at (batch_outputs l) first_idx) (\<lambda>out.
         and_then (set_at (batch_outputs l) index out) (\<lambda>outs.
         Inr (l\<lparr>batch_outputs := outs\<rparr>, resolutions, deduplicated + 1, s)))
     | Some (Miss group_idx) \<Rightarrow>
         and_then (get_at (miss_groups l) group_idx) (\<lambda>group.
         and_then (set_at (miss_groups l) group_idx (group @ [index])) (\<lambda>groups.
         Inr (l\<lparr>miss_groups := groups\<rparr>, resolutions, deduplicated + 1, s)))
     | None \<Rightarrow>
         and_then (get_validated modality hash (is_valid index) s) (\<lambda>(found, s).
         case found of
           Some cached \<Rightarrow>
             and_then (set_at (batch_outputs l) index (Some cached)) (\<lambda>outs.
             Inr (l\<lparr>batch_outputs := outs\<rparr>, AList.update hash (Hit index) resolutions, deduplicated, s))
         | None \<Rightarrow>
             Inr (l\<lparr>miss_groups := miss_groups l @ [[index]]\<rparr>,
                  AList.update hash (Miss (length (miss_groups l))) resolutions, deduplicated, s)))"

definition record_intra_batch_deduplications :: "nat \<Rightarrow> EncoderProcess \<Rightarrow> EncoderProcess" where
  "record_intra_batch_deduplications count w = emit (IntraBatchDeduplications (min count u64_max)) w"

definition lookup_validated :: "CacheModality \<Rightarrow> 64 word list \<Rightarrow> (nat \<Rightarrow> 't list \<Rightarrow> bool) \<Rightarrow> 't encoder_state \<Rightarrow>
    ('t EncoderCacheBatchLookup \<times> 't encoder_state) res" where
  "lookup_validated modality hashes is_valid s =
     and_then (fold_res (lookup_one modality is_valid) (enumerate 0 hashes)
                 (\<lparr>batch_outputs = replicate (length hashes) None, miss_groups = []\<rparr>, [], 0, s))
       (\<lambda>(l, resolutions, deduplicated, m, w).
         Inr (l, m, record_intra_batch_deduplications deduplicated w))"

definition batch_lookup :: "CacheModality \<Rightarrow> 64 word list \<Rightarrow> 't encoder_state \<Rightarrow>
    ('t EncoderCacheBatchLookup \<times> 't encoder_state) res" where
  "batch_lookup modality hashes = lookup_validated modality hashes (\<lambda>_ _. True)"

definition batch_uncached :: "nat \<Rightarrow> 't EncoderCacheBatchLookup" where
  "batch_uncached item_count =
     \<lparr>batch_outputs = replicate item_count None, miss_groups = map (\<lambda>index. [index]) [0..<item_count]\<rparr>"

definition resolve_miss :: "nat \<Rightarrow> 't list \<Rightarrow> 't EncoderCacheBatchLookup \<Rightarrow> 't EncoderCacheBatchLookup res" where
  "resolve_miss miss_idx outputs l =
     and_then (get_at (miss_groups l) miss_idx) (\<lambda>group.
     and_then (fold_res (\<lambda>item_idx outs. set_at outs item_idx (Some outputs)) group (batch_outputs l)) (\<lambda>outs.
     Inr (l\<lparr>batch_outputs := outs\<rparr>)))"

definition into_outputs :: "'t EncoderCacheBatchLookup \<Rightarrow> string + 't list list" where
  "into_outputs l =
     map_res (\<lambda>out. case out of None \<Rightarrow> Inl ''encoder cache batch item is missing outputs'' | Some v \<Rightarrow> Inr v)
       (batch_outputs l)"

section \<open>Cached encoding of a batch of images\<close>

definition assemble_one :: "'t tensor_ops \<Rightarrow> 't list option list \<Rightarrow> nat \<Rightarrow> nat \<Rightarrow> (string, 't) result" where
  "assemble_one ops found n_images out_idx =
     and_then (map_res (\<lambda>i. and_then (get_at found i) (\<lambda>out.
                         and_then (expect ''all images should be resolved'' out) (\<lambda>v. get_at v out_idx)))
                 [0..<n_images])
       (\<lambda>slices. Inr (stack0 ops slices))"

definition assemble :: "'t tensor_ops \<Rightarrow> 't list option list \<Rightarrow> nat \<Rightarrow> (string, 't list) result" where
  "assemble ops found n_images =
     and_then (get_at found 0) (\<lambda>first.
       let n_outputs = (case first of None \<Rightarrow> 1 | Some v \<Rightarrow> length v) in
       map_result (assemble_one ops found n_images) [0..<n_outputs])"

text \<open>Selecting the rows of the missing images, one per group.\<close>

definition miss_slices :: "'t tensor_ops \<Rightarrow> 't \<Rightarrow> nat list list \<Rightarrow> (string, 't list) result" where
  "miss_slices ops pixel_values groups =
     map_result (\<lambda>group. and_then (get_at group 0) (\<lambda>i. Inr (row_at ops pixel_values i))) groups"

definition miss_pixels :: "'t tensor_ops \<Rightarrow> 't \<Rightarrow> nat \<Rightarrow> nat list list \<Rightarrow> (string, 't) result" where
  "miss_pixels ops pixel_values n_images groups =
     (if length groups = n_images then okay pixel_values
      else try_then (miss_slices ops pixel_values groups) (\<lambda>slices. Inr (stack0 ops slices)))"

text \<open>
  The storing loop: an error of \<open>t.get(batch_idx)\<close> leaves the entries stored so far in the cache.
\<close>

definition store_result :: "'t tensor_ops \<Rightarrow> CacheModality \<Rightarrow> 64 word list \<Rightarrow> 't list \<Rightarrow> nat \<Rightarrow>
    't EncoderCacheBatchLookup \<times> 't encoder_state \<Rightarrow>
    (string, 't EncoderCacheBatchLookup, 't encoder_state) stateful" where
  "store_result ops modality hashes encoded batch_idx = (\<lambda>(l, s).
     case map_res (\<lambda>t. row_at ops t batch_idx) encoded of
       Inl e \<Rightarrow> Inr (Inl e, s)
     | Inr per_image \<Rightarrow>
         and_then (get_at (miss_groups l) batch_idx) (\<lambda>group.
         and_then (get_at group 0) (\<lambda>first_idx.
         and_then (get_at hashes first_idx) (\<lambda>hash.
         and_then (encoder_insert ops modality hash per_image s) (\<lambda>s.
         and_then (resolve_miss batch_idx per_image l) (\<lambda>l.
         Inr (Inr l, s)))))))"

fun store_results :: "'t tensor_ops \<Rightarrow> CacheModality \<Rightarrow> 64 word list \<Rightarrow> 't list \<Rightarrow> nat list \<Rightarrow>
    't EncoderCacheBatchLookup \<times> 't encoder_state \<Rightarrow>
    (string, 't EncoderCacheBatchLookup, 't encoder_state) stateful" where
  "store_results ops modality hashes encoded [] (l, s) = Inr (Inr l, s)"
| "store_results ops modality hashes encoded (i # is) (l, s) =
     try_state (store_result ops modality hashes encoded i (l, s))
       (\<lambda>l s. store_results ops modality hashes encoded is (l, s))"

definition with_state :: "'s \<Rightarrow> ('e, 'a) result \<Rightarrow> ('e, 'a, 's) stateful" where
  "with_state s r = and_then r (\<lambda>x. Inr (x, s))"

definition cached_encode_images :: "bool \<Rightarrow> 't tensor_ops \<Rightarrow> ('t \<Rightarrow> string + 't list) \<Rightarrow> CacheModality \<Rightarrow>
    64 word list \<Rightarrow> 't \<Rightarrow> 't encoder_state \<Rightarrow> (string, 't list, 't encoder_state) stateful" where
  "cached_encode_images checks ops encode_fn modality image_hashes pixel_values s =
     (let n_images = length image_hashes in
      if n_images = 0 then Inr (encode_fn pixel_values, s)
      else
        try_state (with_state s (if checks
            then try_then (Inr (dim0 ops pixel_values)) (\<lambda>n.
                   and_then (assert_that ''image_hashes length must match pixel_values dim-0'' (n_images = n)) okay)
            else okay ())) (\<lambda>_ s.
        and_then (batch_lookup modality image_hashes s) (\<lambda>(l, s).
        if miss_groups l = [] then with_state s (assemble ops (batch_outputs l) n_images)
        else
          try_state (with_state s (miss_pixels ops pixel_values n_images (miss_groups l))) (\<lambda>pixels s.
          try_state (Inr (encode_fn pixels, s)) (\<lambda>encoded s.
          try_state (store_results ops modality image_hashes encoded [0..<length (miss_groups l)] (l, s)) (\<lambda>l s.
          with_state s (assemble ops (batch_outputs l) n_images)))))))"

end
