(* ===== verification/Encoder_Invariant.thy ===== *)
theory Encoder_Invariant
  imports Encoder_Cache
begin

text \<open>
  The invariant of one encoder cache and its share of the process-wide residency. Every operation is
  shown to keep the invariant whenever it returns, and to return when the byte counts fit; the eviction
  loop is shown to drop exactly the shortest prefix of least recently used entries that makes room.
\<close>

named_theorems encoder_frame \<open>what the bookkeeping of the process leaves alone\<close>

section \<open>Accounting\<close>

definition bytes_of :: "(CacheKey \<times> 't EncoderCacheEntry) list \<Rightarrow> nat" where
  "bytes_of es = sum_list (map (entry_logical_bytes \<circ> snd) es)"

lemma bytes_of_simps [simp]:
  "bytes_of [] = 0"
  "bytes_of (e # es) = entry_logical_bytes (snd e) + bytes_of es"
  "bytes_of (es @ es') = bytes_of es + bytes_of es'"
  by (simp_all add: bytes_of_def)

lemma bytes_of_drop_le: "bytes_of (drop k es) \<le> bytes_of es"
proof (induction es arbitrary: k)
  case (Cons e es)
  show ?case
  proof (cases k)
    case (Suc j)
    then show ?thesis using Cons.IH [of j] by simp
  qed simp
qed simp

lemma bytes_of_delete:
  assumes "distinct (map fst es)" and "map_of es k = Some e"
  shows "bytes_of es = entry_logical_bytes e + bytes_of (AList.delete k es)"
    and "length es = Suc (length (AList.delete k es))"
  using assms
proof (induction es)
  case (Cons p es)
  {
    case 1
    then show ?case using Cons.IH by (cases "fst p = k") (auto simp: map_of_eq_None_iff AList.delete_idem split: if_splits)
  next
    case 2
    then show ?case using Cons.IH by (cases "fst p = k") (auto simp: map_of_eq_None_iff AList.delete_idem split: if_splits)
  }
qed simp_all

definition within_capacity :: "'t EncoderCacheManager \<Rightarrow> bool" where
  "within_capacity m =
     (case capacity_policy m of
        Entries n \<Rightarrow> 0 < n \<longrightarrow> length (encoder_cache m) \<le> n
      | LogicalBytes n \<Rightarrow> 0 < n \<longrightarrow> cached_logical_bytes m \<le> n)"

definition entry_ok :: "'t tensor_ops \<Rightarrow> 't EncoderCacheEntry \<Rightarrow> bool" where
  "entry_ok ops e \<longleftrightarrow> logical_bytes ops (entry_outputs e) = Inr (entry_logical_bytes e)"

definition entries_ok :: "'t tensor_ops \<Rightarrow> 't EncoderCacheManager \<Rightarrow> bool" where
  "entries_ok ops m \<longleftrightarrow>
     distinct (map fst (encoder_cache m)) \<and>
     cached_logical_bytes m = bytes_of (encoder_cache m) \<and>
     (\<forall>e \<in> snd ` set (encoder_cache m). entry_ok ops e)"

definition encoder_ok :: "'t tensor_ops \<Rightarrow> 't EncoderCacheManager \<Rightarrow> bool" where
  "encoder_ok ops m \<longleftrightarrow> entries_ok ops m \<and> within_capacity m"

abbreviation res_entries :: "EncoderProcess \<Rightarrow> nat" where
  "res_entries w \<equiv> resident_entry_count (PROCESS_RESIDENCY w)"

abbreviation res_bytes :: "EncoderProcess \<Rightarrow> nat" where
  "res_bytes w \<equiv> resident_logical_bytes (PROCESS_RESIDENCY w)"

definition process_ok :: "EncoderProcess \<Rightarrow> bool" where
  "process_ok w \<longleftrightarrow> res_entries w \<le> usize_max \<and> res_bytes w \<le> usize_max"

text \<open>The cache's share of the process totals.\<close>

definition resides :: "'t encoder_state \<Rightarrow> bool" where
  "resides = (\<lambda>(m, w). length (encoder_cache m) \<le> res_entries w \<and> cached_logical_bytes m \<le> res_bytes w)"

definition state_ok :: "'t tensor_ops \<Rightarrow> 't encoder_state \<Rightarrow> bool" where
  "state_ok ops = (\<lambda>(m, w). encoder_ok ops m \<and> process_ok w \<and> resides (m, w))"

text \<open>
  \<open>accounted s t\<close>: what a step changes in the cache it changes in the process totals, and nothing else
  of them.
\<close>

definition accounted :: "'t encoder_state \<Rightarrow> 't encoder_state \<Rightarrow> bool" where
  "accounted = (\<lambda>(m, w) (m', w').
     res_entries w' + length (encoder_cache m) = res_entries w + length (encoder_cache m') \<and>
     res_bytes w' + cached_logical_bytes m = res_bytes w + cached_logical_bytes m' \<and>
     (process_ok w \<longrightarrow> process_ok w'))"

lemma accounted_refl [simp]: "accounted s s"
  by (cases s) (simp add: accounted_def)

lemma accounted_trans [trans]: "accounted s t \<Longrightarrow> accounted t u \<Longrightarrow> accounted s u"
  by (cases s; cases t; cases u) (auto simp: accounted_def)

lemma accounted_resides: "accounted s t \<Longrightarrow> resides s \<Longrightarrow> resides t"
  by (cases s; cases t) (auto simp: accounted_def resides_def)

lemma emit_frame [simp, encoder_frame]: "PROCESS_RESIDENCY (emit e w) = PROCESS_RESIDENCY w"
  by (simp add: emit_def)

lemma publish_frame [simp, encoder_frame]:
  "PROCESS_RESIDENCY (publish_process_residency_metrics w) = PROCESS_RESIDENCY w"
  by (simp add: publish_process_residency_metrics_def)

lemma count_evictions_frame [simp, encoder_frame]: "PROCESS_RESIDENCY (count_evictions p n w) = PROCESS_RESIDENCY w"
  by (simp add: count_evictions_def)

lemma record_dedup_frame [simp, encoder_frame]:
  "PROCESS_RESIDENCY (record_intra_batch_deduplications n w) = PROCESS_RESIDENCY w"
  by (simp add: record_intra_batch_deduplications_def)

section \<open>The process counters\<close>

lemma adjust_yields:
  "yields (adjust_process_residency c p q) (\<lambda>n. n + p = c + q \<and> (c \<le> usize_max \<longrightarrow> n \<le> usize_max))"
  by (auto simp: adjust_process_residency_def expect_def checked_add_def checked_sub_def yields_def
      split: option.splits if_splits)

lemma adjust_returns:
  assumes "p \<le> c" and "c + q \<le> usize_max + p"
  shows "adjust_process_residency c p q = Inr (c + q - p)"
  using assms by (auto simp: adjust_process_residency_def checked_add_def)

lemma update_residency_yields:
  "yields (update_process_residency p q pb qb w)
     (\<lambda>w'. res_entries w' + p = res_entries w + q \<and> res_bytes w' + pb = res_bytes w + qb \<and>
           (process_ok w \<longrightarrow> process_ok w'))"
  using adjust_yields [of "res_entries w" p q] adjust_yields [of "res_bytes w" pb qb]
  by (auto simp: update_process_residency_def process_ok_def yields_def and_then_def split: sum.splits)

lemma update_residency_returns:
  assumes "p \<le> res_entries w" and "pb \<le> res_bytes w"
    and "res_entries w + q \<le> usize_max + p" and "res_bytes w + qb \<le> usize_max + pb"
  shows "\<exists>w'. update_process_residency p q pb qb w = Inr w'"
  using assms by (simp add: update_process_residency_def adjust_returns)

lemma accountedI:
  assumes "update_process_residency (length (encoder_cache m)) q (cached_logical_bytes m) qb w1 = Inr w'"
    and "PROCESS_RESIDENCY w1 = PROCESS_RESIDENCY w" and "length (encoder_cache m') = q" and "cached_logical_bytes m' = qb"
  shows "accounted (m, w) (m', w')"
  using update_residency_yields [of "length (encoder_cache m)" q "cached_logical_bytes m" qb w1] assms
  by (auto simp: accounted_def process_ok_def)

section \<open>The eviction loop\<close>

text \<open>The cache without its \<open>k\<close> least recently used entries.\<close>

definition drop_oldest :: "nat \<Rightarrow> 't EncoderCacheManager \<Rightarrow> 't EncoderCacheManager" where
  "drop_oldest k m =
     m\<lparr>encoder_cache := drop k (encoder_cache m), cached_logical_bytes := bytes_of (drop k (encoder_cache m))\<rparr>"

lemma drop_oldest_frame [simp]:
  "encoder_cache (drop_oldest k m) = drop k (encoder_cache m)"
  "cached_logical_bytes (drop_oldest k m) = bytes_of (drop k (encoder_cache m))"
  "capacity_policy (drop_oldest k m) = capacity_policy m"
  "hits (drop_oldest k m) = hits m"
  "misses (drop_oldest k m) = misses m"
  by (simp_all add: drop_oldest_def)

lemma drop_oldest_0: "cached_logical_bytes m = bytes_of (encoder_cache m) \<Longrightarrow> drop_oldest 0 m = m"
  by (simp add: drop_oldest_def)

lemma drop_oldest_Suc:
  assumes "encoder_cache m = p # rest"
  shows "drop_oldest (Suc k) m = drop_oldest k (m\<lparr>encoder_cache := rest, cached_logical_bytes := n\<rparr>)"
  using assms by (simp add: drop_oldest_def)

lemma entries_ok_drop: "entries_ok ops m \<Longrightarrow> entries_ok ops (drop_oldest k m)"
  by (auto simp: entries_ok_def drop_map [symmetric] dest: in_set_dropD)

lemma evict_while_step:
  assumes "exceeds m = Inr True" and "encoder_cache m = (key, oldest) # rest"
    and "cached_logical_bytes m = bytes_of (encoder_cache m)"
  shows "evict_while exceeds m e =
     and_then (expect ''encoder cache eviction count overflow'' (checked_add usize_max e 1))
       (evict_while exceeds (m\<lparr>encoder_cache := rest, cached_logical_bytes := bytes_of rest\<rparr>))"
  using assms by (subst evict_while.simps) simp

lemma evict_while_yields:
  assumes "cached_logical_bytes m = bytes_of (encoder_cache m)"
  shows "yields (evict_while exceeds m e)
           (\<lambda>(m', n). \<exists>k \<le> length (encoder_cache m). m' = drop_oldest k m \<and> n = e + k \<and> exceeds m' = Inr False \<and>
              (\<forall>j < k. exceeds (drop_oldest j m) = Inr True))"
  using assms
proof (induction "encoder_cache m" arbitrary: m e)
  case Nil
  then show ?case
    by (subst evict_while.simps) (cases "exceeds m", auto simp: drop_oldest_0)
next
  case (Cons p rest)
  obtain key oldest where p: "p = (key, oldest)" by (cases p)
  let ?m = "m\<lparr>encoder_cache := rest, cached_logical_bytes := bytes_of rest\<rparr>"
  show ?case
  proof (cases "exceeds m")
    case (Inl x)
    then show ?thesis by (subst evict_while.simps) simp
  next
    case (Inr over)
    show ?thesis
    proof (cases over)
      case False
      then show ?thesis using Inr Cons.prems by (subst evict_while.simps) (simp add: drop_oldest_0 exI [of _ 0])
    next
      case True
      have IH: "yields (evict_while exceeds ?m e')
           (\<lambda>(m', n). \<exists>k \<le> length rest. m' = drop_oldest k ?m \<and> n = e' + k \<and> exceeds m' = Inr False \<and>
              (\<forall>j < k. exceeds (drop_oldest j ?m) = Inr True))" for e'
        using Cons.hyps(1) [of ?m] by simp
      have lift: "\<exists>k \<le> length (encoder_cache m). m' = drop_oldest k m \<and> n = e + k \<and> exceeds m' = Inr False \<and>
              (\<forall>j < k. exceeds (drop_oldest j m) = Inr True)"
        if "\<exists>k \<le> length rest. m' = drop_oldest k ?m \<and> n = Suc e + k \<and> exceeds m' = Inr False \<and>
              (\<forall>j < k. exceeds (drop_oldest j ?m) = Inr True)" for m' n
      proof -
        from that obtain k where k: "k \<le> length rest" "m' = drop_oldest k ?m" "n = Suc e + k"
          "exceeds m' = Inr False" "\<forall>j < k. exceeds (drop_oldest j ?m) = Inr True" by blast
        have "exceeds (drop_oldest j m) = Inr True" if "j < Suc k" for j
          using that k(5) True Inr Cons.prems
          by (cases j) (simp_all add: drop_oldest_0 drop_oldest_Suc [OF Cons.hyps(2) [symmetric], of _ "bytes_of rest"])
        then show ?thesis
          using k Cons.hyps(2)
          by (intro exI [of _ "Suc k"])
            (simp add: drop_oldest_Suc [OF Cons.hyps(2) [symmetric], of _ "bytes_of rest"] flip: Cons.hyps(2))
      qed
      show ?thesis
        using IH [of "Suc e"] lift True Inr Cons.prems
        by (subst evict_while_step [OF _ Cons.hyps(2) [symmetric, unfolded p]])
          (auto simp: p expect_def checked_add_def Cons.hyps(2) [symmetric] yields_def split: option.splits sum.splits)
    qed
  qed
qed

lemma evict_while_returns:
  assumes "cached_logical_bytes m = bytes_of (encoder_cache m)"
    and "e + length (encoder_cache m) \<le> usize_max"
    and "\<And>k. k \<le> length (encoder_cache m) \<Longrightarrow> \<exists>b. exceeds (drop_oldest k m) = Inr b"
    and "exceeds (drop_oldest (length (encoder_cache m)) m) = Inr False"
  shows "\<exists>r. evict_while exceeds m e = Inr r"
  using assms
proof (induction "encoder_cache m" arbitrary: m e)
  case Nil
  then show ?case by (subst evict_while.simps) (simp add: drop_oldest_0)
next
  case (Cons p rest)
  obtain key oldest where p: "p = (key, oldest)" by (cases p)
  let ?m = "m\<lparr>encoder_cache := rest, cached_logical_bytes := bytes_of rest\<rparr>"
  note Suc_eq = drop_oldest_Suc [OF Cons.hyps(2) [symmetric], of _ "bytes_of rest"]
  obtain over where over: "exceeds m = Inr over"
    using Cons.prems(3) [of 0] Cons.prems(1) by (auto simp: drop_oldest_0)
  have "\<exists>r. evict_while exceeds ?m (Suc e) = Inr r"
  proof (rule Cons.hyps(1))
    show "Suc e + length (encoder_cache ?m) \<le> usize_max" using Cons.prems(2) Cons.hyps(2) [symmetric] by simp
    show "\<exists>b. exceeds (drop_oldest k ?m) = Inr b" if "k \<le> length (encoder_cache ?m)" for k
      using Cons.prems(3) [of "Suc k"] that Cons.hyps(2) [symmetric] by (simp add: Suc_eq)
    show "exceeds (drop_oldest (length (encoder_cache ?m)) ?m) = Inr False"
      using Cons.prems(4) Cons.hyps(2) [symmetric] by (simp add: Suc_eq)
  qed simp_all
  moreover have "checked_add usize_max e 1 = Some (Suc e)"
    using Cons.prems(2) Cons.hyps(2) [symmetric] by (simp add: checked_add_def)
  moreover have "evict_while exceeds m e = Inr (m, e)" if "over = False"
    using over that by (subst evict_while.simps) simp
  ultimately show ?case
    using over Cons.prems(1) evict_while_step [of exceeds, OF _ Cons.hyps(2) [symmetric, unfolded p]]
    by (cases over) simp_all
qed

section \<open>Changing the capacity\<close>

lemma exceeds_current_drop [simp]:
  "exceeds_current_capacity (drop_oldest k m) = Inr (\<not> within_capacity (drop_oldest k m))"
  by (auto simp: exceeds_current_capacity_def within_capacity_def split: EncoderCacheCapacityPolicy.splits)

lemma within_capacity_empty [simp]: "encoder_cache m = [] \<Longrightarrow> cached_logical_bytes m = 0 \<Longrightarrow> within_capacity m"
  by (simp add: within_capacity_def split: EncoderCacheCapacityPolicy.splits)

definition policy_set :: "EncoderCacheCapacityPolicy \<Rightarrow> 't EncoderCacheManager \<Rightarrow> 't EncoderCacheManager \<Rightarrow> bool" where
  "policy_set policy m m' \<longleftrightarrow>
     (\<exists>k \<le> length (encoder_cache m). m' = drop_oldest k (m\<lparr>capacity_policy := policy\<rparr>) \<and> within_capacity m' \<and>
        (\<forall>j < k. \<not> within_capacity (drop_oldest j (m\<lparr>capacity_policy := policy\<rparr>))))"

lemma entries_ok_policy [simp]: "entries_ok ops (m\<lparr>capacity_policy := p\<rparr>) = entries_ok ops m"
  by (simp add: entries_ok_def)

lemma policy_set_ok: "entries_ok ops m \<Longrightarrow> policy_set p m m' \<Longrightarrow> encoder_ok ops m'"
  by (auto simp: policy_set_def encoder_ok_def entries_ok_drop)

lemma set_capacity_policy_yields:
  assumes "entries_ok ops m"
  shows "yields (set_capacity_policy p (m, w)) (\<lambda>(m', w'). policy_set p m m' \<and> accounted (m, w) (m', w'))"
proof -
  let ?m = "m\<lparr>capacity_policy := p\<rparr>"
  have "yields (evict_while exceeds_current_capacity ?m 0) (\<lambda>(m', n). policy_set p m m')"
    using evict_while_yields [of ?m exceeds_current_capacity 0] assms
    by (auto simp: policy_set_def entries_ok_def elim!: yields_mono)
  then show ?thesis
    by (auto simp: set_capacity_policy_def yields_def and_then_def intro!: accountedI split: sum.splits prod.splits)
qed

lemma set_capacity_policy_returns:
  assumes ok: "entries_ok ops m" and st: "process_ok w" "resides (m, w)"
  shows "\<exists>s'. set_capacity_policy p (m, w) = Inr s'"
proof -
  let ?m = "m\<lparr>capacity_policy := p\<rparr>"
  have "\<exists>r. evict_while exceeds_current_capacity ?m 0 = Inr r"
    using ok st by (intro evict_while_returns) (auto simp: entries_ok_def resides_def process_ok_def)
  then obtain m' n where r: "evict_while exceeds_current_capacity ?m 0 = Inr (m', n)" by auto
  have "length (encoder_cache m') \<le> length (encoder_cache m) \<and> cached_logical_bytes m' \<le> cached_logical_bytes m"
    using evict_while_yields [of ?m exceeds_current_capacity 0] r ok by (auto simp: entries_ok_def bytes_of_drop_le)
  then have "\<exists>w'. update_process_residency (length (encoder_cache m)) (length (encoder_cache m'))
      (cached_logical_bytes m) (cached_logical_bytes m') (count_evictions p n w) = Inr w'"
    using st by (intro update_residency_returns) (auto simp: resides_def process_ok_def)
  then show ?thesis using r by (auto simp: set_capacity_policy_def)
qed

section \<open>Lookups\<close>

text \<open>What a lookup does to the map: a hit moves to the back, an invalid entry goes.\<close>

definition looked_up :: "CacheKey \<Rightarrow> ('t list \<Rightarrow> bool) \<Rightarrow> 't EncoderCacheManager \<Rightarrow> 't list option \<Rightarrow> 't EncoderCacheManager \<Rightarrow> bool" where
  "looked_up key valid m found m' \<longleftrightarrow>
     capacity_policy m' = capacity_policy m \<and> cached_logical_bytes m' = bytes_of (encoder_cache m') \<and>
     (case map_of (encoder_cache m) key of
        None \<Rightarrow> found = None \<and> encoder_cache m' = encoder_cache m
      | Some e \<Rightarrow>
          if valid (entry_outputs e)
          then found = Some (entry_outputs e) \<and> encoder_cache m' = AList.delete key (encoder_cache m) @ [(key, e)]
          else found = None \<and> encoder_cache m' = AList.delete key (encoder_cache m))"

lemma alist_update_fresh: "map_of es k = None \<Longrightarrow> AList.update k v es = es @ [(k, v)]"
  by (induction es) (auto split: if_splits)

lemma map_of_delete_same [simp]: "map_of (AList.delete k es) k = None"
  by simp

lemma distinct_move_back:
  "distinct (map fst es) \<Longrightarrow> distinct (map fst (AList.delete k es @ [(k, e)]))"
  by (auto simp: AList.delete_eq distinct_map_filter)

lemma set_delete_subset: "set (AList.delete k es) \<subseteq> set es"
  by (auto simp: AList.delete_eq)

lemma delete_key_gone [simp]: "(k, e) \<notin> set (AList.delete k es)"
  by (simp add: AList.delete_eq)

lemma cache_entries_delete:
  assumes "entries_ok ops m"
  shows "entries_ok ops (m\<lparr>encoder_cache := AList.delete k (encoder_cache m),
           cached_logical_bytes := bytes_of (AList.delete k (encoder_cache m))\<rparr>)"
  using assms set_delete_subset [of k "encoder_cache m"] by (auto simp: entries_ok_def distinct_delete)

lemma looked_up_ok:
  assumes "encoder_ok ops m" and "looked_up key valid m found m'"
  shows "encoder_ok ops m'"
proof (cases "map_of (encoder_cache m) key")
  case None
  then show ?thesis
    using assms by (auto simp: encoder_ok_def entries_ok_def within_capacity_def looked_up_def
        split: EncoderCacheCapacityPolicy.splits)
next
  case (Some e)
  let ?d = "AList.delete key (encoder_cache m)"
  have "entry_ok ops e"
    using assms(1) map_of_SomeD [OF Some] by (force simp: encoder_ok_def entries_ok_def)
  moreover have "bytes_of (encoder_cache m) = entry_logical_bytes e + bytes_of ?d" "length (encoder_cache m) = Suc (length ?d)"
    using assms(1) bytes_of_delete [OF _ Some] by (simp_all add: encoder_ok_def entries_ok_def)
  ultimately show ?thesis
    using assms Some set_delete_subset [of key "encoder_cache m"]
    by (auto simp: encoder_ok_def entries_ok_def within_capacity_def looked_up_def distinct_delete
        split: if_splits EncoderCacheCapacityPolicy.splits)
qed

lemma get_validated_yields:
  assumes "entries_ok ops m"
  shows "yields (get_validated modality h valid (m, w))
           (\<lambda>(found, m', w'). looked_up (modality, h) valid m found m' \<and> accounted (m, w) (m', w'))"
proof (cases "map_of (encoder_cache m) (modality, h)")
  case None
  then show ?thesis
    using assms by (simp add: get_validated_def looked_up_def accounted_def entries_ok_def)
next
  case (Some e)
  let ?d = "AList.delete (modality, h) (encoder_cache m)"
  have d: "bytes_of (encoder_cache m) = entry_logical_bytes e + bytes_of ?d" "length (encoder_cache m) = Suc (length ?d)"
    using assms bytes_of_delete [OF _ Some] by (simp_all add: entries_ok_def)
  have "yields (update_process_residency (Suc (length ?d)) (length ?d) (cached_logical_bytes m) (bytes_of ?d) (emit x w))
      (\<lambda>w'. accounted (m, w) (m\<lparr>encoder_cache := ?d, cached_logical_bytes := bytes_of ?d, misses := n\<rparr>, w'))" for x n
    by (rule yields_mono [OF update_residency_yields]) (auto simp: accounted_def process_ok_def d)
  then show ?thesis
    using assms d Some
    by (auto simp: get_validated_def looked_up_def entries_ok_def Let_def alist_update_fresh accounted_def process_ok_def
        elim!: yields_mono)
qed

lemma get_validated_returns:
  assumes "entries_ok ops m" and "process_ok w" and "resides (m, w)"
  shows "\<exists>r. get_validated modality h valid (m, w) = Inr r"
proof (cases "map_of (encoder_cache m) (modality, h)")
  case (Some e)
  let ?d = "AList.delete (modality, h) (encoder_cache m)"
  have d: "cached_logical_bytes m = entry_logical_bytes e + bytes_of ?d" "length (encoder_cache m) = Suc (length ?d)"
    using assms bytes_of_delete [OF _ Some] by (simp_all add: entries_ok_def)
  then obtain w' where "update_process_residency (Suc (length ?d)) (length ?d) (entry_logical_bytes e + bytes_of ?d)
      (bytes_of ?d) (emit (Evictions IncompatibleShape 1) w) = Inr w'"
    using assms update_residency_returns [of "Suc (length ?d)" "emit (Evictions IncompatibleShape 1) w"
        "entry_logical_bytes e + bytes_of ?d" "length ?d" "bytes_of ?d"]
    by (auto simp: resides_def process_ok_def)
  then show ?thesis using d Some by (simp add: get_validated_def Let_def)
qed (simp add: get_validated_def)

section \<open>Insertion\<close>

text \<open>Room for an entry of \<open>n\<close> bytes beside the entries \<open>es\<close>.\<close>

definition room :: "EncoderCacheCapacityPolicy \<Rightarrow> (CacheKey \<times> 't EncoderCacheEntry) list \<Rightarrow> nat \<Rightarrow> bool" where
  "room policy es n =
     (case policy of
        Entries c \<Rightarrow> 0 < c \<longrightarrow> length es < c
      | LogicalBytes c \<Rightarrow> 0 < c \<longrightarrow> bytes_of es + n \<le> c)"

lemma exceeds_with_room:
  "exceeds_capacity_with n (drop_oldest k m) = Inr over \<Longrightarrow>
     room (capacity_policy m) (drop k (encoder_cache m)) n \<longleftrightarrow> \<not> over"
  by (auto simp: exceeds_capacity_with_def room_def expect_def checked_add_def
      split: EncoderCacheCapacityPolicy.splits option.splits if_splits)

lemma exceeds_with_returns:
  assumes "bytes_of (encoder_cache m) + n \<le> usize_max"
  shows "exceeds_capacity_with n (drop_oldest k m) = Inr (\<not> room (capacity_policy m) (drop k (encoder_cache m)) n)"
  using assms bytes_of_drop_le [of k "encoder_cache m"]
  by (auto simp: exceeds_capacity_with_def room_def split: EncoderCacheCapacityPolicy.splits)

definition stored :: "CacheKey \<Rightarrow> 't EncoderCacheEntry \<Rightarrow> 't EncoderCacheManager \<Rightarrow> 't EncoderCacheManager \<Rightarrow> bool" where
  "stored key e m m' \<longleftrightarrow>
     (let rest = AList.delete key (encoder_cache m); n = entry_logical_bytes e in
      capacity_policy m' = capacity_policy m \<and> cached_logical_bytes m' = bytes_of (encoder_cache m') \<and>
      (\<exists>k \<le> length rest. encoder_cache m' = drop k rest @ [(key, e)] \<and>
         room (capacity_policy m) (drop k rest) n \<and> (\<forall>j < k. \<not> room (capacity_policy m) (drop j rest) n)))"

lemma remove_previous_eq:
  assumes "entries_ok ops m"
  shows "remove_previous key m = Inr (m\<lparr>encoder_cache := AList.delete key (encoder_cache m),
           cached_logical_bytes := bytes_of (AList.delete key (encoder_cache m))\<rparr>)"
proof (cases "map_of (encoder_cache m) key")
  case None
  then have "AList.delete key (encoder_cache m) = encoder_cache m"
    by (simp add: AList.delete_idem map_of_eq_None_iff)
  moreover have "m\<lparr>encoder_cache := encoder_cache m, cached_logical_bytes := cached_logical_bytes m\<rparr> = m" by simp
  ultimately show ?thesis using None assms by (simp add: remove_previous_def entries_ok_def)
next
  case (Some e)
  then show ?thesis using assms bytes_of_delete [OF _ Some] by (simp add: remove_previous_def entries_ok_def)
qed

lemma drop_delete_fresh: "map_of (drop k (AList.delete key es)) key = None"
  by (auto simp: map_of_eq_None_iff AList.delete_eq dest: in_set_dropD)

lemma stored_ok:
  assumes "entries_ok ops m" and "entry_ok ops e" and "stored key e m m'"
  shows "encoder_ok ops m'"
proof -
  let ?d = "AList.delete key (encoder_cache m)"
  obtain k where k: "encoder_cache m' = drop k ?d @ [(key, e)]" "room (capacity_policy m) (drop k ?d) (entry_logical_bytes e)"
    "capacity_policy m' = capacity_policy m" "cached_logical_bytes m' = bytes_of (encoder_cache m')"
    using assms(3) by (auto simp: stored_def Let_def)
  have sub: "set (drop k ?d) \<subseteq> set (encoder_cache m)"
    using set_delete_subset [of key "encoder_cache m"] by (auto dest: in_set_dropD)
  have "distinct (map fst (drop k ?d))"
    using assms(1) by (metis entries_ok_def distinct_delete distinct_drop drop_map)
  then have "distinct (map fst (drop k ?d @ [(key, e)]))"
    using drop_delete_fresh [of k key "encoder_cache m"] by (simp add: map_of_eq_None_iff)
  then show ?thesis
    using k assms(1,2) sub
    by (auto simp: encoder_ok_def entries_ok_def within_capacity_def room_def
        split: EncoderCacheCapacityPolicy.splits)
qed

lemma store_entry_yields:
  assumes "entries_ok ops m"
  shows "yields (store_entry key e (m, w)) (\<lambda>(m', w'). stored key e m m' \<and> accounted (m, w) (m', w'))"
proof -
  let ?d = "AList.delete key (encoder_cache m)" and ?n = "entry_logical_bytes e"
  let ?m = "m\<lparr>encoder_cache := ?d, cached_logical_bytes := bytes_of ?d\<rparr>"
  have ev: "yields (evict_while (exceeds_capacity_with ?n) ?m 0) (\<lambda>(m2, _).
      stored key e m (m2\<lparr>encoder_cache := AList.update key e (encoder_cache m2),
        cached_logical_bytes := cached_logical_bytes m2 + ?n\<rparr>))"
  proof (rule yields_mono [OF evict_while_yields])
    fix r assume "case r of (m', x) \<Rightarrow> \<exists>k\<le>length (encoder_cache ?m). m' = drop_oldest k ?m \<and> x = 0 + k \<and>
        exceeds_capacity_with ?n m' = Inr False \<and> (\<forall>j<k. exceeds_capacity_with ?n (drop_oldest j ?m) = Inr True)"
    then obtain m2 k where r: "r = (m2, k)" "k \<le> length ?d" "m2 = drop_oldest k ?m"
      "exceeds_capacity_with ?n m2 = Inr False" "\<forall>j<k. exceeds_capacity_with ?n (drop_oldest j ?m) = Inr True"
      by (cases r) auto
    then have "room (capacity_policy m) (drop k ?d) ?n" "\<forall>j<k. \<not> room (capacity_policy m) (drop j ?d) ?n"
      using exceeds_with_room [of ?n _ ?m] by auto
    then show "case r of (m2, _) \<Rightarrow> stored key e m (m2\<lparr>encoder_cache := AList.update key e (encoder_cache m2),
        cached_logical_bytes := cached_logical_bytes m2 + ?n\<rparr>)"
      using r by (auto simp: stored_def Let_def alist_update_fresh drop_delete_fresh)
  qed simp
  show ?thesis
    using assms ev
    by (auto simp: store_entry_def remove_previous_eq Let_def expect_def checked_add_def yields_def and_then_def
        intro!: accountedI split: sum.splits prod.splits option.splits if_splits)
qed

lemma store_entry_returns:
  assumes ok: "entries_ok ops m" and st: "process_ok w" "resides (m, w)"
    and fits: "res_bytes w + entry_logical_bytes e \<le> usize_max" "res_entries w < usize_max"
    and small: "\<not> too_large (capacity_policy m) (entry_logical_bytes e)"
  shows "\<exists>r. store_entry key e (m, w) = Inr r"
proof -
  let ?d = "AList.delete key (encoder_cache m)" and ?n = "entry_logical_bytes e"
  let ?m = "m\<lparr>encoder_cache := ?d, cached_logical_bytes := bytes_of ?d\<rparr>"
  have le: "bytes_of ?d \<le> cached_logical_bytes m" "length ?d \<le> length (encoder_cache m)"
    using ok bytes_of_delete [of "encoder_cache m" key]
    by (cases "map_of (encoder_cache m) key"; auto simp: entries_ok_def AList.delete_idem map_of_eq_None_iff)+
  have room: "bytes_of ?d + ?n \<le> usize_max"
    using le fits st by (auto simp: resides_def)
  have "room (capacity_policy m) [] ?n"
    using small by (auto simp: room_def too_large_def split: EncoderCacheCapacityPolicy.splits)
  then have "\<exists>r. evict_while (exceeds_capacity_with ?n) ?m 0 = Inr r"
    using room le st
    by (intro evict_while_returns) (auto simp: exceeds_with_returns resides_def process_ok_def)
  then obtain m2 k where r: "evict_while (exceeds_capacity_with ?n) ?m 0 = Inr (m2, k)" by auto
  then have m2: "encoder_cache m2 = drop k ?d" "cached_logical_bytes m2 = bytes_of (drop k ?d)"
    using evict_while_yields [of ?m "exceeds_capacity_with ?n" 0] by auto
  let ?m3 = "m2\<lparr>encoder_cache := drop k ?d @ [(key, e)], cached_logical_bytes := bytes_of (drop k ?d) + ?n\<rparr>"
  have "\<exists>w'. update_process_residency (length (encoder_cache m)) (length (encoder_cache ?m3))
      (cached_logical_bytes m) (cached_logical_bytes ?m3) (count_evictions (capacity_policy m2) k w) = Inr w'"
    using le fits st bytes_of_drop_le [of k ?d] by (intro update_residency_returns) (auto simp: resides_def process_ok_def)
  then show ?thesis
    using r m2 room bytes_of_drop_le [of k ?d] ok
    by (auto simp: store_entry_def remove_previous_eq Let_def alist_update_fresh drop_delete_fresh checked_add_def)
qed

section \<open>Compaction\<close>

text \<open>
  Documented behaviour of candle: a contiguous copy and a detached tensor have the shape and the element
  type of the tensor they come from.
\<close>

definition copies_keep_size :: "'t tensor_ops \<Rightarrow> bool" where
  "copies_keep_size ops \<longleftrightarrow>
     (\<forall>t t'. force_contiguous ops t = Inr t' \<longrightarrow>
        elem_count ops t' = elem_count ops t \<and> dtype_size_in_bytes ops t' = dtype_size_in_bytes ops t) \<and>
     (\<forall>t. elem_count ops (detach ops t) = elem_count ops t \<and>
        dtype_size_in_bytes ops (detach ops t) = dtype_size_in_bytes ops t)"

lemma compact_keeps_bytes:
  assumes "copies_keep_size ops" and "map_res (compact_tensor ops) outs = Inr outs'"
  shows "logical_bytes ops outs' = logical_bytes ops outs"
proof -
  have "tensor_logical_bytes ops t' = tensor_logical_bytes ops t" if "compact_tensor ops t = Inr t'" for t t'
    using that assms(1)
    by (auto simp: compact_tensor_def copies_keep_size_def tensor_logical_bytes_def and_then_eq_Inr)
  then have "fold_res (tensor_logical_bytes ops) outs' n = fold_res (tensor_logical_bytes ops) outs n" for n
    using assms(2) by (induction outs arbitrary: outs' n) (auto simp: and_then_eq_Inr intro!: and_then_cong)
  then show ?thesis by (simp add: logical_bytes_def)
qed

lemma entry_compact_cases:
  assumes "copies_keep_size ops" and "logical_bytes ops outs = Inr n"
  obtains e where "map_res (compact_tensor ops) outs = Inl e" "entry_compact ops outs = bail e"
  | outs' where "map_res (compact_tensor ops) outs = Inr outs'"
      "entry_compact ops outs = okay \<lparr>entry_outputs = outs', entry_logical_bytes = n\<rparr>"
      "entry_ok ops \<lparr>entry_outputs = outs', entry_logical_bytes = n\<rparr>"
proof (cases "map_res (compact_tensor ops) outs")
  case (Inr outs')
  then have "logical_bytes ops outs' = Inr n" using compact_keeps_bytes [OF assms(1) Inr] assms(2) by simp
  then show ?thesis using that(2) [OF Inr] Inr by (simp add: entry_compact_def entry_new_def entry_ok_def)
qed (use that(1) in \<open>simp add: entry_compact_def\<close>)

lemma entry_compact_ok: "entry_compact ops outs = okay e \<Longrightarrow> entry_ok ops e"
  by (auto simp: entry_compact_def entry_new_def entry_ok_def and_then_eq_Inr split: sum.splits)

lemma encoder_insert_yields:
  assumes "entries_ok ops m"
  shows "yields (encoder_insert ops md h outs (m, w)) (\<lambda>(m', w').
           (m' = m \<or> (\<exists>e. entry_ok ops e \<and> map_res (compact_tensor ops) outs = Inr (entry_outputs e) \<and> stored (md, h) e m m')) \<and>
           accounted (m, w) (m', w'))"
proof -
  have frame: "accounted (m, w) (m, emit x w)" for x by (simp add: accounted_def process_ok_def)
  have e: "map_res (compact_tensor ops) outs = Inr (entry_outputs e)" if "entry_compact ops outs = okay e" for e
    using that by (auto simp: entry_compact_def entry_new_def and_then_eq_Inr split: sum.splits)
  have "yields (store_entry (md, h) e (m, w)) (\<lambda>(m', w').
           (m' = m \<or> (\<exists>e. entry_ok ops e \<and> map_res (compact_tensor ops) outs = Inr (entry_outputs e) \<and> stored (md, h) e m m')) \<and>
           accounted (m, w) (m', w'))" if "entry_compact ops outs = okay e" for e
    by (rule yields_mono [OF store_entry_yields [OF assms]]) (use entry_compact_ok [OF that] e [OF that] in auto)
  then show ?thesis
    using frame by (auto simp: encoder_insert_def yields_def and_then_def split: sum.splits)
qed

end
