(* ===== verification/Encoder_Batch.thy ===== *)
theory Encoder_Batch
  imports Encoder_Invariant
begin

text \<open>
  The batch lookup against its specification: every distinct hash of the batch is looked up once, at its
  first occurrence; items are answered by their hash; the items without an answer are grouped by hash in
  the order of first occurrence.
\<close>

section \<open>First occurrences and groups\<close>

definition first_index :: "'a \<Rightarrow> 'a list \<Rightarrow> nat" where
  "first_index h hs = length (takeWhile (\<lambda>x. x \<noteq> h) hs)"

fun firsts :: "'a list \<Rightarrow> 'a list" where
  "firsts [] = []"
| "firsts (h # hs) = h # filter (\<lambda>x. x \<noteq> h) (firsts hs)"

definition indices_of :: "'a \<Rightarrow> 'a list \<Rightarrow> nat list" where
  "indices_of h hs = filter (\<lambda>i. hs ! i = h) [0..<length hs]"

definition missing :: "('a \<Rightarrow> 'b option) \<Rightarrow> 'a list \<Rightarrow> 'a list" where
  "missing r hs = filter (\<lambda>h. r h = None) (firsts hs)"

definition groups_of :: "('a \<Rightarrow> 'b option) \<Rightarrow> 'a list \<Rightarrow> nat list list" where
  "groups_of r hs = map (\<lambda>h. indices_of h hs) (missing r hs)"

lemma first_index_less: "h \<in> set hs \<Longrightarrow> first_index h hs < length hs"
  unfolding first_index_def by (induction hs) auto

lemma nth_first_index: "h \<in> set hs \<Longrightarrow> hs ! first_index h hs = h"
  unfolding first_index_def by (induction hs) auto

lemma first_index_append:
  "first_index h (hs @ hs') = (if h \<in> set hs then first_index h hs else length hs + first_index h hs')"
  unfolding first_index_def by (induction hs) auto

lemma first_index_Cons: "first_index h (x # hs) = (if x = h then 0 else Suc (first_index h hs))"
  by (simp add: first_index_def)

lemma set_firsts [simp]: "set (firsts hs) = set hs"
  by (induction hs) auto

lemma distinct_firsts [simp]: "distinct (firsts hs)"
  by (induction hs) auto

lemma firsts_snoc: "firsts (hs @ [h]) = (if h \<in> set hs then firsts hs else firsts hs @ [h])"
  by (induction hs) auto

lemma length_firsts_le: "length (firsts hs) \<le> length hs"
  by (induction hs) (auto intro: order_trans [OF length_filter_le])

lemma indices_of_snoc: "indices_of h (hs @ [x]) = indices_of h hs @ (if x = h then [length hs] else [])"
  by (auto simp: indices_of_def nth_append intro!: filter_cong)

lemma indices_of_absent: "h \<notin> set hs \<Longrightarrow> indices_of h hs = []"
  by (auto simp: indices_of_def filter_empty_conv)

lemma set_indices_of [simp]: "set (indices_of h hs) = {i. i < length hs \<and> hs ! i = h}"
  by (auto simp: indices_of_def)

lemma indices_of_nonempty: "h \<in> set hs \<Longrightarrow> indices_of h hs \<noteq> []"
  unfolding indices_of_def filter_empty_conv by (auto simp: in_set_conv_nth)

lemma set_missing [simp]: "set (missing r hs) = {h \<in> set hs. r h = None}"
  by (auto simp: missing_def)

lemma distinct_missing [simp]: "distinct (missing r hs)"
  by (simp add: missing_def)

lemma missing_snoc:
  "missing r (hs @ [h]) = (if h \<in> set hs \<or> r h \<noteq> None then missing r hs else missing r hs @ [h])"
  by (simp add: missing_def firsts_snoc)

lemma first_index_nth: "distinct xs \<Longrightarrow> g < length xs \<Longrightarrow> first_index (xs ! g) xs = g"
  by (metis distinct_conv_nth first_index_less nth_first_index nth_mem)

lemma groups_of_known:
  assumes "h \<in> set hs" and "r h = None"
  shows "groups_of r (hs @ [h]) =
    (groups_of r hs)[first_index h (missing r hs) := indices_of h hs @ [length hs]]"
proof (rule nth_equalityI)
  have h: "h \<in> set (missing r hs)" using assms by simp
  fix g assume "g < length (groups_of r (hs @ [h]))"
  then have g: "g < length (missing r hs)" using assms by (simp add: groups_of_def missing_snoc)
  have "(missing r hs ! g = h) = (g = first_index h (missing r hs))"
    using g h first_index_nth [OF distinct_missing g] nth_first_index [OF h] by auto
  then show "groups_of r (hs @ [h]) ! g =
      (groups_of r hs)[first_index h (missing r hs) := indices_of h hs @ [length hs]] ! g"
    using g assms by (auto simp: groups_of_def missing_snoc indices_of_snoc nth_list_update_if)
qed (use assms in \<open>simp add: groups_of_def missing_snoc\<close>)

lemma groups_of_found: "r h \<noteq> None \<Longrightarrow> groups_of r (hs @ [h]) = groups_of r hs"
  by (auto simp: groups_of_def missing_snoc indices_of_snoc)

lemma groups_of_new:
  "h \<notin> set hs \<Longrightarrow> r h = None \<Longrightarrow> groups_of r (hs @ [h]) = groups_of r hs @ [[length hs]]"
  by (auto simp: groups_of_def missing_snoc indices_of_snoc indices_of_absent)

lemma enumerate_split:
  assumes "enumerate 0 xs = d @ x # r"
  shows "length d < length xs" and "x = (length d, xs ! length d)"
proof -
  show d: "length d < length xs"
    using arg_cong [OF assms, of length] by simp
  show "x = (length d, xs ! length d)"
    using arg_cong [OF assms, of "\<lambda>l. l ! length d"] d by (simp add: nth_enumerate_eq)
qed

section \<open>The lookup loop\<close>

text \<open>The answer for a hash: its entry, if the item of its first occurrence accepts it.\<close>

definition resolved :: "CacheModality \<Rightarrow> (nat \<Rightarrow> 't list \<Rightarrow> bool) \<Rightarrow> 't EncoderCacheManager \<Rightarrow> 64 word list \<Rightarrow>
    64 word \<Rightarrow> 't list option" where
  "resolved md valid m hs h =
     (case map_of (encoder_cache m) (md, h) of
        None \<Rightarrow> None
      | Some e \<Rightarrow> if valid (first_index h hs) (entry_outputs e) then Some (entry_outputs e) else None)"

definition after_lookup :: "CacheModality \<Rightarrow> (64 word \<Rightarrow> 't list option) \<Rightarrow> 64 word set \<Rightarrow> 't EncoderCacheManager \<Rightarrow>
    't EncoderCacheManager \<Rightarrow> bool" where
  "after_lookup md r seen m m' \<longleftrightarrow> capacity_policy m' = capacity_policy m \<and>
     (\<forall>md' h. map_of (encoder_cache m') (md', h) =
        (if md' = md \<and> h \<in> seen \<and> r h = None then None else map_of (encoder_cache m) (md', h)))"

text \<open>Accounted for, with nothing added.\<close>

definition shrinks :: "'t encoder_state \<Rightarrow> 't encoder_state \<Rightarrow> bool" where
  "shrinks s t \<longleftrightarrow> accounted s t \<and> res_bytes (snd t) \<le> res_bytes (snd s) \<and> res_entries (snd t) \<le> res_entries (snd s)"

lemma shrinks_refl [simp]: "shrinks s s"
  by (simp add: shrinks_def)

lemma shrinks_trans [trans]: "shrinks s t \<Longrightarrow> shrinks t u \<Longrightarrow> shrinks s u"
  by (auto simp: shrinks_def intro: accounted_trans)

lemma looked_up_shrinks:
  assumes "entries_ok ops m" and "looked_up key valid m found m'" and "accounted (m, w) (m', w')"
  shows "shrinks (m, w) (m', w')"
proof -
  have "cached_logical_bytes m' \<le> cached_logical_bytes m \<and> length (encoder_cache m') \<le> length (encoder_cache m)"
    using assms(1,2) bytes_of_delete [of "encoder_cache m" key]
    by (auto simp: looked_up_def entries_ok_def split: option.splits if_splits)
  then show ?thesis using assms(3) by (auto simp: shrinks_def accounted_def)
qed

definition lookup_inv :: "'t tensor_ops \<Rightarrow> CacheModality \<Rightarrow> (nat \<Rightarrow> 't list \<Rightarrow> bool) \<Rightarrow> 64 word list \<Rightarrow> 't encoder_state \<Rightarrow>
    nat \<Rightarrow> 't lookup_acc \<Rightarrow> bool" where
  "lookup_inv ops md valid hashes s0 n = (\<lambda>(l, res, d, s).
     let hs = take n hashes; r = resolved md valid (fst s0) hashes in
     batch_outputs l = map r hs @ replicate (length hashes - n) None \<and>
     miss_groups l = groups_of r hs \<and>
     (\<forall>h. map_of res h = (if h \<in> set hs
        then Some (if r h = None then Miss (first_index h (missing r hs)) else Hit (first_index h hashes)) else None)) \<and>
     d = n - length (firsts hs) \<and>
     state_ok ops s \<and> shrinks s0 s \<and> after_lookup md r (set hs) (fst s0) (fst s))"

lemma looked_up_map:
  assumes "distinct (map fst (encoder_cache m))" and "looked_up key valid m found m'"
  shows "map_of (encoder_cache m') k = (if k = key \<and> found = None then None else map_of (encoder_cache m) k)"
  using assms
  by (auto simp: looked_up_def map_add_def delete_conv' split: option.splits if_splits)

lemma looked_up_found:
  "looked_up key valid m found m' \<Longrightarrow>
     found = (case map_of (encoder_cache m) key of None \<Rightarrow> None
              | Some e \<Rightarrow> if valid (entry_outputs e) then Some (entry_outputs e) else None)"
  by (auto simp: looked_up_def split: option.splits if_splits)

lemma state_ok_accounted: "state_ok ops s \<Longrightarrow> accounted s t \<Longrightarrow> encoder_ok ops (fst t) \<Longrightarrow> state_ok ops t"
  by (cases s; cases t) (auto simp: state_ok_def accounted_def resides_def)

lemma get_validated_correct:
  assumes "state_ok ops s"
  shows "returns (get_validated md h valid s)
           (\<lambda>(found, s'). looked_up (md, h) valid (fst s) found (fst s') \<and> shrinks s s' \<and> state_ok ops s')"
proof -
  obtain m w where s: "s = (m, w)" by (cases s)
  obtain f m' w' where r: "get_validated md h valid s = Inr (f, m', w')"
    using get_validated_returns [of ops m w md h valid] assms by (auto simp: s state_ok_def encoder_ok_def)
  then have "looked_up (md, h) valid m f m' \<and> accounted s (m', w')"
    using get_validated_yields [of ops m md h valid w] assms by (auto simp: s state_ok_def encoder_ok_def)
  then show ?thesis
    using r assms looked_up_ok [of ops m "(md, h)" valid f m'] state_ok_accounted [OF assms, of "(m', w')"]
      looked_up_shrinks [of ops m "(md, h)" valid f m' w w']
    by (auto simp: s state_ok_def encoder_ok_def)
qed

lemma outputs_extend:
  fixes r :: "'a \<Rightarrow> 'b option"
  assumes "n < length hashes"
  shows "(map r (take n hashes) @ replicate (length hashes - n) None)[n := r (hashes ! n)] =
           map r (take (Suc n) hashes) @ replicate (length hashes - Suc n) None"
proof -
  have "replicate (length hashes - n) (None :: 'b option) = None # replicate (length hashes - Suc n) None"
    using assms by (metis Suc_diff_Suc replicate_Suc)
  then show ?thesis using assms by (simp add: take_Suc_conv_app_nth list_update_append min_def)
qed

lemma lookup_one_known:
  assumes "lookup_inv ops md valid hashes s0 n (l, res, d, s)" and n: "n < length hashes"
    and h: "hashes ! n \<in> set (take n hashes)"
  shows "returns (lookup_one md valid (n, hashes ! n) (l, res, d, s)) (lookup_inv ops md valid hashes s0 (Suc n))"
proof -
  let ?r = "resolved md valid (fst s0) hashes" and ?h = "hashes ! n" and ?hs = "take n hashes"
  have hs: "take (Suc n) hashes = ?hs @ [?h]" using n by (simp add: take_Suc_conv_app_nth)
  note inv = assms(1) [unfolded lookup_inv_def, simplified Let_def, simplified]
  have first: "first_index ?h hashes < n" "hashes ! first_index ?h hashes = ?h"
    using h n first_index_append [of ?h ?hs "drop n hashes"] first_index_less [OF h] nth_first_index [OF h]
    by (simp_all add: min_def)
  have d: "Suc d = Suc n - length (firsts ?hs)"
    using inv length_firsts_le [of ?hs] n by (simp add: Suc_diff_le min_def)
  show ?thesis
  proof (cases "?r ?h")
    case None
    have g: "first_index ?h (missing ?r ?hs) < length (miss_groups l)"
        "miss_groups l ! first_index ?h (missing ?r ?hs) = indices_of ?h ?hs"
      using None h inv first_index_less [of ?h "missing ?r ?hs"] nth_first_index [of ?h "missing ?r ?hs"]
      by (simp_all add: groups_of_def)
    have outs: "map ?r ?hs @ replicate (length hashes - n) None = (map ?r ?hs @ [None]) @ replicate (length hashes - Suc n) None"
      using n by (simp add: Suc_diff_Suc flip: replicate_Suc)
    show ?thesis
      using None inv g h n d groups_of_known [OF h, of ?r] outs
      by (auto simp: lookup_one_def lookup_inv_def Let_def hs firsts_snoc missing_snoc insert_absorb min_def
          split: if_splits)
  next
    case (Some v)
    have "batch_outputs l ! first_index ?h hashes = ?r ?h"
      using inv first n by (simp add: nth_append min_def)
    then show ?thesis
      using Some inv h n d first groups_of_found [of ?r ?h ?hs] outputs_extend [OF n, of ?r]
      by (auto simp: lookup_one_def lookup_inv_def Let_def hs firsts_snoc missing_snoc insert_absorb min_def)
  qed
qed

lemma lookup_one_new:
  assumes "lookup_inv ops md valid hashes s0 n (l, res, d, s)" and n: "n < length hashes"
    and h: "hashes ! n \<notin> set (take n hashes)"
  shows "returns (lookup_one md valid (n, hashes ! n) (l, res, d, s)) (lookup_inv ops md valid hashes s0 (Suc n))"
proof -
  let ?r = "resolved md valid (fst s0) hashes" and ?h = "hashes ! n" and ?hs = "take n hashes"
  have hs: "take (Suc n) hashes = ?hs @ [?h]" using n by (simp add: take_Suc_conv_app_nth)
  note inv = assms(1) [unfolded lookup_inv_def, simplified Let_def, simplified]
  have first: "first_index ?h hashes = n"
    using h n first_index_append [of ?h ?hs "?h # drop (Suc n) hashes"]
    by (simp add: min_def first_index_Cons id_take_nth_drop [symmetric])
  have dist: "distinct (map fst (encoder_cache (fst s)))"
    using inv by (cases s) (simp add: state_ok_def encoder_ok_def entries_ok_def)
  obtain found s' where got: "get_validated md ?h (valid n) s = Inr (found, s')"
    and lu: "looked_up (md, ?h) (valid n) (fst s) found (fst s')" and s': "shrinks s s'" "state_ok ops s'"
    using get_validated_correct [of ops s md ?h "valid n"] inv by (auto elim!: returnsE)
  have "map_of (encoder_cache (fst s)) (md, ?h) = map_of (encoder_cache (fst s0)) (md, ?h)"
    using inv h by (simp add: after_lookup_def)
  then have found: "found = ?r ?h"
    using looked_up_found [OF lu] unfolding resolved_def first by simp
  have al: "after_lookup md ?r (insert ?h (set ?hs)) (fst s0) (fst s')"
    using looked_up_map [OF dist lu] inv lu found by (auto simp: after_lookup_def looked_up_def)
  have acc: "shrinks s0 s'" using inv s' shrinks_trans by blast
  have d: "d = Suc n - length (firsts (?hs @ [?h]))" using inv h by (simp add: firsts_snoc)
  show ?thesis
  proof (cases "?r ?h")
    case None
    have outs: "map ?r ?hs @ replicate (length hashes - n) None = (map ?r ?hs @ [None]) @ replicate (length hashes - Suc n) None"
      using n by (simp add: Suc_diff_Suc flip: replicate_Suc)
    have "first_index ?h (missing ?r ?hs @ [?h]) = length (missing ?r ?hs)"
      using h by (simp add: first_index_append first_index_Cons)
    then show ?thesis
      using None inv got found h n d al acc s' outs groups_of_new [OF h, of ?r]
      by (auto simp: lookup_one_def lookup_inv_def Let_def hs missing_snoc min_def first_index_append groups_of_def)
  next
    case (Some v)
    then show ?thesis
      using inv got found h n d al acc s' first groups_of_found [of ?r ?h ?hs] outputs_extend [OF n, of ?r]
      by (auto simp: lookup_one_def lookup_inv_def Let_def hs missing_snoc min_def)
  qed
qed

lemma lookup_loop:
  assumes "state_ok ops s"
  shows "returns (fold_res (lookup_one md valid) (enumerate 0 hashes)
           (\<lparr>batch_outputs = replicate (length hashes) None, miss_groups = []\<rparr>, [], 0, s))
         (lookup_inv ops md valid hashes s (length hashes))"
proof -
  have "returns (fold_res (lookup_one md valid) (enumerate 0 hashes)
           (\<lparr>batch_outputs = replicate (length hashes) None, miss_groups = []\<rparr>, [], 0, s))
         (lookup_inv ops md valid hashes s (length (enumerate 0 hashes)))"
  proof (rule returns_fold_res [where I = "\<lambda>d. lookup_inv ops md valid hashes s (length d)"])
    show "lookup_inv ops md valid hashes s (length []) (\<lparr>batch_outputs = replicate (length hashes) None, miss_groups = []\<rparr>, [], 0, s)"
      using assms by (simp add: lookup_inv_def groups_of_def missing_def after_lookup_def)
    fix pre x rest acc
    assume "enumerate 0 hashes = pre @ x # rest" and inv: "lookup_inv ops md valid hashes s (length pre) acc"
    note split = enumerate_split [OF this(1)]
    obtain l res d t where acc: "acc = (l, res, d, t)" by (cases acc)
    show "returns (lookup_one md valid x acc) (lookup_inv ops md valid hashes s (length (pre @ [x])))"
      using lookup_one_known [OF inv [unfolded acc] split(1)] lookup_one_new [OF inv [unfolded acc] split(1)] acc split(2)
      by (cases "hashes ! length pre \<in> set (take (length pre) hashes)") simp_all
  qed
  then show ?thesis by simp
qed

lemma lookup_validated_correct:
  assumes "state_ok ops s"
  shows "returns (lookup_validated md hashes valid s) (\<lambda>(l, s').
    let r = resolved md valid (fst s) hashes in
    batch_outputs l = map r hashes \<and> miss_groups l = groups_of r hashes \<and>
    state_ok ops s' \<and> shrinks s s' \<and> after_lookup md r (set hashes) (fst s) (fst s') \<and>
    (\<exists>w. snd s' = record_intra_batch_deduplications (length hashes - length (firsts hashes)) w))"
proof -
  obtain l res d m w where r: "fold_res (lookup_one md valid) (enumerate 0 hashes)
           (\<lparr>batch_outputs = replicate (length hashes) None, miss_groups = []\<rparr>, [], 0, s) = Inr (l, res, d, m, w)"
      "lookup_inv ops md valid hashes s (length hashes) (l, res, d, m, w)"
    using lookup_loop [OF assms, of md valid hashes] by (auto elim!: returnsE)
  have "shrinks (m, w) (m, record_intra_batch_deduplications d w)" by (simp add: shrinks_def accounted_def process_ok_def)
  then show ?thesis
    using r shrinks_trans [of s "(m, w)"] state_ok_accounted [of ops "(m, w)"]
    by (auto simp: lookup_validated_def lookup_inv_def Let_def state_ok_def shrinks_def)
qed

end
