(* ===== verification/Encoder_Encode.thy ===== *)
theory Encoder_Encode
  imports Encoder_Batch
begin

text \<open>
  Cached encoding of a batch of images agrees with encoding the batch directly. What the proof uses of
  candle and of the model's encoder is collected in named hypotheses: slices along the first dimension and
  stacking are inverse, copies keep the contents, and the encoder treats the images of a batch
  independently.
\<close>

section \<open>Hypotheses on tensors and encoders\<close>

text \<open>
  \<open>content\<close> is the data of a tensor, \<open>rows\<close> the data of its slices along the first dimension, and
  \<open>shape\<close> the shape of a piece of data.
\<close>

definition tensor_laws :: "'t tensor_ops \<Rightarrow> ('t \<Rightarrow> 'r) \<Rightarrow> ('t \<Rightarrow> 'r list) \<Rightarrow> ('r \<Rightarrow> 'sh) \<Rightarrow> bool" where
  "tensor_laws ops content rows shape \<longleftrightarrow>
     copies_keep_size ops \<and>
     (\<forall>t t'. force_contiguous ops t = Inr t' \<longrightarrow> content t' = content t) \<and>
     (\<forall>t. content (detach ops t) = content t) \<and>
     (\<forall>t. rows t \<noteq> [] \<longrightarrow> dim0 ops t = Inr (length (rows t))) \<and>
     (\<forall>t i. i < length (rows t) \<longrightarrow> (\<exists>r. row_at ops t i = Inr r \<and> content r = rows t ! i)) \<and>
     (\<forall>t. \<forall>x \<in> set (rows t). \<forall>y \<in> set (rows t). shape x = shape y) \<and>
     (\<forall>ts. ts \<noteq> [] \<and> (\<forall>t \<in> set ts. \<forall>u \<in> set ts. shape (content t) = shape (content u)) \<longrightarrow>
        (\<exists>t. stack0 ops ts = Inr t \<and> rows t = map content ts))"

definition encodes_rows :: "('t \<Rightarrow> 'r list) \<Rightarrow> ('r \<Rightarrow> 'sh) \<Rightarrow> ('t \<Rightarrow> string + 't list) \<Rightarrow> nat \<Rightarrow> ('r \<Rightarrow> 'r list) \<Rightarrow> bool" where
  "encodes_rows rows shape encode_fn n_outputs f \<longleftrightarrow>
     (\<forall>x. length (f x) = n_outputs) \<and>
     (\<forall>x y. \<forall>k < n_outputs. shape (f x ! k) = shape (f y ! k)) \<and>
     (\<forall>px. rows px \<noteq> [] \<longrightarrow> (\<exists>outs. encode_fn px = Inr outs \<and> length outs = n_outputs \<and>
        (\<forall>k < n_outputs. rows (outs ! k) = map (\<lambda>x. f x ! k) (rows px))))"

text \<open>The outputs of one image take at most \<open>limit\<close> bytes.\<close>

definition outputs_bounded :: "'t tensor_ops \<Rightarrow> ('t \<Rightarrow> 'r) \<Rightarrow> ('r \<Rightarrow> 'r list) \<Rightarrow> nat \<Rightarrow> bool" where
  "outputs_bounded ops content f limit \<longleftrightarrow>
     (\<forall>outs x. map content outs = f x \<longrightarrow> (\<exists>n \<le> limit. logical_bytes ops outs = Inr n))"

text \<open>Every cached entry holds the outputs of the image with its hash.\<close>

definition coherent :: "('t \<Rightarrow> 'r) \<Rightarrow> ('r \<Rightarrow> 'r list) \<Rightarrow> (64 word \<Rightarrow> 'r) \<Rightarrow> CacheModality \<Rightarrow> 't EncoderCacheManager \<Rightarrow> bool" where
  "coherent content f img md m \<longleftrightarrow>
     (\<forall>h e. map_of (encoder_cache m) (md, h) = Some e \<longrightarrow> map content (entry_outputs e) = f (img h))"

section \<open>Storing one result\<close>

lemma compact_content:
  "tensor_laws ops content rows shape \<Longrightarrow> compact_tensor ops t = Inr t' \<Longrightarrow> content t' = content t"
  by (auto simp: compact_tensor_def tensor_laws_def and_then_eq_Inr)

lemma row_content:
  "tensor_laws ops content rows shape \<Longrightarrow> i < length (rows t) \<Longrightarrow> \<exists>r. row_at ops t i = Inr r \<and> content r = rows t ! i"
  by (simp add: tensor_laws_def)

lemma stack_rows:
  assumes "tensor_laws ops content rows shape" and "ts \<noteq> []"
    and "\<And>t u. t \<in> set ts \<Longrightarrow> u \<in> set ts \<Longrightarrow> shape (content t) = shape (content u)"
  shows "\<exists>t. stack0 ops ts = Inr t \<and> rows t = map content ts"
  using assms unfolding tensor_laws_def by blast

lemma compact_keeps_content:
  assumes "tensor_laws ops content rows shape" and "map_res (compact_tensor ops) outs = Inr outs'"
  shows "map content outs' = map content outs"
  using assms(2) by (induction outs arbitrary: outs') (auto simp: and_then_eq_Inr compact_content [OF assms(1)])

lemma stored_lookup:
  assumes "distinct (map fst (encoder_cache m))" and "stored key e m m'" and "map_of (encoder_cache m') k = Some e'"
  shows "k = key \<and> e' = e \<or> map_of (encoder_cache m) k = Some e'"
proof -
  obtain j where j: "encoder_cache m' = drop j (AList.delete key (encoder_cache m)) @ [(key, e)]"
    using assms(2) by (auto simp: stored_def Let_def)
  have "(k, e') \<in> set (encoder_cache m')" using assms(3) by (rule map_of_SomeD)
  then have "(k, e') = (key, e) \<or> (k, e') \<in> set (encoder_cache m)"
    using j set_delete_subset [of key "encoder_cache m"] by (auto dest: in_set_dropD)
  then show ?thesis using map_of_is_SomeI [OF assms(1), of k e'] by auto
qed

lemma stored_growth:
  assumes "entries_ok ops m" and "stored key e m m'"
  shows "cached_logical_bytes m' \<le> cached_logical_bytes m + entry_logical_bytes e"
    and "length (encoder_cache m') \<le> length (encoder_cache m) + 1"
proof -
  obtain j where j: "encoder_cache m' = drop j (AList.delete key (encoder_cache m)) @ [(key, e)]"
      "cached_logical_bytes m' = bytes_of (encoder_cache m')"
    using assms(2) by (auto simp: stored_def Let_def)
  have "bytes_of (AList.delete key (encoder_cache m)) \<le> cached_logical_bytes m
      \<and> length (AList.delete key (encoder_cache m)) \<le> length (encoder_cache m)"
    using assms(1) bytes_of_delete [of "encoder_cache m" key]
    by (cases "map_of (encoder_cache m) key") (auto simp: entries_ok_def AList.delete_idem map_of_eq_None_iff)
  then show "cached_logical_bytes m' \<le> cached_logical_bytes m + entry_logical_bytes e"
      "length (encoder_cache m') \<le> length (encoder_cache m) + 1"
    using j bytes_of_drop_le [of j "AList.delete key (encoder_cache m)"] by auto
qed

text \<open>The exact outcome of an insertion.\<close>

definition inserted :: "'t tensor_ops \<Rightarrow> CacheKey \<Rightarrow> 't list \<Rightarrow> nat \<Rightarrow> 't EncoderCacheManager \<Rightarrow> 't EncoderCacheManager \<Rightarrow> bool" where
  "inserted ops key outs n m m' =
     (if too_large (capacity_policy m) n then m' = m
      else case map_res (compact_tensor ops) outs of
        Inl _ \<Rightarrow> m' = m
      | Inr outs' \<Rightarrow> stored key \<lparr>entry_outputs = outs', entry_logical_bytes = n\<rparr> m m')"

lemma encoder_insert_returns:
  fixes ops :: "'t tensor_ops"
  assumes ok: "state_ok ops s" and laws: "copies_keep_size ops" and n: "logical_bytes ops outs = Inr n"
    and fits: "res_bytes (snd s) + n \<le> usize_max" "res_entries (snd s) < usize_max"
  shows "returns (encoder_insert ops md h outs s) (\<lambda>s'.
           inserted ops (md, h) outs n (fst s) (fst s') \<and> accounted s s' \<and> state_ok ops s' \<and>
           res_bytes (snd s') \<le> res_bytes (snd s) + n \<and> res_entries (snd s') \<le> res_entries (snd s) + 1)"
proof -
  obtain m w where s: "s = (m, w)" by (cases s)
  have m: "entries_ok ops m" "encoder_ok ops m" "process_ok w" "resides (m, w)"
    using ok by (simp_all add: s state_ok_def encoder_ok_def)
  have frame: "accounted (m, w) (m, emit x w)" "state_ok ops (m, emit x w)" for x
    using m by (simp_all add: accounted_def process_ok_def state_ok_def resides_def)
  show ?thesis
  proof (cases "too_large (capacity_policy m) n")
    case True
    then show ?thesis using n frame by (simp add: s encoder_insert_def inserted_def)
  next
    case False
    show ?thesis
    proof (rule entry_compact_cases [OF laws n])
      fix e assume "map_res (compact_tensor ops) outs = Inl e" "entry_compact ops outs = bail e"
      then show ?thesis using n frame False by (simp add: s encoder_insert_def inserted_def)
    next
      fix outs' :: "'t list"
      let ?e = "\<lparr>entry_outputs = outs', entry_logical_bytes = n\<rparr>"
      assume c: "map_res (compact_tensor ops) outs = Inr outs'" "entry_compact ops outs = okay ?e" "entry_ok ops ?e"
      obtain m' w' where r: "store_entry (md, h) ?e (m, w) = Inr (m', w')"
        using store_entry_returns [OF m(1,3,4), of ?e "(md, h)"] fits False by (auto simp: s)
      then have st: "stored (md, h) ?e m m'" "accounted (m, w) (m', w')"
        using store_entry_yields [OF m(1), of "(md, h)" ?e w] by auto
      have "state_ok ops (m', w')"
        using ok st stored_ok [OF m(1) c(3) st(1)] by (auto intro: state_ok_accounted simp: s)
      moreover have "res_bytes w' \<le> res_bytes w + n \<and> res_entries w' \<le> res_entries w + 1"
        using st stored_growth [OF m(1) st(1)] by (simp add: accounted_def)
      ultimately show ?thesis using n c False r st by (simp add: s encoder_insert_def inserted_def)
    qed
  qed
qed

lemma inserted_coherent:
  assumes "tensor_laws ops content rows shape" and "distinct (map fst (encoder_cache m))"
    and "coherent content f img md m" and "inserted ops (md, h) outs n m m'" and "map content outs = f (img h)"
  shows "coherent content f img md m'"
proof (cases "m' = m")
  case False
  then obtain outs' where o: "map_res (compact_tensor ops) outs = Inr outs'"
      "stored (md, h) \<lparr>entry_outputs = outs', entry_logical_bytes = n\<rparr> m m'"
    using assms(4) by (auto simp: inserted_def split: if_splits sum.splits)
  show ?thesis
    unfolding coherent_def
  proof (intro allI impI)
    fix h' e' assume "map_of (encoder_cache m') (md, h') = Some e'"
    then show "map content (entry_outputs e') = f (img h')"
      using stored_lookup [OF assms(2) o(2)] assms(3,5) compact_keeps_content [OF assms(1) o(1)]
      by (fastforce simp: coherent_def)
  qed
qed (use assms in simp)

section \<open>The rows to encode\<close>

lemma firsts_all_new: "length (firsts hs) = length hs \<Longrightarrow> firsts hs = hs"
proof (induction hs rule: rev_induct)
  case (snoc h hs)
  then show ?case using length_firsts_le [of hs] by (auto simp: firsts_snoc split: if_splits)
qed simp

lemma missing_all: "length (missing r hs) = length hs \<Longrightarrow> missing r hs = hs"
proof -
  assume eq: "length (missing r hs) = length hs"
  then have "length (firsts hs) = length hs"
    using length_firsts_le [of hs] length_filter_le [of "\<lambda>h. r h = None" "firsts hs"] by (simp add: missing_def)
  then show "missing r hs = hs"
    using eq firsts_all_new [of hs] by (metis missing_def filter_id_conv length_filter_less nat_less_le)
qed

text \<open>The heads of the groups are items with the missing hashes.\<close>

lemma indices_of_head:
  assumes "h \<in> set hs"
  shows "indices_of h hs ! 0 < length hs" and "hs ! (indices_of h hs ! 0) = h"
proof -
  have "indices_of h hs ! 0 \<in> set (indices_of h hs)"
    using indices_of_nonempty [OF assms] by (metis length_greater_0_conv nth_mem)
  then show "indices_of h hs ! 0 < length hs" and "hs ! (indices_of h hs ! 0) = h" by simp_all
qed

lemma missing_nth: "g < length (missing r hs) \<Longrightarrow> missing r hs ! g \<in> set hs \<and> r (missing r hs ! g) = None"
  using nth_mem [of g "missing r hs"] by (simp del: nth_mem)

lemma miss_slices_ok:
  assumes laws: "tensor_laws ops content rows shape"
    and px: "rows px = map img hs"
    and gs: "\<forall>g \<in> set gs. g \<noteq> [] \<and> g ! 0 < length hs"
  shows "\<exists>slices. miss_slices ops px gs = okay slices \<and> map content slices = map (\<lambda>g. img (hs ! (g ! 0))) gs"
  using gs
proof (induction gs)
  case Nil
  then show ?case by (simp add: miss_slices_def)
next
  case (Cons g gs)
  have "g ! 0 < length (rows px)" using Cons.prems px by simp
  then obtain r where "row_at ops px (g ! 0) = Inr r" "content r = rows px ! (g ! 0)"
    using row_content [OF laws] by metis
  moreover obtain slices where "miss_slices ops px gs = okay slices" "map content slices = map (\<lambda>g. img (hs ! (g ! 0))) gs"
    using Cons by auto
  ultimately show ?case using Cons.prems px by (simp add: miss_slices_def)
qed

lemma miss_pixels_ok:
  assumes laws: "tensor_laws ops content rows shape" and px: "rows px = map img hs" and ne: "missing r hs \<noteq> []"
  shows "\<exists>p. miss_pixels ops px (length hs) (groups_of r hs) = okay p \<and> rows p = map img (missing r hs)"
proof (cases "length (missing r hs) = length hs")
  case True
  then show ?thesis using missing_all [OF True] px by (simp add: miss_pixels_def groups_of_def)
next
  case False
  have heads: "map (\<lambda>g. img (hs ! (g ! 0))) (groups_of r hs) = map img (missing r hs)"
    by (auto simp: groups_of_def indices_of_head)
  have "\<forall>g \<in> set (groups_of r hs). g \<noteq> [] \<and> g ! 0 < length hs"
    by (auto simp: groups_of_def indices_of_head indices_of_nonempty)
  then obtain slices where sl: "miss_slices ops px (groups_of r hs) = okay slices" "map content slices = map img (missing r hs)"
    using miss_slices_ok [OF laws px] heads by metis
  have "content ` set slices \<subseteq> set (rows px)"
    using sl(2) px by (metis (no_types, lifting) image_mono list.set_map mem_Collect_eq set_missing subsetI)
  then have "shape (content t) = shape (content u)" if "t \<in> set slices" "u \<in> set slices" for t u
    using laws that unfolding tensor_laws_def by (meson image_subset_iff)
  moreover have "slices \<noteq> []" using sl(2) ne by auto
  ultimately obtain p where "stack0 ops slices = Inr p" "rows p = map content slices"
    using stack_rows [OF laws] by metis
  then show ?thesis using sl False by (simp add: miss_pixels_def groups_of_def)
qed

section \<open>Assembling the batch\<close>

definition answers :: "('t \<Rightarrow> 'r) \<Rightarrow> ('r \<Rightarrow> 'r list) \<Rightarrow> 'r list \<Rightarrow> 't list option list \<Rightarrow> bool" where
  "answers content f imgs found \<longleftrightarrow>
     length found = length imgs \<and> (\<forall>i < length imgs. \<exists>v. found ! i = Some v \<and> map content v = f (imgs ! i))"

lemma assemble_one_ok:
  assumes laws: "tensor_laws ops content rows shape" and enc: "encodes_rows rows shape encode_fn n_outputs f"
    and ans: "answers content f imgs found" and ne: "imgs \<noteq> []" and k: "k < n_outputs"
  shows "\<exists>t. assemble_one ops found (length imgs) k = okay t \<and> rows t = map (\<lambda>x. f x ! k) imgs"
proof -
  have v: "\<exists>v. found ! i = Some v \<and> k < length v \<and> content (v ! k) = f (imgs ! i) ! k" if "i < length imgs" for i
  proof -
    from ans that obtain v where v: "found ! i = Some v" "map content v = f (imgs ! i)" by (auto simp: answers_def)
    then have "length v = n_outputs" using enc by (metis encodes_rows_def length_map)
    then show ?thesis using v k by (metis nth_map)
  qed
  let ?slices = "map (\<lambda>i. the (found ! i) ! k) [0..<length imgs]"
  have slices: "map_res (\<lambda>i. and_then (get_at found i) (\<lambda>out.
        and_then (expect ''all images should be resolved'' out) (\<lambda>v. get_at v k))) [0..<length imgs] = Inr ?slices"
  proof (rule map_res_pure)
    fix i assume "i \<in> set [0..<length imgs]"
    then show "and_then (get_at found i) (\<lambda>out. and_then (expect ''all images should be resolved'' out) (\<lambda>v. get_at v k)) =
        Inr (the (found ! i) ! k)"
      using v [of i] ans by (auto simp: answers_def)
  qed
  have c: "map content ?slices = map (\<lambda>x. f x ! k) imgs"
  proof (rule nth_equalityI)
    fix i assume "i < length (map content ?slices)"
    then show "map content ?slices ! i = map (\<lambda>x. f x ! k) imgs ! i" using v [of i] by auto
  qed simp
  have "\<exists>x. content t = f x ! k" if "t \<in> set ?slices" for t
    using that v by fastforce
  moreover have "shape (f x ! k) = shape (f y ! k)" for x y
    using enc k by (simp add: encodes_rows_def)
  ultimately have same: "shape (content t) = shape (content u)" if "t \<in> set ?slices" "u \<in> set ?slices" for t u
    using that by metis
  have "?slices \<noteq> []" using ne by simp
  then obtain t where "stack0 ops ?slices = Inr t" "rows t = map content ?slices"
    using stack_rows [OF laws _ same] by blast
  then show ?thesis using slices c by (simp add: assemble_one_def)
qed

lemma assemble_ok:
  assumes laws: "tensor_laws ops content rows shape" and enc: "encodes_rows rows shape encode_fn n_outputs f"
    and ans: "answers content f imgs found" and ne: "imgs \<noteq> []"
  shows "\<exists>outs. assemble ops found (length imgs) = okay outs \<and> length outs = n_outputs \<and>
           (\<forall>k < n_outputs. rows (outs ! k) = map (\<lambda>x. f x ! k) imgs)"
proof -
  define g where "g k = (SOME t. assemble_one ops found (length imgs) k = okay t \<and> rows t = map (\<lambda>x. f x ! k) imgs)" for k
  have g: "assemble_one ops found (length imgs) k = okay (g k) \<and> rows (g k) = map (\<lambda>x. f x ! k) imgs" if "k < n_outputs" for k
    unfolding g_def by (rule someI_ex) (rule assemble_one_ok [OF laws enc ans ne that])
  obtain v where v: "found ! 0 = Some v" "map content v = f (imgs ! 0)" "0 < length found"
    using ans ne by (metis answers_def length_greater_0_conv)
  have "length v = n_outputs" using v enc by (metis encodes_rows_def length_map)
  moreover have "map_result (assemble_one ops found (length imgs)) [0..<n_outputs] = okay (map g [0..<n_outputs])"
    using g by (intro map_result_pure) auto
  ultimately show ?thesis using v g by (simp add: assemble_def)
qed

section \<open>Storing the results of the encoder\<close>

text \<open>
  The state of the storing loop before group \<open>g\<close>: an item is answered, or its hash belongs to a later
  group.
\<close>

definition store_inv :: "'t tensor_ops \<Rightarrow> ('t \<Rightarrow> 'r) \<Rightarrow> ('r \<Rightarrow> 'r list) \<Rightarrow> (64 word \<Rightarrow> 'r) \<Rightarrow> nat \<Rightarrow> CacheModality \<Rightarrow>
    64 word list \<Rightarrow> 64 word list \<Rightarrow> EncoderProcess \<Rightarrow> nat \<Rightarrow> 't EncoderCacheBatchLookup \<times> 't encoder_state \<Rightarrow> bool" where
  "store_inv ops content f img limit md hashes miss w0 g = (\<lambda>(l, s).
     length (batch_outputs l) = length hashes \<and>
     miss_groups l = map (\<lambda>h. indices_of h hashes) miss \<and>
     (\<forall>i < length hashes. case batch_outputs l ! i of
        Some v \<Rightarrow> map content v = f (img (hashes ! i))
      | None \<Rightarrow> hashes ! i \<in> set (drop g miss)) \<and>
     state_ok ops s \<and> coherent content f img md (fst s) \<and>
     res_bytes (snd s) \<le> res_bytes w0 + g * limit \<and> res_entries (snd s) \<le> res_entries w0 + g)"

lemma fold_set_at:
  assumes "\<forall>i \<in> set js. i < length xs"
  shows "\<exists>ys. fold_res (\<lambda>i outs. set_at outs i v) js xs = Inr ys \<and> length ys = length xs \<and>
           (\<forall>i < length xs. ys ! i = (if i \<in> set js then v else xs ! i))"
  using assms
proof (induction js arbitrary: xs)
  case (Cons j js)
  then have "\<forall>i \<in> set js. i < length (xs[j := v])" by simp
  then obtain ys where "fold_res (\<lambda>i outs. set_at outs i v) js (xs[j := v]) = Inr ys" "length ys = length xs"
    "\<forall>i < length xs. ys ! i = (if i \<in> set js then v else xs[j := v] ! i)"
    using Cons.IH [of "xs[j := v]"] by auto
  then show ?case using Cons.prems by (auto simp: nth_list_update_if)
qed simp

lemma rows_at:
  assumes laws: "tensor_laws ops content rows shape"
    and out: "\<And>t. t \<in> set ts \<Longrightarrow> g < length (rows t)"
  shows "\<exists>rs. map_res (\<lambda>t. row_at ops t g) ts = Inr rs \<and> map content rs = map (\<lambda>t. rows t ! g) ts"
  using out
proof (induction ts)
  case (Cons t ts)
  then obtain r where "row_at ops t g = Inr r" "content r = rows t ! g"
    using row_content [OF laws] by (metis list.set_intros(1))
  then show ?case using Cons by auto
qed simp

lemma store_result_ok:
  assumes laws: "tensor_laws ops content rows shape" and bound: "outputs_bounded ops content f limit"
    and len: "\<And>x. length (f x) = n_outputs"
    and enc: "length encoded = n_outputs" "\<forall>k < n_outputs. rows (encoded ! k) = map (\<lambda>x. f x ! k) (map img miss)"
    and fits: "res_bytes w0 + Suc g * limit \<le> usize_max" "res_entries w0 + Suc g \<le> usize_max"
    and g: "g < length miss" and miss: "set miss \<subseteq> set hashes"
    and inv: "store_inv ops content f img limit md hashes miss w0 g (l, s)"
  shows "\<exists>l' s'. store_result ops md hashes encoded g (l, s) = Inr (Inr l', s') \<and>
           store_inv ops content f img limit md hashes miss w0 (Suc g) (l', s')"
proof -
  let ?h = "miss ! g"
  note inv = inv [unfolded store_inv_def, simplified]
  have h: "?h \<in> set hashes" using g miss by auto
  have "g < length (rows t)" if "t \<in> set encoded" for t
    using that enc g by (auto simp: in_set_conv_nth)
  then obtain per where per: "map_res (\<lambda>t. row_at ops t g) encoded = Inr per" "map content per = map (\<lambda>t. rows t ! g) encoded"
    using rows_at [OF laws] by metis
  have "map (\<lambda>t. rows t ! g) encoded = f (img ?h)"
    using enc g len by (intro nth_equalityI) auto
  then have cont: "map content per = f (img ?h)" using per by simp
  then obtain n where n: "n \<le> limit" "logical_bytes ops per = Inr n" using bound by (auto simp: outputs_bounded_def)
  have grp: "miss_groups l ! g = indices_of ?h hashes" "g < length (miss_groups l)" using inv g by simp_all
  obtain s' where ins: "encoder_insert ops md ?h per s = Inr s'" "inserted ops (md, ?h) per n (fst s) (fst s')"
      "state_ok ops s'" "res_bytes (snd s') \<le> res_bytes (snd s) + n" "res_entries (snd s') \<le> res_entries (snd s) + 1"
    using encoder_insert_returns [of ops s per n md ?h] inv n fits laws
    by (auto simp: tensor_laws_def elim!: returnsE)
  have coh: "coherent content f img md (fst s')"
    using inserted_coherent [OF laws, where f = f and img = img, OF _ _ ins(2) cont] inv
    by (cases s) (auto simp: state_ok_def encoder_ok_def entries_ok_def)
  obtain outs where outs: "fold_res (\<lambda>i o'. set_at o' i (Some per)) (indices_of ?h hashes) (batch_outputs l) = Inr outs"
      "length outs = length hashes"
      "\<forall>i < length hashes. outs ! i = (if hashes ! i = ?h then Some per else batch_outputs l ! i)"
    using fold_set_at [of "indices_of ?h hashes" "batch_outputs l" "Some per"] inv by auto
  have "case outs ! i of Some v \<Rightarrow> map content v = f (img (hashes ! i)) | None \<Rightarrow> hashes ! i \<in> set (drop (Suc g) miss)"
    if "i < length hashes" for i
    using outs(3) inv that cont g Cons_nth_drop_Suc [OF g, symmetric]
    by (cases "hashes ! i = ?h") (auto split: option.splits)
  then have "store_inv ops content f img limit md hashes miss w0 (Suc g) (l\<lparr>batch_outputs := outs\<rparr>, s')"
    using inv outs ins coh n by (simp add: store_inv_def)
  moreover have "store_result ops md hashes encoded g (l, s) = Inr (Inr (l\<lparr>batch_outputs := outs\<rparr>), s')"
    using per(1) grp ins(1) outs(1) indices_of_head [OF h] indices_of_nonempty [OF h]
    by (simp add: store_result_def resolve_miss_def)
  ultimately show ?thesis by blast
qed

lemma store_results_ok:
  assumes laws: "tensor_laws ops content rows shape" and bound: "outputs_bounded ops content f limit"
    and len: "\<And>x. length (f x) = n_outputs"
    and enc: "length encoded = n_outputs" "\<forall>k < n_outputs. rows (encoded ! k) = map (\<lambda>x. f x ! k) (map img miss)"
    and fits: "res_bytes w0 + length miss * limit \<le> usize_max" "res_entries w0 + length miss \<le> usize_max"
    and miss: "set miss \<subseteq> set hashes"
    and g: "g \<le> length miss" and inv: "store_inv ops content f img limit md hashes miss w0 g (l, s)"
  shows "\<exists>l' s'. store_results ops md hashes encoded [g..<length miss] (l, s) = Inr (Inr l', s') \<and>
           store_inv ops content f img limit md hashes miss w0 (length miss) (l', s')"
  using g inv
proof (induction "length miss - g" arbitrary: g l s)
  case 0
  then show ?case by simp
next
  case (Suc n)
  then have g: "g < length miss" by simp
  have "Suc g * limit \<le> length miss * limit" using g by (intro mult_le_mono1) simp
  then have f': "res_bytes w0 + Suc g * limit \<le> usize_max" "res_entries w0 + Suc g \<le> usize_max"
    using fits g by linarith+
  obtain l1 s1 where step: "store_result ops md hashes encoded g (l, s) = Inr (Inr l1, s1)"
      "store_inv ops content f img limit md hashes miss w0 (Suc g) (l1, s1)"
    using store_result_ok [OF laws bound len enc f' g miss Suc.prems(2)] by blast
  then show ?case
    using Suc.hyps(1) [of "Suc g" l1 s1] Suc.hyps(2) g by (simp add: upt_conv_Cons)
qed

lemma store_all_ok:
  assumes laws: "tensor_laws ops content rows shape" and bound: "outputs_bounded ops content f limit"
    and len: "\<And>x. length (f x) = n_outputs"
    and enc: "length encoded = n_outputs"
      "\<forall>k < n_outputs. rows (encoded ! k) = map (\<lambda>x. f x ! k) (map img (missing r hashes))"
    and fits: "res_bytes (snd s) + length hashes * limit \<le> usize_max" "res_entries (snd s) + length hashes \<le> usize_max"
    and l: "batch_outputs l = map r hashes" "miss_groups l = groups_of r hashes"
    and hit: "\<And>h v. r h = Some v \<Longrightarrow> map content v = f (img h)"
    and ok: "state_ok ops s" "coherent content f img md (fst s)"
  shows "\<exists>l' s'. store_results ops md hashes encoded [0..<length (groups_of r hashes)] (l, s) = Inr (Inr l', s') \<and>
           answers content f (map img hashes) (batch_outputs l') \<and> state_ok ops s' \<and> coherent content f img md (fst s')"
proof -
  let ?miss = "missing r hashes"
  have n: "length ?miss \<le> length hashes"
    unfolding missing_def by (rule order_trans [OF length_filter_le length_firsts_le])
  then have "length ?miss * limit \<le> length hashes * limit" by (rule mult_le_mono1)
  then have fits': "res_bytes (snd s) + length ?miss * limit \<le> usize_max" "res_entries (snd s) + length ?miss \<le> usize_max"
    using fits n by linarith+
  have "store_inv ops content f img limit md hashes ?miss (snd s) 0 (l, s)"
    using l hit ok by (auto simp: store_inv_def groups_of_def split: option.splits)
  then obtain l' s' where r: "store_results ops md hashes encoded [0..<length ?miss] (l, s) = Inr (Inr l', s')"
      "store_inv ops content f img limit md hashes ?miss (snd s) (length ?miss) (l', s')"
    using store_results_ok [OF laws bound len enc fits', of hashes 0 md l s] by auto
  then have "answers content f (map img hashes) (batch_outputs l')"
    by (force simp: store_inv_def answers_def split: option.splits)
  then show ?thesis using r by (auto simp: groups_of_def store_inv_def)
qed

end
