(* ===== verification/Encoder_Theorems.thy ===== *)
theory Encoder_Theorems
  imports Encoder_Encode
begin

text \<open>
  The properties of the encoder cache: the process-wide residency counters over any number of caches, the
  least-recently-used insertion, the batch lookup, and the agreement of cached with direct encoding.
\<close>

section \<open>Many caches in one process\<close>

datatype 't encoder_call =
    Get CacheModality "64 word"
  | GetValidated CacheModality "64 word" "'t list \<Rightarrow> bool"
  | Insert CacheModality "64 word" "'t list"
  | SetMaxLogicalBytes nat
  | LookupBatch CacheModality "64 word list" "nat \<Rightarrow> 't list \<Rightarrow> bool"

fun run_call :: "'t tensor_ops \<Rightarrow> 't encoder_call \<Rightarrow> 't encoder_state \<Rightarrow> 't encoder_state res" where
  "run_call ops (Get md h) s = and_then (encoder_get md h s) (\<lambda>(_, s). Inr s)"
| "run_call ops (GetValidated md h valid) s = and_then (get_validated md h valid s) (\<lambda>(_, s). Inr s)"
| "run_call ops (Insert md h outs) s = encoder_insert ops md h outs s"
| "run_call ops (SetMaxLogicalBytes n) s = set_max_logical_bytes n s"
| "run_call ops (LookupBatch md hashes valid) s = and_then (lookup_validated md hashes valid s) (\<lambda>(_, s). Inr s)"

type_synonym 't encoder_system = "(nat \<times> 't EncoderCacheManager) list \<times> EncoderProcess"

datatype 't encoder_event = Create EncoderCacheCapacityPolicy | Call "'t encoder_call" | Drop

inductive encoder_step :: "'t tensor_ops \<Rightarrow> 't encoder_system \<Rightarrow> nat \<times> 't encoder_event \<Rightarrow> 't encoder_system \<Rightarrow> bool"
  for ops where
  step_create: "map_of ms i = None \<Longrightarrow> with_capacity_policy policy w = (m, w') \<Longrightarrow>
     encoder_step ops (ms, w) (i, Create policy) ((i, m) # ms, w')"
| step_call: "map_of ms i = Some m \<Longrightarrow> run_call ops c (m, w) = Inr (m', w') \<Longrightarrow>
     encoder_step ops (ms, w) (i, Call c) (AList.update i m' ms, w')"
| step_drop: "map_of ms i = Some m \<Longrightarrow> encoder_drop (m, w) = Inr w' \<Longrightarrow>
     encoder_step ops (ms, w) (i, Drop) (AList.delete i ms, w')"

inductive_cases encoder_stepE: "encoder_step ops s l t"

definition encoder_init :: "'t encoder_system \<Rightarrow> bool" where
  "encoder_init = (\<lambda>(ms, w). ms = [] \<and> res_entries w = 0 \<and> res_bytes w = 0)"

definition tally :: "('t EncoderCacheManager \<Rightarrow> nat) \<Rightarrow> (nat \<times> 't EncoderCacheManager) list \<Rightarrow> nat" where
  "tally g ms = sum_list (map (g \<circ> snd) ms)"

lemma tally_simps [simp]: "tally g [] = 0" "tally g (p # ms) = g (snd p) + tally g ms"
  by (simp_all add: tally_def)

lemma delete_last_key: "k \<notin> fst ` set es \<Longrightarrow> AList.delete k (es @ [(k, e)]) = es"
  by (induction es) auto

lemma update_values: "snd ` set (AList.update i v ms) \<subseteq> insert v (snd ` set ms)"
  by (induction ms) auto

lemma tally_update:
  "distinct (map fst ms) \<Longrightarrow> map_of ms i = Some m \<Longrightarrow> tally g (AList.update i m' ms) + g m = tally g ms + g m'"
  by (induction ms) (auto split: if_splits)

lemma tally_delete: "distinct (map fst ms) \<Longrightarrow> map_of ms i = Some m \<Longrightarrow> tally g (AList.delete i ms) + g m = tally g ms"
  by (induction ms) (auto simp: AList.delete_idem map_of_eq_None_iff split: if_splits)

lemma tally_member: "map_of ms i = Some m \<Longrightarrow> g m \<le> tally g ms"
  by (induction ms) (auto split: if_splits)

definition encoder_system_ok :: "'t tensor_ops \<Rightarrow> 't encoder_system \<Rightarrow> bool" where
  "encoder_system_ok ops = (\<lambda>(ms, w).
     distinct (map fst ms) \<and> (\<forall>m \<in> snd ` set ms. encoder_ok ops m) \<and> process_ok w \<and>
     res_entries w = tally (length \<circ> encoder_cache) ms \<and> res_bytes w = tally cached_logical_bytes ms)"

lemma system_member_ok:
  assumes "encoder_system_ok ops (ms, w)" and "map_of ms i = Some m"
  shows "state_ok ops (m, w)"
  using assms tally_member [OF assms(2), of "length \<circ> encoder_cache"] tally_member [OF assms(2), of cached_logical_bytes]
    map_of_SomeD [OF assms(2)]
  by (force simp: encoder_system_ok_def state_ok_def resides_def)

lemma set_max_yields:
  assumes "state_ok ops s"
  shows "yields (set_max_logical_bytes n s) (\<lambda>s'. encoder_ok ops (fst s') \<and> accounted s s')"
proof -
  obtain m w where s: "s = (m, w)" by (cases s)
  show ?thesis
    using assms set_capacity_policy_yields [of ops m "LogicalBytes n" w] policy_set_ok [of ops m "LogicalBytes n"]
    by (auto simp: s set_max_logical_bytes_def state_ok_def encoder_ok_def assert_that_def elim!: yields_mono)
qed

lemma run_call_yields:
  assumes "state_ok ops s"
  shows "yields (run_call ops c s) (\<lambda>s'. encoder_ok ops (fst s') \<and> accounted s s')"
proof (cases c)
  case (Get md h)
  then show ?thesis using get_validated_correct [OF assms, of md h "\<lambda>_. True"]
    by (auto simp: encoder_get_def state_ok_def shrinks_def elim!: returnsE)
next
  case (GetValidated md h valid)
  then show ?thesis using get_validated_correct [OF assms, of md h valid] by (auto simp: state_ok_def shrinks_def elim!: returnsE)
next
  case (Insert md h outs)
  obtain m w where s: "s = (m, w)" by (cases s)
  have m: "encoder_ok ops m" "entries_ok ops m" using assms by (simp_all add: s state_ok_def encoder_ok_def)
  show ?thesis using encoder_insert_yields [OF m(2), of md h outs w] m stored_ok [OF m(2)]
    by (auto simp: s Insert elim!: yields_mono)
next
  case (SetMaxLogicalBytes n)
  then show ?thesis using set_max_yields [OF assms] by simp
next
  case (LookupBatch md hashes valid)
  then show ?thesis using lookup_validated_correct [OF assms, of md hashes valid]
    by (auto simp: Let_def state_ok_def shrinks_def elim!: returnsE)
qed

lemma encoder_step_ok:
  assumes "encoder_system_ok ops s" and "encoder_step ops s l t"
  shows "encoder_system_ok ops t"
  using assms(2)
proof cases
  case (step_create ms i policy w m w')
  then show ?thesis
    using assms(1)
    by (auto simp: encoder_system_ok_def with_capacity_policy_def map_of_eq_None_iff process_ok_def encoder_ok_def entries_ok_def)
next
  case (step_call ms i m c w m' w')
  have ok: "encoder_ok ops m'" "accounted (m, w) (m', w')"
    using run_call_yields [OF system_member_ok, of ops ms w i m c] assms(1) step_call by auto
  have "\<forall>x \<in> snd ` set (AList.update i m' ms). encoder_ok ops x"
    using update_values [of i m' ms] assms(1) step_call(1) ok(1) unfolding encoder_system_ok_def by blast
  then show ?thesis
    using assms(1) step_call ok tally_update [OF _ step_call(4), of "length \<circ> encoder_cache" m']
      tally_update [OF _ step_call(4), of cached_logical_bytes m']
    by (auto simp: encoder_system_ok_def accounted_def distinct_update)
next
  case (step_drop ms i m w w')
  have "res_entries w' + length (encoder_cache m) = res_entries w" "res_bytes w' + cached_logical_bytes m = res_bytes w"
    "process_ok w \<longrightarrow> process_ok w'"
    using update_residency_yields [of "resident_entries m" 0 "cached_logical_bytes m" 0 w] step_drop
    by (auto simp: encoder_drop_def resident_entries_def)
  then show ?thesis
    using assms(1) step_drop tally_delete [OF _ step_drop(4), of "length \<circ> encoder_cache"]
      tally_delete [OF _ step_drop(4), of cached_logical_bytes] set_delete_subset [of i ms]
    by (auto simp: encoder_system_ok_def distinct_delete)
qed

interpretation encoders: transition_system encoder_init "encoder_step ops" "encoder_system_ok ops" for ops
proof
  show "encoder_system_ok ops s" if "encoder_init s" for s
    using that by (auto simp: encoder_init_def encoder_system_ok_def process_ok_def)
  show "encoder_system_ok ops t" if "encoder_system_ok ops s" "encoder_step ops s l t" for s l t
    using that by (rule encoder_step_ok)
qed

section \<open>Properties\<close>

text \<open>
  C31. In every reachable state of a process with any number of encoder caches, each used through any
  sequence of lookups, validated lookups, batch lookups, insertions and capacity changes, dropped and created
  at will: the process-wide residency counters are exactly the totals over the live caches, every cache
  has distinct keys, an exact byte count and stays within its capacity, and lookups, positive capacity
  changes and drops of a live cache never panic.\<close>

theorem encoder_residency_exact:
  assumes "reachable_from encoder_init (encoder_step ops) (ms, w)"
  shows "res_entries w = sum_list (map (resident_entries \<circ> snd) ms) \<and>
         res_bytes w = sum_list (map (cached_logical_bytes \<circ> snd) ms) \<and>
         (\<forall>(i, m) \<in> set ms.
           distinct (map fst (encoder_cache m)) \<and>
           cached_logical_bytes m = sum_list (map (entry_logical_bytes \<circ> snd) (encoder_cache m)) \<and>
           within_capacity m \<and>
           (\<forall>md h valid. \<exists>r. get_validated md h valid (m, w) = Inr r) \<and>
           (\<forall>n > 0. \<exists>r. set_max_logical_bytes n (m, w) = Inr r) \<and>
           (\<exists>r. encoder_drop (m, w) = Inr r))"
proof -
  have inv: "encoder_system_ok ops (ms, w)" using assms by (rule encoders.reachable_inv)
  then have "res_entries w = sum_list (map (resident_entries \<circ> snd) ms)"
      "res_bytes w = sum_list (map (cached_logical_bytes \<circ> snd) ms)"
    by (simp_all add: encoder_system_ok_def tally_def resident_entries_def o_def)
  moreover have "\<forall>(i, m) \<in> set ms.
           distinct (map fst (encoder_cache m)) \<and>
           cached_logical_bytes m = sum_list (map (entry_logical_bytes \<circ> snd) (encoder_cache m)) \<and>
           within_capacity m \<and>
           (\<forall>md h valid. \<exists>r. get_validated md h valid (m, w) = Inr r) \<and>
           (\<forall>n > 0. \<exists>r. set_max_logical_bytes n (m, w) = Inr r) \<and>
           (\<exists>r. encoder_drop (m, w) = Inr r)"
  proof (clarify, goal_cases)
    case (1 i m)
    then have "map_of ms i = Some m" using inv by (simp add: encoder_system_ok_def)
    then have st: "state_ok ops (m, w)" by (rule system_member_ok [OF inv])
    then have m: "entries_ok ops m" "within_capacity m" "process_ok w" "resides (m, w)"
      by (simp_all add: state_ok_def encoder_ok_def)
    have "\<exists>r. encoder_drop (m, w) = Inr r"
      using m(3,4) update_residency_returns [of "length (encoder_cache m)" w "cached_logical_bytes m" 0 0]
      by (auto simp: encoder_drop_def resident_entries_def resides_def process_ok_def)
    moreover have "\<exists>r. set_max_logical_bytes n (m, w) = Inr r" if "0 < n" for n
      using set_capacity_policy_returns [OF m(1,3,4), of "LogicalBytes n"] that by (simp add: set_max_logical_bytes_def)
    ultimately show ?case
      using m get_validated_returns [OF m(1,3,4)] by (auto simp: entries_ok_def bytes_of_def)
  qed
  ultimately show ?thesis by blast
qed

text \<open>
  C32. Insertion is least-recently-used insertion: when the byte counts fit, it returns; outputs over the byte
  capacity or outputs that cannot be compacted are refused and the cache is left as it was; otherwise the
  key's old entry is replaced, exactly the shortest prefix of least recently used entries whose removal
  makes room is evicted, the new entry is the most recent one, and a lookup right after the insertion hits
  and gives back the compacted outputs.\<close>

theorem encoder_insert_correct:
  assumes "state_ok ops (m, w)" and "copies_keep_size ops" and "logical_bytes ops outs = Inr n"
    and "res_bytes w + n \<le> usize_max" and "res_entries w < usize_max"
  shows "returns (encoder_insert ops md h outs (m, w)) (\<lambda>(m', w').
           state_ok ops (m', w') \<and>
           (let rest = AList.delete (md, h) (encoder_cache m) in
            case map_res (compact_tensor ops) outs of
              Inl _ \<Rightarrow> m' = m
            | Inr outs' \<Rightarrow>
                if too_large (capacity_policy m) n then m' = m
                else (\<exists>k \<le> length rest.
                        encoder_cache m' = drop k rest @ [((md, h), \<lparr>entry_outputs = outs', entry_logical_bytes = n\<rparr>)] \<and>
                        room (capacity_policy m) (drop k rest) n \<and>
                        (\<forall>j < k. \<not> room (capacity_policy m) (drop j rest) n)) \<and>
                     returns (encoder_get md h (m', w')) (\<lambda>(found, m'', w''). found = Some outs' \<and>
                       encoder_cache m'' = encoder_cache m' \<and> w'' = w')))"
proof -
  obtain m' w' where r: "encoder_insert ops md h outs (m, w) = Inr (m', w')"
      and ins: "inserted ops (md, h) outs n m m'" and ok: "state_ok ops (m', w')"
    using encoder_insert_returns [OF assms(1-3), of md h] assms(4,5) by (auto elim!: returnsE)
  have "returns (encoder_get md h (m', w')) (\<lambda>(found, m'', w''). found = Some (entry_outputs e) \<and>
          encoder_cache m'' = encoder_cache m' \<and> w'' = w')"
    if "encoder_cache m' = es @ [((md, h), e)]" for es e
  proof -
    have "(md, h) \<notin> fst ` set es"
      using ok that by (simp add: state_ok_def encoder_ok_def entries_ok_def)
    then have "map_of es (md, h) = None" "AList.delete (md, h) (es @ [((md, h), e)]) = es"
      using delete_last_key by (simp_all add: map_of_eq_None_iff)
    then show ?thesis
      using that by (simp add: encoder_get_def get_validated_def Let_def map_add_def alist_update_fresh)
  qed
  then show ?thesis
    using r ins ok by (auto simp: inserted_def stored_def Let_def split: sum.splits if_splits)
qed

text \<open>
  C33. A batch lookup never panics and looks every distinct hash up once: an item is answered exactly with the
  entry of its hash that the first item with that hash accepts, the items without an answer are grouped by
  hash in the order of first occurrence and by position inside a group, entries that are not accepted leave
  the cache, every other entry stays, and the duplicates of the batch are counted.\<close>

theorem batch_lookup_exact:
  assumes "state_ok ops s"
  shows "returns (lookup_validated md hashes valid s) (\<lambda>(l, s').
    let answer = (\<lambda>h. case map_of (encoder_cache (fst s)) (md, h) of
                        None \<Rightarrow> None
                      | Some e \<Rightarrow> if valid (first_index h hashes) (entry_outputs e) then Some (entry_outputs e) else None) in
    batch_outputs l = map answer hashes \<and>
    miss_groups l = map (\<lambda>h. filter (\<lambda>i. hashes ! i = h) [0..<length hashes])
                      (filter (\<lambda>h. answer h = None) (firsts hashes)) \<and>
    state_ok ops s' \<and>
    (\<forall>md' h. map_of (encoder_cache (fst s')) (md', h) =
       (if md' = md \<and> h \<in> set hashes \<and> answer h = None then None else map_of (encoder_cache (fst s)) (md', h))) \<and>
    last (metrics (snd s')) = IntraBatchDeduplications (min (length hashes - card (set hashes)) u64_max))"
proof -
  have "length (firsts hashes) = card (set hashes)"
    by (metis distinct_card distinct_firsts set_firsts)
  then show ?thesis
    by (intro returns_mono [OF lookup_validated_correct [OF assms]])
      (auto simp: Let_def after_lookup_def groups_of_def missing_def indices_of_def record_intra_batch_deduplications_def
        emit_def resolved_def [abs_def])
qed

text \<open>
  C30. Caching does not change the encoding: for a coherent cache, a batch whose hashes identify its images, and
  an encoder that treats the images of a batch independently, the cached encoding returns, in both build
  profiles, the same rows as encoding the whole batch directly, and leaves the cache coherent and
  consistent. Hits, duplicates inside the batch, evictions between the stores and refused insertions are
  all covered.\<close>

theorem cached_encode_equals_direct:
  assumes laws: "tensor_laws ops content rows shape" and enc: "encodes_rows rows shape encode_fn n_outputs f"
    and bound: "outputs_bounded ops content f limit"
    and ok: "state_ok ops s" and coh: "coherent content f img md (fst s)"
    and px: "rows pixel_values = map img hashes" and ne: "hashes \<noteq> []"
    and fits: "res_bytes (snd s) + length hashes * limit \<le> usize_max" "res_entries (snd s) + length hashes \<le> usize_max"
  shows "\<exists>direct outs s'. encode_fn pixel_values = Inr direct \<and>
           cached_encode_images checks ops encode_fn md hashes pixel_values s = Inr (Inr outs, s') \<and>
           map rows outs = map rows direct \<and> state_ok ops s' \<and> coherent content f img md (fst s')"
proof -
  let ?r = "resolved md (\<lambda>_ _. True) (fst s) hashes"
  have len: "length (f x) = n_outputs" for x using enc by (simp add: encodes_rows_def)
  have rows_ne: "rows pixel_values \<noteq> []" using px ne by simp
  then obtain direct where direct: "encode_fn pixel_values = Inr direct" "length direct = n_outputs"
      "\<forall>k < n_outputs. rows (direct ! k) = map (\<lambda>x. f x ! k) (map img hashes)"
    using enc px unfolding encodes_rows_def by metis
  obtain l m1 w1 where lk: "batch_lookup md hashes s = Inr (l, m1, w1)"
      "batch_outputs l = map ?r hashes" "miss_groups l = groups_of ?r hashes"
      "state_ok ops (m1, w1)" "shrinks s (m1, w1)" "after_lookup md ?r (set hashes) (fst s) m1"
    using lookup_validated_correct [OF ok, of md hashes "\<lambda>_ _. True"]
    by (auto simp: batch_lookup_def Let_def elim!: returnsE)
  have hit: "map content v = f (img h)" if "?r h = Some v" for h v
    using that coh by (auto simp: resolved_def coherent_def split: option.splits)
  have coh1: "coherent content f img md m1"
    using coh lk(6) by (auto simp: coherent_def after_lookup_def split: if_splits)
  have asm: "\<exists>outs. assemble ops found (length hashes) = okay outs \<and> map rows outs = map rows direct"
    if "answers content f (map img hashes) found" for found
    using assemble_ok [OF laws enc that] ne direct by (force intro!: nth_equalityI)
  have dim: "dim0 ops pixel_values = Inr (length hashes)"
    using laws rows_ne px by (simp add: tensor_laws_def)
  show ?thesis
  proof (cases "missing ?r hashes = []")
    case True
    then have "answers content f (map img hashes) (map ?r hashes)"
      using hit by (force simp: answers_def missing_def filter_empty_conv)
    then obtain outs where "assemble ops (map ?r hashes) (length hashes) = okay outs" "map rows outs = map rows direct"
      using asm by blast
    then show ?thesis
      using direct(1) lk coh1 True ne dim
      by (auto simp: cached_encode_images_def with_state_def groups_of_def Let_def)
  next
    case False
    obtain p where p: "miss_pixels ops pixel_values (length hashes) (groups_of ?r hashes) = okay p"
        "rows p = map img (missing ?r hashes)"
      using miss_pixels_ok [OF laws px False] by blast
    obtain encoded where e: "encode_fn p = Inr encoded" "length encoded = n_outputs"
        "\<forall>k < n_outputs. rows (encoded ! k) = map (\<lambda>x. f x ! k) (map img (missing ?r hashes))"
      using enc p(2) False unfolding encodes_rows_def by (metis map_is_Nil_conv)
    have fits1: "res_bytes w1 + length hashes * limit \<le> usize_max" "res_entries w1 + length hashes \<le> usize_max"
      using fits lk(5) by (auto simp: shrinks_def)
    obtain l' s' where st: "store_results ops md hashes encoded [0..<length (groups_of ?r hashes)] (l, m1, w1) = Inr (Inr l', s')"
        "answers content f (map img hashes) (batch_outputs l')" "state_ok ops s'" "coherent content f img md (fst s')"
      using store_all_ok [OF laws bound len e(2,3), of "(m1, w1)" l md] fits1 lk hit coh1 by auto
    obtain outs where "assemble ops (batch_outputs l') (length hashes) = okay outs" "map rows outs = map rows direct"
      using asm [OF st(2)] by blast
    then show ?thesis
      using direct(1) lk p e st False ne dim
      by (cases s') (auto simp: cached_encode_images_def with_state_def groups_of_def Let_def)
  qed
qed

section \<open>Witnesses\<close>

text \<open>
  A small instance of the tensor operations: a tensor is a number or a stack of tensors, four bytes each.
\<close>

datatype sample_tensor = Number nat | Stack "sample_tensor list"

fun sample_rows :: "sample_tensor \<Rightarrow> sample_tensor list" where
  "sample_rows (Stack ts) = ts"
| "sample_rows (Number _) = []"

definition sample_ops :: "sample_tensor tensor_ops" where
  "sample_ops =
     \<lparr>elem_count = (\<lambda>_. 1), dtype_size_in_bytes = (\<lambda>_. 4), force_contiguous = Inr, detach = (\<lambda>t. t),
      dim0 = (\<lambda>t. if sample_rows t = [] then Inl ''rank'' else Inr (length (sample_rows t))),
      row_at = (\<lambda>t i. if i < length (sample_rows t) then Inr (sample_rows t ! i) else Inl ''index''),
      stack0 = (\<lambda>ts. if ts = [] then Inl ''empty'' else Inr (Stack ts))\<rparr>"

lemma sample_ops_simps [simp]:
  "elem_count sample_ops t = 1" "dtype_size_in_bytes sample_ops t = 4" "force_contiguous sample_ops t = Inr t"
  "detach sample_ops t = t"
  "dim0 sample_ops t = (if sample_rows t = [] then Inl ''rank'' else Inr (length (sample_rows t)))"
  "row_at sample_ops t i = (if i < length (sample_rows t) then Inr (sample_rows t ! i) else Inl ''index'')"
  "stack0 sample_ops ts = (if ts = [] then Inl ''empty'' else Inr (Stack ts))"
  by (simp_all add: sample_ops_def)

lemma sample_copies: "copies_keep_size sample_ops"
  by (simp add: copies_keep_size_def)

lemma sample_laws: "tensor_laws sample_ops (\<lambda>t. t) sample_rows (\<lambda>_. ())"
  using sample_copies by (auto simp: tensor_laws_def)

definition sample_image :: "64 word \<Rightarrow> sample_tensor" where
  "sample_image h = Number (unat h)"

definition sample_encoder :: "sample_tensor \<Rightarrow> string + sample_tensor list" where
  "sample_encoder px = (if sample_rows px = [] then Inl ''rank'' else Inr [Stack (map (\<lambda>x. Stack [x]) (sample_rows px))])"

definition sample_entry :: "nat \<Rightarrow> sample_tensor EncoderCacheEntry" where
  "sample_entry n = \<lparr>entry_outputs = [Stack [Number n]], entry_logical_bytes = 4\<rparr>"

definition sample_manager :: "sample_tensor EncoderCacheManager" where
  "sample_manager = \<lparr>encoder_cache = [((Image, 8), sample_entry 8), ((Image, 5), sample_entry 5)],
     capacity_policy = Entries 2, cached_logical_bytes = 8, hits = 0, misses = 0\<rparr>"

definition sample_process :: EncoderProcess where
  "sample_process = \<lparr>PROCESS_RESIDENCY = \<lparr>resident_entry_count = 2, resident_logical_bytes = 8\<rparr>, metrics = []\<rparr>"

lemma sample_state_ok: "state_ok sample_ops (sample_manager, sample_process)"
  by (auto simp: state_ok_def encoder_ok_def entries_ok_def entry_ok_def within_capacity_def process_ok_def resides_def
      sample_manager_def sample_process_def sample_entry_def logical_bytes_def tensor_logical_bytes_def checked_mul_def
      int_max_defs)

text \<open>A batch with a hit, a duplicate and two evictions.\<close>

theorem cached_encode_equals_direct_witness:
  "\<exists>direct outs s'. sample_encoder (Stack (map sample_image [7, 8, 7, 9])) = Inr direct \<and>
     cached_encode_images True sample_ops sample_encoder Image [7, 8, 7, 9] (Stack (map sample_image [7, 8, 7, 9]))
       (sample_manager, sample_process) = Inr (Inr outs, s') \<and>
     map sample_rows outs = map sample_rows direct \<and> state_ok sample_ops s' \<and>
     coherent (\<lambda>t. t) (\<lambda>x. [Stack [x]]) sample_image Image (fst s')"
proof (rule cached_encode_equals_direct [OF sample_laws _ _ sample_state_ok, where n_outputs = 1 and limit = 4])
  show "encodes_rows sample_rows (\<lambda>_. ()) sample_encoder 1 (\<lambda>x. [Stack [x]])"
    by (simp add: encodes_rows_def sample_encoder_def)
  show "outputs_bounded sample_ops (\<lambda>t. t) (\<lambda>x. [Stack [x]]) 4"
    by (simp add: outputs_bounded_def logical_bytes_def tensor_logical_bytes_def checked_mul_def int_max_defs)
  show "coherent (\<lambda>t. t) (\<lambda>x. [Stack [x]]) sample_image Image (fst (sample_manager, sample_process))"
    by (auto simp: coherent_def sample_manager_def sample_entry_def sample_image_def split: if_splits)
qed (simp_all add: sample_process_def int_max_defs)

theorem encoder_insert_correct_witness:
  "returns (encoder_insert sample_ops Image 9 [Number 1] (sample_manager, sample_process)) (\<lambda>(m', w').
     map fst (encoder_cache m') = [(Image, 5), (Image, 9)] \<and>
     returns (encoder_get Image 9 (m', w')) (\<lambda>(found, _). found = Some [Number 1]))"
proof -
  have "logical_bytes sample_ops [Number 1] = Inr 4"
    by (simp add: logical_bytes_def tensor_logical_bytes_def checked_mul_def int_max_defs)
  note ins = encoder_insert_correct [OF sample_state_ok sample_copies this, of Image 9]
  obtain m' w' k where r: "encoder_insert sample_ops Image 9 [Number 1] (sample_manager, sample_process) = Inr (m', w')"
    "encoder_cache m' = drop k (encoder_cache sample_manager) @ [((Image, 9), \<lparr>entry_outputs = [Number 1], entry_logical_bytes = 4\<rparr>)]"
    "Suc (Suc 0) - k < 2" "\<forall>j < k. \<not> Suc (Suc 0) - j < 2" "returns (encoder_get Image 9 (m', w')) (\<lambda>(found, _). found = Some [Number 1])"
    using ins
    by (auto simp: sample_process_def sample_manager_def int_max_defs compact_tensor_def too_large_def room_def Let_def
        elim!: returnsE)
  have "k = 1" using r(3,4) by (cases "k = 0"; cases "k = 1") (auto dest: spec [of _ 1])
  then show ?thesis using r by (simp add: sample_manager_def)
qed

theorem batch_lookup_exact_witness:
  "returns (lookup_validated Image [7, 8, 7] (\<lambda>_ _. True) (sample_manager, sample_process)) (\<lambda>(l, _).
     batch_outputs l = [None, Some [Stack [Number 8]], None] \<and> miss_groups l = [[0, 2]])"
  by (rule returns_mono [OF batch_lookup_exact [OF sample_state_ok]])
    (auto simp: sample_manager_def sample_entry_def Let_def upt_rec)

text \<open>Creating a cache and inserting two entries, of which only one fits.\<close>

definition empty_process :: EncoderProcess where
  "empty_process = \<lparr>PROCESS_RESIDENCY = \<lparr>resident_entry_count = 0, resident_logical_bytes = 0\<rparr>, metrics = []\<rparr>"

definition sample_created :: "sample_tensor encoder_state" where
  "sample_created = with_capacity_policy (LogicalBytes 6) empty_process"

lemma sample_run:
  "\<exists>m w m' w'. run_call sample_ops (Insert Image 9 [Number 1]) sample_created = Inr (m, w) \<and>
     run_call sample_ops (Insert Image 8 [Number 2]) (m, w) = Inr (m', w')"
  by (simp add: sample_created_def empty_process_def with_capacity_policy_def encoder_insert_def logical_bytes_def
      tensor_logical_bytes_def checked_mul_def int_max_defs too_large_def entry_compact_def compact_tensor_def
      entry_new_def store_entry_def remove_previous_def evict_while.simps exceeds_capacity_with_def
      update_process_residency_def adjust_process_residency_def checked_add_def Let_def count_evictions_def
      publish_process_residency_metrics_def emit_def)

theorem encoder_residency_exact_witness:
  "\<exists>m w. run_call sample_ops (Insert Image 9 [Number 1]) sample_created = Inr (m, w) \<and>
     (\<exists>m' w'. run_call sample_ops (Insert Image 8 [Number 2]) (m, w) = Inr (m', w') \<and>
       res_entries w' = resident_entries m' \<and> within_capacity m' \<and> (\<exists>r. encoder_drop (m', w') = Inr r))"
proof -
  obtain m w m' w' where run: "run_call sample_ops (Insert Image 9 [Number 1]) sample_created = Inr (m, w)"
      "run_call sample_ops (Insert Image 8 [Number 2]) (m, w) = Inr (m', w')"
    using sample_run by blast
  have "reachable_from encoder_init (encoder_step sample_ops) ([(0, fst sample_created)], snd sample_created)"
    by (rule reach_step [where s = "([], empty_process)" and l = "(0, Create (LogicalBytes 6))"])
      (auto intro!: reach_init encoder_step.intros simp: encoder_init_def sample_created_def empty_process_def)
  moreover have "encoder_step sample_ops ([(0, fst sample_created)], snd sample_created)
      (0, Call (Insert Image 9 [Number 1])) ([(0, m)], w)"
    using step_call [of "[(0, fst sample_created)]" 0 "fst sample_created" sample_ops _ "snd sample_created" m w] run(1) by simp
  moreover have "encoder_step sample_ops ([(0, m)], w) (0, Call (Insert Image 8 [Number 2])) ([(0, m')], w')"
    using step_call [of "[(0, m)]" 0 m sample_ops _ w m' w'] run(2) by simp
  ultimately have "reachable_from encoder_init (encoder_step sample_ops) ([(0, m')], w')"
    by (blast intro: reach_step)
  from encoder_residency_exact [OF this] show ?thesis using run by auto
qed

end
