(* ===== verification/Admission_Queue.thy ===== *)
theory Admission_Queue
  imports Rust_Prelude "HOL-Library.Sublist"
begin

text \<open>
  The queue in front of the engine (\<open>engine/admission.rs\<close>): requests wait in three lanes - work and ordered controls in order of arrival,
  controls that bypass them, and shutdowns - up to a limit on all of them, and work is admitted while
  the engine has room for its sequences. The predicate of \<open>retain\<close> is a function of the request, as in its only call.
\<close>

section \<open>The queue\<close>

datatype AdmissionClass = Workload nat | OrderedControl | BypassControl | Shutdown

record 'a PendingRequest =
  pending_class :: AdmissionClass
  request :: 'a

record AdmissionPolicy =
  max_active_sequences :: nat
  max_pending_requests :: nat
  max_dispatches :: nat

definition AdmissionPolicy_new :: "nat \<Rightarrow> nat \<Rightarrow> AdmissionPolicy res" where
  "AdmissionPolicy_new active pending =
     and_then (assert_that ''max_active_sequences > 0'' (0 < active)) (\<lambda>_.
     and_then (assert_that ''max_pending_requests > 0'' (0 < pending)) (\<lambda>_.
     Inr \<lparr>max_active_sequences = active, max_pending_requests = pending, max_dispatches = active\<rparr>))"

definition available_sequences :: "AdmissionPolicy \<Rightarrow> nat \<Rightarrow> nat" where
  "available_sequences pol active = max_active_sequences pol - active"

record 'a AdmissionQueue =
  ordered :: "'a PendingRequest list"
  bypass_controls :: "'a list"
  shutdowns :: "'a list"
  policy :: AdmissionPolicy

definition AdmissionQueue_new :: "AdmissionPolicy \<Rightarrow> 'a AdmissionQueue" where
  "AdmissionQueue_new pol = \<lparr>ordered = [], bypass_controls = [], shutdowns = [], policy = pol\<rparr>"

definition admission_len :: "'a AdmissionQueue \<Rightarrow> nat" where
  "admission_len q = length (ordered q) + length (bypass_controls q) + length (shutdowns q)"

definition admission_is_empty :: "'a AdmissionQueue \<Rightarrow> bool" where
  "admission_is_empty q \<longleftrightarrow> admission_len q = 0"

definition remaining_capacity :: "'a AdmissionQueue \<Rightarrow> nat" where
  "remaining_capacity q = max_pending_requests (policy q) - admission_len q"

definition max_dispatches_per_step :: "'a AdmissionQueue \<Rightarrow> nat" where
  "max_dispatches_per_step q = max_dispatches (policy q)"

definition blocks_decode_continuation :: "'a AdmissionQueue \<Rightarrow> bool" where
  "blocks_decode_continuation q \<longleftrightarrow>
     bypass_controls q \<noteq> [] \<or> shutdowns q \<noteq> [] \<or> (\<exists>p \<in> set (ordered q). pending_class p = OrderedControl)"

text \<open>A refused request is handed back.\<close>

definition admission_push :: "'a \<Rightarrow> AdmissionClass \<Rightarrow> 'a AdmissionQueue \<Rightarrow> ('a + unit) \<times> 'a AdmissionQueue" where
  "admission_push r c q =
     (if admission_len q = max_pending_requests (policy q) then (Inl r, q)
      else
        (Inr (),
         case c of
           BypassControl \<Rightarrow> q\<lparr>bypass_controls := bypass_controls q @ [r]\<rparr>
         | Shutdown \<Rightarrow> q\<lparr>shutdowns := shutdowns q @ [r]\<rparr>
         | _ \<Rightarrow> q\<lparr>ordered := ordered q @ [\<lparr>pending_class = c, request = r\<rparr>]\<rparr>))"

definition pop_front :: "'b list \<Rightarrow> 'b option \<times> 'b list" where
  "pop_front xs = (case xs of [] \<Rightarrow> (None, []) | x # rest \<Rightarrow> (Some x, rest))"

definition take_shutdown :: "'a AdmissionQueue \<Rightarrow> 'a option \<times> 'a AdmissionQueue" where
  "take_shutdown q = (case pop_front (shutdowns q) of (r, rest) \<Rightarrow> (r, q\<lparr>shutdowns := rest\<rparr>))"

definition take_bypass_control :: "'a AdmissionQueue \<Rightarrow> 'a option \<times> 'a AdmissionQueue" where
  "take_bypass_control q = (case pop_front (bypass_controls q) of (r, rest) \<Rightarrow> (r, q\<lparr>bypass_controls := rest\<rparr>))"

definition admission_retain :: "('a \<Rightarrow> bool) \<Rightarrow> 'a AdmissionQueue \<Rightarrow> 'a AdmissionQueue" where
  "admission_retain keep q =
     q\<lparr>ordered := filter (\<lambda>p. keep (request p)) (ordered q), bypass_controls := filter keep (bypass_controls q),
       shutdowns := filter keep (shutdowns q)\<rparr>"

definition pop_admissible :: "nat \<Rightarrow> 'a AdmissionQueue \<Rightarrow> 'a option \<times> 'a AdmissionQueue" where
  "pop_admissible active q =
     (case ordered q of
        [] \<Rightarrow> (None, q)
      | p # rest \<Rightarrow>
          let admissible =
                (case pending_class p of
                   Workload n \<Rightarrow>
                     let sequences = max n 1;
                         available = available_sequences (policy q) active in
                     sequences \<le> available \<or> active = 0 \<and> max_active_sequences (policy q) < sequences
                 | _ \<Rightarrow> True) in
          if admissible then (Some (request p), q\<lparr>ordered := rest\<rparr>) else (None, q))"

definition pop_admissible_workload :: "nat \<Rightarrow> 'a AdmissionQueue \<Rightarrow> 'a option \<times> 'a AdmissionQueue" where
  "pop_admissible_workload active q =
     (case ordered q of
        [] \<Rightarrow> (None, q)
      | p # rest \<Rightarrow>
          (case pending_class p of
             Workload n \<Rightarrow>
               let sequences = max n 1;
                   available = available_sequences (policy q) active in
               if sequences \<le> available \<or> active = 0 \<and> max_active_sequences (policy q) < sequences
               then (Some (request p), q\<lparr>ordered := rest\<rparr>) else (None, q)
           | _ \<Rightarrow> (None, q)))"

section \<open>Runs\<close>

datatype admission_lane = OrderedLane | BypassLane | ShutdownLane

fun lane_of :: "AdmissionClass \<Rightarrow> admission_lane" where
  "lane_of BypassControl = BypassLane"
| "lane_of Shutdown = ShutdownLane"
| "lane_of _ = OrderedLane"

fun lane :: "admission_lane \<Rightarrow> 'a AdmissionQueue \<Rightarrow> 'a list" where
  "lane OrderedLane q = map request (ordered q)"
| "lane BypassLane q = bypass_controls q"
| "lane ShutdownLane q = shutdowns q"

datatype 'a admission_call = Push 'a AdmissionClass | TakeShutdown | TakeBypass | Retain "'a \<Rightarrow> bool" | PopAdmissible nat | PopWorkload nat

definition given :: "admission_lane \<Rightarrow> 'a option \<Rightarrow> (admission_lane \<times> 'a) list" where
  "given l r = (case r of None \<Rightarrow> [] | Some x \<Rightarrow> [(l, x)])"

text \<open>A call, with the requests it let in and those it gave out, each with its lane.\<close>

fun queue_call ::
    "'a admission_call \<Rightarrow> 'a AdmissionQueue \<Rightarrow> (admission_lane \<times> 'a) list \<times> (admission_lane \<times> 'a) list \<times> 'a AdmissionQueue" where
  "queue_call (Push r c) q =
     (case admission_push r c q of (Inl _, q') \<Rightarrow> ([], [], q') | (Inr _, q') \<Rightarrow> ([(lane_of c, r)], [], q'))"
| "queue_call TakeShutdown q = (case take_shutdown q of (r, q') \<Rightarrow> ([], given ShutdownLane r, q'))"
| "queue_call TakeBypass q = (case take_bypass_control q of (r, q') \<Rightarrow> ([], given BypassLane r, q'))"
| "queue_call (Retain keep) q = ([], [], admission_retain keep q)"
| "queue_call (PopAdmissible active) q = (case pop_admissible active q of (r, q') \<Rightarrow> ([], given OrderedLane r, q'))"
| "queue_call (PopWorkload active) q = (case pop_admissible_workload active q of (r, q') \<Rightarrow> ([], given OrderedLane r, q'))"

fun admission_run ::
    "'a admission_call list \<Rightarrow> 'a AdmissionQueue \<Rightarrow> (admission_lane \<times> 'a) list \<times> (admission_lane \<times> 'a) list \<times> 'a AdmissionQueue" where
  "admission_run [] q = ([], [], q)"
| "admission_run (c # cs) q =
     (case queue_call c q of (a, t, q1) \<Rightarrow> case admission_run cs q1 of (a', t', q2) \<Rightarrow> (a @ a', t @ t', q2))"

definition on_lane :: "admission_lane \<Rightarrow> (admission_lane \<times> 'a) list \<Rightarrow> 'a list" where
  "on_lane l xs = map snd (filter (\<lambda>p. fst p = l) xs)"

definition drops :: "'a admission_call \<Rightarrow> bool" where
  "drops c = (case c of Retain _ \<Rightarrow> True | _ \<Rightarrow> False)"

lemma on_lane_simps [simp]:
  "on_lane l [] = []" "on_lane l (xs @ ys) = on_lane l xs @ on_lane l ys"
  "on_lane l ((m, x) # xs) = (if m = l then x # on_lane l xs else on_lane l xs)"
  "on_lane l (given m r) = (if m = l then (case r of None \<Rightarrow> [] | Some x \<Rightarrow> [x]) else [])"
  by (simp_all add: on_lane_def given_def split: option.splits)

section \<open>First come, first served\<close>

lemma push_lanes:
  assumes "admission_push r c q = (Inr u, q')"
  shows "lane l q' = lane l q @ on_lane l [(lane_of c, r)]" and "policy q' = policy q" and "admission_len q' = Suc (admission_len q)"
    and "admission_len q \<noteq> max_pending_requests (policy q)"
  using assms by (auto simp: admission_push_def admission_len_def split: if_splits AdmissionClass.splits; cases l; simp)+

lemma pop_lanes:
  assumes "pop_admissible active q = (r, q') \<or> pop_admissible_workload active q = (r, q')"
  shows "lane l q = on_lane l (given OrderedLane r) @ lane l q'" and "policy q' = policy q" and "admission_len q' \<le> admission_len q"
  using assms
  by (auto simp: pop_admissible_def pop_admissible_workload_def admission_len_def Let_def
      split: if_splits AdmissionClass.splits list.splits; cases l; simp)+

lemma take_lanes:
  "take_shutdown q = (r, q') \<Longrightarrow> lane l q = on_lane l (given ShutdownLane r) @ lane l q' \<and> policy q' = policy q \<and>
     admission_len q' \<le> admission_len q"
  "take_bypass_control q = (r, q') \<Longrightarrow> lane l q = on_lane l (given BypassLane r) @ lane l q' \<and> policy q' = policy q \<and>
     admission_len q' \<le> admission_len q"
  by (cases l; auto simp: take_shutdown_def take_bypass_control_def pop_front_def admission_len_def split: list.splits)+

lemma retain_lanes:
  "lane l (admission_retain keep q) = filter keep (lane l q)" "policy (admission_retain keep q) = policy q"
  "admission_len (admission_retain keep q) \<le> admission_len q"
  by (cases l; simp add: admission_retain_def filter_map comp_def)
    (simp_all add: admission_retain_def admission_len_def add_mono)

lemma call_lanes:
  assumes "queue_call c q = (a, t, q')"
  shows "subseq (on_lane l t @ lane l q') (lane l q @ on_lane l a)" and "\<not> drops c \<Longrightarrow> on_lane l t @ lane l q' = lane l q @ on_lane l a"
    and "policy q' = policy q" and "admission_len q \<le> max_pending_requests (policy q) \<Longrightarrow> admission_len q' \<le> max_pending_requests (policy q)"
proof -
  have eq: "on_lane l t @ lane l q' = lane l q @ on_lane l a \<and> policy q' = policy q \<and>
      (admission_len q \<le> max_pending_requests (policy q) \<longrightarrow> admission_len q' \<le> max_pending_requests (policy q))" if "\<not> drops c"
  proof (cases c)
    case (Push r cl)
    obtain res q1 where push: "admission_push r cl q = (res, q1)" by force
    show ?thesis
    proof (cases res)
      case (Inl x)
      then show ?thesis using push Push assms by (simp add: admission_push_def split: if_splits)
    next
      case (Inr u)
      then show ?thesis using push_lanes [OF push [unfolded Inr]] Push assms push by auto
    qed
  next
    case TakeShutdown
    then show ?thesis using assms take_lanes(1) [of q _ q' l] by (auto split: prod.splits)
  next
    case TakeBypass
    then show ?thesis using assms take_lanes(2) [of q _ q' l] by (auto split: prod.splits)
  next
    case (PopAdmissible n)
    then obtain r where r: "pop_admissible n q = (r, q')" "a = []" "t = given OrderedLane r" using assms by (auto split: prod.splits)
    show ?thesis using pop_lanes [OF disjI1 [OF r(1)]] by (simp add: r(2,3))
  next
    case (PopWorkload n)
    then obtain r where r: "pop_admissible_workload n q = (r, q')" "a = []" "t = given OrderedLane r" using assms by (auto split: prod.splits)
    show ?thesis using pop_lanes [OF disjI2 [OF r(1)]] by (simp add: r(2,3))
  qed (use that in \<open>simp add: drops_def\<close>)
  have dr: "subseq (on_lane l t @ lane l q') (lane l q @ on_lane l a) \<and> policy q' = policy q \<and> admission_len q' \<le> admission_len q" if "drops c"
    using that assms by (auto simp: drops_def retain_lanes split: admission_call.splits)
  show "subseq (on_lane l t @ lane l q') (lane l q @ on_lane l a)" "\<not> drops c \<Longrightarrow> on_lane l t @ lane l q' = lane l q @ on_lane l a"
    "policy q' = policy q" "admission_len q \<le> max_pending_requests (policy q) \<Longrightarrow> admission_len q' \<le> max_pending_requests (policy q)"
    using eq dr by (cases "drops c"; simp)+
qed

lemma run_lanes:
  assumes "admission_run cs q = (a, t, q')" and "admission_len q \<le> max_pending_requests (policy q)"
  shows "subseq (on_lane l t @ lane l q') (lane l q @ on_lane l a)"
    and "(\<And>c. c \<in> set cs \<Longrightarrow> \<not> drops c) \<Longrightarrow> on_lane l t @ lane l q' = lane l q @ on_lane l a"
    and "policy q' = policy q" and "admission_len q' \<le> max_pending_requests (policy q)"
proof -
  have "subseq (on_lane l t @ lane l q') (lane l q @ on_lane l a) \<and>
      ((\<forall>c \<in> set cs. \<not> drops c) \<longrightarrow> on_lane l t @ lane l q' = lane l q @ on_lane l a) \<and>
      policy q' = policy q \<and> admission_len q' \<le> max_pending_requests (policy q)"
    using assms
  proof (induction cs arbitrary: q a t)
    case (Cons c cs)
    obtain a1 t1 q1 a2 t2 where s: "queue_call c q = (a1, t1, q1)" "admission_run cs q1 = (a2, t2, q')" "a = a1 @ a2" "t = t1 @ t2"
      using Cons.prems(1) by (auto split: prod.splits)
    note c = call_lanes [OF s(1)]
    have IH: "subseq (on_lane l t2 @ lane l q') (lane l q1 @ on_lane l a2)"
      "(\<forall>c \<in> set cs. \<not> drops c) \<longrightarrow> on_lane l t2 @ lane l q' = lane l q1 @ on_lane l a2"
      "policy q' = policy q1" "admission_len q' \<le> max_pending_requests (policy q1)"
      using Cons.IH [OF s(2)] c(3) c(4) [OF Cons.prems(2)] by simp_all
    have "subseq (on_lane l t1 @ on_lane l t2 @ lane l q') (on_lane l t1 @ lane l q1 @ on_lane l a2)"
      using IH(1) by (simp add: subseq_append')
    also have "subseq \<dots> (lane l q @ on_lane l a1 @ on_lane l a2)"
      using list_emb_append_mono [OF c(1) [of l] subseq_order.order_refl [of "on_lane l a2"]] by simp
    finally have "subseq (on_lane l t @ lane l q') (lane l q @ on_lane l a)" by (simp add: s(3,4))
    moreover have "on_lane l t @ lane l q' = lane l q @ on_lane l a" if "\<forall>c \<in> set (c # cs). \<not> drops c"
      using c(2) [of l] IH(2) that by (simp add: s(3,4))
    ultimately show ?case using IH(3,4) c(3) by simp
  qed simp
  then show "subseq (on_lane l t @ lane l q') (lane l q @ on_lane l a)"
    "(\<And>c. c \<in> set cs \<Longrightarrow> \<not> drops c) \<Longrightarrow> on_lane l t @ lane l q' = lane l q @ on_lane l a"
    "policy q' = policy q" "admission_len q' \<le> max_pending_requests (policy q)" by blast+
qed


section \<open>Admission\<close>

text \<open>
  C40. The head of the line. With a policy that the constructor accepts, \<open>pop_admissible\<close> gives out the request at the head exactly when it is a
  control, or its sequences fit beside the active ones, or the engine is idle; it never looks past the head, it lets more sequences in than the
  policy allows only for a single request on an idle engine, and on an idle engine it always gives out a waiting
  request.
\<close>

theorem admission_head_of_line:
  assumes "AdmissionPolicy_new n m = Inr (policy q)" and "pop_admissible active q = (r, q')"
  shows "(case ordered q of
     [] \<Rightarrow> r = None \<and> q' = q
   | p # rest \<Rightarrow>
       (case r of
          Some x \<Rightarrow> x = request p \<and> q' = q\<lparr>ordered := rest\<rparr> \<and>
            (\<forall>k. pending_class p = Workload k \<longrightarrow> active + max k 1 \<le> n \<or> active = 0)
        | None \<Rightarrow> q' = q \<and> 0 < active \<and> (\<exists>k. pending_class p = Workload k \<and> n < active + max k 1)))"
proof -
  have "max_active_sequences (policy q) = n" "0 < n"
    using assms(1) by (auto simp: AdmissionPolicy_new_def and_then_eq_Inr assert_that_def split: if_splits dest: arg_cong [where f = max_active_sequences])
  then show ?thesis
    using assms(2)
    by (cases "ordered q") (auto simp: pop_admissible_def available_sequences_def Let_def split: AdmissionClass.splits if_splits)
qed

section \<open>A concrete queue\<close>

definition sample_policy :: AdmissionPolicy where
  "sample_policy = \<lparr>max_active_sequences = 2, max_pending_requests = 3, max_dispatches = 2\<rparr>"


theorem admission_head_of_line_witness:
  "\<exists>q'. pop_admissible 1 ((AdmissionQueue_new sample_policy)\<lparr>ordered := [\<lparr>pending_class = Workload 2, request = 7 :: nat\<rparr>]\<rparr>) = (None, q') \<and>
     length (ordered q') = 1"
proof -
  let ?q = "(AdmissionQueue_new sample_policy)\<lparr>ordered := [\<lparr>pending_class = Workload 2, request = 7 :: nat\<rparr>]\<rparr>"
  have new: "AdmissionPolicy_new 2 3 = Inr (policy ?q)" by (simp add: AdmissionPolicy_new_def AdmissionQueue_new_def sample_policy_def)
  have "pop_admissible 1 ?q = (None, ?q)" by (simp add: pop_admissible_def AdmissionQueue_new_def sample_policy_def available_sequences_def)
  with admission_head_of_line [OF new this] show ?thesis by (intro exI [of _ ?q]) auto
qed

end
