(* ===== verification/Paged_Scheduler.thy ===== *)
theory Paged_Scheduler
  imports Manager_Theorems Prompt_Chunk_Theorems Sequences
begin

text \<open>
  The scheduler of paged attention (\<open>paged_attention/scheduler.rs\<close>): admission of waiting sequences with
  prefix cache hits and starvation handling, selection of prompt batches and of completion batches,
  preemption, and the release of finished sequences, over the modelled KV cache manager, chunk planner and
  block hashes.

  Sequences are shared: an \<open>Arc<Mutex<Sequence>>\<close> is represented by the id of its sequence, the queues hold ids,
  and \<open>seqs\<close> is the store they point into. The hash maps of the scheduler are only accessed by key. The prefix
  validator is a trait object and stays a parameter, with a state of its own. The flag \<open>TERMINATE_ALL_NEXT_STEP\<close> is
  an argument and a result. Metrics, logging and the interval logger are left out; the responses sent to clients are
  kept in the order in which they are sent. Token counts are lengths of vectors in memory and
  their sums are natural numbers.
\<close>

section \<open>State\<close>

record PagedAttentionSchedulerConfig =
  max_num_seqs :: nat
  max_num_batched_tokens :: nat
  max_prefill_chunk_tokens :: nat
  max_decode_steps_before_prefill :: nat

datatype BatchKind = BatchPrompt | BatchCompletion

datatype BlockHashUpdate = Append | Rebuild

datatype Response = ValidationError string | InternalError string

record PromptBatch =
  pb_scheduled :: "nat list"
  pb_chunk_size :: "nat option"
  pb_chunks :: "PromptChunkPlan list option"

record PagedAttentionSchedulerOutput =
  out_scheduled :: "nat list"
  num_cached_tokens :: "nat list"
  prompt_chunk_size :: "nat option"
  scheduled_prompt_chunks :: "PromptChunkPlan list option"

definition WAITING_TIMEOUT :: nat where
  "WAITING_TIMEOUT = 64"

definition RAGGED_PROMPT_BUCKET_TOKENS :: nat where
  "RAGGED_PROMPT_BUCKET_TOKENS = 256"

record PagedAttentionScheduler =
  seqs :: "nat \<Rightarrow> Sequence"
  ps_waiting :: "nat list"
  ps_running :: "nat list"
  ps_config :: PagedAttentionSchedulerConfig
  kv_cache_manager :: KVCacheManager
  ps_block_size :: nat
  prefix_caching_enabled :: bool
  requires_uniform_prompt_batch :: bool
  requires_uniform_completion_batch :: bool
  ps_requires_uniform_media_batch :: bool
  supports_packed_prefill :: bool
  prefill_has_per_sequence_state :: bool
  scheduler_visible_prompt_chunks :: bool
  prompt_chunks_require_block_alignment :: bool
  prefix_policy :: SpeculativePrefixCheckpointPolicy
  decode_steps_since_prefill :: nat
  prompt_admission_epoch :: bool
  waiting_prompt_preemption_enabled :: bool
  next_prompt_sequence_id :: "nat option"
  completion_cursor :: nat
  seq_block_hashes :: "nat \<rightharpoonup> BlockHash list"
  seq_block_hash_revisions :: "nat \<rightharpoonup> nat"
  waiting_counts :: "(nat \<times> nat) list"
  finished_recurrent_slots :: "(nat \<times> nat) list"
  preempted_sequence_ids :: "nat list"
  responses :: "(nat \<times> Response) list"

type_synonym hasher = "hash_write list \<Rightarrow> 64 word"

definition PagedAttentionScheduler_new ::
    "rt_env \<Rightarrow> (nat \<Rightarrow> Sequence) \<Rightarrow> PagedAttentionSchedulerConfig \<Rightarrow> nat \<Rightarrow> nat \<Rightarrow> nat list \<Rightarrow> PagedAttentionScheduler res" where
  "PagedAttentionScheduler_new env store cfg n_blocks bsz gs =
     and_then (assert_that ''config.max_num_seqs > 0'' (0 < max_num_seqs cfg)) (\<lambda>_.
     and_then (assert_that ''config.max_num_batched_tokens > 0'' (0 < max_num_batched_tokens cfg)) (\<lambda>_.
     and_then (assert_that ''config.max_prefill_chunk_tokens > 0'' (0 < max_prefill_chunk_tokens cfg)) (\<lambda>_.
     and_then (assert_that ''config.max_decode_steps_before_prefill > 0'' (0 < max_decode_steps_before_prefill cfg)) (\<lambda>_.
     and_then (KVCacheManager_new env n_blocks bsz True gs) (\<lambda>kv.
     Inr \<lparr>seqs = store, ps_waiting = [], ps_running = [], ps_config = cfg, kv_cache_manager = kv, ps_block_size = bsz,
          prefix_caching_enabled = True, requires_uniform_prompt_batch = True, requires_uniform_completion_batch = True,
          ps_requires_uniform_media_batch = False, supports_packed_prefill = False, prefill_has_per_sequence_state = False,
          scheduler_visible_prompt_chunks = False, prompt_chunks_require_block_alignment = False,
          prefix_policy = \<lparr>fallback_replay = NotRequired, text_auxiliary_state = False\<rparr>, decode_steps_since_prefill = 0,
          prompt_admission_epoch = False, waiting_prompt_preemption_enabled = True, next_prompt_sequence_id = None,
          completion_cursor = 0, seq_block_hashes = Map.empty, seq_block_hash_revisions = Map.empty, waiting_counts = [],
          finished_recurrent_slots = [], preempted_sequence_ids = [], responses = []\<rparr>)))))"

definition modify_seq :: "nat \<Rightarrow> (Sequence \<Rightarrow> Sequence) \<Rightarrow> PagedAttentionScheduler \<Rightarrow> PagedAttentionScheduler" where
  "modify_seq i f d = d\<lparr>seqs := (seqs d)(i := f (seqs d i))\<rparr>"

definition modify_seqs :: "nat list \<Rightarrow> (Sequence \<Rightarrow> Sequence) \<Rightarrow> PagedAttentionScheduler \<Rightarrow> PagedAttentionScheduler" where
  "modify_seqs is f d = fold (\<lambda>i. modify_seq i f) is d"

section \<open>Budgets\<close>

definition prefill_token_budget :: "PagedAttentionScheduler \<Rightarrow> bool \<Rightarrow> nat" where
  "prefill_token_budget d latency_bounded =
     (if scheduler_visible_prompt_chunks d \<and> latency_bounded then
        if prompt_admission_epoch d then max_num_batched_tokens (ps_config d)
        else min (max_num_batched_tokens (ps_config d)) (max_prefill_chunk_tokens (ps_config d))
      else max_num_batched_tokens (ps_config d))"

definition batch_chunk_size :: "PagedAttentionScheduler \<Rightarrow> nat \<Rightarrow> bool \<Rightarrow> nat option" where
  "batch_chunk_size d batch_size latency_bounded =
     (if 0 < batch_size then
        (let chunk_size = max (prefill_token_budget d latency_bounded div batch_size) 1 in
         Some (if scheduler_visible_prompt_chunks d \<and> latency_bounded
               then min chunk_size (max_prefill_chunk_tokens (ps_config d)) else chunk_size))
      else None)"

definition update_prompt_admission_epoch :: "PagedAttentionScheduler \<Rightarrow> PagedAttentionScheduler" where
  "update_prompt_admission_epoch d =
     (let has_running_prompt = (\<exists>i \<in> set (ps_running d). is_prompt (seqs d i));
          has_prompt = (has_running_prompt \<or> ps_waiting d \<noteq> []) in
      if \<not> has_prompt \<and> 0 < decode_steps_since_prefill d then d\<lparr>prompt_admission_epoch := False\<rparr>
      else if \<not> (\<exists>i \<in> set (ps_running d). is_completion (seqs d i)) then d\<lparr>prompt_admission_epoch := True\<rparr>
      else d)"

definition prompt_chunks_use_block_alignment :: "PagedAttentionScheduler \<Rightarrow> bool" where
  "prompt_chunks_use_block_alignment d \<longleftrightarrow> prompt_chunks_require_block_alignment d \<and> prefix_caching_enabled d"

definition build_prompt_chunks :: "rt_env \<Rightarrow> PagedAttentionScheduler \<Rightarrow> Sequence \<Rightarrow> nat \<Rightarrow> PromptChunkPlan list res" where
  "build_prompt_chunks env d s chunk_size =
     or_diverge (build_prompt_chunk_plan (debug_assertions env) (length (get_toks s)) (seq_computed s) chunk_size
       (if prompt_chunks_use_block_alignment d then Some (ps_block_size d) else None)
       (replay_for (prefix_policy d) (modality_signature s)) (mm_features s))"

definition supports_scheduler_visible_prompt_chunks :: "PagedAttentionScheduler \<Rightarrow> Sequence \<Rightarrow> bool" where
  "supports_scheduler_visible_prompt_chunks d s \<longleftrightarrow>
     scheduler_visible_prompt_chunks d \<and> \<not> return_raw_logits s \<and> \<not> is_xlora s \<and> stepping_type s = PromptAndDecode \<and>
     \<not> has_suffix_only_prefill_toks s \<and>
     \<not> ((has_images s \<or> has_audios s \<or> has_videos s) \<and> mm_features s = [])"

section \<open>Block hashes\<close>

definition block_hash_update :: "PagedAttentionScheduler \<Rightarrow> nat \<Rightarrow> nat \<Rightarrow> nat \<Rightarrow> BlockHashUpdate option res" where
  "block_hash_update d seq_id num_tokens rev_no =
     and_then (div_res num_tokens (ps_block_size d)) (\<lambda>num_full_blocks.
     Inr (case (seq_block_hash_revisions d seq_id, seq_block_hashes d seq_id) of
            (Some known, Some hs) \<Rightarrow>
              if known = rev_no then (if length hs < num_full_blocks then Some Append else None) else Some Rebuild
          | _ \<Rightarrow> Some Rebuild))"

definition ensure_block_hashes ::
    "hasher \<Rightarrow> nat \<Rightarrow> token list \<Rightarrow> MultimodalSpan list \<Rightarrow> nat list option \<Rightarrow> nat \<Rightarrow>
     PagedAttentionScheduler \<Rightarrow> PagedAttentionScheduler res" where
  "ensure_block_hashes h seq_id tokens features adapter rev_no d =
     and_then (block_hash_update d seq_id (length tokens) rev_no) (\<lambda>update.
     let adapter_key = (case adapter_generation_key adapter of None \<Rightarrow> [] | Some k \<Rightarrow> [k]) in
     case update of
       None \<Rightarrow> Inr d
     | Some Rebuild \<Rightarrow>
         and_then (compute_block_hashes h tokens (ps_block_size d) features adapter_key) (\<lambda>hs.
         Inr (d\<lparr>seq_block_hashes := (seq_block_hashes d)(seq_id \<mapsto> hs),
                seq_block_hash_revisions := (seq_block_hash_revisions d)(seq_id \<mapsto> rev_no)\<rparr>))
     | Some Append \<Rightarrow>
         and_then (expect ''append requires existing block hashes'' (seq_block_hashes d seq_id)) (\<lambda>hs.
         and_then (compute_new_block_hashes h tokens (ps_block_size d) hs features adapter_key) (\<lambda>new_hashes.
         Inr (d\<lparr>seq_block_hashes := (seq_block_hashes d)(seq_id \<mapsto> hs @ new_hashes)\<rparr>))))"

definition ensure_hashes :: "hasher \<Rightarrow> nat \<Rightarrow> PagedAttentionScheduler \<Rightarrow> PagedAttentionScheduler res" where
  "ensure_hashes h i d =
     (let s = seqs d i in
      ensure_block_hashes h i (get_toks s) (mm_features s) (seq_adapter s) (block_hash_revision s) d)"

definition hashes_of :: "PagedAttentionScheduler \<Rightarrow> nat \<Rightarrow> BlockHash list" where
  "hashes_of d i = (case seq_block_hashes d i of None \<Rightarrow> [] | Some hs \<Rightarrow> hs)"

section \<open>Preemption\<close>

definition preempt :: "rt_env \<Rightarrow> hasher \<Rightarrow> nat \<Rightarrow> PagedAttentionScheduler \<Rightarrow> PagedAttentionScheduler res" where
  "preempt env h i d =
     (if is_finished_paged_attn (seqs d i) then Inr d
      else
        let d = modify_seq i (\<lambda>s. clear_staged_speculative_tokens (set_prefix_cache_len 0 (set_state Waiting s))) d;
            d = d\<lparr>preempted_sequence_ids := preempted_sequence_ids d @ [i]\<rparr>;
            num_computed = seq_computed (seqs d i) in
        and_then (ensure_hashes h i d) (\<lambda>d.
        let d = modify_seq i (set_num_computed_tokens 0) d in
        and_then (if prefix_caching_enabled d
                  then cache_blocks env i (hashes_of d i) num_computed (kv_cache_manager d)
                  else Inr (kv_cache_manager d)) (\<lambda>kv.
        and_then (free_request env i kv) (\<lambda>kv.
        Inr (d\<lparr>kv_cache_manager := kv, ps_waiting := i # ps_waiting d\<rparr>)))))"

text \<open>The bucket key: length bucket, cached prefix, raw request, media, token offset.\<close>

type_synonym paged_bucket_key = "nat \<times> nat \<times> nat option \<times> nat \<times> nat"

definition bucket_effective_len :: "PagedAttentionScheduler \<Rightarrow> BatchKind \<Rightarrow> bool \<Rightarrow> Sequence \<Rightarrow> nat" where
  "bucket_effective_len d batch_kind uniform s =
     (case batch_kind of
        BatchPrompt \<Rightarrow>
          if uniform then seq_len s - prefix_cache_len s
          else if supports_packed_prefill d then 0
          else div_ceil (seq_len s) RAGGED_PROMPT_BUCKET_TOKENS
      | BatchCompletion \<Rightarrow> if uniform then seq_len s else 0)"

definition paged_key :: "PagedAttentionScheduler \<Rightarrow> BatchKind \<Rightarrow> bool \<Rightarrow> nat \<Rightarrow> paged_bucket_key" where
  "paged_key d batch_kind uniform i =
     (let s = seqs d i in
      (bucket_effective_len d batch_kind uniform s,
       (if batch_kind = BatchPrompt then prefix_cache_len s else 0),
       (if return_raw_logits s then Some i else None),
       (if ps_requires_uniform_media_batch d \<or> uniform \<and> batch_kind = BatchPrompt then modality_signature s else 0),
       token_offset s))"

definition bucket_and_preempt_sequences ::
    "rt_env \<Rightarrow> hasher \<Rightarrow> nat list \<Rightarrow> BatchKind \<Rightarrow> bool \<Rightarrow> PagedAttentionScheduler \<Rightarrow> (nat list \<times> PagedAttentionScheduler) res" where
  "bucket_and_preempt_sequences env h sequences batch_kind uniform d =
     (if length sequences \<le> 1 then Inr (sequences, d)
      else
        let key = paged_key d batch_kind uniform;
            first_key = key (hd sequences);
            selected = filter (\<lambda>i. key i = first_key) sequences;
            rejected = filter (\<lambda>i. key i \<noteq> first_key) sequences in
        if rejected = [] then Inr (selected, d)
        else
          and_then (fold_res (preempt env h) (rev rejected) d) (\<lambda>d.
          Inr (selected, d\<lparr>ps_running := filter (\<lambda>i. i \<notin> set rejected) (ps_running d)\<rparr>)))"

definition enforce_completion_compatibility ::
    "rt_env \<Rightarrow> hasher \<Rightarrow> PagedAttentionScheduler \<Rightarrow> PagedAttentionScheduler res" where
  "enforce_completion_compatibility env h d =
     and_then (bucket_and_preempt_sequences env h (ps_running d) BatchCompletion (requires_uniform_completion_batch d)
                 (d\<lparr>ps_running := []\<rparr>))
       (\<lambda>(selected, d). Inr (d\<lparr>ps_running := selected\<rparr>))"

section \<open>Prompt batches\<close>

definition advance_prompt_cursor :: "nat list \<Rightarrow> nat list \<Rightarrow> PagedAttentionScheduler \<Rightarrow> PagedAttentionScheduler" where
  "advance_prompt_cursor candidates sched d =
     d\<lparr>next_prompt_sequence_id := find (\<lambda>i. i \<notin> set sched) candidates\<rparr>"

text \<open>
  The loop of \<open>select_recurrent_prompt_batch\<close> over the active rows: rows off the frontier are skipped, and the first row
  that would exceed the budget ends the loop.
\<close>

fun recurrent_pick ::
    "rt_env \<Rightarrow> nat list \<Rightarrow> PromptChunkPlan list list \<Rightarrow> nat option \<Rightarrow> nat \<Rightarrow> nat list \<Rightarrow>
     nat list \<times> PromptChunkPlan list \<times> nat \<Rightarrow> (nat list \<times> PromptChunkPlan list) res" where
  "recurrent_pick env candidates plans frontier budget [] (sched, chunks, tokens) = Inr (sched, chunks)"
| "recurrent_pick env candidates plans frontier budget (k # ks) (sched, chunks, tokens) =
     and_then (get_at plans k) (\<lambda>plan.
     and_then (get_at plan 0) (\<lambda>c.
     if (case frontier of None \<Rightarrow> False | Some start \<Rightarrow> chunk_start c \<noteq> start)
     then recurrent_pick env candidates plans frontier budget ks (sched, chunks, tokens)
     else
       and_then (chunk_query_len (debug_assertions env) c) (\<lambda>n.
       let total = min (tokens + n) usize_max in
       if sched \<noteq> [] \<and> budget < total then Inr (sched, chunks)
       else
         and_then (get_at candidates k) (\<lambda>i.
         recurrent_pick env candidates plans frontier budget ks (sched @ [i], chunks @ [c], total)))))"

definition select_recurrent_prompt_batch ::
    "rt_env \<Rightarrow> nat list \<Rightarrow> nat list \<Rightarrow> bool \<Rightarrow> PagedAttentionScheduler \<Rightarrow> (PromptBatch \<times> PagedAttentionScheduler) res" where
  "select_recurrent_prompt_batch env candidates rotation_candidates latency_bounded d =
     (let token_budget = prefill_token_budget d latency_bounded;
          chunk_size = min (max_prefill_chunk_tokens (ps_config d)) token_budget in
      and_then (map_res (\<lambda>i. build_prompt_chunks env d (seqs d i) chunk_size) candidates) (\<lambda>plans.
      let first_is_final = (plans \<noteq> [] \<and> length (hd plans) = 1);
          uniform = (requires_uniform_prompt_batch d \<or> \<not> supports_packed_prefill d \<or>
            prompt_chunks_use_block_alignment d \<and> \<not> first_is_final) in
      and_then (next_prompt_chunk_group (debug_assertions env) (replicate (length plans) 0) plans uniform) (\<lambda>grp.
      and_then (expect ''running prompt has uncomputed tokens'' grp) (\<lambda>(active, _, _).
      and_then (if prompt_admission_epoch d
                then and_then (get_at plans 0) (\<lambda>p. and_then (get_at p 0) (\<lambda>c. Inr (Some (chunk_start c))))
                else Inr None) (\<lambda>frontier.
      and_then (recurrent_pick env candidates plans frontier token_budget active ([], [], 0)) (\<lambda>(sched, chunks).
      and_then (map_res (chunk_query_len (debug_assertions env)) chunks) (\<lambda>lens.
      Inr (\<lparr>pb_scheduled = sched, pb_chunk_size = max_opt lens, pb_chunks = Some chunks\<rparr>,
           advance_prompt_cursor rotation_candidates sched d))))))))"

definition rotate_to_cursor :: "nat option \<Rightarrow> nat list \<Rightarrow> nat list" where
  "rotate_to_cursor cursor candidates =
     (case cursor of
        None \<Rightarrow> candidates
      | Some i \<Rightarrow>
          if i \<in> set candidates
          then dropWhile (\<lambda>j. j \<noteq> i) candidates @ takeWhile (\<lambda>j. j \<noteq> i) candidates
          else candidates)"

text \<open>The candidates that can share a batch with the first one.\<close>

definition compatible_candidates :: "PagedAttentionScheduler \<Rightarrow> nat \<Rightarrow> nat list \<Rightarrow> nat list" where
  "compatible_candidates d first candidates =
     (let visible = supports_scheduler_visible_prompt_chunks d (seqs d first) in
      filter (\<lambda>i. let s = seqs d i in
        supports_scheduler_visible_prompt_chunks d s = visible \<and>
        (\<not> (requires_uniform_prompt_batch d \<or> ps_requires_uniform_media_batch d) \<or>
           modality_signature s = modality_signature (seqs d first)) \<and>
        (\<not> requires_uniform_prompt_batch d \<or>
           token_offset s = token_offset (seqs d first) \<and>
           (\<not> visible \<or> seq_computed s = seq_computed (seqs d first)))) candidates)"

text \<open>The branch for prompts whose chunks the scheduler does not see.\<close>

definition select_whole_prompts ::
    "rt_env \<Rightarrow> hasher \<Rightarrow> nat list \<Rightarrow> nat list \<Rightarrow> PagedAttentionScheduler \<Rightarrow> (PromptBatch \<times> PagedAttentionScheduler) res" where
  "select_whole_prompts env h candidates rotation_candidates d =
     (let uniform = (requires_uniform_prompt_batch d \<or>
            (\<exists>i \<in> set candidates. return_raw_logits (seqs d i) \<or> 0 < prefix_cache_len (seqs d i))) in
      and_then (bucket_and_preempt_sequences env h candidates BatchPrompt uniform d) (\<lambda>(sched, d).
      let chunk_size = (if scheduler_visible_prompt_chunks d then None else batch_chunk_size d (length sched) False) in
      Inr (\<lparr>pb_scheduled = sched, pb_chunk_size = chunk_size, pb_chunks = None\<rparr>,
           advance_prompt_cursor rotation_candidates sched d)))"

text \<open>The branch for prompts whose chunks share the token budget.\<close>

definition select_chunked_prompts ::
    "rt_env \<Rightarrow> nat list \<Rightarrow> nat list \<Rightarrow> bool \<Rightarrow> PagedAttentionScheduler \<Rightarrow> (PromptBatch \<times> PagedAttentionScheduler) res" where
  "select_chunked_prompts env candidates rotation_candidates latency_bounded d =
     and_then (expect ''unwrap'' (batch_chunk_size d (length candidates) latency_bounded)) (\<lambda>chunk_size.
     and_then (map_res (\<lambda>i. build_prompt_chunks env d (seqs d i) chunk_size) candidates) (\<lambda>plans.
     let uniform = (requires_uniform_prompt_batch d \<or> \<not> supports_packed_prefill d \<or> prompt_chunks_use_block_alignment d) in
     and_then (next_prompt_chunk_group (debug_assertions env) (replicate (length plans) 0) plans uniform) (\<lambda>grp.
     and_then (expect ''running prompt has uncomputed tokens'' grp) (\<lambda>(active, _, _).
     and_then (map_res (get_at candidates) active) (\<lambda>sched.
     and_then (map_res (\<lambda>k. and_then (get_at plans k) (\<lambda>p. get_at p 0)) active) (\<lambda>chunks.
     Inr (\<lparr>pb_scheduled = sched, pb_chunk_size = Some chunk_size, pb_chunks = Some chunks\<rparr>,
          advance_prompt_cursor rotation_candidates sched d)))))))"

definition select_prompt_batch ::
    "rt_env \<Rightarrow> hasher \<Rightarrow> nat list \<Rightarrow> PagedAttentionScheduler \<Rightarrow> (PromptBatch \<times> PagedAttentionScheduler) res" where
  "select_prompt_batch env h candidates d =
     (if candidates = [] then
        Inr (\<lparr>pb_scheduled = [], pb_chunk_size = None, pb_chunks = None\<rparr>, d\<lparr>next_prompt_sequence_id := None\<rparr>)
      else
        let rotation = rotate_to_cursor (next_prompt_sequence_id d) candidates;
            visible = supports_scheduler_visible_prompt_chunks d (seqs d (hd rotation));
            latency_bounded = (\<exists>i \<in> set (ps_running d). is_completion (seqs d i));
            compatible = compatible_candidates d (hd rotation) rotation in
        if visible \<and> prefill_has_per_sequence_state d then
          select_recurrent_prompt_batch env compatible rotation latency_bounded d
        else if visible then
          select_chunked_prompts env (take (prefill_token_budget d latency_bounded) compatible) rotation latency_bounded d
        else select_whole_prompts env h compatible rotation d)"

definition allocate_chunk :: "rt_env \<Rightarrow> nat \<times> nat \<Rightarrow> KVCacheManager \<Rightarrow> KVCacheManager res" where
  "allocate_chunk env = (\<lambda>(i, allocation_end) kv.
     and_then (allocate_slots env i allocation_end [] kv) (\<lambda>(r, kv).
     and_then (expect ''reserved prompt chunk must fit in the KV cache'' r) (\<lambda>_. Inr kv)))"

definition materialize_prompt_chunks ::
    "rt_env \<Rightarrow> PromptBatch \<Rightarrow> PagedAttentionScheduler \<Rightarrow> PagedAttentionScheduler res" where
  "materialize_prompt_chunks env batch d =
     (case pb_chunks batch of
        None \<Rightarrow> Inr d
      | Some chunks \<Rightarrow>
          and_then (assert_that ''batch.scheduled.len() == chunks.len()'' (length (pb_scheduled batch) = length chunks)) (\<lambda>_.
          and_then (fold_res (allocate_chunk env) (zip (pb_scheduled batch) (map chunk_end chunks)) (kv_cache_manager d)) (\<lambda>kv.
          Inr (d\<lparr>kv_cache_manager := kv\<rparr>))))"

section \<open>Completion batches\<close>

definition waiting_prompt_fits_free_blocks :: "PagedAttentionScheduler \<Rightarrow> bool res" where
  "waiting_prompt_fits_free_blocks d =
     (case ps_waiting d of
        [] \<Rightarrow> Inr False
      | i # _ \<Rightarrow>
          and_then (div_ceil_res (length (get_toks (seqs d i))) (ps_block_size d)) (\<lambda>prompt_blocks.
          let decode_reserve = length (filter (\<lambda>j. is_completion (seqs d j)) (ps_running d)) in
          and_then (num_unreserved_blocks (kv_cache_manager d)) (\<lambda>unreserved.
          Inr (min (prompt_blocks + decode_reserve) usize_max \<le> unreserved))))"

definition completion_is_due :: "PagedAttentionScheduler \<Rightarrow> bool res" where
  "completion_is_due d =
     (if \<not> (\<exists>i \<in> set (ps_running d). is_completion (seqs d i)) then Inr False
      else
        let running_prompt_tokens =
              sum_list (map (\<lambda>i. num_uncomputed_tokens (seqs d i)) (filter (\<lambda>i. is_prompt (seqs d i)) (ps_running d)));
            has_running_prompt = (0 < running_prompt_tokens);
            has_waiting_prompt = (ps_waiting d \<noteq> []) in
        if 0 < running_prompt_tokens \<and> running_prompt_tokens \<le> prefill_token_budget d True \<and>
           0 < decode_steps_since_prefill d
        then Inr False
        else
          and_then (if \<not> has_running_prompt \<and> has_waiting_prompt \<and> length (ps_running d) < max_num_seqs (ps_config d)
                    then waiting_prompt_fits_free_blocks d else Inr False) (\<lambda>fits.
          if fits \<and> 0 < decode_steps_since_prefill d then Inr False
          else
            let max_decode_steps =
                  (if prompt_admission_epoch d then 1 else max_decode_steps_before_prefill (ps_config d)) in
            Inr (\<not> (has_running_prompt \<or> has_waiting_prompt) \<or> decode_steps_since_prefill d < max_decode_steps)))"

definition completion_token_cost :: "Sequence \<Rightarrow> nat" where
  "completion_token_cost s = max (min (num_uncomputed_tokens s + active_staged_speculative_len s) usize_max) 1"

fun completion_pick ::
    "(nat \<Rightarrow> Sequence) \<Rightarrow> nat list \<Rightarrow> nat \<Rightarrow> nat list \<Rightarrow> nat \<times> nat list \<times> nat \<Rightarrow> nat \<times> nat list \<times> nat" where
  "completion_pick store rows width [] acc = acc"
| "completion_pick store rows width (k # ks) (remaining, selected, latest) =
     (let s = store (rows ! k) in
      if active_staged_speculative_len s \<noteq> width
      then completion_pick store rows width ks (remaining, selected, latest)
      else
        let cost = completion_token_cost s in
        if cost \<le> remaining \<or> selected = []
        then completion_pick store rows width ks (remaining - cost, selected @ [k], k)
        else completion_pick store rows width ks (remaining, selected, latest))"

definition completion_batch_indices :: "(nat \<Rightarrow> Sequence) \<Rightarrow> nat list \<Rightarrow> nat \<Rightarrow> nat \<Rightarrow> nat list \<times> nat" where
  "completion_batch_indices store rows cursor token_budget =
     (if rows = [] then ([], cursor)
      else
        let len = length rows;
            start = cursor mod len;
            staged_width = active_staged_speculative_len (store (rows ! start)) in
        case completion_pick store rows staged_width (map (\<lambda>offset. (start + offset) mod len) [0..<len])
               (token_budget, [], start) of
          (_, selected, latest) \<Rightarrow> (selected, (latest + 1) mod len))"

definition live_completion_rows :: "PagedAttentionScheduler \<Rightarrow> nat list" where
  "live_completion_rows d = sort_key (\<lambda>i. timestamp (seqs d i)) (filter (\<lambda>i. is_completion (seqs d i)) (ps_running d))"

definition can_continue_decode_batch :: "nat list \<Rightarrow> bool \<Rightarrow> PagedAttentionScheduler \<Rightarrow> bool res" where
  "can_continue_decode_batch sequence_ids terminate_all_pending d =
     (if sequence_ids = [] \<or> terminate_all_pending then Inr False
      else
        and_then (completion_is_due d) (\<lambda>due.
        if \<not> due then Inr False
        else
          let rows = live_completion_rows d;
              selected = fst (completion_batch_indices (seqs d) rows (completion_cursor d)
                (max_num_batched_tokens (ps_config d))) in
          Inr (length selected = length sequence_ids \<and> map (\<lambda>k. rows ! k) selected = sequence_ids)))"

definition record_decode_step :: "PagedAttentionScheduler \<Rightarrow> PagedAttentionScheduler" where
  "record_decode_step d =
     d\<lparr>decode_steps_since_prefill :=
         min (min (decode_steps_since_prefill d + 1) usize_max) (max_decode_steps_before_prefill (ps_config d))\<rparr>"

definition record_decode_continuation :: "PagedAttentionScheduler \<Rightarrow> PagedAttentionScheduler" where
  "record_decode_continuation d =
     record_decode_step (d\<lparr>completion_cursor :=
       snd (completion_batch_indices (seqs d) (live_completion_rows d) (completion_cursor d)
         (max_num_batched_tokens (ps_config d)))\<rparr>)"

definition select_completion_batch :: "PagedAttentionScheduler \<Rightarrow> nat list \<times> PagedAttentionScheduler" where
  "select_completion_batch d =
     (case completion_batch_indices (seqs d) (ps_running d) (completion_cursor d) (max_num_batched_tokens (ps_config d)) of
        (selected, next_cursor) \<Rightarrow>
          (map (\<lambda>k. ps_running d ! k) selected, d\<lparr>completion_cursor := next_cursor\<rparr>))"

section \<open>Refusing a waiting sequence\<close>

record 'v PagedPrefixCacheValidation =
  valid_tokens :: nat
  commit_fn :: "(Sequence \<Rightarrow> 'v \<Rightarrow> (string + unit) \<times> Sequence \<times> 'v) option"

record 'v PagedPrefixCacheValidator =
  validate_prefix_cache_hit ::
    "Sequence \<Rightarrow> BlockHash list \<Rightarrow> nat \<Rightarrow> nat \<Rightarrow> 'v \<Rightarrow> (string + 'v PagedPrefixCacheValidation) \<times> 'v"
  release_recurrent_state :: "nat \<Rightarrow> nat \<Rightarrow> 'v \<Rightarrow> (string + bool) \<times> 'v"

definition commit_validation ::
    "'v PagedPrefixCacheValidation \<Rightarrow> Sequence \<Rightarrow> 'v \<Rightarrow> (string + unit) \<times> Sequence \<times> 'v" where
  "commit_validation validation s v =
     (case commit_fn validation of None \<Rightarrow> (Inr (), s, v) | Some f \<Rightarrow> f s v)"

definition finish_ignored_sequence ::
    "rt_env \<Rightarrow> nat \<Rightarrow> Response \<Rightarrow> bool \<Rightarrow> PagedAttentionScheduler \<Rightarrow> PagedAttentionScheduler res" where
  "finish_ignored_sequence env i response released d =
     (let slot = recurrent_state_idx (seqs d i);
          d = modify_seq i (\<lambda>s. let s = set_state FinishedIgnored s in
                if released then s\<lparr>recurrent_state_idx := None\<rparr> else s) d;
          d = (case slot of
                 Some k \<Rightarrow> if released then d else d\<lparr>finished_recurrent_slots := finished_recurrent_slots d @ [(i, k)]\<rparr>
               | None \<Rightarrow> d) in
      and_then (free_request env i (kv_cache_manager d)) (\<lambda>kv.
      Inr (d\<lparr>waiting_counts := AList.delete i (waiting_counts d),
             seq_block_hashes := (seq_block_hashes d)(i := None),
             seq_block_hash_revisions := (seq_block_hash_revisions d)(i := None),
             kv_cache_manager := kv,
             responses := responses d @ [(i, response)]\<rparr>)))"

definition finish_front_of_waiting ::
    "rt_env \<Rightarrow> 'v PagedPrefixCacheValidator option \<Rightarrow> Response \<Rightarrow> PagedAttentionScheduler \<times> 'v \<Rightarrow>
     (PagedAttentionScheduler \<times> 'v) res" where
  "finish_front_of_waiting env pv response = (\<lambda>(d, v).
     case ps_waiting d of
       [] \<Rightarrow> Inl (ExpectFailed ''unwrap'')
     | i # rest \<Rightarrow>
         let (released, v) =
               (case (recurrent_state_idx (seqs d i), pv) of
                  (Some slot, Some val) \<Rightarrow>
                    (case release_recurrent_state val i slot v of (Inr _, v) \<Rightarrow> (True, v) | (Inl _, v) \<Rightarrow> (False, v))
                | _ \<Rightarrow> (False, v)) in
         and_then (finish_ignored_sequence env i response released (d\<lparr>ps_waiting := rest\<rparr>)) (\<lambda>d. Inr (d, v)))"

section \<open>Admission\<close>

definition admit_request ::
    "rt_env \<Rightarrow> bool \<Rightarrow> nat \<Rightarrow> nat \<Rightarrow> nat list \<Rightarrow> PagedAttentionScheduler \<Rightarrow> (bool \<times> PagedAttentionScheduler) res" where
  "admit_request env lazy i num_tokens hit_blocks d =
     (if lazy then
        and_then (reserve_prompt env i num_tokens hit_blocks (kv_cache_manager d)) (\<lambda>(r, kv).
        Inr (r \<noteq> None, d\<lparr>kv_cache_manager := kv\<rparr>))
      else
        and_then (allocate_slots env i num_tokens hit_blocks (kv_cache_manager d)) (\<lambda>(r, kv).
        Inr (r \<noteq> None, d\<lparr>kv_cache_manager := kv\<rparr>)))"

lemma ensure_hashes_frame:
  "yields (ensure_hashes h i d) (\<lambda>d'. \<exists>hs rs. d' = d\<lparr>seq_block_hashes := hs, seq_block_hash_revisions := rs\<rparr>)"
proof -
  have same: "d = d\<lparr>seq_block_hashes := seq_block_hashes d, seq_block_hash_revisions := seq_block_hash_revisions d\<rparr>" by simp
  have app: "d\<lparr>seq_block_hashes := hs\<rparr> = d\<lparr>seq_block_hashes := hs, seq_block_hash_revisions := seq_block_hash_revisions d\<rparr>" for hs
    by simp
  show ?thesis
    unfolding ensure_hashes_def ensure_block_hashes_def Let_def block_hash_update_def
    by (auto simp: yields_def and_then_def div_res_def expect_def split: sum.splits option.splits BlockHashUpdate.splits
        intro: same app)
qed

lemma preempt_running: "yields (preempt env h i d) (\<lambda>d'. ps_running d' = ps_running d \<and> waiting_counts d' = waiting_counts d \<and>
    ps_waiting d' \<in> {ps_waiting d, i # ps_waiting d})"
proof (cases "is_finished_paged_attn (seqs d i)")
  case False
  then show ?thesis
    unfolding preempt_def Let_def yields_and_then if_not_P [OF False]
    by (intro yields_mono [OF ensure_hashes_frame])
      (auto simp: modify_seq_def yields_def and_then_def split: sum.splits)
qed (simp add: preempt_def)

lemma admit_request_frame:
  "yields (admit_request env lazy i n hit_blocks d) (\<lambda>(ok, d'). \<exists>kv. d' = d\<lparr>kv_cache_manager := kv\<rparr>)"
  by (auto simp: admit_request_def yields_def and_then_def split: sum.splits)

text \<open>
  Starvation: running sequences are preempted from the back until the waiting one at the front fits.
\<close>

function preempt_until ::
    "rt_env \<Rightarrow> hasher \<Rightarrow> bool \<Rightarrow> nat \<Rightarrow> nat \<Rightarrow> nat list \<Rightarrow> PagedAttentionScheduler \<times> nat list \<Rightarrow>
     (bool \<times> PagedAttentionScheduler \<times> nat list) res" where
  "preempt_until env h lazy i n hit_blocks (d, sched) =
     (case vec_pop (ps_running d) of
        None \<Rightarrow> Inr (False, d, sched)
      | Some (p, rest) \<Rightarrow>
          (case ps_waiting d of
             [] \<Rightarrow> Inl (ExpectFailed ''unwrap'')
           | w # ws \<Rightarrow>
               and_then (preempt env h p (d\<lparr>ps_running := rest, ps_waiting := ws\<rparr>)) (\<lambda>d'.
               and_then (admit_request env lazy i n hit_blocks (d'\<lparr>ps_waiting := w # ps_waiting d'\<rparr>)) (\<lambda>(ok, d'').
               let sched = filter (\<lambda>j. j \<noteq> p) sched in
               if ok then Inr (True, d'', sched) else preempt_until env h lazy i n hit_blocks (d'', sched)))))"
  by pat_completeness auto
termination
proof (relation "measure (\<lambda>(env, h, lazy, i, n, hit_blocks, d, sched). length (ps_running d))", goal_cases)
  case (2 env h lazy i n hit_blocks d sched pr p rest w ws d' okd ok d'' sched')
  then have "ps_running d' = rest"
    using preempt_running [of env h p "d\<lparr>ps_running := rest, ps_waiting := ws\<rparr>"] by simp
  moreover have "ps_running d'' = ps_running d'"
    using admit_request_frame [of env lazy i n hit_blocks "d'\<lparr>ps_waiting := w # ps_waiting d'\<rparr>"] 2 by auto
  ultimately show ?case using 2 by (cases "ps_running d" rule: rev_cases) (auto simp: vec_pop_def)
qed simp

declare preempt_until.simps [simp del]

text \<open>The cached prefix of the sequence, cut back to a boundary that multimodal items allow.\<close>

definition truncate_computed :: "nat \<Rightarrow> nat \<Rightarrow> ComputedBlocks \<Rightarrow> ComputedBlocks" where
  "truncate_computed n_blocks n_tokens c =
     \<lparr>computed_block_ids = take n_blocks (computed_block_ids c), num_computed_tokens = n_tokens\<rparr>"

definition lookup_prefix :: "rt_env \<Rightarrow> nat \<Rightarrow> PagedAttentionScheduler \<Rightarrow> ComputedBlocks res" where
  "lookup_prefix env i d =
     (let s = seqs d i in
      and_then (if prefix_caching_enabled d \<and> \<not> return_raw_logits s
                then get_computed_blocks env (kv_cache_manager d) (hashes_of d i) (length (get_toks s))
                else Inr \<lparr>computed_block_ids = [], num_computed_tokens = 0\<rparr>) (\<lambda>c.
      let clamped = clamp_prefix_cache_hit_len
            (clamp_prefix_cache_len_for_mm_features (num_computed_tokens c) (ps_block_size d) (mm_features s))
            (ps_block_size d) (mm_features s) in
      if clamped < num_computed_tokens c then
        and_then (div_res clamped (ps_block_size d)) (\<lambda>n. Inr (truncate_computed n clamped c))
      else Inr c))"

definition validate_prefix ::
    "'v PagedPrefixCacheValidator option \<Rightarrow> nat \<Rightarrow> ComputedBlocks \<Rightarrow> PagedAttentionScheduler \<Rightarrow> 'v \<Rightarrow>
     ((string + ComputedBlocks \<times> 'v PagedPrefixCacheValidation option) \<times> 'v) res" where
  "validate_prefix pv i c d v =
     (case pv of
        None \<Rightarrow> Inr (Inr (c, None), v)
      | Some val \<Rightarrow>
          (case validate_prefix_cache_hit val (seqs d i) (hashes_of d i) (num_computed_tokens c) (ps_block_size d) v of
             (Inl err, v) \<Rightarrow> Inr (Inl err, v)
           | (Inr validation, v) \<Rightarrow>
               if valid_tokens validation < num_computed_tokens c then
                 and_then (div_res (valid_tokens validation) (ps_block_size d)) (\<lambda>valid_blocks.
                 Inr (Inr (truncate_computed valid_blocks (valid_blocks * ps_block_size d) c, Some validation), v))
               else Inr (Inr (c, Some validation), v)))"

text \<open>Counting a failed admission: \<open>entry(seq_id).or_insert(0)\<close> and the increment.\<close>

definition waiting_count :: "nat \<Rightarrow> PagedAttentionScheduler \<Rightarrow> nat" where
  "waiting_count i d = (case map_of (waiting_counts d) i of None \<Rightarrow> 0 | Some c \<Rightarrow> c)"

definition count_waiting :: "nat \<Rightarrow> PagedAttentionScheduler \<Rightarrow> PagedAttentionScheduler" where
  "count_waiting i d = d\<lparr>waiting_counts := AList.update i (waiting_count i d + 1) (waiting_counts d)\<rparr>"

definition reset_waiting :: "nat \<Rightarrow> PagedAttentionScheduler \<Rightarrow> PagedAttentionScheduler" where
  "reset_waiting i d = d\<lparr>waiting_counts := AList.delete i (waiting_counts d)\<rparr>"

datatype admission = Admitted | Exhausted | StopAdmission

text \<open>The allocation of a waiting sequence with its starvation handling.\<close>

definition allocate_waiting ::
    "rt_env \<Rightarrow> hasher \<Rightarrow> bool \<Rightarrow> nat \<Rightarrow> nat \<Rightarrow> nat list \<Rightarrow> PagedAttentionScheduler \<times> nat list \<Rightarrow>
     (admission \<times> PagedAttentionScheduler \<times> nat list) res" where
  "allocate_waiting env h lazy i n hit_blocks = (\<lambda>(d, sched).
     and_then (admit_request env lazy i n hit_blocks d) (\<lambda>(ok, d).
     if ok then Inr (Admitted, reset_waiting i d, sched)
     else
       let d = count_waiting i d in
       if waiting_count i d > WAITING_TIMEOUT then
         if \<not> waiting_prompt_preemption_enabled d then Inr (StopAdmission, d, sched)
         else
           and_then (preempt_until env h lazy i n hit_blocks (d, sched)) (\<lambda>(allocated, d, sched).
           if allocated then Inr (Admitted, reset_waiting i d, sched) else Inr (Exhausted, d, sched))
       else Inr (StopAdmission, d, sched)))"

definition start_prompt :: "nat \<Rightarrow> nat \<Rightarrow> PagedAttentionScheduler \<Rightarrow> PagedAttentionScheduler" where
  "start_prompt i num_computed d =
     modify_seq i (\<lambda>s.
       let s = (if 0 < num_computed then snd (record_prefix_cache_hit s) else s) in
       set_num_computed_tokens num_computed (set_prefix_cache_len num_computed (set_state RunningPrompt s))) d"

type_synonym 'v admission_state = "PagedAttentionScheduler \<times> 'v \<times> nat list \<times> nat list"

datatype 's flow = Break 's | Continue 's

text \<open>Once allocated, the validation is committed and the sequence starts its prompt.\<close>

definition commit_admission ::
    "rt_env \<Rightarrow> 'v PagedPrefixCacheValidator option \<Rightarrow> nat \<Rightarrow> nat \<Rightarrow> 'v PagedPrefixCacheValidation option \<Rightarrow>
     'v admission_state \<Rightarrow> 'v admission_state flow res" where
  "commit_admission env pv i num_computed validation = (\<lambda>(d, v, sched, again).
     let (committed, d, v) =
           (case validation of
              None \<Rightarrow> (Inr (), d, v)
            | Some val \<Rightarrow>
                (case commit_validation val (seqs d i) v of (r, s, v) \<Rightarrow> (r, modify_seq i (\<lambda>_. s) d, v))) in
     case committed of
       Inl _ \<Rightarrow>
         and_then (free_request env i (kv_cache_manager d)) (\<lambda>kv.
         and_then (finish_front_of_waiting env pv (InternalError ''Failed to commit recurrent state'') (d\<lparr>kv_cache_manager := kv\<rparr>, v))
           (\<lambda>(d, v). Inr (Continue (d, v, sched, again))))
     | Inr _ \<Rightarrow>
         let d = start_prompt i num_computed d in
         (case ps_waiting d of
            [] \<Rightarrow> Inl (ExpectFailed ''unwrap'')
          | j # rest \<Rightarrow>
              Inr (Continue (d\<lparr>ps_waiting := rest, ps_running := ps_running d @ [j]\<rparr>, v, sched @ [j], again))))"

definition admit_computed ::
    "rt_env \<Rightarrow> hasher \<Rightarrow> 'v PagedPrefixCacheValidator option \<Rightarrow> nat \<Rightarrow> ComputedBlocks \<Rightarrow>
     'v PagedPrefixCacheValidation option \<Rightarrow> 'v admission_state \<Rightarrow> 'v admission_state flow res" where
  "admit_computed env h pv i c validation = (\<lambda>(d, v, sched, again).
     let lazy = supports_scheduler_visible_prompt_chunks d (seqs d i);
         n = length (get_toks (seqs d i)) in
     and_then (div_res (num_computed_tokens c) (ps_block_size d)) (\<lambda>count.
     if length (computed_block_ids c) < count then Inl IndexOutOfBounds
     else
       and_then (allocate_waiting env h lazy i n (take count (computed_block_ids c)) (d, sched)) (\<lambda>(r, d, sched).
       case r of
         StopAdmission \<Rightarrow> Inr (Break (d, v, sched, again))
       | Exhausted \<Rightarrow>
           and_then (finish_front_of_waiting env pv
               (InternalError ''KV cache exhausted even after preempting all running sequences'') (d, v))
             (\<lambda>(d, v). Inr (Continue (d, v, sched, again)))
       | Admitted \<Rightarrow> commit_admission env pv i (num_computed_tokens c) validation (d, v, sched, again))))"

text \<open>One turn of the admission loop for the sequence at the front of the waiting queue.\<close>

definition admit_one ::
    "rt_env \<Rightarrow> hasher \<Rightarrow> 'v PagedPrefixCacheValidator option \<Rightarrow> 'v admission_state \<Rightarrow> 'v admission_state flow res" where
  "admit_one env h pv = (\<lambda>(d, v, sched, again).
     case ps_waiting d of
       [] \<Rightarrow> Inl (ExpectFailed ''unwrap'')
     | i # rest \<Rightarrow>
         if max_num_seqs (ps_config d) \<le> length (ps_running d) \<or> max_num_batched_tokens (ps_config d) \<le> length sched
         then Inr (Break (d, v, sched, again))
         else
           and_then (mul_plain (debug_assertions env) usize_max (num_usable_blocks (kv_cache_manager d)) (ps_block_size d))
             (\<lambda>total_token_capacity.
           if total_token_capacity < length (get_toks (seqs d i)) then
             and_then (finish_front_of_waiting env pv (ValidationError ''exceeds the total KV cache capacity'') (d, v))
               (\<lambda>(d, v). Inr (Continue (d, v, sched, again)))
           else if (requires_uniform_prompt_batch d \<or> ps_requires_uniform_media_batch d) \<and> sched \<noteq> [] \<and>
                   modality_signature (seqs d (hd sched)) \<noteq> modality_signature (seqs d i)
           then Inr (Continue (d\<lparr>ps_waiting := rest\<rparr>, v, sched, again @ [i]))
           else
             and_then (ensure_hashes h i d) (\<lambda>d.
             and_then (lookup_prefix env i d) (\<lambda>c.
             and_then (validate_prefix pv i c d v) (\<lambda>(r, v).
             case r of
               Inl _ \<Rightarrow>
                 and_then (finish_front_of_waiting env pv (InternalError ''Failed to prepare recurrent state'') (d, v))
                   (\<lambda>(d, v). Inr (Continue (d, v, sched, again)))
             | Inr (c, validation) \<Rightarrow> admit_computed env h pv i c validation (d, v, sched, again))))))"

text \<open>
  The loop ends: a turn that goes on either takes a sequence off the waiting queue, or preempts running ones for a
  starving sequence and clears the count that made it starve, which does not happen twice for one sequence.
\<close>

definition starving :: "PagedAttentionScheduler \<Rightarrow> nat" where
  "starving d = length (filter (\<lambda>(_, c). WAITING_TIMEOUT \<le> c) (waiting_counts d))"

definition closer :: "PagedAttentionScheduler \<Rightarrow> PagedAttentionScheduler \<Rightarrow> bool" where
  "closer d' d \<longleftrightarrow>
     starving d' < starving d \<or> starving d' \<le> starving d \<and> length (ps_waiting d') < length (ps_waiting d)"

lemma starving_delete: "length (filter P (AList.delete i al)) \<le> length (filter P al)"
  by (induction al) auto

lemma starving_delete_less: "(i, c) \<in> set al \<Longrightarrow> P (i, c) \<Longrightarrow> length (filter P (AList.delete i al)) < length (filter P al)"
proof (induction al)
  case (Cons p al)
  then show ?case
    using starving_delete [of P i al] by (cases "p = (i, c)") auto
qed simp

lemma starving_update:
  "map_of al i = Some c \<Longrightarrow> WAITING_TIMEOUT \<le> c \<Longrightarrow>
     length (filter (\<lambda>(_, c). WAITING_TIMEOUT \<le> c) (AList.update i (c + 1) al)) =
     length (filter (\<lambda>(_, c). WAITING_TIMEOUT \<le> c) al)"
  by (induction al) (auto split: if_splits)

lemma finish_front_step:
  assumes "ps_waiting d = i # rest"
  shows "yields (finish_front_of_waiting env pv response (d, v)) (\<lambda>(d', v'). ps_waiting d' = rest \<and>
           waiting_counts d' = AList.delete i (waiting_counts d))"
  using assms
  by (auto simp: finish_front_of_waiting_def finish_ignored_sequence_def modify_seq_def Let_def yields_def and_then_def
      split: sum.splits option.splits prod.splits)

text \<open>
  The loop rule of \<open>preempt_until\<close>: a property of the state that one turn keeps, whether or not the request is admitted.
\<close>

lemma preempt_until_rule:
  assumes "I False d sched"
    and "\<And>d sched p rest w ws d1 ok d2. I False d sched \<Longrightarrow> ps_running d = rest @ [p] \<Longrightarrow> ps_waiting d = w # ws \<Longrightarrow>
      preempt env h p (d\<lparr>ps_running := rest, ps_waiting := ws\<rparr>) = Inr d1 \<Longrightarrow>
      admit_request env lazy i n hit_blocks (d1\<lparr>ps_waiting := w # ps_waiting d1\<rparr>) = Inr (ok, d2) \<Longrightarrow>
      I ok d2 (filter (\<lambda>j. j \<noteq> p) sched)"
  shows "yields (preempt_until env h lazy i n hit_blocks (d, sched)) (\<lambda>(ok, d', sched'). I ok d' sched')"
  using assms(1)
proof (induction "length (ps_running d)" arbitrary: d sched rule: less_induct)
  case less
  show ?case
  proof (cases "ps_running d" rule: rev_cases)
    case Nil
    then show ?thesis using less.prems by (simp add: preempt_until.simps vec_pop_def)
  next
    case (snoc rest p)
    show ?thesis
    proof (cases "ps_waiting d")
      case Nil
      then show ?thesis using snoc by (simp add: preempt_until.simps vec_pop_def)
    next
      case (Cons w ws)
      let ?d = "d\<lparr>ps_running := rest, ps_waiting := ws\<rparr>" and ?sched = "filter (\<lambda>j. j \<noteq> p) sched"
      have "yields (if ok then Inr (True, d2, ?sched) else preempt_until env h lazy i n hit_blocks (d2, ?sched))
          (\<lambda>(ok, d', sched'). I ok d' sched')"
        if st: "preempt env h p ?d = Inr d1" "admit_request env lazy i n hit_blocks (d1\<lparr>ps_waiting := w # ps_waiting d1\<rparr>) = Inr (ok, d2)"
        for d1 ok d2
      proof -
        have "ps_running d2 = rest"
          using preempt_running [of env h p ?d] st(1)
            admit_request_frame [of env lazy i n hit_blocks "d1\<lparr>ps_waiting := w # ps_waiting d1\<rparr>"] st(2) by auto
        then show ?thesis
          using assms(2) [OF less.prems snoc Cons st] less.hyps [of d2 ?sched] snoc by (cases ok) simp_all
      qed
      then show ?thesis
        by (subst preempt_until.simps)
          (simp add: snoc Cons vec_pop_def Let_def del: yields_and_then, intro yields_bind, clarsimp)
    qed
  qed
qed

lemma preempt_until_step:
  assumes "ps_waiting d = w # ws"
  shows "yields (preempt_until env h lazy i n hit_blocks (d, sched)) (\<lambda>(ok, d', sched').
     waiting_counts d' = waiting_counts d \<and> (\<exists>ws'. ps_waiting d' = w # ws'))"
proof (rule preempt_until_rule [where I = "\<lambda>ok d' sched'. waiting_counts d' = waiting_counts d \<and> (\<exists>ws'. ps_waiting d' = w # ws')"])
  fix e sched p rest u us d1 ok d2
  assume "waiting_counts e = waiting_counts d \<and> (\<exists>ws'. ps_waiting e = w # ws')" "ps_waiting e = u # us"
    "preempt env h p (e\<lparr>ps_running := rest, ps_waiting := us\<rparr>) = Inr d1"
    "admit_request env lazy i n hit_blocks (d1\<lparr>ps_waiting := u # ps_waiting d1\<rparr>) = Inr (ok, d2)"
  then show "waiting_counts d2 = waiting_counts d \<and> (\<exists>ws'. ps_waiting d2 = w # ws')"
    using preempt_running [of env h p "e\<lparr>ps_running := rest, ps_waiting := us\<rparr>"]
      admit_request_frame [of env lazy i n hit_blocks "d1\<lparr>ps_waiting := u # ps_waiting d1\<rparr>"] by auto
qed (use assms in simp)

lemma allocate_waiting_step:
  assumes "ps_waiting d = i # ws"
  shows "yields (allocate_waiting env h lazy i n hit_blocks (d, sched)) (\<lambda>(r, d', sched').
     (\<exists>ws'. ps_waiting d' = i # ws') \<and>
     (r = Admitted \<longrightarrow> starving d' < starving d \<or> starving d' \<le> starving d \<and> ps_waiting d' = ps_waiting d) \<and>
     (r = Exhausted \<longrightarrow> starving (reset_waiting i d') < starving d))"
proof -
  have starve: "starving (reset_waiting i d2) < starving d1"
    if "waiting_counts d2 = waiting_counts (count_waiting i d1)" "waiting_count i (count_waiting i d1) > WAITING_TIMEOUT" for d1 d2
  proof -
    have c: "WAITING_TIMEOUT \<le> waiting_count i d1" using that(2) by (simp add: count_waiting_def waiting_count_def)
    then obtain c where "map_of (waiting_counts d1) i = Some c" "WAITING_TIMEOUT \<le> c"
      by (auto simp: waiting_count_def WAITING_TIMEOUT_def split: option.splits)
    then have u: "starving (count_waiting i d1) = starving d1" "(i, c + 1) \<in> set (waiting_counts (count_waiting i d1))"
      using starving_update [of "waiting_counts d1" i c] map_of_SomeD [of "AList.update i (c + 1) (waiting_counts d1)" i]
      by (simp_all add: starving_def count_waiting_def waiting_count_def)
    then have "starving (reset_waiting i (count_waiting i d1)) < starving (count_waiting i d1)"
      using starving_delete_less [OF u(2), of "\<lambda>(_, c). WAITING_TIMEOUT \<le> c"] \<open>WAITING_TIMEOUT \<le> c\<close>
      by (simp add: starving_def reset_waiting_def)
    then show ?thesis using u(1) that(1) by (simp add: starving_def reset_waiting_def)
  qed
  show ?thesis
    unfolding allocate_waiting_def prod.case yields_and_then
  proof (rule yields_mono [OF admit_request_frame], clarify)
    fix ok d1 kv
    let ?d = "d\<lparr>kv_cache_manager := kv\<rparr>"
    have same: "starving ?d = starving d" "ps_waiting ?d = i # ws" "ps_waiting (count_waiting i ?d) = i # ws"
      using assms by (simp_all add: starving_def count_waiting_def)
    have le: "starving (reset_waiting i ?d) \<le> starving d" "ps_waiting (reset_waiting i e) = ps_waiting e" for e
      using starving_delete by (simp_all add: starving_def reset_waiting_def)
    show "yields (if ok then Inr (Admitted, reset_waiting i ?d, sched)
        else let d = count_waiting i ?d in
          if WAITING_TIMEOUT < waiting_count i d
          then if \<not> waiting_prompt_preemption_enabled d then Inr (StopAdmission, d, sched)
            else and_then (preempt_until env h lazy i n hit_blocks (d, sched)) (\<lambda>(allocated, d, sched).
              if allocated then Inr (Admitted, reset_waiting i d, sched) else Inr (Exhausted, d, sched))
          else Inr (StopAdmission, d, sched))
      (\<lambda>(r, d', sched'). (\<exists>ws'. ps_waiting d' = i # ws') \<and>
        (r = Admitted \<longrightarrow> starving d' < starving d \<or> starving d' \<le> starving d \<and> ps_waiting d' = ps_waiting d) \<and>
        (r = Exhausted \<longrightarrow> starving (reset_waiting i d') < starving d))"
      using preempt_until_step [OF same(3), of env h lazy i n hit_blocks sched] same le assms starve [of _ ?d]
      by (auto simp: Let_def elim!: yields_mono)
  qed
qed

lemma finish_front_closer:
  assumes "ps_waiting d = i # rest" and "starving (reset_waiting i d) \<le> n"
  shows "yields (finish_front_of_waiting env pv response (d, v)) (\<lambda>(d', v'). starving d' \<le> n \<and> ps_waiting d' = rest)"
  using finish_front_step [OF assms(1), of env pv response v] assms(2)
  by (auto simp: starving_def reset_waiting_def elim!: yields_mono)

lemma starving_reset: "starving (reset_waiting i d) \<le> starving d"
  using starving_delete by (simp add: starving_def reset_waiting_def)

lemma modify_seq_frame [simp]:
  "ps_waiting (modify_seq i f d) = ps_waiting d" "ps_running (modify_seq i f d) = ps_running d"
  "waiting_counts (modify_seq i f d) = waiting_counts d" "kv_cache_manager (modify_seq i f d) = kv_cache_manager d"
  "ps_config (modify_seq i f d) = ps_config d" "ps_block_size (modify_seq i f d) = ps_block_size d"
  "prefix_caching_enabled (modify_seq i f d) = prefix_caching_enabled d"
  "seqs (modify_seq i f d) = (seqs d)(i := f (seqs d i))" "starving (modify_seq i f d) = starving d"
  by (simp_all add: modify_seq_def starving_def)

abbreviation goes_on :: "PagedAttentionScheduler \<Rightarrow> 'v admission_state flow \<Rightarrow> bool" where
  "goes_on d r \<equiv> (case r of Break _ \<Rightarrow> True | Continue (d', _) \<Rightarrow> closer d' d)"

lemma commit_admission_closer:
  assumes w: "ps_waiting d' = i # ws" and c: "starving d' < starving d \<or> starving d' \<le> starving d \<and> ps_waiting d' = ps_waiting d"
  shows "yields (commit_admission env pv i n validation (d', v, sched, again)) (goes_on d)"
proof -
  have c': "starving d' < starving d \<or> starving d' \<le> starving d \<and> length ws < length (ps_waiting d)"
    using c w by (metis length_Cons lessI)
  have fin: "yields (and_then (finish_front_of_waiting env pv response (e, v)) (\<lambda>(d, v). Inr (Continue (d, v, sched, again)))) (goes_on d)"
    if "ps_waiting e = i # ws" "starving e = starving d'" for response e v
    using finish_front_closer [OF that(1) order_refl, of env pv response v] starving_reset [of i e] that(2) c'
    by (auto simp: closer_def elim!: yields_mono)
  have go: "closer (e\<lparr>ps_waiting := ws, ps_running := run\<rparr>) d" if "starving e = starving d'" for e run
    using c' that by (auto simp: closer_def starving_def)
  have kv: "starving (e\<lparr>kv_cache_manager := kv\<rparr>) = starving e" for e kv by (simp add: starving_def)
  show ?thesis
  proof (cases validation)
    case None
    then show ?thesis
      using w by (simp add: commit_admission_def start_prompt_def Let_def go)
  next
    case (Some val)
    obtain r s v' where cv: "commit_validation val (seqs d' i) v = (r, s, v')" by (cases "commit_validation val (seqs d' i) v") auto
    show ?thesis
    proof (cases r)
      case (Inl e)
      then show ?thesis
        using Some cv w
        by (simp add: commit_admission_def Let_def del: yields_and_then)
          (intro yields_bind fin, simp_all add: kv)
    next
      case (Inr u)
      then show ?thesis
        using Some cv w by (simp add: commit_admission_def start_prompt_def Let_def go)
    qed
  qed
qed

lemma admit_computed_closer:
  assumes w: "ps_waiting d = i # ws"
  shows "yields (admit_computed env h pv i c validation (d, v, sched, again)) (goes_on d)"
  unfolding admit_computed_def prod.case Let_def
proof (intro yields_bind, goal_cases)
  case (1 count)
  show ?case
  proof (cases "length (computed_block_ids c) < count")
    case False
    have "yields (case r of StopAdmission \<Rightarrow> Inr (Break (d', v, sched', again))
        | Exhausted \<Rightarrow> and_then (finish_front_of_waiting env pv
             (InternalError ''KV cache exhausted even after preempting all running sequences'') (d', v))
             (\<lambda>(d, v). Inr (Continue (d, v, sched', again)))
        | Admitted \<Rightarrow> commit_admission env pv i (num_computed_tokens c) validation (d', v, sched', again)) (goes_on d)"
      if "(\<exists>ws'. ps_waiting d' = i # ws') \<and>
        (r = Admitted \<longrightarrow> starving d' < starving d \<or> starving d' \<le> starving d \<and> ps_waiting d' = ps_waiting d) \<and>
        (r = Exhausted \<longrightarrow> starving (reset_waiting i d') < starving d)" for r d' sched'
    proof -
      from that obtain ws' where w': "ps_waiting d' = i # ws'" by blast
      show ?thesis
      proof (cases r)
        case Admitted
        have "yields (commit_admission env pv i (num_computed_tokens c) validation (d', v, sched', again)) (goes_on d)"
          by (rule commit_admission_closer [OF w']) (use that Admitted in blast)
        then show ?thesis by (simp add: Admitted)
      next
        case Exhausted
        then show ?thesis using that finish_front_closer [OF w' order_refl] by (force simp: closer_def elim!: yields_mono)
      qed simp
    qed
    then show ?thesis
      using False by (auto intro!: yields_mono [OF allocate_waiting_step [OF w]])
  qed simp
qed

lemma admit_one_closer:
  "yields (admit_one env h pv (d, v, sched, again)) (goes_on d)"
proof (cases "ps_waiting d")
  case (Cons i rest)
  have fin: "yields (and_then (finish_front_of_waiting env pv response (e, v)) (\<lambda>(d, v). Inr (Continue (d, v, sched, again)))) (goes_on d)"
    if "ps_waiting e = i # rest" "starving e = starving d" for response e v
    using finish_front_closer [OF that(1) order_refl, of env pv response v] starving_reset [of i e] that Cons
    by (auto simp: closer_def elim!: yields_mono)
  have main: "yields (and_then (ensure_hashes h i d) (\<lambda>d. and_then (lookup_prefix env i d) (\<lambda>c.
      and_then (validate_prefix pv i c d v) (\<lambda>(r, v). case r of
        Inl _ \<Rightarrow> and_then (finish_front_of_waiting env pv (InternalError ''Failed to prepare recurrent state'') (d, v))
            (\<lambda>(d, v). Inr (Continue (d, v, sched, again)))
      | Inr (c, validation) \<Rightarrow> admit_computed env h pv i c validation (d, v, sched, again))))) (goes_on d)"
  proof (intro yields_bind, goal_cases)
    case (1 e c rv)
    obtain r v' where rv: "rv = (r, v')" by (cases rv)
    have e: "ps_waiting e = i # rest" "starving e = starving d" "closer x e = closer x d" for x
      using ensure_hashes_frame [of h i d] 1(1) Cons by (auto simp: starving_def closer_def)
    show ?case
    proof (cases r)
      case (Inl err)
      then show ?thesis using fin [OF e(1,2)] by (simp add: rv)
    next
      case (Inr cv)
      have "yields (admit_computed env h pv i (fst cv) (snd cv) (e, v', sched, again)) (goes_on d)"
        by (rule yields_mono [OF admit_computed_closer [OF e(1)]]) (simp add: e(3) split: flow.splits prod.splits)
      then show ?thesis using Inr by (cases cv) (simp add: rv)
    qed
  qed
  have requeue: "closer (d\<lparr>ps_waiting := rest\<rparr>) d" using Cons by (simp add: closer_def starving_def)
  show ?thesis
    unfolding admit_one_def prod.case Cons list.case
    by (simp only: if_split [where P = "\<lambda>x. yields x (goes_on d)"])
      (intro conjI impI yields_bind, simp, simp only: if_split [where P = "\<lambda>x. yields x (goes_on d)"],
        intro conjI impI fin [OF Cons refl] main, simp add: requeue)
qed (simp add: admit_one_def)

function admission_loop ::
    "rt_env \<Rightarrow> hasher \<Rightarrow> 'v PagedPrefixCacheValidator option \<Rightarrow> 'v admission_state \<Rightarrow> 'v admission_state res" where
  "admission_loop env h pv (d, v, sched, again) =
     (if ps_waiting d = [] then Inr (d, v, sched, again)
      else
        and_then (admit_one env h pv (d, v, sched, again)) (\<lambda>r.
        case r of Break st \<Rightarrow> Inr st | Continue st \<Rightarrow> admission_loop env h pv st))"
  by pat_completeness auto
termination
proof (relation "inv_image (less_than <*lex*> less_than)
    (\<lambda>(env, h, pv, d, v, sched, again). (starving d, length (ps_waiting d)))", goal_cases)
  case (2 env h pv d v sched again r st)
  then show ?case
    using admit_one_closer [of env h pv d v sched again] by (cases st) (auto simp: closer_def)
qed auto

declare admission_loop.simps [simp del]

end
