(* ===== verification/Paged_Schedule.thy ===== *)
theory Paged_Schedule
  imports Paged_Scheduler
begin

text \<open>
  One turn of the paged attention scheduler (\<open>PagedAttentionScheduler::schedule\<close> of
  \<open>paged_attention/scheduler.rs\<close>): marking finished prompts, admission, the prompt batch or else the completion
  batch with its preemption under memory pressure, then the release of finished sequences and the remaining methods of
  the \<open>Scheduler\<close> trait. The interval logger and the gauges are left out, except for the one reading
  of \<open>publish_kv_block_metrics\<close> that can panic.
\<close>

section \<open>Slots for completions\<close>

definition completion_tokens :: "Sequence \<Rightarrow> nat" where
  "completion_tokens s =
     (if 0 < active_staged_speculative_len s then seq_len s + active_staged_speculative_len s
      else if 0 < num_uncomputed_tokens s then seq_len s
      else seq_len s + 1)"

text \<open>
  The inner loop: the sequence gets its slots, preempting the sequences behind it from the back, or is
  preempted itself. The flag says whether it got them.
\<close>

function allocate_completion ::
    "rt_env \<Rightarrow> hasher \<Rightarrow> nat \<Rightarrow> nat \<Rightarrow> PagedAttentionScheduler \<Rightarrow> (bool \<times> PagedAttentionScheduler) res" where
  "allocate_completion env h i n d =
     and_then (allocate_slots env i n [] (kv_cache_manager d)) (\<lambda>(r, kv).
     let d = d\<lparr>kv_cache_manager := kv\<rparr> in
     if r \<noteq> None then Inr (True, d)
     else
       (case vec_pop (ps_running d) of
          Some (p, rest) \<Rightarrow>
            and_then (preempt env h p (d\<lparr>ps_running := rest\<rparr>)) (\<lambda>d. allocate_completion env h i n d)
        | None \<Rightarrow> and_then (preempt env h i d) (\<lambda>d. Inr (False, d))))"
  by pat_completeness auto
termination
proof (relation "measure (\<lambda>(env, h, i, n, d). length (ps_running d))", goal_cases)
  case (2 env h i n d rkv r kv d' pr p rest d'')
  then have "ps_running d'' = rest"
    using preempt_running [of env h p "d'\<lparr>ps_running := rest\<rparr>"] by simp
  then show ?case using 2 by (cases "ps_running d" rule: rev_cases) (auto simp: vec_pop_def)
qed simp

declare allocate_completion.simps [simp del]

lemma allocate_completion_running:
  "yields (allocate_completion env h i n d) (\<lambda>(ok, d'). length (ps_running d') \<le> length (ps_running d))"
proof (induction env h i n d rule: allocate_completion.induct)
  case (1 env h i n d)
  have "yields (if r \<noteq> None then Inr (True, d\<lparr>kv_cache_manager := kv\<rparr>)
      else (case vec_pop (ps_running (d\<lparr>kv_cache_manager := kv\<rparr>)) of
          Some (p, rest) \<Rightarrow> and_then (preempt env h p (d\<lparr>kv_cache_manager := kv, ps_running := rest\<rparr>)) (\<lambda>d. allocate_completion env h i n d)
        | None \<Rightarrow> and_then (preempt env h i (d\<lparr>kv_cache_manager := kv\<rparr>)) (\<lambda>d. Inr (False, d))))
      (\<lambda>(ok, d'). length (ps_running d') \<le> length (ps_running d))"
    if a: "allocate_slots env i n [] (kv_cache_manager d) = Inr (r, kv)" for r kv
  proof (cases "ps_running d" rule: rev_cases)
    case Nil
    then show ?thesis
      using preempt_running [of env h i "d\<lparr>kv_cache_manager := kv\<rparr>"]
      by (auto simp: vec_pop_def elim!: yields_mono)
  next
    case (snoc rest p)
    have "yields (and_then (preempt env h p (d\<lparr>kv_cache_manager := kv, ps_running := rest\<rparr>)) (\<lambda>d. allocate_completion env h i n d))
        (\<lambda>(ok, d'). length (ps_running d') \<le> length (ps_running d))" if "r = None"
    proof (rule yields_bind)
      fix d1 assume p: "preempt env h p (d\<lparr>kv_cache_manager := kv, ps_running := rest\<rparr>) = Inr d1"
      then have "length (ps_running d1) \<le> length (ps_running d)"
        using preempt_running [of env h p "d\<lparr>kv_cache_manager := kv, ps_running := rest\<rparr>"] snoc by simp
      then show "yields (allocate_completion env h i n d1) (\<lambda>(ok, d'). length (ps_running d') \<le> length (ps_running d))"
        using "1.IH" [OF a refl refl _ _ refl p] that snoc by (auto simp: vec_pop_def elim!: yields_mono)
    qed
    then show ?thesis using snoc by (simp add: vec_pop_def del: yields_and_then)
  qed
  then show ?case by (subst allocate_completion.simps) (auto simp: Let_def simp del: yields_and_then intro!: yields_bind)
qed

text \<open>The outer loop over the running completions, in order of their arrival.\<close>

function completion_loop ::
    "rt_env \<Rightarrow> hasher \<Rightarrow> nat list \<Rightarrow> PagedAttentionScheduler \<Rightarrow> (nat list \<times> PagedAttentionScheduler) res" where
  "completion_loop env h kept d =
     (case ps_running d of
        [] \<Rightarrow> Inr (kept, d)
      | i # rest \<Rightarrow>
          and_then (allocate_completion env h i (completion_tokens (seqs d i)) (d\<lparr>ps_running := rest\<rparr>)) (\<lambda>(ok, d).
          if \<not> ok then completion_loop env h kept d
          else if \<not> ps_requires_uniform_media_batch d \<or> kept = [] \<or>
                  modality_signature (seqs d (hd kept)) = modality_signature (seqs d i)
          then completion_loop env h (kept @ [i]) d
          else and_then (preempt env h i d) (\<lambda>d. completion_loop env h kept d)))"
  by pat_completeness auto
termination
proof (relation "measure (\<lambda>(env, h, kept, d). length (ps_running d))", goal_cases)
  case (2 env h kept d i rest okd ok d')
  then show ?case
    using allocate_completion_running [of env h i "completion_tokens (seqs d i)" "d\<lparr>ps_running := rest\<rparr>"] by auto
next
  case (3 env h kept d i rest okd ok d')
  then show ?case
    using allocate_completion_running [of env h i "completion_tokens (seqs d i)" "d\<lparr>ps_running := rest\<rparr>"] by auto
next
  case (4 env h kept d i rest okd ok d' d'')
  then show ?case
    using allocate_completion_running [of env h i "completion_tokens (seqs d i)" "d\<lparr>ps_running := rest\<rparr>"]
      preempt_running [of env h i d'] by auto
qed simp

declare completion_loop.simps [simp del]

definition sort_running_by_priority_fcfs :: "PagedAttentionScheduler \<Rightarrow> PagedAttentionScheduler" where
  "sort_running_by_priority_fcfs d = d\<lparr>ps_running := sort_key (\<lambda>i. timestamp (seqs d i)) (ps_running d)\<rparr>"

section \<open>One turn\<close>

text \<open>Running prompts that are fully computed become completions.\<close>

definition finish_computed_prompts :: "PagedAttentionScheduler \<Rightarrow> PagedAttentionScheduler" where
  "finish_computed_prompts d =
     modify_seqs (ps_running d)
       (\<lambda>s. if is_prompt s \<and> seq_computed s = seq_len s then set_state RunningCompletion s else s) d"

definition publish_kv_block_metrics :: "PagedAttentionScheduler \<Rightarrow> unit res" where
  "publish_kv_block_metrics d = and_then (num_unreserved_blocks (kv_cache_manager d)) (\<lambda>_. Inr ())"

definition cache_running :: "rt_env \<Rightarrow> hasher \<Rightarrow> nat \<Rightarrow> PagedAttentionScheduler \<Rightarrow> PagedAttentionScheduler res" where
  "cache_running env h i d =
     (let num_computed = seq_computed (seqs d i) in
      and_then (ensure_hashes h i d) (\<lambda>d.
      case seq_block_hashes d i of
        None \<Rightarrow> Inr d
      | Some hs \<Rightarrow>
          and_then (cache_blocks env i hs num_computed (kv_cache_manager d)) (\<lambda>kv. Inr (d\<lparr>kv_cache_manager := kv\<rparr>))))"

definition completion_output :: "nat list \<Rightarrow> PagedAttentionSchedulerOutput" where
  "completion_output sched =
     \<lparr>out_scheduled = sched, num_cached_tokens = [], prompt_chunk_size = None, scheduled_prompt_chunks = None\<rparr>"

text \<open>
  The completion branch of \<open>schedule\<close>. The flag \<open>TERMINATE_ALL_NEXT_STEP\<close> is read and cleared here, so its new
  value is part of the result.
\<close>

definition schedule_completions ::
    "rt_env \<Rightarrow> hasher \<Rightarrow> bool \<Rightarrow> PagedAttentionScheduler \<Rightarrow>
     (PagedAttentionSchedulerOutput \<times> PagedAttentionScheduler \<times> bool) res" where
  "schedule_completions env h terminate_all d =
     (let prompt_running = filter (\<lambda>i. is_prompt (seqs d i)) (ps_running d);
          d = d\<lparr>ps_running := filter (\<lambda>i. \<not> is_prompt (seqs d i)) (ps_running d)\<rparr>;
          d = sort_running_by_priority_fcfs d in
      and_then (completion_loop env h [] d) (\<lambda>(kept, d).
      and_then (enforce_completion_compatibility env h (d\<lparr>ps_running := kept\<rparr>)) (\<lambda>d.
      let d = modify_seqs (ps_running d) (set_state RunningCompletion) d in
      if terminate_all then
        let d = modify_seqs (ps_running d @ prompt_running) (set_state (Done Canceled)) d;
            d = d\<lparr>ps_running := ps_running d @ prompt_running\<rparr> in
        and_then (publish_kv_block_metrics d) (\<lambda>_. Inr (completion_output [], d, False))
      else
        and_then (if prefix_caching_enabled d then fold_res (cache_running env h) (ps_running d) d else Inr d) (\<lambda>d.
        let (sched, d) = select_completion_batch (record_decode_step d);
            d = d\<lparr>ps_running := ps_running d @ prompt_running\<rparr> in
        and_then (publish_kv_block_metrics d) (\<lambda>_. Inr (completion_output sched, d, terminate_all))))))"

definition prompt_output :: "PromptBatch \<Rightarrow> PagedAttentionScheduler \<Rightarrow> PagedAttentionSchedulerOutput" where
  "prompt_output batch d =
     \<lparr>out_scheduled = pb_scheduled batch, num_cached_tokens = map (\<lambda>i. prefix_cache_len (seqs d i)) (pb_scheduled batch),
      prompt_chunk_size = pb_chunk_size batch, scheduled_prompt_chunks = pb_chunks batch\<rparr>"

definition paged_schedule ::
    "rt_env \<Rightarrow> hasher \<Rightarrow> 'v PagedPrefixCacheValidator option \<Rightarrow> bool \<Rightarrow> PagedAttentionScheduler \<Rightarrow> 'v \<Rightarrow>
     (PagedAttentionSchedulerOutput \<times> PagedAttentionScheduler \<times> 'v \<times> bool) res" where
  "paged_schedule env h pv terminate_all d v =
     (let d = update_prompt_admission_epoch (finish_computed_prompts d) in
      and_then (completion_is_due d) (\<lambda>due.
      and_then (if due then Inr (d, v, [], [])
                else admission_loop env h pv (d, v, filter (\<lambda>i. is_prompt (seqs d i)) (ps_running d), [])) (\<lambda>(d, v, sched, again).
      let d = d\<lparr>ps_waiting := ps_waiting d @ again\<rparr> in
      and_then (if sched = [] then Inr (\<lparr>pb_scheduled = [], pb_chunk_size = None, pb_chunks = None\<rparr>, d)
                else
                  and_then (select_prompt_batch env h sched d) (\<lambda>(batch, d).
                  and_then (materialize_prompt_chunks env batch d) (\<lambda>d. Inr (batch, d)))) (\<lambda>(batch, d).
      if pb_scheduled batch \<noteq> [] then
        and_then (publish_kv_block_metrics d) (\<lambda>_.
        Inr (prompt_output batch d, d\<lparr>decode_steps_since_prefill := 0\<rparr>, v, terminate_all))
      else
        and_then (schedule_completions env h terminate_all d) (\<lambda>(out, d, terminate_all).
        Inr (out, d, v, terminate_all))))))"

definition take_deferred_speculative_releases :: "PagedAttentionScheduler \<Rightarrow> nat list \<times> PagedAttentionScheduler" where
  "take_deferred_speculative_releases d =
     (fold (\<lambda>i released. if i \<notin> set (ps_running d) \<and> i \<notin> set released then released @ [i] else released)
        (preempted_sequence_ids d) [],
      d\<lparr>preempted_sequence_ids := []\<rparr>)"

text \<open>The method of the trait: a turn, then the ids of the sequences preempted for good.\<close>

definition scheduler_schedule ::
    "rt_env \<Rightarrow> hasher \<Rightarrow> 'v PagedPrefixCacheValidator option \<Rightarrow> bool \<Rightarrow> PagedAttentionScheduler \<Rightarrow> 'v \<Rightarrow>
     (PagedAttentionSchedulerOutput \<times> nat list \<times> PagedAttentionScheduler \<times> 'v \<times> bool) res" where
  "scheduler_schedule env h pv terminate_all d v =
     and_then (paged_schedule env h pv terminate_all d v) (\<lambda>(out, d, v, terminate_all).
     case take_deferred_speculative_releases d of (released, d) \<Rightarrow> Inr (out, released, d, v, terminate_all))"

section \<open>Finished sequences\<close>

definition all_ids :: "PagedAttentionScheduler \<Rightarrow> nat list" where
  "all_ids d = ps_running d @ ps_waiting d"

definition cache_finished ::
    "rt_env \<Rightarrow> hasher \<Rightarrow> nat \<times> nat \<Rightarrow> PagedAttentionScheduler \<Rightarrow> PagedAttentionScheduler res" where
  "cache_finished env h = (\<lambda>(i, num_computed) d.
     and_then (ensure_hashes h i d) (\<lambda>d.
     and_then (cache_blocks env i (hashes_of d i) num_computed (kv_cache_manager d)) (\<lambda>kv.
     Inr (d\<lparr>kv_cache_manager := kv\<rparr>))))"

definition forget_finished :: "rt_env \<Rightarrow> nat \<Rightarrow> PagedAttentionScheduler \<Rightarrow> PagedAttentionScheduler res" where
  "forget_finished env i d =
     and_then (free_request env i (kv_cache_manager d)) (\<lambda>kv.
     Inr (d\<lparr>kv_cache_manager := kv, seq_block_hashes := (seq_block_hashes d)(i := None),
            seq_block_hash_revisions := (seq_block_hash_revisions d)(i := None),
            waiting_counts := AList.delete i (waiting_counts d)\<rparr>))"

definition paged_free_finished ::
    "rt_env \<Rightarrow> hasher \<Rightarrow> PagedAttentionScheduler \<Rightarrow> PagedAttentionScheduler res" where
  "paged_free_finished env h d =
     (let finished = filter (\<lambda>i. is_finished_paged_attn (seqs d i)) (all_ids d);
          cacheable = map (\<lambda>i. (i, seq_computed (seqs d i)))
            (filter (\<lambda>i. prefix_caching_enabled d \<and> seq_state (seqs d i) \<noteq> Error \<and> ps_block_size d \<le> seq_computed (seqs d i))
              finished);
          d = d\<lparr>ps_running := filter (\<lambda>i. \<not> is_finished_paged_attn (seqs d i)) (ps_running d),
                ps_waiting := filter (\<lambda>i. \<not> is_finished_paged_attn (seqs d i)) (ps_waiting d)\<rparr> in
      and_then (if prefix_caching_enabled d then fold_res (cache_finished env h) cacheable d else Inr d) (\<lambda>d.
      and_then (fold_res (forget_finished env) finished d) (\<lambda>d.
      let d = d\<lparr>finished_recurrent_slots := []\<rparr> in
      and_then (publish_kv_block_metrics d) (\<lambda>_. Inr d))))"

definition paged_finished_recurrent_slots :: "PagedAttentionScheduler \<Rightarrow> (nat \<times> nat) list" where
  "paged_finished_recurrent_slots d =
     finished_recurrent_slots d @
     List.map_filter (\<lambda>i. if is_finished_paged_attn (seqs d i)
                          then map_option (\<lambda>slot. (i, slot)) (recurrent_state_idx (seqs d i)) else None) (all_ids d)"

definition paged_finished_sequence_ids :: "PagedAttentionScheduler \<Rightarrow> nat list" where
  "paged_finished_sequence_ids d = filter (\<lambda>i. is_finished_paged_attn (seqs d i)) (all_ids d)"

section \<open>Other methods of the trait\<close>

text \<open>A new sequence is placed in the store under its id.\<close>

definition paged_add_seq :: "nat \<Rightarrow> Sequence \<Rightarrow> PagedAttentionScheduler \<Rightarrow> PagedAttentionScheduler" where
  "paged_add_seq i s d = d\<lparr>seqs := (seqs d)(i := s), ps_waiting := ps_waiting d @ [i]\<rparr>"

definition paged_cancel_closed :: "PagedAttentionScheduler \<Rightarrow> PagedAttentionScheduler" where
  "paged_cancel_closed d =
     modify_seqs (all_ids d)
       (\<lambda>s. if response_closed s \<and> \<not> is_finished_paged_attn s then set_state (Done Canceled) s else s) d"

definition paged_waiting_len :: "PagedAttentionScheduler \<Rightarrow> nat" where
  "paged_waiting_len d = length (ps_waiting d)"

definition paged_running_len :: "PagedAttentionScheduler \<Rightarrow> nat" where
  "paged_running_len d = length (ps_running d)"

definition set_prefix_caching_enabled_sync :: "bool \<Rightarrow> PagedAttentionScheduler \<Rightarrow> PagedAttentionScheduler" where
  "set_prefix_caching_enabled_sync flag d = d\<lparr>prefix_caching_enabled := flag\<rparr>"

definition paged_set_requires_uniform_prompt_batch :: "bool \<Rightarrow> PagedAttentionScheduler \<Rightarrow> PagedAttentionScheduler" where
  "paged_set_requires_uniform_prompt_batch required d = d\<lparr>requires_uniform_prompt_batch := required\<rparr>"

definition paged_set_requires_uniform_completion_batch :: "bool \<Rightarrow> PagedAttentionScheduler \<Rightarrow> PagedAttentionScheduler" where
  "paged_set_requires_uniform_completion_batch required d = d\<lparr>requires_uniform_completion_batch := required\<rparr>"

definition paged_set_requires_uniform_media_batch :: "bool \<Rightarrow> PagedAttentionScheduler \<Rightarrow> PagedAttentionScheduler" where
  "paged_set_requires_uniform_media_batch required d = d\<lparr>ps_requires_uniform_media_batch := required\<rparr>"

definition set_supports_packed_prefill :: "bool \<Rightarrow> PagedAttentionScheduler \<Rightarrow> PagedAttentionScheduler" where
  "set_supports_packed_prefill supported d = d\<lparr>supports_packed_prefill := supported\<rparr>"

definition set_prefill_has_per_sequence_state :: "bool \<Rightarrow> PagedAttentionScheduler \<Rightarrow> PagedAttentionScheduler" where
  "set_prefill_has_per_sequence_state flag d = d\<lparr>prefill_has_per_sequence_state := flag\<rparr>"

definition set_scheduler_visible_prompt_chunks ::
    "bool \<Rightarrow> bool \<Rightarrow> SpeculativePrefixCheckpointPolicy \<Rightarrow> PagedAttentionScheduler \<Rightarrow> PagedAttentionScheduler" where
  "set_scheduler_visible_prompt_chunks flag require_block_alignment policy d =
     d\<lparr>scheduler_visible_prompt_chunks := flag, prompt_chunks_require_block_alignment := require_block_alignment,
       prefix_policy := policy\<rparr>"

definition defer_prompt_tail :: "nat \<Rightarrow> PagedAttentionScheduler \<Rightarrow> PagedAttentionScheduler" where
  "defer_prompt_tail first_omitted d = d\<lparr>next_prompt_sequence_id := Some first_omitted\<rparr>"

definition set_waiting_prompt_preemption_enabled :: "bool \<Rightarrow> PagedAttentionScheduler \<Rightarrow> PagedAttentionScheduler" where
  "set_waiting_prompt_preemption_enabled flag d = d\<lparr>waiting_prompt_preemption_enabled := flag\<rparr>"

definition retain_prompt_prefix ::
    "nat \<Rightarrow> PagedAttentionSchedulerOutput \<Rightarrow> (nat option \<times> PagedAttentionSchedulerOutput) res" where
  "retain_prompt_prefix retained out =
     and_then (assert_that ''retained > 0'' (0 < retained)) (\<lambda>_.
     and_then (assert_that ''num_cached_tokens.len() == scheduled.len()''
                 (length (num_cached_tokens out) = length (out_scheduled out))) (\<lambda>_.
     and_then (case scheduled_prompt_chunks out of
                 None \<Rightarrow> Inr ()
               | Some chunks \<Rightarrow> assert_that ''chunks.len() == scheduled.len()'' (length chunks = length (out_scheduled out))) (\<lambda>_.
     if retained < length (out_scheduled out) then
       Inr (Some (out_scheduled out ! retained),
            out\<lparr>out_scheduled := take retained (out_scheduled out), num_cached_tokens := take retained (num_cached_tokens out),
                scheduled_prompt_chunks := map_option (take retained) (scheduled_prompt_chunks out)\<rparr>)
     else Inr (None, out))))"

end
