(* ===== verification/Paged_Invariant.thy ===== *)
theory Paged_Invariant
  imports Paged_Schedule
begin

text \<open>
  The invariant of the paged scheduler over one turn. \<open>turn_inv env T d0 held extra d\<close> relates the state \<open>d\<close> inside a
  turn to the state \<open>d0\<close> it started from: the manager is consistent, every sequence of \<open>d0\<close> is in exactly one place
  (a queue, \<open>held\<close> or \<open>extra\<close>, or refused with a response), only running and held sequences own KV blocks, and the
  blocks and the reservation of a running prompt cover it. The lemmas below show that each step of a turn
  returns and keeps the invariant.
\<close>

section \<open>The manager's operations as the scheduler uses them\<close>

abbreviation tables :: "KVCacheManager \<Rightarrow> nat \<rightharpoonup> RequestBlocks" where
  "tables m \<equiv> map_of (req_to_blocks m)"

definition same_geometry :: "KVCacheManager \<Rightarrow> KVCacheManager \<Rightarrow> bool" where
  "same_geometry m m' \<longleftrightarrow> block_size m' = block_size m \<and> same_frame (block_pool m) (block_pool m')"

lemma same_geometry_refl [simp]: "same_geometry m m"
  by (simp add: same_geometry_def)

lemma same_geometry_trans: "same_geometry a b \<Longrightarrow> same_geometry b c \<Longrightarrow> same_geometry a c"
  by (simp add: same_geometry_def)

lemma geometry_fields:
  assumes "same_geometry m m'"
  shows "block_size m' = block_size m" and "num_usable_blocks m' = num_usable_blocks m"
    and "real_block (block_pool m') = real_block (block_pool m)"
    and "manager_ok env m \<Longrightarrow> manager_ok env m' \<Longrightarrow> caching_enabled m' = caching_enabled m"
    and "manager_ok env m \<Longrightarrow> manager_ok env m' \<Longrightarrow> kv_cache_group_ids m' = kv_cache_group_ids m"
proof -
  have fr: "same_frame (block_pool m) (block_pool m')" and bs: "block_size m' = block_size m"
    using assms by (simp_all add: same_geometry_def)
  note ff = frame_fields [OF fr]
  show "block_size m' = block_size m" by (rule bs)
  show "num_usable_blocks m' = num_usable_blocks m" using ff by (simp add: num_usable_blocks_def)
  show "real_block (block_pool m') = real_block (block_pool m)" using ff by (simp add: real_block_def fun_eq_iff)
  show "manager_ok env m \<Longrightarrow> manager_ok env m' \<Longrightarrow> caching_enabled m' = caching_enabled m"
    using ff manager_parts(4) by metis
  show "manager_ok env m \<Longrightarrow> manager_ok env m' \<Longrightarrow> kv_cache_group_ids m' = kv_cache_group_ids m"
    using ff manager_parts(10) by metis
qed

lemma free_request_total:
  assumes "manager_ok env m" and "\<And>req. tables m r = Some req \<Longrightarrow> length (block_ids req) \<le> u32_max"
  shows "returns (free_request env r m) (\<lambda>m'. manager_ok env m' \<and> same_geometry m m' \<and> tables m' = (tables m)(r := None))"
proof (cases "tables m r")
  case None
  then have "tables m = (tables m)(r := None)" by (auto simp: fun_eq_iff)
  then show ?thesis using assms(1) None by (simp add: free_request_def)
next
  case (Some req)
  then show ?thesis
    using free_request_effect [OF assms(1) Some] assms(2) by (auto simp: same_geometry_def elim!: returns_mono)
qed

lemma cache_blocks_total:
  assumes ok: "manager_ok env m" and hs: "n div block_size m \<le> length hs"
  shows "returns (cache_blocks env r hs n m) (\<lambda>m'. manager_ok env m' \<and> same_geometry m m' \<and>
    (\<exists>c. tables m' = (tables m)(r := map_option (\<lambda>req. req\<lparr>cached_count := c\<rparr>) (tables m r))))"
proof (cases "caching_enabled m \<and> tables m r \<noteq> None")
  case True
  then obtain req where req: "tables m r = Some req" by blast
  have le: "min (n div block_size m) (length (block_ids req)) \<le> length hs" using hs by simp
  show ?thesis
    by (rule returns_mono [OF cache_blocks_effect [OF ok req conjunct1 [OF True] le]])
      (auto simp: Let_def same_geometry_def req)
next
  case False
  have "\<exists>c. tables m = (tables m)(r := map_option (\<lambda>req. req\<lparr>cached_count := c\<rparr>) (tables m r))"
  proof (cases "tables m r")
    case (Some req)
    then show ?thesis by (intro exI [of _ "cached_count req"]) (auto simp: fun_eq_iff)
  qed (auto simp: fun_eq_iff)
  then show ?thesis using False ok by (auto simp: cache_blocks_def split: option.splits)
qed

lemma extend_slots_geometry:
  assumes "manager_ok env m"
  shows "yields (extend_slots env r k req m) (\<lambda>(res, m'). same_geometry m m')"
  using get_new_blocks_alloc [of env "block_pool m" "k - length (block_ids req)"] manager_parts(1,2) [OF assms]
  by (auto simp: extend_slots_def Let_def same_geometry_def yields_def returns_def and_then_def
      split: sum.splits option.splits)

text \<open>The blocks a table holds together with its reservation.\<close>

definition reach :: "RequestBlocks \<Rightarrow> nat" where
  "reach req = length (block_ids req) + reserved_blocks req"

lemma allocate_slots_total:
  assumes ok: "manager_ok env m" and dbg: "debug_assertions env"
    and v: "tables m r = None \<Longrightarrow> valid_prefix m bs \<and> length bs \<le> u32_max" and n: "n \<le> usize_max"
  shows "returns (allocate_slots env r n bs m) (\<lambda>(res, m'). manager_ok env m' \<and> same_geometry m m' \<and>
    (case res of
       None \<Rightarrow> tables m' = tables m \<and> (\<forall>req. tables m r = Some req \<longrightarrow> reach req < div_ceil n (block_size m)) \<and>
         (tables m r = None \<longrightarrow> m' = m \<and> \<not> prompt_fits m (div_ceil n (block_size m)) bs)
     | Some ids \<Rightarrow> \<exists>req. tables m' = (tables m)(r \<mapsto> req) \<and> div_ceil n (block_size m) \<le> length (block_ids req) \<and>
         (case tables m r of
            None \<Rightarrow> length (block_ids req) = max (length bs) (div_ceil n (block_size m))
          | Some old \<Rightarrow> length (block_ids req) = max (length (block_ids old)) (div_ceil n (block_size m)) \<and>
              reach old \<le> reach req)))"
proof (cases "tables m r")
  case None
  have need: "div_ceil n (block_size m) - length bs + idle_in m bs \<le> usize_max"
    using v [OF None] n by (intro needed_room manager_parts(3) [OF ok]) simp_all
  show ?thesis
    unfolding allocate_slots_eq [OF ok] None option.case
    by (rule returns_mono [OF admit_slots_effect [OF ok None conjunct1 [OF v [OF None]] need dbg]])
      (auto simp: None same_geometry_def split: option.splits)
next
  case (Some old)
  let ?k = "div_ceil n (block_size m)"
  have fits: "?k \<le> reach old \<Longrightarrow> ?k - length (block_ids old) - reserved_blocks old + total_reserved_blocks m \<le> pool_free (block_pool m)"
    using manager_parts(8) [OF ok] by (simp add: reach_def)
  have "returns (extend_slots env r ?k old m) (\<lambda>(res, m'). manager_ok env m' \<and> same_geometry m m' \<and>
    (case res of
       None \<Rightarrow> tables m' = tables m \<and> reach old < ?k
     | Some ids \<Rightarrow> \<exists>req. tables m' = (tables m)(r \<mapsto> req) \<and> ?k \<le> length (block_ids req) \<and>
         length (block_ids req) = max (length (block_ids old)) ?k \<and> reach old \<le> reach req))"
  proof -
    obtain res m' where x: "extend_slots env r ?k old m = Inr (res, m')" "manager_ok env m'"
      "let n = ?k - length (block_ids old);
         fits = (n - reserved_blocks old + total_reserved_blocks m \<le> pool_free (block_pool m)) in
       case res of
         None \<Rightarrow> req_to_blocks m' = req_to_blocks m \<and> (debug_assertions env \<longrightarrow> \<not> fits)
       | Some new_ids \<Rightarrow> fits \<and> length new_ids = n \<and> distinct new_ids \<and>
         (\<forall>b \<in> set new_ids. real_block (block_pool m) b \<and> owned (req_to_blocks m) b = 0) \<and> grown m r old new_ids m'"
      using extend_slots_effect [OF ok Some, of ?k] unfolding returns_iff by blast
    have g: "same_geometry m m'" using extend_slots_geometry [OF ok, of r ?k old] x(1) by simp
    show ?thesis
      using x g dbg fits by (cases res) (fastforce simp: Let_def grown_def reach_def)+
  qed
  then show ?thesis unfolding allocate_slots_eq [OF ok] Some option.case by (auto elim!: returns_mono split: option.splits)
qed

lemma reserve_prompt_total:
  assumes ok: "manager_ok env m" and new: "tables m r = None" and v: "valid_prefix m bs" "length bs \<le> u32_max" and n: "n \<le> usize_max"
  shows "returns (reserve_prompt env r n bs m) (\<lambda>(res, m'). manager_ok env m' \<and> same_geometry m m' \<and>
    (case res of
       None \<Rightarrow> m' = m \<and> (div_ceil n (block_size m) < length bs \<or> \<not> prompt_fits m (div_ceil n (block_size m)) bs)
     | Some _ \<Rightarrow> \<exists>req. tables m' = (tables m)(r \<mapsto> req) \<and> div_ceil n (block_size m) \<le> reach req \<and>
         length (block_ids req) = length bs))"
  by (rule returns_mono [OF reserve_prompt_effect [OF ok v(1) n v(2)]])
    (use new in \<open>auto simp: Let_def same_geometry_def reach_def split: option.splits\<close>)

text \<open>With no table left every block is free, so a prompt within the capacity fits.\<close>

lemma empty_manager_fits:
  assumes ok: "manager_ok env m" and none: "tables m = Map.empty" and k: "k \<le> num_usable_blocks m" "length bs \<le> k"
    and real: "\<forall>b \<in> set bs. real_block (block_pool m) b"
  shows "prompt_fits m k bs"
proof -
  note parts = manager_parts [OF ok]
  let ?p = "block_pool m"
  have nil: "req_to_blocks m = []" using none by simp
  then have zero: "real_block ?p b \<Longrightarrow> refs ?p b = 0" for b using parts(6) by (simp add: backed_def owned_def)
  have sh: "null_block_id ?p < num_gpu_blocks ?p" using pool_ok_parts(2) [OF parts(2)] by (simp add: shape_ok_def Let_def)
  have "{b. real_block ?p b \<and> refs ?p b = 0} = {..<num_gpu_blocks ?p} - {null_block_id ?p}"
    using zero by (auto simp: real_block_def)
  then have "pool_free ?p = num_usable_blocks m" using sh by (simp add: free_count_def num_usable_blocks_def)
  moreover have "idle_in m bs = length bs" using real zero by (simp add: idle_in_def)
  moreover have "total_reserved_blocks m = 0" using parts(7) nil by (simp add: reserved_def)
  ultimately show ?thesis using k by (simp add: prompt_fits_def)
qed

lemma owned_le:
  assumes "\<And>r req. (r, req) \<in> set al \<Longrightarrow> length (block_ids req) \<le> T"
  shows "owned al b \<le> length al * T"
  using assms
proof (induction al)
  case (Cons p al)
  obtain r req where p: "p = (r, req)" by (cases p)
  have "count_list (block_ids req) b \<le> T"
    using count_le_length [of "block_ids req" b] Cons.prems [of r req] p by simp
  moreover have "owned al b \<le> length al * T" using Cons by (meson list.set_intros(2))
  ultimately show ?case by (simp add: owned_def p)
qed (simp add: owned_def)

lemma prefix_in_range:
  assumes ok: "manager_ok env m" and dom: "dom (tables m) \<subseteq> set rs" and n: "(length rs + 1) * T \<le> u32_max"
    and len: "\<And>r req. tables m r = Some req \<Longrightarrow> length (block_ids req) \<le> T" "length bs \<le> T"
    and real: "\<forall>b \<in> set bs. real_block (block_pool m) b" and en: "caching_enabled m"
  shows "valid_prefix m bs"
proof -
  note parts = manager_parts [OF ok]
  have "length (req_to_blocks m) \<le> length rs"
    using length_as_card [OF parts(5)] card_mono [OF _ dom] card_length [of rs] by simp
  then have size: "length (req_to_blocks m) * T + T \<le> u32_max"
    using n mult_le_mono1 [of "length (req_to_blocks m)" "length rs" T] unfolding distrib_right by linarith
  have "refs (block_pool m) b + count_list bs b \<le> u32_max" if "b \<in> set bs" for b
  proof -
    have "refs (block_pool m) b = owned (req_to_blocks m) b" using parts(6) real that by (simp add: backed_def)
    also have "\<dots> \<le> length (req_to_blocks m) * T"
      using len(1) map_of_eq_Some_in [OF parts(5)] by (intro owned_le) blast
    finally show ?thesis using count_le_length [of bs b] len(2) size by linarith
  qed
  then show ?thesis using real en by (simp add: valid_prefix_def)
qed

section \<open>The invariant\<close>

text \<open>What a turn never changes of a sequence, and a bound \<open>T\<close> on the tokens it may need slots for.\<close>

definition same_tokens :: "Sequence \<Rightarrow> Sequence \<Rightarrow> bool" where
  "same_tokens s s' \<longleftrightarrow>
     get_toks s' = get_toks s \<and> seq_len s' = seq_len s \<and> active_staged_speculative_len s' \<le> active_staged_speculative_len s \<and>
     mm_features s' = mm_features s"

definition seq_fits :: "nat \<Rightarrow> Sequence \<Rightarrow> bool" where
  "seq_fits T s \<longleftrightarrow> get_toks s \<noteq> [] \<and> seq_len s = length (get_toks s) \<and> seq_len s + active_staged_speculative_len s + 1 \<le> T"

definition covered :: "PagedAttentionScheduler \<Rightarrow> nat \<Rightarrow> bool" where
  "covered d i \<longleftrightarrow>
     (\<exists>req. tables (kv_cache_manager d) i = Some req \<and> div_ceil (length (get_toks (seqs d i))) (ps_block_size d) \<le> reach req)"

definition same_setup :: "PagedAttentionScheduler \<Rightarrow> PagedAttentionScheduler \<Rightarrow> bool" where
  "same_setup d d' \<longleftrightarrow>
     ps_config d' = ps_config d \<and> ps_block_size d' = ps_block_size d \<and> prefix_caching_enabled d' = prefix_caching_enabled d \<and>
     same_geometry (kv_cache_manager d) (kv_cache_manager d')"

definition live :: "Sequence \<Rightarrow> bool" where
  "live s \<longleftrightarrow> is_prompt s \<or> is_completion s"

text \<open>Why a turn may refuse a sequence: a prompt beyond the capacity, or a failure the validator reports.\<close>

definition refusal_ok :: "PagedAttentionScheduler \<Rightarrow> nat \<times> Response \<Rightarrow> bool" where
  "refusal_ok d = (\<lambda>(i, r). case r of
     ValidationError _ \<Rightarrow> num_usable_blocks (kv_cache_manager d) * ps_block_size d < length (get_toks (seqs d i))
   | InternalError e \<Rightarrow> e \<in> {''Failed to prepare recurrent state'', ''Failed to commit recurrent state''})"

definition turn_inv ::
    "rt_env \<Rightarrow> nat \<Rightarrow> PagedAttentionScheduler \<Rightarrow> nat list \<Rightarrow> nat list \<Rightarrow> PagedAttentionScheduler \<Rightarrow> bool" where
  "turn_inv env T d0 busy extra d \<longleftrightarrow>
     manager_ok env (kv_cache_manager d) \<and> same_setup d0 d \<and>
     (\<forall>i. same_tokens (seqs d0 i) (seqs d i)) \<and>
     (\<exists>sent. responses d = responses d0 @ sent \<and>
        mset (ps_running d @ ps_waiting d @ busy @ extra @ map fst sent) = mset (all_ids d0) \<and>
        (\<forall>x \<in> set sent. refusal_ok d0 x \<and> seq_state (seqs d (fst x)) = FinishedIgnored)) \<and>
     dom (tables (kv_cache_manager d)) \<subseteq> set (ps_running d @ busy) \<and>
     (\<forall>r req. tables (kv_cache_manager d) r = Some req \<longrightarrow> length (block_ids req) \<le> T) \<and>
     (\<forall>i \<in> set (ps_running d @ busy). live (seqs d i) \<and> (is_prompt (seqs d i) \<longrightarrow> covered d i)) \<and>
     (\<forall>i \<in> set (ps_waiting d @ extra). is_waiting (seqs d i))"

text \<open>The state a turn starts from: distinct ids, bounded sequences, a cache that the configuration can address.\<close>

definition start_ok :: "rt_env \<Rightarrow> nat \<Rightarrow> PagedAttentionScheduler \<Rightarrow> bool" where
  "start_ok env T d \<longleftrightarrow>
     debug_assertions env \<and> distinct (all_ids d) \<and> (\<forall>i \<in> set (all_ids d). seq_fits T (seqs d i)) \<and>
     (length (all_ids d) + 1) * T \<le> u32_max \<and>
     ps_block_size d = block_size (kv_cache_manager d) \<and> caching_enabled (kv_cache_manager d) \<and>
     manager_ok env (kv_cache_manager d) \<and>
     kv_cache_group_ids (kv_cache_manager d) \<noteq> [] \<and> num_usable_blocks (kv_cache_manager d) * ps_block_size d \<le> usize_max \<and>
     0 < max_num_seqs (ps_config d) \<and> 0 < max_num_batched_tokens (ps_config d) \<and>
     0 < max_prefill_chunk_tokens (ps_config d) \<and> 0 < max_decode_steps_before_prefill (ps_config d) \<and>
     u32_max + max_num_batched_tokens (ps_config d) \<le> usize_max"

definition sched_ok :: "rt_env \<Rightarrow> nat \<Rightarrow> PagedAttentionScheduler \<Rightarrow> bool" where
  "sched_ok env T d \<longleftrightarrow> start_ok env T d \<and> turn_inv env T d [] [] d"

lemma same_tokens_trans: "same_tokens a b \<Longrightarrow> same_tokens b c \<Longrightarrow> same_tokens a c"
  by (auto simp: same_tokens_def)

lemma same_tokens_refl [simp]: "same_tokens s s"
  by (simp add: same_tokens_def)

lemma same_tokens_updates [simp]:
  "same_tokens s (set_state st s')  = same_tokens s s'" "same_tokens s (set_prefix_cache_len n s') = same_tokens s s'"
  "same_tokens s (set_num_computed_tokens n s') = same_tokens s s'" "same_tokens s (s'\<lparr>recurrent_state_idx := x\<rparr>) = same_tokens s s'"
  "same_tokens s (s'\<lparr>prefix_cache_hit_recorded := b\<rparr>) = same_tokens s s'"
  by (simp_all add: same_tokens_def set_state_def set_prefix_cache_len_def set_num_computed_tokens_def get_toks_def seq_len_def
      active_staged_speculative_len_def cong: option.case_cong)

lemma same_tokens_clear: "same_tokens s s' \<Longrightarrow> same_tokens s (clear_staged_speculative_tokens s')"
  by (auto simp: same_tokens_def clear_staged_speculative_tokens_def get_toks_def seq_len_def
      active_staged_speculative_len_def cong: option.case_cong)

lemma seq_fits_same: "seq_fits T s \<Longrightarrow> same_tokens s s' \<Longrightarrow> seq_fits T s'"
  by (auto simp: seq_fits_def same_tokens_def)

lemma turn_facts:
  assumes st: "start_ok env T d0" and inv: "turn_inv env T d0 busy extra d"
  shows "manager_ok env (kv_cache_manager d)" and "ps_block_size d = block_size (kv_cache_manager d)" and "0 < ps_block_size d"
    and "caching_enabled (kv_cache_manager d)" and "kv_cache_group_ids (kv_cache_manager d) \<noteq> []"
    and "num_usable_blocks (kv_cache_manager d) * ps_block_size d \<le> usize_max"
    and "distinct (ps_running d @ ps_waiting d @ busy @ extra)"
    and "set (ps_running d @ ps_waiting d @ busy @ extra) \<subseteq> set (all_ids d0)"
    and "length (ps_running d @ busy) \<le> length (all_ids d0)"
    and "i \<in> set (ps_running d @ ps_waiting d @ busy @ extra) \<Longrightarrow> seq_fits T (seqs d i)"
    and "T \<le> u32_max" and "debug_assertions env"
    and "num_usable_blocks (kv_cache_manager d) = num_usable_blocks (kv_cache_manager d0)" and "ps_block_size d = ps_block_size d0"
proof -
  obtain sent :: "(nat \<times> Response) list" where sent: "mset (ps_running d @ ps_waiting d @ busy @ extra @ map fst sent) = mset (all_ids d0)"
    using inv unfolding turn_inv_def by blast
  show ok: "manager_ok env (kv_cache_manager d)" using inv by (simp add: turn_inv_def)
  have ok0: "manager_ok env (kv_cache_manager d0)" using st by (simp add: start_ok_def)
  have su: "same_setup d0 d" using inv by (simp add: turn_inv_def)
  then have g: "same_geometry (kv_cache_manager d0) (kv_cache_manager d)" by (simp add: same_setup_def)
  note gf = geometry_fields(1-3) [OF g] geometry_fields(4,5) [OF g ok0 ok]
  show bs: "ps_block_size d = block_size (kv_cache_manager d)" using su st gf(1) by (simp add: same_setup_def start_ok_def)
  show "0 < ps_block_size d" using bs manager_parts(3) [OF ok] by simp
  show "caching_enabled (kv_cache_manager d)" "kv_cache_group_ids (kv_cache_manager d) \<noteq> []"
    using gf(4,5) st by (simp_all add: start_ok_def)
  show "num_usable_blocks (kv_cache_manager d) = num_usable_blocks (kv_cache_manager d0)" by (rule gf(2))
  have use: "num_usable_blocks (kv_cache_manager d0) * ps_block_size d0 \<le> usize_max" using st unfolding start_ok_def by blast
  show eq: "ps_block_size d = ps_block_size d0" using su by (simp add: same_setup_def)
  show "num_usable_blocks (kv_cache_manager d) * ps_block_size d \<le> usize_max"
    using use unfolding gf(2) eq .
  have "distinct (ps_running d @ ps_waiting d @ busy @ extra @ map fst sent)"
    using mset_eq_imp_distinct_iff [OF sent] st by (simp add: start_ok_def)
  then show "distinct (ps_running d @ ps_waiting d @ busy @ extra)" by auto
  show sub: "set (ps_running d @ ps_waiting d @ busy @ extra) \<subseteq> set (all_ids d0)"
    using mset_eq_setD [OF sent] by auto
  show "length (ps_running d @ busy) \<le> length (all_ids d0)" using mset_eq_length [OF sent] by simp
  show "seq_fits T (seqs d i)" if "i \<in> set (ps_running d @ ps_waiting d @ busy @ extra)"
  proof (rule seq_fits_same)
    have "i \<in> set (all_ids d0)" using that sub by blast
    then show "seq_fits T (seqs d0 i)" using st unfolding start_ok_def by blast
    show "same_tokens (seqs d0 i) (seqs d i)" using inv unfolding turn_inv_def by blast
  qed
  show "T \<le> u32_max" using st by (auto simp: start_ok_def)
  show "debug_assertions env" using st by (simp add: start_ok_def)
qed

lemma turn_prefix_in_range:
  assumes st: "start_ok env T d0" and inv: "turn_inv env T d0 busy extra d"
    and bs: "\<forall>b \<in> set bs. real_block (block_pool (kv_cache_manager d)) b" "length bs \<le> T"
  shows "valid_prefix (kv_cache_manager d) bs"
proof (rule prefix_in_range [where rs = "ps_running d @ busy" and T = T])
  note f = turn_facts [OF st inv]
  show "manager_ok env (kv_cache_manager d)" "caching_enabled (kv_cache_manager d)" using f by simp_all
  show "dom (tables (kv_cache_manager d)) \<subseteq> set (ps_running d @ busy)" using inv by (simp add: turn_inv_def)
  have "(length (all_ids d0) + 1) * T \<le> u32_max" using st by (simp add: start_ok_def)
  then show "(length (ps_running d @ busy) + 1) * T \<le> u32_max"
    using f(9) mult_le_mono1 [of "length (ps_running d @ busy) + 1" "length (all_ids d0) + 1" T] by linarith
  show "tables (kv_cache_manager d) r = Some req \<Longrightarrow> length (block_ids req) \<le> T" for r req
    using inv by (simp add: turn_inv_def)
qed (use bs in simp_all)

text \<open>A step that sends no response and changes only sequences in its places.\<close>

lemma turn_move:
  assumes inv: "turn_inv env T d0 busy extra d" and ok: "manager_ok env (kv_cache_manager d')" and su: "same_setup d d'"
    and resp: "responses d' = responses d" and toks: "\<And>i. same_tokens (seqs d i) (seqs d' i)"
    and other: "\<And>i. i \<notin> set (ps_running d @ ps_waiting d @ busy @ extra) \<Longrightarrow> seq_state (seqs d' i) = seq_state (seqs d i)"
    and ids: "mset (ps_running d' @ ps_waiting d' @ busy' @ extra') = mset (ps_running d @ ps_waiting d @ busy @ extra)"
    and dist: "distinct (all_ids d0)"
    and dom: "dom (tables (kv_cache_manager d')) \<subseteq> set (ps_running d' @ busy')"
    and len: "\<And>r req. tables (kv_cache_manager d') r = Some req \<Longrightarrow> length (block_ids req) \<le> T"
    and run: "\<And>i. i \<in> set (ps_running d' @ busy') \<Longrightarrow> live (seqs d' i) \<and> (is_prompt (seqs d' i) \<longrightarrow> covered d' i)"
    and wait: "\<And>i. i \<in> set (ps_waiting d' @ extra') \<Longrightarrow> is_waiting (seqs d' i)"
  shows "turn_inv env T d0 busy' extra' d'"
proof -
  obtain sent where sent: "responses d = responses d0 @ sent"
    "mset (ps_running d @ ps_waiting d @ busy @ extra @ map fst sent) = mset (all_ids d0)"
    "\<forall>x \<in> set sent. refusal_ok d0 x \<and> seq_state (seqs d (fst x)) = FinishedIgnored"
    using inv unfolding turn_inv_def by blast
  have "distinct (ps_running d @ ps_waiting d @ busy @ extra @ map fst sent)"
    using mset_eq_imp_distinct_iff [OF sent(2)] dist by simp
  then have "fst x \<notin> set (ps_running d @ ps_waiting d @ busy @ extra)" if "x \<in> set sent" for x using that by auto
  then have "\<forall>x \<in> set sent. refusal_ok d0 x \<and> seq_state (seqs d' (fst x)) = FinishedIgnored"
    using sent(3) other by metis
  moreover have "mset (ps_running d' @ ps_waiting d' @ busy' @ extra' @ map fst sent) = mset (all_ids d0)"
  proof -
    have "mset (ps_running d' @ ps_waiting d' @ busy' @ extra' @ map fst sent) =
        mset (ps_running d' @ ps_waiting d' @ busy' @ extra') + mset (map fst sent)" by (simp add: add.assoc)
    also have "\<dots> = mset (ps_running d @ ps_waiting d @ busy @ extra @ map fst sent)"
      unfolding ids by (simp add: add.assoc)
    finally show ?thesis unfolding sent(2) .
  qed
  moreover have "same_setup d0 d'"
    using su inv by (auto simp: turn_inv_def same_setup_def intro: same_geometry_trans)
  moreover have "\<forall>i. same_tokens (seqs d0 i) (seqs d' i)"
    using toks inv by (auto simp: turn_inv_def intro: same_tokens_trans)
  ultimately show ?thesis
    unfolding turn_inv_def using ok resp sent(1) dom len run wait by (intro conjI exI [of _ sent]) auto
qed

end
