(* ===== verification/Paged_Admission.thy ===== *)
theory Paged_Admission
  imports Paged_Invariant
begin

text \<open>
  Preemption and admission: every step of the admission loop of \<open>schedule\<close> returns and keeps the invariant of the turn.
\<close>

section \<open>Block hashes and preemption\<close>

lemma ensure_hashes_total:
  assumes "0 < ps_block_size d"
  shows "returns (ensure_hashes h i d) (\<lambda>d'. \<exists>hs rs ns. d' = d\<lparr>seq_block_hashes := hs, seq_block_hash_revisions := rs\<rparr> \<and>
    hs i = Some ns \<and> length (get_toks (seqs d i)) div ps_block_size d \<le> length ns)"
proof -
  consider (keep) hs where "seq_block_hashes d i = Some hs" "seq_block_hash_revisions d i = Some (block_hash_revision (seqs d i))"
      "length (get_toks (seqs d i)) div ps_block_size d \<le> length hs"
    | (grow) hs where "seq_block_hashes d i = Some hs" "seq_block_hash_revisions d i = Some (block_hash_revision (seqs d i))"
      "length hs < length (get_toks (seqs d i)) div ps_block_size d"
    | (rebuild) "block_hash_update d i (length (get_toks (seqs d i))) (block_hash_revision (seqs d i)) = Inr (Some Rebuild)"
    using assms by (cases "seq_block_hashes d i"; cases "seq_block_hash_revisions d i") (fastforce simp: block_hash_update_def)+
  then show ?thesis
  proof cases
    case keep
    then have "ensure_hashes h i d = Inr d"
      using assms by (simp add: ensure_hashes_def ensure_block_hashes_def block_hash_update_def Let_def)
    moreover have "\<exists>hs' rs ns. d = d\<lparr>seq_block_hashes := hs', seq_block_hash_revisions := rs\<rparr> \<and> hs' i = Some ns \<and>
        length (get_toks (seqs d i)) div ps_block_size d \<le> length ns"
      using keep by (intro exI [of _ "seq_block_hashes d"] exI [of _ "seq_block_hash_revisions d"] exI [of _ hs]) simp
    ultimately show ?thesis by simp
  next
    case grow
    then obtain ns where "ensure_hashes h i d = Inr (d\<lparr>seq_block_hashes := (seq_block_hashes d)(i \<mapsto> ns)\<rparr>)"
      "length (get_toks (seqs d i)) div ps_block_size d \<le> length ns"
      using assms by (simp add: ensure_hashes_def ensure_block_hashes_def block_hash_update_def compute_new_block_hashes_def Let_def)
    then show ?thesis
      by (auto intro!: exI [of _ "(seq_block_hashes d)(i \<mapsto> ns)"] exI [of _ "seq_block_hash_revisions d"] exI [of _ ns])
  next
    case rebuild
    then show ?thesis
      using assms by (auto simp: ensure_hashes_def ensure_block_hashes_def compute_block_hashes_def Let_def)
  qed
qed

lemma modify_seq_more [simp]:
  "preempted_sequence_ids (modify_seq i f d) = preempted_sequence_ids d" "responses (modify_seq i f d) = responses d"
  "seq_block_hashes (modify_seq i f d) = seq_block_hashes d"
  by (simp_all add: modify_seq_def)

lemma same_setup_kv:
  "same_geometry (kv_cache_manager d) kv \<Longrightarrow> same_setup d (d\<lparr>kv_cache_manager := kv\<rparr>)"
  by (simp add: same_setup_def)

lemma preempt_total:
  assumes st: "start_ok env T d0" and inv: "turn_inv env T d0 (i # busy) extra d"
  shows "returns (preempt env h i d) (\<lambda>d'. turn_inv env T d0 busy extra d' \<and> ps_running d' = ps_running d \<and>
    ps_waiting d' = i # ps_waiting d \<and> tables (kv_cache_manager d') = (tables (kv_cache_manager d))(i := None) \<and>
    (\<forall>j. j \<noteq> i \<longrightarrow> seqs d' j = seqs d j))"
proof -
  note f = turn_facts [OF st inv]
  let ?s = "clear_staged_speculative_tokens (set_prefix_cache_len 0 (set_state Waiting (seqs d i)))"
  let ?s' = "set_num_computed_tokens 0 ?s"
  let ?d = "(modify_seq i (\<lambda>s. clear_staged_speculative_tokens (set_prefix_cache_len 0 (set_state Waiting s))) d)
      \<lparr>preempted_sequence_ids := preempted_sequence_ids d @ [i]\<rparr>"
  have fits: "seq_fits T (seqs d i)" using f(10) by simp
  have toks: "same_tokens (seqs d i) ?s" "same_tokens (seqs d i) ?s'" by (simp_all add: same_tokens_clear)
  have live: "live (seqs d i)" using inv by (simp add: turn_inv_def)
  then have alive: "\<not> is_finished_paged_attn (seqs d i)"
    by (auto simp: live_def is_prompt_def is_completion_def is_finished_paged_attn_def)
  have computed: "seq_computed ?s div ps_block_size d \<le> length (get_toks (seqs d i)) div ps_block_size d"
    using seq_computed_le [of ?s] toks(1) fits by (intro div_le_mono) (simp add: same_tokens_def seq_fits_def)
  have bs: "0 < ps_block_size ?d" and sq: "seqs ?d i = ?s" using f(3) by (simp_all add: modify_seq_def)
  obtain d1 where d1: "ensure_hashes h i ?d = Inr d1"
    "\<exists>hs rs ns. d1 = ?d\<lparr>seq_block_hashes := hs, seq_block_hash_revisions := rs\<rparr> \<and> hs i = Some ns \<and>
       length (get_toks ?s) div ps_block_size d \<le> length ns"
    using ensure_hashes_total [OF bs, of h i] by (auto simp: returns_iff modify_seq_def)
  then obtain hs rs ns where d1': "d1 = ?d\<lparr>seq_block_hashes := hs, seq_block_hash_revisions := rs\<rparr>" "hs i = Some ns"
    "seq_computed ?s div ps_block_size d \<le> length ns"
    using computed toks(1) by (fastforce simp: same_tokens_def)
  let ?d2 = "modify_seq i (set_num_computed_tokens 0) d1" and ?kv = "kv_cache_manager d"
  have len: "tables ?kv r = Some req \<Longrightarrow> length (block_ids req) \<le> T" for r req using inv by (simp add: turn_inv_def)
  have "returns (and_then (if prefix_caching_enabled d then cache_blocks env i ns (seq_computed ?s) ?kv else Inr ?kv) (free_request env i))
      (\<lambda>kv. manager_ok env kv \<and> same_geometry ?kv kv \<and> tables kv = (tables ?kv)(i := None))"
  proof (rule returns_bind)
    show "returns (if prefix_caching_enabled d then cache_blocks env i ns (seq_computed ?s) ?kv else Inr ?kv)
      (\<lambda>kv. manager_ok env kv \<and> same_geometry ?kv kv \<and>
        (\<exists>v. tables kv = (tables ?kv)(i := v) \<and> (\<forall>req. v = Some req \<longrightarrow> length (block_ids req) \<le> T)))"
    proof (cases "prefix_caching_enabled d")
      case True
      then show ?thesis
        using cache_blocks_total [OF f(1), of "seq_computed ?s" ns i] d1'(3) f(2) len
        by (auto elim!: returns_mono)
    next
      case False
      then show ?thesis using f(1) len by (auto intro!: exI [of _ "tables ?kv i"])
    qed
    fix kv assume kv: "manager_ok env kv \<and> same_geometry ?kv kv \<and>
        (\<exists>v. tables kv = (tables ?kv)(i := v) \<and> (\<forall>req. v = Some req \<longrightarrow> length (block_ids req) \<le> T))"
    then have "tables kv i = Some req \<Longrightarrow> length (block_ids req) \<le> u32_max" for req using f(11) by auto
    then show "returns (free_request env i kv) (\<lambda>kv. manager_ok env kv \<and> same_geometry ?kv kv \<and> tables kv = (tables ?kv)(i := None))"
      using free_request_total [of env kv i] kv by (auto elim!: returns_mono intro: same_geometry_trans)
  qed
  then obtain kv1 kv where kv1: "(if prefix_caching_enabled d then cache_blocks env i ns (seq_computed ?s) ?kv else Inr ?kv) = Inr kv1"
      "free_request env i kv1 = Inr kv" and kv: "manager_ok env kv" "same_geometry ?kv kv" "tables kv = (tables ?kv)(i := None)"
    unfolding returns_iff and_then_eq_Inr by blast
  let ?e = "?d2\<lparr>kv_cache_manager := kv, ps_waiting := i # ps_waiting d\<rparr>"
  have run: "preempt env h i d = Inr ?e"
    using alive d1(1) d1'(2) kv1
    by (cases "prefix_caching_enabled d") (simp_all add: preempt_def Let_def hashes_of_def d1'(1))
  have sq2: "seqs ?e = (seqs d)(i := ?s')" by (simp add: d1'(1) modify_seq_def)
  have "turn_inv env T d0 busy extra ?e"
  proof (rule turn_move [OF inv])
    show "manager_ok env (kv_cache_manager ?e)" by (simp add: kv)
    show "same_setup d ?e" using kv(2) by (simp add: same_setup_def d1'(1) modify_seq_def)
    show "distinct (all_ids d0)" using st by (simp add: start_ok_def)
    show "same_tokens (seqs d j) (seqs ?e j)" for j using toks(2) by (simp add: sq2)
    show "dom (tables (kv_cache_manager ?e)) \<subseteq> set (ps_running ?e @ busy)"
      using inv by (auto simp: turn_inv_def kv(3) d1'(1) modify_seq_def split: if_splits)
    show "live (seqs ?e j) \<and> (is_prompt (seqs ?e j) \<longrightarrow> covered ?e j)" if "j \<in> set (ps_running ?e @ busy)" for j
    proof -
      have "j \<noteq> i" "j \<in> set (ps_running d @ i # busy)" using that f(7) by (auto simp: d1'(1))
      then show ?thesis using inv by (auto simp: turn_inv_def sq2 covered_def kv(3) d1'(1) modify_seq_def)
    qed
    show "is_waiting (seqs ?e j)" if "j \<in> set (ps_waiting ?e @ extra)" for j
      using that inv by (auto simp: turn_inv_def sq2 is_waiting_def set_num_computed_tokens_def clear_staged_speculative_tokens_def
          set_prefix_cache_len_def)
    show "tables (kv_cache_manager ?e) r = Some req \<Longrightarrow> length (block_ids req) \<le> T" for r req
      using len [of r req] by (simp add: kv(3) split: if_splits)
  qed (auto simp: sq2 d1'(1) modify_seq_def)
  then show ?thesis by (simp add: run sq2 kv(3)) (simp add: d1'(1))
qed

section \<open>Admitting the front of the waiting queue\<close>

text \<open>The invariant depends on the manager through its tables only.\<close>

lemma turn_inv_kv:
  assumes "turn_inv env T d0 busy extra d" and "manager_ok env kv" and "same_geometry (kv_cache_manager d) kv"
    and "tables kv = tables (kv_cache_manager d)"
  shows "turn_inv env T d0 busy extra (d\<lparr>kv_cache_manager := kv\<rparr>)"
  using assms unfolding turn_inv_def
  by (auto simp: covered_def same_setup_def intro: same_geometry_trans)

text \<open>The fields that the invariant does not mention.\<close>

lemma turn_inv_other [simp]:
  "turn_inv env T d0 busy extra (d\<lparr>waiting_counts := wc\<rparr>) = turn_inv env T d0 busy extra d"
  "turn_inv env T d0 busy extra (d\<lparr>seq_block_hashes := hs\<rparr>) = turn_inv env T d0 busy extra d"
  "turn_inv env T d0 busy extra (d\<lparr>seq_block_hash_revisions := rs\<rparr>) = turn_inv env T d0 busy extra d"
  "turn_inv env T d0 busy extra (d\<lparr>next_prompt_sequence_id := np\<rparr>) = turn_inv env T d0 busy extra d"
  "turn_inv env T d0 busy extra (d\<lparr>completion_cursor := cc\<rparr>) = turn_inv env T d0 busy extra d"
  "turn_inv env T d0 busy extra (d\<lparr>decode_steps_since_prefill := ds\<rparr>) = turn_inv env T d0 busy extra d"
  "turn_inv env T d0 busy extra (d\<lparr>prompt_admission_epoch := pe\<rparr>) = turn_inv env T d0 busy extra d"
  "turn_inv env T d0 busy extra (d\<lparr>finished_recurrent_slots := fs\<rparr>) = turn_inv env T d0 busy extra d"
  by (simp_all add: turn_inv_def same_setup_def covered_def)

definition prompt_blocks :: "PagedAttentionScheduler \<Rightarrow> nat \<Rightarrow> nat" where
  "prompt_blocks d i = div_ceil (length (get_toks (seqs d i))) (ps_block_size d)"

text \<open>A waiting sequence that has its blocks, before it is moved to the running queue.\<close>

definition admitted :: "rt_env \<Rightarrow> nat \<Rightarrow> PagedAttentionScheduler \<Rightarrow> nat list \<Rightarrow> nat \<Rightarrow> PagedAttentionScheduler \<Rightarrow> bool" where
  "admitted env T d0 extra i d \<longleftrightarrow>
     (\<exists>kv req. turn_inv env T d0 [] extra (d\<lparr>kv_cache_manager := kv\<rparr>) \<and> same_geometry kv (kv_cache_manager d) \<and>
        manager_ok env (kv_cache_manager d) \<and> tables kv i = None \<and>
        tables (kv_cache_manager d) = (tables kv)(i \<mapsto> req) \<and> prompt_blocks d i \<le> reach req \<and> length (block_ids req) \<le> T)"

lemma admitted_counts [simp]:
  "admitted env T d0 extra i (d\<lparr>waiting_counts := wc\<rparr>) = admitted env T d0 extra i d"
proof -
  have "turn_inv env T d0 [] extra (d\<lparr>waiting_counts := wc, kv_cache_manager := kv\<rparr>) =
      turn_inv env T d0 [] extra (d\<lparr>kv_cache_manager := kv\<rparr>)" for kv
    by (simp add: turn_inv_def same_setup_def covered_def)
  then show ?thesis by (simp add: admitted_def prompt_blocks_def)
qed

lemma waiting_no_table:
  assumes st: "start_ok env T d0" and inv: "turn_inv env T d0 [] extra d" and "i \<in> set (ps_waiting d @ extra)"
  shows "tables (kv_cache_manager d) i = None"
proof -
  have "i \<notin> set (ps_running d)" using turn_facts(7) [OF st inv] assms(3) by auto
  moreover have "dom (tables (kv_cache_manager d)) \<subseteq> set (ps_running d)" using inv by (simp add: turn_inv_def)
  ultimately show ?thesis by blast
qed

lemma prompt_blocks_le: "0 < ps_block_size d \<Longrightarrow> seq_fits T (seqs d i) \<Longrightarrow> prompt_blocks d i \<le> T"
  unfolding prompt_blocks_def
  by (rule div_ceil_least) (auto simp: seq_fits_def intro: order_trans [of _ T] mult_le_mono1 [of 1, simplified])

lemma admit_request_total:
  assumes st: "start_ok env T d0" and inv: "turn_inv env T d0 [] extra d" and i: "i \<in> set (ps_waiting d)"
    and bs: "\<forall>b \<in> set bs. real_block (block_pool (kv_cache_manager d)) b" "length bs \<le> T"
  shows "returns (admit_request env lazy i (length (get_toks (seqs d i))) bs d) (\<lambda>(ok, d'). \<exists>kv. d' = d\<lparr>kv_cache_manager := kv\<rparr> \<and>
    same_geometry (kv_cache_manager d) kv \<and>
    (if ok then admitted env T d0 extra i d'
     else d' = d \<and> \<not> (length bs \<le> prompt_blocks d i \<and> prompt_fits (kv_cache_manager d) (prompt_blocks d i) bs)))"
proof -
  note f = turn_facts [OF st inv]
  let ?kv = "kv_cache_manager d" and ?n = "length (get_toks (seqs d i))"
  have fits: "seq_fits T (seqs d i)" using f(10) i by simp
  have k: "div_ceil ?n (block_size ?kv) = prompt_blocks d i" "prompt_blocks d i \<le> T"
    using f(2,3) prompt_blocks_le [OF f(3) fits] by (simp_all add: prompt_blocks_def)
  have none: "tables ?kv i = None" using waiting_no_table [OF st inv] i by simp
  have v: "valid_prefix ?kv bs" by (rule turn_prefix_in_range [OF st inv bs])
  have small: "u32_max \<le> usize_max" by (simp add: int_max_defs)
  have n: "?n \<le> usize_max" "length bs \<le> u32_max" using fits f(11) bs(2) small by (auto simp: seq_fits_def)
  have adm: "admitted env T d0 extra i (d\<lparr>kv_cache_manager := kv\<rparr>)"
    if "manager_ok env kv" "same_geometry ?kv kv" "tables kv = (tables ?kv)(i \<mapsto> req)" "prompt_blocks d i \<le> reach req"
      "length (block_ids req) \<le> T" for kv req
    unfolding admitted_def using that inv none
    by (intro exI [of _ ?kv] exI [of _ req]) (simp add: prompt_blocks_def)
  show ?thesis
  proof (cases lazy)
    case True
    obtain res kv where r: "reserve_prompt env i ?n bs ?kv = Inr (res, kv)" "manager_ok env kv" "same_geometry ?kv kv"
      "case res of
         None \<Rightarrow> kv = ?kv \<and> (prompt_blocks d i < length bs \<or> \<not> prompt_fits ?kv (prompt_blocks d i) bs)
       | Some _ \<Rightarrow> \<exists>req. tables kv = (tables ?kv)(i \<mapsto> req) \<and> prompt_blocks d i \<le> reach req \<and> length (block_ids req) = length bs"
      using reserve_prompt_total [OF f(1) none v n(2,1)] unfolding k(1) returns_iff by blast
    show ?thesis
    proof (cases res)
      case None
      then show ?thesis using True r by (auto simp: admit_request_def intro!: exI [of _ ?kv])
    next
      case (Some u)
      then show ?thesis using True r adm [OF r(2,3)] bs(2) by (auto simp: admit_request_def)
    qed
  next
    case False
    have "returns (allocate_slots env i ?n bs ?kv) (\<lambda>(res, kv). manager_ok env kv \<and> same_geometry ?kv kv \<and>
      (case res of
         None \<Rightarrow> kv = ?kv \<and> \<not> prompt_fits ?kv (prompt_blocks d i) bs
       | Some _ \<Rightarrow> \<exists>req. tables kv = (tables ?kv)(i \<mapsto> req) \<and> prompt_blocks d i \<le> reach req \<and> length (block_ids req) \<le> T))"
    proof (rule returns_mono [OF allocate_slots_total [OF f(1,12), of i bs ?n]])
      show "valid_prefix ?kv bs \<and> length bs \<le> u32_max" "?n \<le> usize_max" using v n by simp_all
    qed (use none k bs(2) in \<open>auto simp: reach_def split: option.splits\<close>)
    then obtain res kv where r: "allocate_slots env i ?n bs ?kv = Inr (res, kv)" "manager_ok env kv" "same_geometry ?kv kv"
      "case res of
         None \<Rightarrow> kv = ?kv \<and> \<not> prompt_fits ?kv (prompt_blocks d i) bs
       | Some _ \<Rightarrow> \<exists>req. tables kv = (tables ?kv)(i \<mapsto> req) \<and> prompt_blocks d i \<le> reach req \<and> length (block_ids req) \<le> T"
      unfolding returns_iff by blast
    show ?thesis
    proof (cases res)
      case None
      then show ?thesis using False r by (auto simp: admit_request_def intro!: exI [of _ ?kv])
    next
      case (Some u)
      then show ?thesis using False r adm [OF r(2,3)] by (auto simp: admit_request_def)
    qed
  qed
qed

text \<open>The loop rule of \<open>preempt_until\<close> for total correctness.\<close>

lemma preempt_until_total:
  assumes "I False d sched"
    and "\<And>d sched p rest. I False d sched \<Longrightarrow> ps_running d = rest @ [p] \<Longrightarrow>
      \<exists>w ws. ps_waiting d = w # ws \<and> returns (preempt env h p (d\<lparr>ps_running := rest, ps_waiting := ws\<rparr>)) (\<lambda>d1.
        returns (admit_request env lazy i n bs (d1\<lparr>ps_waiting := w # ps_waiting d1\<rparr>)) (\<lambda>(ok, d2). I ok d2 (filter (\<lambda>j. j \<noteq> p) sched)))"
  shows "returns (preempt_until env h lazy i n bs (d, sched)) (\<lambda>(ok, d', sched'). I ok d' sched' \<and> (\<not> ok \<longrightarrow> ps_running d' = []))"
  using assms(1)
proof (induction "length (ps_running d)" arbitrary: d sched rule: less_induct)
  case less
  show ?case
  proof (cases "ps_running d" rule: rev_cases)
    case Nil
    then show ?thesis using less.prems by (simp add: preempt_until.simps vec_pop_def)
  next
    case (snoc rest p)
    obtain w ws where w: "ps_waiting d = w # ws"
      "returns (preempt env h p (d\<lparr>ps_running := rest, ps_waiting := ws\<rparr>)) (\<lambda>d1.
        returns (admit_request env lazy i n bs (d1\<lparr>ps_waiting := w # ps_waiting d1\<rparr>)) (\<lambda>(ok, d2). I ok d2 (filter (\<lambda>j. j \<noteq> p) sched)))"
      using assms(2) [OF less.prems snoc] by blast
    then obtain d1 ok d2 where s: "preempt env h p (d\<lparr>ps_running := rest, ps_waiting := ws\<rparr>) = Inr d1"
      "admit_request env lazy i n bs (d1\<lparr>ps_waiting := w # ps_waiting d1\<rparr>) = Inr (ok, d2)" "I ok d2 (filter (\<lambda>j. j \<noteq> p) sched)"
      by (auto simp: returns_iff)
    have "ps_running d2 = rest"
      using preempt_running [of env h p "d\<lparr>ps_running := rest, ps_waiting := ws\<rparr>"] s(1)
        admit_request_frame [of env lazy i n bs "d1\<lparr>ps_waiting := w # ps_waiting d1\<rparr>"] s(2) by auto
    then have "\<not> ok \<Longrightarrow> returns (preempt_until env h lazy i n bs (d2, filter (\<lambda>j. j \<noteq> p) sched))
        (\<lambda>(ok, d', sched'). I ok d' sched' \<and> (\<not> ok \<longrightarrow> ps_running d' = []))"
      using less.hyps [of d2 "filter (\<lambda>j. j \<noteq> p) sched"] s(3) snoc by simp
    then show ?thesis
      using s by (subst preempt_until.simps) (cases ok, simp_all add: snoc w(1) vec_pop_def Let_def)
  qed
qed

text \<open>The prompts scheduled so far: distinct running prompts with tokens left to compute.\<close>

definition sched_list :: "PagedAttentionScheduler \<Rightarrow> nat list \<Rightarrow> bool" where
  "sched_list d sched \<longleftrightarrow> distinct sched \<and> set sched \<subseteq> set (ps_running d) \<and>
     (\<forall>j \<in> set sched. is_prompt (seqs d j) \<and> seq_computed (seqs d j) < seq_len (seqs d j))"

lemma allocate_waiting_total:
  assumes st: "start_ok env T d0" and inv: "turn_inv env T d0 [] extra d" and w: "ps_waiting d = i # ws"
    and bs: "\<forall>b \<in> set bs. real_block (block_pool (kv_cache_manager d)) b" "length bs \<le> prompt_blocks d i"
    and cap: "length (get_toks (seqs d i)) \<le> num_usable_blocks (kv_cache_manager d) * ps_block_size d"
    and sch: "sched_list d sched"
  shows "returns (allocate_waiting env h lazy i (length (get_toks (seqs d i))) bs (d, sched)) (\<lambda>(r, d', sched').
    (\<exists>ws'. ps_waiting d' = i # ws') \<and> sched_list d' sched' \<and> seqs d' i = seqs d i \<and>
    (r = Admitted \<and> admitted env T d0 extra i d' \<or> r = StopAdmission \<and> turn_inv env T d0 [] extra d'))"
proof -
  let ?n = "length (get_toks (seqs d i))" and ?k = "prompt_blocks d i"
  note f = turn_facts [OF st inv]
  have "?k \<le> num_usable_blocks (kv_cache_manager d)"
    unfolding prompt_blocks_def by (rule div_ceil_least [OF f(3) cap])
  then have usable: "?k \<le> num_usable_blocks (kv_cache_manager d0)" using f(13) by simp
  have lenT: "length bs \<le> T" using bs(2) prompt_blocks_le [OF f(3), of T i] f(10) w by simp
  define at where "at = (\<lambda>e :: PagedAttentionScheduler. (\<exists>ws'. ps_waiting e = i # ws') \<and> seqs e i = seqs d i \<and>
    ps_block_size e = ps_block_size d \<and> same_geometry (kv_cache_manager d) (kv_cache_manager e))"
  have real: "\<forall>b \<in> set bs. real_block (block_pool (kv_cache_manager e)) b" if "at e" for e
    using that bs(1) geometry_fields(3) by (auto simp: at_def)
  define I where "I = (\<lambda>ok (e :: PagedAttentionScheduler) sched'. at e \<and> sched_list e sched' \<and>
    (if ok then admitted env T d0 extra i e
     else turn_inv env T d0 [] extra e \<and> \<not> prompt_fits (kv_cache_manager e) ?k bs))"
  have admit: "returns (admit_request env lazy i ?n bs e) (\<lambda>(ok, e'). I ok e' sched')"
    if e: "turn_inv env T d0 [] extra e" "at e" "sched_list e sched'" for e sched'
  proof -
    have pk: "get_toks (seqs e i) = get_toks (seqs d i)" "prompt_blocks e i = ?k" "i \<in> set (ps_waiting e)"
      using e(2) by (auto simp: at_def prompt_blocks_def)
    have "I ok e' sched'" if "\<exists>kv. e' = e\<lparr>kv_cache_manager := kv\<rparr> \<and> same_geometry (kv_cache_manager e) kv \<and>
      (if ok then admitted env T d0 extra i e' else e' = e \<and>
       \<not> (length bs \<le> ?k \<and> prompt_fits (kv_cache_manager e) ?k bs))" for ok e'
      using that e bs(2) by (auto simp: I_def at_def sched_list_def intro: same_geometry_trans split: if_splits)
    then show ?thesis
      using admit_request_total [OF st e(1) pk(3) real [OF e(2)] lenT, of lazy] unfolding pk(1,2)
      by (auto elim!: returns_mono)
  qed
  have loop: "returns (preempt_until env h lazy i ?n bs (e, sched')) (\<lambda>(ok, d', sched'). I ok d' sched' \<and> (\<not> ok \<longrightarrow> ps_running d' = []))"
    if "I False e sched'" for e sched' using that
  proof (rule preempt_until_total)
    fix e sched' p rest assume I: "I False e sched'" and p: "ps_running e = rest @ [p]"
    then have e: "at e" "sched_list e sched'" "turn_inv env T d0 [] extra e" by (auto simp: I_def)
    then obtain us where us: "ps_waiting e = i # us" by (auto simp: at_def)
    have pi: "p \<noteq> i" "p \<notin> set rest" using turn_facts(7) [OF st e(3)] p us by auto
    let ?e = "e\<lparr>ps_running := rest, ps_waiting := us\<rparr>"
    have "turn_inv env T d0 [p] (i # extra) ?e"
      by (rule turn_move [OF e(3)])
        (use e(3) p us st in \<open>auto simp: turn_inv_def start_ok_def same_setup_def covered_def\<close>)
    note pre = preempt_total [OF st this, of h]
    show "\<exists>w ws. ps_waiting e = w # ws \<and> returns (preempt env h p (e\<lparr>ps_running := rest, ps_waiting := ws\<rparr>)) (\<lambda>d1.
        returns (admit_request env lazy i ?n bs (d1\<lparr>ps_waiting := w # ps_waiting d1\<rparr>)) (\<lambda>(ok, d2). I ok d2 (filter (\<lambda>j. j \<noteq> p) sched')))"
    proof (intro exI conjI, rule us, rule returns_mono [OF pre], elim conjE)
      fix d1 assume d1: "turn_inv env T d0 [] (i # extra) d1" "ps_running d1 = ps_running ?e" "ps_waiting d1 = p # ps_waiting ?e"
        "tables (kv_cache_manager d1) = (tables (kv_cache_manager ?e))(p := None)" "\<forall>j. j \<noteq> p \<longrightarrow> seqs d1 j = seqs ?e j"
      let ?d1 = "d1\<lparr>ps_waiting := i # ps_waiting d1\<rparr>"
      have "turn_inv env T d0 [] extra ?d1"
        by (rule turn_move [OF d1(1)])
          (use d1(1) st in \<open>auto simp: turn_inv_def start_ok_def same_setup_def covered_def\<close>)
      moreover have "at ?d1"
        using d1 e(1,3) pi st by (auto simp: at_def turn_inv_def same_setup_def same_geometry_def)
      moreover have "sched_list ?d1 (filter (\<lambda>j. j \<noteq> p) sched')"
        using e(2) d1(2,5) p by (auto simp: sched_list_def)
      ultimately show "returns (admit_request env lazy i ?n bs ?d1) (\<lambda>(ok, d2). I ok d2 (filter (\<lambda>j. j \<noteq> p) sched'))"
        by (rule admit)
    qed
  qed
  have never: False if "I False e sched'" "ps_running e = []" for e sched'
  proof -
    have e: "turn_inv env T d0 [] extra e" "at e" "\<not> prompt_fits (kv_cache_manager e) ?k bs" using that(1) by (auto simp: I_def)
    have "tables (kv_cache_manager e) = Map.empty" using e(1) that(2) by (simp add: turn_inv_def)
    then show False
      using empty_manager_fits [OF turn_facts(1) [OF st e(1)] _ _ bs(2) real [OF e(2)]] usable turn_facts(13) [OF st e(1)] e(3)
      by simp
  qed
  have counts: "I ok (e\<lparr>waiting_counts := wc\<rparr>) sched' = I ok e sched'" for ok e wc sched'
    by (simp add: I_def at_def sched_list_def)
  have starve: "returns (preempt_until env h lazy i ?n bs (count_waiting i e, sched)) (\<lambda>(ok, d', sched'). ok \<and> I True d' sched')"
    if "I False e sched" for e
  proof -
    have "I False (count_waiting i e) sched" using that by (simp add: count_waiting_def counts)
    from loop [OF this] show ?thesis by (rule returns_mono) (auto, (metis (full_types) never)+)
  qed
  have "at d" using w by (simp add: at_def)
  note first = admit [OF inv this sch]
  have "returns (if ok then Inr (Admitted, reset_waiting i e, sched)
      else let d = count_waiting i e in
        if WAITING_TIMEOUT < waiting_count i d
        then if \<not> waiting_prompt_preemption_enabled d then Inr (StopAdmission, d, sched)
          else and_then (preempt_until env h lazy i ?n bs (d, sched)) (\<lambda>(allocated, d, sched).
            if allocated then Inr (Admitted, reset_waiting i d, sched) else Inr (Exhausted, d, sched))
        else Inr (StopAdmission, d, sched))
    (\<lambda>(r, d', sched'). r = Admitted \<and> I True d' sched' \<or> r = StopAdmission \<and> I False d' sched')"
    if "I ok e sched" for ok e
    using that starve [of e]
    by (cases ok) (auto simp: counts reset_waiting_def count_waiting_def Let_def elim!: returns_mono)
  then have "returns (allocate_waiting env h lazy i ?n bs (d, sched))
    (\<lambda>(r, d', sched'). r = Admitted \<and> I True d' sched' \<or> r = StopAdmission \<and> I False d' sched')"
    using first by (auto simp: allocate_waiting_def elim!: returns_mono)
  then show ?thesis by (rule returns_mono) (auto simp: I_def at_def)
qed

section \<open>Refusing and starting a sequence\<close>

lemma finish_front_total:
  assumes st: "start_ok env T d0" and inv: "turn_inv env T d0 [] extra d" and w: "ps_waiting d = i # rest"
    and ref: "refusal_ok d0 (i, response)" and sch: "sched_list d sched"
  shows "returns (finish_front_of_waiting env pv response (d, v)) (\<lambda>(d', v'). turn_inv env T d0 [] extra d' \<and>
    ps_waiting d' = rest \<and> sched_list d' sched)"
proof -
  note f = turn_facts [OF st inv]
  let ?kv = "kv_cache_manager d"
  have none: "tables ?kv i = None" using waiting_no_table [OF st inv] w by simp
  obtain kv where kv: "free_request env i ?kv = Inr kv" "manager_ok env kv" "same_geometry ?kv kv" "tables kv = (tables ?kv)(i := None)"
    using free_request_total [OF f(1), of i] none by (auto simp: returns_iff)
  obtain sent where sent: "responses d = responses d0 @ sent"
    "mset (ps_running d @ ps_waiting d @ [] @ extra @ map fst sent) = mset (all_ids d0)"
    "\<forall>x \<in> set sent. refusal_ok d0 x \<and> seq_state (seqs d (fst x)) = FinishedIgnored"
    using inv unfolding turn_inv_def by blast
  have dist: "distinct (ps_running d @ ps_waiting d @ [] @ extra @ map fst sent)"
    using mset_eq_imp_distinct_iff [OF sent(2)] st by (simp add: start_ok_def)
  have i: "i \<notin> set (ps_running d)" "i \<notin> set rest" "i \<notin> set extra" "i \<notin> fst ` set sent" using dist w by auto
  define fin where "fin = (\<lambda>released (s :: Sequence). let s = set_state FinishedIgnored s in if released then s\<lparr>recurrent_state_idx := None\<rparr> else s)"
  have fin: "same_tokens s (fin b s)" "seq_state (fin b s) = FinishedIgnored" for b s by (simp_all add: fin_def Let_def)
  have "turn_inv env T d0 [] extra d' \<and> ps_waiting d' = rest \<and> sched_list d' sched"
    if "seqs d' = (seqs d)(i := fin b (seqs d i))" "ps_running d' = ps_running d" "ps_waiting d' = rest" "kv_cache_manager d' = kv"
      "responses d' = responses d @ [(i, response)]" "ps_config d' = ps_config d" "ps_block_size d' = ps_block_size d"
      "prefix_caching_enabled d' = prefix_caching_enabled d" for d' b
  proof -
    have "\<exists>sent. responses d' = responses d0 @ sent \<and>
        mset (ps_running d' @ ps_waiting d' @ [] @ extra @ map fst sent) = mset (all_ids d0) \<and>
        (\<forall>x \<in> set sent. refusal_ok d0 x \<and> seq_state (seqs d' (fst x)) = FinishedIgnored)"
    proof (intro exI [of _ "sent @ [(i, response)]"] conjI)
      show "mset (ps_running d' @ ps_waiting d' @ [] @ extra @ map fst (sent @ [(i, response)])) = mset (all_ids d0)"
        using sent(2) w by (simp add: that)
      show "\<forall>x \<in> set (sent @ [(i, response)]). refusal_ok d0 x \<and> seq_state (seqs d' (fst x)) = FinishedIgnored"
        using sent(3) ref fin(2) by (auto simp: that(1))
    qed (use sent(1) that in simp)
    moreover have "\<forall>j. same_tokens (seqs d0 j) (seqs d' j)"
      using inv fin(1) by (auto simp: turn_inv_def that(1) intro: same_tokens_trans)
    moreover have "\<forall>j \<in> set (ps_running d' @ []). live (seqs d' j) \<and> (is_prompt (seqs d' j) \<longrightarrow> covered d' j)"
      using inv i(1) by (auto simp: turn_inv_def that(1,2,4,7) covered_def kv(4))
    moreover have "\<forall>j \<in> set (ps_waiting d' @ extra). is_waiting (seqs d' j)"
      using inv i(2,3) w by (auto simp: turn_inv_def that(1,3))
    moreover have "same_setup d0 d'"
      using inv kv(3) by (auto simp: turn_inv_def same_setup_def that intro: same_geometry_trans)
    moreover have "dom (tables kv) \<subseteq> set (ps_running d' @ [])" "\<forall>r req. tables kv r = Some req \<longrightarrow> length (block_ids req) \<le> T"
      using inv by (auto simp: turn_inv_def that kv(4) split: if_splits)
    ultimately have "turn_inv env T d0 [] extra d'" unfolding turn_inv_def that(4) using kv(2) by (intro conjI)
    moreover have "sched_list d' sched" using sch i(1) by (auto simp: sched_list_def that(1,2))
    ultimately show ?thesis using that(3) by simp
  qed
  note kept = this
  have "\<exists>d' v' b. finish_front_of_waiting env pv response (d, v) = Inr (d', v') \<and>
      seqs d' = (seqs d)(i := fin b (seqs d i)) \<and> ps_running d' = ps_running d \<and> ps_waiting d' = rest \<and> kv_cache_manager d' = kv \<and>
      responses d' = responses d @ [(i, response)] \<and> ps_config d' = ps_config d \<and> ps_block_size d' = ps_block_size d \<and>
      prefix_caching_enabled d' = prefix_caching_enabled d"
    using kv(1) w
    by (simp add: finish_front_of_waiting_def finish_ignored_sequence_def modify_seq_def Let_def fin_def split: prod.split option.split) blast
  then show ?thesis using kept by (auto simp: returns_iff)
qed

end
