(* ===== verification/Paged_Admission_Loop.thy ===== *)
theory Paged_Admission_Loop
  imports Paged_Admission
begin

text \<open>
  The admission loop of \<open>schedule\<close> returns and keeps the invariant, for every prefix validator whose commits leave the sequence
  alone (the engine's validator only reads its id).
\<close>

definition commits_keep_sequence :: "'v PagedPrefixCacheValidator option \<Rightarrow> bool" where
  "commits_keep_sequence pv \<longleftrightarrow>
     (\<forall>val. pv = Some val \<longrightarrow> (\<forall>s hs n bs v va v'. validate_prefix_cache_hit val s hs n bs v = (Inr va, v') \<longrightarrow>
        (\<forall>s v. fst (snd (commit_validation va s v)) = s)))"

section \<open>Cached prefixes\<close>

text \<open>A prefix the scheduler may start from: real blocks that back its tokens, and at least one token left.\<close>

definition usable_prefix :: "PagedAttentionScheduler \<Rightarrow> nat \<Rightarrow> ComputedBlocks \<Rightarrow> bool" where
  "usable_prefix d i c \<longleftrightarrow>
     (\<forall>b \<in> set (computed_block_ids c). real_block (block_pool (kv_cache_manager d)) b) \<and>
     num_computed_tokens c div ps_block_size d \<le> length (computed_block_ids c) \<and>
     num_computed_tokens c < length (get_toks (seqs d i))"

lemma clamp_hit_le: "clamp_prefix_cache_hit_len n bs fs \<le> n"
  using clamp_loop_spec [of bs fs n] by (simp add: clamp_prefix_cache_hit_len_def)

lemma usable_truncate:
  assumes "usable_prefix d i c" and "m \<le> num_computed_tokens c" and "n = m div ps_block_size d"
  shows "usable_prefix d i (truncate_computed n m c)"
proof -
  have "m div ps_block_size d \<le> num_computed_tokens c div ps_block_size d" by (rule div_le_mono [OF assms(2)])
  then show ?thesis using assms set_take_subset [of n "computed_block_ids c"] by (auto simp: usable_prefix_def truncate_computed_def)
qed

lemma lookup_prefix_total:
  assumes st: "start_ok env T d0" and inv: "turn_inv env T d0 busy extra d" and i: "i \<in> set (ps_waiting d)"
  shows "returns (lookup_prefix env i d) (usable_prefix d i)"
proof -
  note f = turn_facts [OF st inv]
  have fits: "seq_fits T (seqs d i)" using f(10) i by simp
  have "u32_max \<le> usize_max" by (simp add: int_max_defs)
  then have n: "length (get_toks (seqs d i)) \<le> usize_max" using fits f(11) by (simp add: seq_fits_def)
  have hit: "returns (if prefix_caching_enabled d \<and> \<not> return_raw_logits (seqs d i)
      then get_computed_blocks env (kv_cache_manager d) (hashes_of d i) (length (get_toks (seqs d i)))
      else Inr \<lparr>computed_block_ids = [], num_computed_tokens = 0\<rparr>) (usable_prefix d i)"
  proof -
    have "usable_prefix d i c"
      if c: "longest_hit (block_pool (kv_cache_manager d)) (kv_cache_group_ids (kv_cache_manager d))
          ((length (get_toks (seqs d i)) - 1) div block_size (kv_cache_manager d)) (hashes_of d i) (computed_block_ids c)"
        "num_computed_tokens c = length (computed_block_ids c) * block_size (kv_cache_manager d)" for c
    proof -
      let ?n = "length (get_toks (seqs d i))" and ?b = "block_size (kv_cache_manager d)"
      have "length (computed_block_ids c) * ?b \<le> (?n - 1) div ?b * ?b" using c(1) by (simp add: longest_hit_def)
      also have "\<dots> \<le> ?n - 1" by (rule div_times_less_eq_dividend)
      also have "\<dots> < ?n" using fits by (cases "get_toks (seqs d i)") (auto simp: seq_fits_def)
      finally have less: "length (computed_block_ids c) * ?b < ?n" .
      have "\<forall>b \<in> set (computed_block_ids c). real_block (block_pool (kv_cache_manager d)) b"
        using c(1) unfolding longest_hit_def shares_keys_def by (metis in_set_conv_nth)
      then show ?thesis using c(2) f(2,3) less by (simp add: usable_prefix_def)
    qed
    then have "returns (get_computed_blocks env (kv_cache_manager d) (hashes_of d i) (length (get_toks (seqs d i)))) (usable_prefix d i)"
      using returns_mono [OF get_computed_blocks_effect [OF f(1,5,4) n, of "hashes_of d i"]] by blast
    moreover have "usable_prefix d i \<lparr>computed_block_ids = [], num_computed_tokens = 0\<rparr>"
      using fits by (simp add: usable_prefix_def seq_fits_def)
    ultimately show ?thesis by simp
  qed
  have "returns (let clamped = clamp_prefix_cache_hit_len
            (clamp_prefix_cache_len_for_mm_features (num_computed_tokens c) (ps_block_size d) (mm_features (seqs d i)))
            (ps_block_size d) (mm_features (seqs d i)) in
      if clamped < num_computed_tokens c then
        and_then (div_res clamped (ps_block_size d)) (\<lambda>n. Inr (truncate_computed n clamped c))
      else Inr c) (usable_prefix d i)" if "usable_prefix d i c" for c
    using usable_truncate [OF that] f(3) that by (auto simp: Let_def)
  then show ?thesis unfolding lookup_prefix_def Let_def by (intro returns_bind [OF hit])
qed

lemma validate_prefix_total:
  assumes bs: "0 < ps_block_size d" and c: "usable_prefix d i c" and keep: "commits_keep_sequence pv"
  shows "returns (validate_prefix pv i c d v) (\<lambda>(r, v'). case r of
    Inl e \<Rightarrow> True
  | Inr (c', va) \<Rightarrow> usable_prefix d i c' \<and> (\<forall>val. va = Some val \<longrightarrow> (\<forall>s v. fst (snd (commit_validation val s v)) = s)))"
proof (cases pv)
  case None
  then show ?thesis using c by (simp add: validate_prefix_def)
next
  case (Some val)
  obtain r v' where r: "validate_prefix_cache_hit val (seqs d i) (hashes_of d i) (num_computed_tokens c) (ps_block_size d) v = (r, v')"
    by force
  show ?thesis
  proof (cases r)
    case (Inl e)
    then show ?thesis using Some r by (simp add: validate_prefix_def)
  next
    case (Inr va)
    have "fst (snd (commit_validation va s w)) = s" for s w
      using keep Some r unfolding Inr commits_keep_sequence_def by blast
    moreover have "usable_prefix d i (truncate_computed (valid_tokens va div ps_block_size d)
        (valid_tokens va div ps_block_size d * ps_block_size d) c)" if "valid_tokens va < num_computed_tokens c"
      using bs that div_times_less_eq_dividend [of "valid_tokens va" "ps_block_size d"]
      by (intro usable_truncate [OF c]) (linarith, simp)
    ultimately show ?thesis using Some r c bs by (auto simp: validate_prefix_def Inr)
  qed
qed

section \<open>Starting a prompt\<close>

lemma modify_seq_same [simp]: "modify_seq i (\<lambda>_. seqs d i) d = d"
  by (simp add: modify_seq_def)

lemma start_prompt_seq:
  assumes "n < seq_len s"
  shows "let s' = set_num_computed_tokens n (set_prefix_cache_len n (set_state RunningPrompt
      (if 0 < n then snd (record_prefix_cache_hit s) else s))) in
    same_tokens s s' \<and> is_prompt s' \<and> seq_computed s' < seq_len s'"
  using assms
  by (auto simp: Let_def same_tokens_def record_prefix_cache_hit_def is_prompt_def seq_computed_def set_num_computed_tokens_def
      set_prefix_cache_len_def set_state_def seq_len_def get_toks_def active_staged_speculative_len_def
      cong: option.case_cong split: option.splits)

lemma start_admitted:
  assumes st: "start_ok env T d0" and adm: "admitted env T d0 extra i d" and w: "ps_waiting d = i # ws"
    and n: "n < length (get_toks (seqs d i))" and sch: "sched_list d sched"
    and d': "d' = (start_prompt i n d)\<lparr>ps_waiting := ws, ps_running := ps_running d @ [i]\<rparr>"
  shows "turn_inv env T d0 [] extra d'" and "sched_list d' (sched @ [i])"
proof -
  obtain kv req where kv: "turn_inv env T d0 [] extra (d\<lparr>kv_cache_manager := kv\<rparr>)" "same_geometry kv (kv_cache_manager d)"
    "manager_ok env (kv_cache_manager d)" "tables kv i = None" "tables (kv_cache_manager d) = (tables kv)(i \<mapsto> req)"
    "prompt_blocks d i \<le> reach req" "length (block_ids req) \<le> T"
    using adm unfolding admitted_def by blast
  let ?d = "d\<lparr>kv_cache_manager := kv\<rparr>"
  note f = turn_facts [OF st kv(1)]
  have "seq_fits T (seqs d i)" using f(10) [of i] w by simp
  then have len: "n < seq_len (seqs d i)" using n by (simp add: seq_fits_def)
  define s where "s = set_num_computed_tokens n (set_prefix_cache_len n (set_state RunningPrompt
      (if 0 < n then snd (record_prefix_cache_hit (seqs d i)) else seqs d i)))"
  have s: "same_tokens (seqs d i) s" "is_prompt s" "seq_computed s < seq_len s"
    using start_prompt_seq [OF len] by (simp_all add: Let_def s_def)
  have i: "i \<notin> set (ps_running d)" "i \<notin> set ws" "i \<notin> set extra" using f(7) w by auto
  have fld: "seqs d' = (seqs d)(i := s)" "ps_running d' = ps_running d @ [i]" "ps_waiting d' = ws" "responses d' = responses d"
    "kv_cache_manager d' = kv_cache_manager d" "ps_block_size d' = ps_block_size d" "ps_config d' = ps_config d"
    "prefix_caching_enabled d' = prefix_caching_enabled d"
    by (simp_all add: d' start_prompt_def modify_seq_def s_def Let_def)
  show "turn_inv env T d0 [] extra d'"
  proof (rule turn_move [OF kv(1)])
    show "manager_ok env (kv_cache_manager d')" "same_setup ?d d'" using kv(2,3) by (simp_all add: fld same_setup_def)
    show "distinct (all_ids d0)" using st by (simp add: start_ok_def)
    show "live (seqs d' j) \<and> (is_prompt (seqs d' j) \<longrightarrow> covered d' j)" if "j \<in> set (ps_running d' @ [])" for j
    proof (cases "j = i")
      case True
      then show ?thesis using s kv(5,6) by (auto simp: fld live_def covered_def prompt_blocks_def same_tokens_def)
    next
      case False
      then show ?thesis using that kv(1,5) by (auto simp: turn_inv_def fld covered_def)
    qed
    show "dom (tables (kv_cache_manager d')) \<subseteq> set (ps_running d' @ [])"
      using kv(1) by (auto simp: turn_inv_def fld kv(5) split: if_splits)
    show "length (block_ids req') \<le> T" if "tables (kv_cache_manager d') r = Some req'" for r req'
      using that kv(1,7) by (auto simp: turn_inv_def fld kv(5) split: if_splits)
    show "is_waiting (seqs d' j)" if "j \<in> set (ps_waiting d' @ extra)" for j
      using that kv(1) i w by (auto simp: turn_inv_def fld)
  qed (use s w i in \<open>auto simp: fld\<close>)
  show "sched_list d' (sched @ [i])" using sch s i by (auto simp: sched_list_def fld)
qed

lemma commit_admission_total:
  assumes st: "start_ok env T d0" and adm: "admitted env T d0 extra i d" and w: "ps_waiting d = i # ws"
    and n: "n < length (get_toks (seqs d i))" and sch: "sched_list d sched"
    and keep: "\<And>val s v. validation = Some val \<Longrightarrow> fst (snd (commit_validation val s v)) = s"
  shows "returns (commit_admission env pv i n validation (d, v, sched, extra)) (\<lambda>r. \<exists>d' v' sched'.
    r = Continue (d', v', sched', extra) \<and> turn_inv env T d0 [] extra d' \<and> sched_list d' sched')"
proof -
  obtain committed v' where cv: "(case validation of None \<Rightarrow> (Inr (), d, v)
      | Some val \<Rightarrow> (case commit_validation val (seqs d i) v of (r, s, v) \<Rightarrow> (r, modify_seq i (\<lambda>_. s) d, v))) = (committed, d, v')"
  proof (cases validation)
    case (Some val)
    obtain r s v' where c: "commit_validation val (seqs d i) v = (r, s, v')" by (cases "commit_validation val (seqs d i) v") auto
    then have "s = seqs d i" using keep [OF Some, of "seqs d i" v] by simp
    then show thesis using that [of r v'] Some c by simp
  qed simp
  show ?thesis
  proof (cases committed)
    case (Inr u)
    let ?d = "(start_prompt i n d)\<lparr>ps_waiting := ws, ps_running := ps_running d @ [i]\<rparr>"
    have "commit_admission env pv i n validation (d, v, sched, extra) = Inr (Continue (?d, v', sched @ [i], extra))"
      using Inr w unfolding commit_admission_def prod.case cv by (simp add: start_prompt_def)
    then show ?thesis using start_admitted [OF st adm w n sch refl] by simp
  next
    case (Inl e)
    obtain kv req where kv: "turn_inv env T d0 [] extra (d\<lparr>kv_cache_manager := kv\<rparr>)" "same_geometry kv (kv_cache_manager d)"
      "manager_ok env (kv_cache_manager d)" "tables kv i = None" "tables (kv_cache_manager d) = (tables kv)(i \<mapsto> req)"
      "length (block_ids req) \<le> T"
      using adm unfolding admitted_def by blast
    have small: "length (block_ids req) \<le> u32_max" using kv(6) turn_facts(11) [OF st kv(1)] by linarith
    obtain kv' where kv': "free_request env i (kv_cache_manager d) = Inr kv'" "manager_ok env kv'"
      "same_geometry (kv_cache_manager d) kv'" "tables kv' = (tables (kv_cache_manager d))(i := None)"
      using free_request_total [OF kv(3), of i] kv(5) small by (auto simp: returns_iff)
    have "tables kv' = tables kv" using kv'(4) kv(4,5) by (auto simp: fun_eq_iff)
    then have inv: "turn_inv env T d0 [] extra (d\<lparr>kv_cache_manager := kv'\<rparr>)"
      using turn_inv_kv [OF kv(1) kv'(2)] same_geometry_trans [OF kv(2) kv'(3)] by simp
    have sch': "sched_list (d\<lparr>kv_cache_manager := kv'\<rparr>) sched" using sch by (simp add: sched_list_def)
    have "refusal_ok d0 (i, InternalError ''Failed to commit recurrent state'')" by (simp add: refusal_ok_def)
    from finish_front_total [OF st inv _ this sch', of ws pv v'] show ?thesis
      using Inl w kv'(1) unfolding commit_admission_def prod.case cv by (auto elim!: returns_mono)
  qed
qed

section \<open>The loop\<close>

definition admission_inv :: "rt_env \<Rightarrow> nat \<Rightarrow> PagedAttentionScheduler \<Rightarrow> 'v admission_state \<Rightarrow> bool" where
  "admission_inv env T d0 = (\<lambda>(d, v, sched, again). turn_inv env T d0 [] again d \<and> sched_list d sched)"

lemma admit_computed_total:
  assumes st: "start_ok env T d0" and inv: "turn_inv env T d0 [] again d" and w: "ps_waiting d = i # ws"
    and c: "usable_prefix d i c" and cap: "length (get_toks (seqs d i)) \<le> num_usable_blocks (kv_cache_manager d) * ps_block_size d"
    and keep: "\<And>val s v. validation = Some val \<Longrightarrow> fst (snd (commit_validation val s v)) = s"
    and sch: "sched_list d sched"
  shows "returns (admit_computed env h pv i c validation (d, v, sched, again))
    (\<lambda>r. case r of Break x \<Rightarrow> admission_inv env T d0 x | Continue x \<Rightarrow> admission_inv env T d0 x)"
proof -
  note f = turn_facts [OF st inv]
  define k where "k = num_computed_tokens c div ps_block_size d"
  have k: "k \<le> length (computed_block_ids c)" "num_computed_tokens c < length (get_toks (seqs d i))"
    using c by (simp_all add: usable_prefix_def k_def)
  have "length (get_toks (seqs d i)) \<le> prompt_blocks d i * ps_block_size d"
    unfolding prompt_blocks_def by (rule le_div_ceil_mult [OF f(3)])
  moreover have "k * ps_block_size d \<le> num_computed_tokens c" by (simp add: k_def)
  ultimately have "k * ps_block_size d < prompt_blocks d i * ps_block_size d" using k(2) by linarith
  then have len: "length (take k (computed_block_ids c)) \<le> prompt_blocks d i" by (simp add: min.coboundedI2)
  have real: "\<forall>b \<in> set (take k (computed_block_ids c)). real_block (block_pool (kv_cache_manager d)) b"
    using c set_take_subset [of k "computed_block_ids c"] by (auto simp: usable_prefix_def)
  have "returns (case r of
         StopAdmission \<Rightarrow> Inr (Break (d', v, sched', again))
       | Exhausted \<Rightarrow>
           and_then (finish_front_of_waiting env pv
               (InternalError ''KV cache exhausted even after preempting all running sequences'') (d', v))
             (\<lambda>(d, v). Inr (Continue (d, v, sched', again)))
       | Admitted \<Rightarrow> commit_admission env pv i (num_computed_tokens c) validation (d', v, sched', again))
    (\<lambda>r. case r of Break x \<Rightarrow> admission_inv env T d0 x | Continue x \<Rightarrow> admission_inv env T d0 x)"
    if res: "(\<exists>ws'. ps_waiting d' = i # ws') \<and> sched_list d' sched' \<and> seqs d' i = seqs d i \<and>
      (r = Admitted \<and> admitted env T d0 again i d' \<or> r = StopAdmission \<and> turn_inv env T d0 [] again d')" for r d' sched'
  proof -
    obtain ws' where w': "ps_waiting d' = i # ws'" "sched_list d' sched'" "seqs d' i = seqs d i" using res by blast
    show ?thesis
    proof (cases "r = StopAdmission")
      case True
      then show ?thesis using res by (simp add: admission_inv_def)
    next
      case False
      then have adm: "r = Admitted" "admitted env T d0 again i d'" using res by auto
      have "num_computed_tokens c < length (get_toks (seqs d' i))" using k(2) w'(3) by simp
      then have "returns (commit_admission env pv i (num_computed_tokens c) validation (d', v, sched', again)) (\<lambda>r. \<exists>d' v' sched'.
          r = Continue (d', v', sched', again) \<and> turn_inv env T d0 [] again d' \<and> sched_list d' sched')"
        using keep by (rule commit_admission_total [OF st adm(2) w'(1) _ w'(2)])
      then show ?thesis unfolding adm(1) by (auto simp: admission_inv_def elim!: returns_mono)
    qed
  qed
  then show ?thesis
    using allocate_waiting_total [OF st inv w real len cap sch, of h "supports_scheduler_visible_prompt_chunks d (seqs d i)"] k(1) f(3)
    unfolding admit_computed_def prod.case Let_def by (auto simp: k_def [symmetric] elim!: returns_mono)
qed

lemma admit_one_total:
  fixes pv :: "'v PagedPrefixCacheValidator option"
  assumes st: "start_ok env T d0" and inv: "admission_inv env T d0 (d, v, sched, again)" and w: "ps_waiting d = i # rest"
    and keep: "commits_keep_sequence pv"
  shows "returns (admit_one env h pv (d, v, sched, again))
    (\<lambda>r. case r of Break x \<Rightarrow> admission_inv env T d0 x | Continue x \<Rightarrow> admission_inv env T d0 x)"
proof -
  have t: "turn_inv env T d0 [] again d" and sch: "sched_list d sched" using inv by (simp_all add: admission_inv_def)
  note f = turn_facts [OF st t]
  let ?Q = "\<lambda>r. case r of Break x \<Rightarrow> admission_inv env T d0 x | Continue x \<Rightarrow> admission_inv env T d0 x"
  let ?cap = "num_usable_blocks (kv_cache_manager d) * ps_block_size d"
  have toks: "get_toks (seqs d i) = get_toks (seqs d0 i)" using t by (simp add: turn_inv_def same_tokens_def)
  have fin: "returns (and_then (finish_front_of_waiting env pv response (e, v)) (\<lambda>(d, v). Inr (Continue (d, v, sched, again)))) ?Q"
    if "turn_inv env T d0 [] again e" "ps_waiting e = i # rest" "sched_list e sched" "refusal_ok d0 (i, response)" for e v response
    using finish_front_total [OF st that(1,2,4,3), of pv v] by (auto simp: admission_inv_def elim!: returns_mono)
  have requeue: "turn_inv env T d0 [] (again @ [i]) (d\<lparr>ps_waiting := rest\<rparr>)"
    by (rule turn_move [OF t]) (use t w st in \<open>auto simp: turn_inv_def start_ok_def same_setup_def covered_def\<close>)
  have hashed: "returns (ensure_hashes h i d) (\<lambda>e. turn_inv env T d0 [] again e \<and> ps_waiting e = i # rest \<and> sched_list e sched \<and>
      seqs e = seqs d \<and> kv_cache_manager e = kv_cache_manager d \<and> ps_block_size e = ps_block_size d)"
    by (rule returns_mono [OF ensure_hashes_total [OF f(3)]]) (use t w sch in \<open>auto simp: sched_list_def\<close>)
  have main: "returns (and_then (lookup_prefix env i e) (\<lambda>c. and_then (validate_prefix pv i c e v) (\<lambda>(r, v). case r of
        Inl _ \<Rightarrow> and_then (finish_front_of_waiting env pv (InternalError ''Failed to prepare recurrent state'') (e, v))
            (\<lambda>(d, v). Inr (Continue (d, v, sched, again)))
      | Inr (c, validation) \<Rightarrow> admit_computed env h pv i c validation (e, v, sched, again)))) ?Q"
    if e: "turn_inv env T d0 [] again e" "ps_waiting e = i # rest" "sched_list e sched"
      "length (get_toks (seqs e i)) \<le> num_usable_blocks (kv_cache_manager e) * ps_block_size e" for e
  proof (rule returns_bind [OF lookup_prefix_total [OF st e(1)]])
    show "i \<in> set (ps_waiting e)" using e(2) by simp
    fix c assume c: "usable_prefix e i c"
    have "returns (case r of
        Inl _ \<Rightarrow> and_then (finish_front_of_waiting env pv (InternalError ''Failed to prepare recurrent state'') (e, v))
            (\<lambda>(d, v). Inr (Continue (d, v, sched, again)))
      | Inr (c, validation) \<Rightarrow> admit_computed env h pv i c validation (e, v, sched, again)) ?Q"
      if "case r of Inl e \<Rightarrow> True
        | Inr (c', va) \<Rightarrow> usable_prefix e i c' \<and> (\<forall>val. va = Some val \<longrightarrow> (\<forall>s v. fst (snd (commit_validation val s v)) = s))"
      for r :: "string + ComputedBlocks \<times> 'v PagedPrefixCacheValidation option" and v :: 'v
    proof (cases r)
      case (Inl x)
      then show ?thesis using fin [OF e(1-3)] by (simp add: refusal_ok_def)
    next
      case (Inr p)
      obtain c' va where p: "p = (c', va)" by force
      have "returns (admit_computed env h pv i c' va (e, v, sched, again)) ?Q"
        by (rule admit_computed_total [OF st e(1,2) _ e(4) _ e(3)]) (use that Inr p in auto)
      then show ?thesis by (simp add: Inr p)
    qed
    then show "returns (and_then (validate_prefix pv i c e v) (\<lambda>(r, v). case r of
        Inl _ \<Rightarrow> and_then (finish_front_of_waiting env pv (InternalError ''Failed to prepare recurrent state'') (e, v))
            (\<lambda>(d, v). Inr (Continue (d, v, sched, again)))
      | Inr (c, validation) \<Rightarrow> admit_computed env h pv i c validation (e, v, sched, again))) ?Q"
      using validate_prefix_total [OF turn_facts(3) [OF st e(1)] c keep, of v] by (auto elim!: returns_mono simp del: returns_and_then intro!: returns_bind)
  qed
  have full: "returns (if cap < length (get_toks (seqs d i)) then
        and_then (finish_front_of_waiting env pv (ValidationError ''exceeds the total KV cache capacity'') (d, v))
          (\<lambda>(d, v). Inr (Continue (d, v, sched, again)))
      else if (requires_uniform_prompt_batch d \<or> ps_requires_uniform_media_batch d) \<and> sched \<noteq> [] \<and>
          modality_signature (seqs d (hd sched)) \<noteq> modality_signature (seqs d i)
      then Inr (Continue (d\<lparr>ps_waiting := rest\<rparr>, v, sched, again @ [i]))
      else and_then (ensure_hashes h i d) (\<lambda>d. and_then (lookup_prefix env i d) (\<lambda>c.
        and_then (validate_prefix pv i c d v) (\<lambda>(r, v). case r of
          Inl _ \<Rightarrow> and_then (finish_front_of_waiting env pv (InternalError ''Failed to prepare recurrent state'') (d, v))
            (\<lambda>(d, v). Inr (Continue (d, v, sched, again)))
        | Inr (c, validation) \<Rightarrow> admit_computed env h pv i c validation (d, v, sched, again))))) ?Q" if "cap = ?cap" for cap
  proof (cases "cap < length (get_toks (seqs d i))")
    case True
    then have "refusal_ok d0 (i, ValidationError m)" for m using that toks f(13,14) by (simp add: refusal_ok_def)
    then show ?thesis using True fin [OF t w sch] by simp
  next
    case False
    have "returns (and_then (ensure_hashes h i d) (\<lambda>d. and_then (lookup_prefix env i d) (\<lambda>c.
        and_then (validate_prefix pv i c d v) (\<lambda>(r, v). case r of
          Inl _ \<Rightarrow> and_then (finish_front_of_waiting env pv (InternalError ''Failed to prepare recurrent state'') (d, v))
            (\<lambda>(d, v). Inr (Continue (d, v, sched, again)))
        | Inr (c, validation) \<Rightarrow> admit_computed env h pv i c validation (d, v, sched, again))))) ?Q"
      by (rule returns_bind [OF hashed], rule main) (use False that in simp_all)
    moreover have "sched_list (d\<lparr>ps_waiting := rest\<rparr>) sched" using sch by (simp add: sched_list_def)
    ultimately show ?thesis using False requeue by (simp add: admission_inv_def)
  qed
  show ?thesis
    using full [OF refl] inv f(6) unfolding admit_one_def prod.case w list.case by simp
qed

lemma admission_loop_total:
  assumes st: "start_ok env T d0" and keep: "commits_keep_sequence pv" and inv: "admission_inv env T d0 (d, v, sched, again)"
  shows "returns (admission_loop env h pv (d, v, sched, again)) (admission_inv env T d0)"
  using st keep inv
proof (induction env h pv "(d, v, sched, again)" arbitrary: d v sched again rule: admission_loop.induct)
  case (1 env h pv d v sched again)
  show ?case
  proof (cases "ps_waiting d")
    case Nil
    then show ?thesis using "1.prems" by (simp add: admission_loop.simps)
  next
    case (Cons i rest)
    obtain r where r: "admit_one env h pv (d, v, sched, again) = Inr r"
      "case r of Break x \<Rightarrow> admission_inv env T d0 x | Continue x \<Rightarrow> admission_inv env T d0 x"
      using admit_one_total [OF "1.prems"(1,3) Cons "1.prems"(2), of h] by (auto simp: returns_iff)
    show ?thesis
    proof (cases r)
      case (Break x)
      then show ?thesis using r Cons by (subst admission_loop.simps) simp
    next
      case (Continue x)
      have ne: "ps_waiting d \<noteq> []" using Cons by simp
      obtain d' v' sched' again' where x: "x = (d', v', sched', again')" by (cases x)
      have "returns (admission_loop env h pv x) (admission_inv env T d0)"
        unfolding x by (rule "1.hyps" [OF ne r(1) Continue [unfolded x]]) (use "1.prems" r(2) Continue x in simp_all)
      then show ?thesis using r Continue Cons by (subst admission_loop.simps) simp
    qed
  qed
qed

end
