(* ===== verification/Paged_Batches.thy ===== *)
theory Paged_Batches
  imports Paged_Admission_Loop "HOL-Library.Sublist"
begin

text \<open>
  Prompt batches: selection and materialisation return, and the batch is a list of running prompts with, when the
  scheduler sees the chunks, one nonempty chunk each that starts where the sequence has been computed and whose slots
  are allocated.
\<close>

section \<open>Chunk plans of the candidates\<close>

lemma returns_map_res:
  "(\<And>x. x \<in> set xs \<Longrightarrow> returns (f x) (P x)) \<Longrightarrow> returns (map_res f xs) (list_all2 P xs)"
proof (induction xs)
  case (Cons x xs)
  have "returns (f x) (P x)" "returns (map_res f xs) (list_all2 P xs)" using Cons by simp_all
  then show ?case by (auto simp: returns_iff)
qed simp

lemma prefill_token_budget_bounds:
  assumes "0 < max_num_batched_tokens (ps_config d)" and "0 < max_prefill_chunk_tokens (ps_config d)"
  shows "0 < prefill_token_budget d b" and "prefill_token_budget d b \<le> max_num_batched_tokens (ps_config d)"
  using assms by (auto simp: prefill_token_budget_def)

lemma batch_chunk_size_bounds:
  assumes "0 < max_num_batched_tokens (ps_config d)" and "0 < max_prefill_chunk_tokens (ps_config d)" and "0 < n"
  obtains cs where "batch_chunk_size d n b = Some cs" and "0 < cs" and "cs \<le> max_num_batched_tokens (ps_config d)"
proof -
  have "prefill_token_budget d b div n \<le> max_num_batched_tokens (ps_config d)"
    using prefill_token_budget_bounds(2) [OF assms(1,2), of b] div_le_dividend order_trans by blast
  moreover define cs where "cs = (if scheduler_visible_prompt_chunks d \<and> b
    then min (max (prefill_token_budget d b div n) 1) (max_prefill_chunk_tokens (ps_config d)) else max (prefill_token_budget d b div n) 1)"
  ultimately have "0 < cs" "cs \<le> max_num_batched_tokens (ps_config d)" using assms by auto
  moreover have "batch_chunk_size d n b = Some cs" using assms(3) by (simp add: batch_chunk_size_def cs_def Let_def)
  ultimately show thesis by (rule that [rotated])
qed

text \<open>The plan of a sequence with tokens left: its first chunk starts at the computed tokens.\<close>

definition plan_for :: "Sequence \<Rightarrow> PromptChunkPlan list \<Rightarrow> bool" where
  "plan_for s plan \<longleftrightarrow> plan \<noteq> [] \<and> (\<forall>c \<in> set plan. chunk_start c < chunk_end c \<and> chunk_end c \<le> length (get_toks s)) \<and>
     chunk_start (hd plan) = seq_computed s"

lemma covers_le: "covers pos n plan \<Longrightarrow> pos \<le> n"
  by (induction pos n plan rule: covers.induct) auto

lemma covers_end: "covers pos n plan \<Longrightarrow> c \<in> set plan \<Longrightarrow> chunk_end c \<le> n"
  by (induction pos n plan rule: covers.induct) (auto dest: covers_le)

lemma build_prompt_chunks_total:
  assumes "seq_fits T s" and "seq_computed s < seq_len s" and "0 < cs" and "T + cs \<le> usize_max"
  shows "returns (build_prompt_chunks env d s cs) (plan_for s)"
proof -
  let ?n = "length (get_toks s)"
  have n: "seq_len s = ?n" "?n + cs \<le> usize_max" using assms(1,4) by (auto simp: seq_fits_def)
  obtain plan where plan: "build_prompt_chunk_plan (debug_assertions env) ?n (seq_computed s) cs
      (if prompt_chunks_use_block_alignment d then Some (ps_block_size d) else None)
      (replay_for (prefix_policy d) (modality_signature s)) (mm_features s) = Some (Inr plan)"
    "covers (min (seq_computed s) ?n) ?n plan"
    using plan_partitions [OF assms(3) n(2)] by blast
  moreover have "min (seq_computed s) ?n = seq_computed s" using assms(2) n(1) by simp
  ultimately have c: "covers (seq_computed s) ?n plan" by simp
  have "\<forall>c \<in> set plan. chunk_start c < chunk_end c \<and> chunk_end c \<le> ?n" using covers_after [OF c] covers_end [OF c] by blast
  moreover have "plan \<noteq> [] \<and> chunk_start (hd plan) = seq_computed s" using c assms(2) n(1) by (cases plan) simp_all
  ultimately have "plan_for s plan" unfolding plan_for_def by blast
  then show ?thesis unfolding build_prompt_chunks_def plan(1) or_diverge_Some by simp
qed

text \<open>The group that the planner picks when every candidate has a plan: it leads with the first candidate.\<close>

lemma chunk_group_total:
  assumes "\<And>p. p \<in> set plans \<Longrightarrow> p \<noteq> [] \<and> (\<forall>c \<in> set p. chunk_start c < chunk_end c)" and "plans \<noteq> []"
  obtains active policy final
  where "next_prompt_chunk_group checks (replicate (length plans) 0) plans uniform = Inr (Some (active, policy, final))"
    and "active \<noteq> []" and "hd active = 0" and "sorted_wrt (<) active" and "\<And>k. k \<in> set active \<Longrightarrow> k < length plans"
    and "\<And>k. k \<in> set active \<Longrightarrow> uniform \<Longrightarrow>
      chunk_end (hd (plans ! k)) - chunk_start (hd (plans ! k)) = chunk_end (hd (plans ! 0)) - chunk_start (hd (plans ! 0))"
proof -
  let ?ps = "zip (replicate (length plans) (0 :: nat)) plans"
  have at: "chunk_at (?ps ! k) = Some (hd (plans ! k), 1 = length (plans ! k))" if "k < length plans" for k
    using that assms(1) [OF nth_mem [OF that]] by (simp add: hd_conv_nth)
  have le: "\<forall>plan \<in> set plans. \<forall>c \<in> set plan. chunk_start c \<le> chunk_end c" using assms(1) by (simp add: less_imp_le)
  obtain g where g: "next_prompt_chunk_group checks (replicate (length plans) 0) plans uniform = Inr g"
    "g = None \<longleftrightarrow> (\<forall>p \<in> set ?ps. chunk_at p = None)"
    "\<forall>active policy final. g = Some (active, policy, final) \<longrightarrow>
       (\<exists>first c. chunk_at (?ps ! first) = Some (c, final) \<and> chunk_policy c = policy \<and>
          (\<forall>i < first. chunk_at (?ps ! i) = None) \<and> active \<noteq> [] \<and> hd active = first \<and> sorted_wrt (<) active \<and>
          set active = {i. i < length ?ps \<and> in_group uniform policy final (chunk_end c - chunk_start c) (?ps ! i)})"
    using group_exact [OF le, of checks "replicate (length plans) 0" uniform] by (elim exE conjE) (rule that)
  have "?ps ! 0 \<in> set ?ps" using assms(2) by (intro nth_mem) simp
  moreover have "chunk_at (?ps ! 0) \<noteq> None" using at [of 0] assms(2) by simp
  ultimately have "g \<noteq> None" using g(2) by metis
  then obtain active policy final where G: "g = Some (active, policy, final)" by (cases g) (auto simp: prod_eq_iff)
  then obtain first c where f: "chunk_at (?ps ! first) = Some (c, final)" "\<forall>i < first. chunk_at (?ps ! i) = None"
    "active \<noteq> []" "hd active = first" "sorted_wrt (<) active"
    "set active = {i. i < length ?ps \<and> in_group uniform policy final (chunk_end c - chunk_start c) (?ps ! i)}"
    using g(3) [rule_format, OF G] by (elim exE conjE) (rule that)
  have zero: "first = 0"
  proof (rule ccontr)
    assume "first \<noteq> 0"
    then have "chunk_at (?ps ! 0) = None" using f(2) [rule_format, of 0] by simp
    then show False using \<open>chunk_at (?ps ! 0) \<noteq> None\<close> by simp
  qed
  then have c: "c = hd (plans ! 0)" using f(1) at [of 0] assms(2) by simp
  show thesis
  proof (rule that [of active policy final])
    show "k < length plans" if "k \<in> set active" for k using that f(6) by simp
    show "chunk_end (hd (plans ! k)) - chunk_start (hd (plans ! k)) = chunk_end (hd (plans ! 0)) - chunk_start (hd (plans ! 0))"
      if "k \<in> set active" and u: uniform for k
    proof -
      have "k < length ?ps \<and> in_group uniform policy final (chunk_end c - chunk_start c) (?ps ! k)"
        using that(1) unfolding f(6) mem_Collect_eq .
      then have k: "k < length plans" "in_group uniform policy final (chunk_end c - chunk_start c) (?ps ! k)"
        using length_zip by auto
      then obtain c' where "chunk_at (?ps ! k) = Some (c', final)" "chunk_end c' - chunk_start c' = chunk_end c - chunk_start c"
        using u unfolding in_group_def by blast
      then show ?thesis using at [OF k(1)] c by simp
    qed
  qed (use g(1) G f zero in simp_all)
qed

section \<open>Selection\<close>

definition chunk_for :: "Sequence \<Rightarrow> PromptChunkPlan \<Rightarrow> bool" where
  "chunk_for s c \<longleftrightarrow> chunk_start c = seq_computed s \<and> chunk_start c < chunk_end c \<and> chunk_end c \<le> length (get_toks s)"

definition prompt_batch_ok :: "PagedAttentionScheduler \<Rightarrow> PromptBatch \<Rightarrow> bool" where
  "prompt_batch_ok d batch \<longleftrightarrow>
     pb_scheduled batch \<noteq> [] \<and> distinct (pb_scheduled batch) \<and> set (pb_scheduled batch) \<subseteq> set (ps_running d) \<and>
     (\<forall>i \<in> set (pb_scheduled batch). is_prompt (seqs d i)) \<and>
     (case pb_chunks batch of
        None \<Rightarrow> True
      | Some cs \<Rightarrow> list_all2 (\<lambda>i c. chunk_for (seqs d i) c) (pb_scheduled batch) cs)"

lemma plan_chunk_for: "plan_for s plan \<Longrightarrow> chunk_for s (hd plan)"
  unfolding plan_for_def chunk_for_def by (metis hd_in_set)

text \<open>A batch that picks rows of the candidates with the first chunks of their plans.\<close>

lemma picked_batch_ok:
  assumes sch: "sched_list d cands" and plans: "list_all2 (\<lambda>i. plan_for (seqs d i)) cands plans"
    and ks: "ks \<noteq> []" "sorted_wrt (<) ks" "\<And>k. k \<in> set ks \<Longrightarrow> k < length cands"
  shows "prompt_batch_ok d \<lparr>pb_scheduled = map (\<lambda>k. cands ! k) ks, pb_chunk_size = n, pb_chunks = Some (map (\<lambda>k. hd (plans ! k)) ks)\<rparr>"
proof -
  have "distinct ks" using ks(2) by (simp add: strict_sorted_iff sorted_wrt_iff_nth_less distinct_conv_nth) (metis less_irrefl nat_neq_iff)
  then have "distinct (map (\<lambda>k. cands ! k) ks)"
    using sch ks(3) by (auto simp: distinct_map sched_list_def intro!: inj_on_nth)
  moreover have "chunk_for (seqs d (cands ! k)) (hd (plans ! k))" if "k \<in> set ks" for k
    using list_all2_nthD [OF plans ks(3) [OF that]] by (rule plan_chunk_for)
  moreover have "cands ! k \<in> set cands" if "k \<in> set ks" for k using ks(3) [OF that] by simp
  ultimately show ?thesis
    using sch ks(1) unfolding prompt_batch_ok_def sched_list_def by (auto simp: list_all2_map1 list_all2_map2 list.rel_refl_strong)
qed

lemma advance_cursor_other:
  "seqs (advance_prompt_cursor a b d) = seqs d" "ps_running (advance_prompt_cursor a b d) = ps_running d"
  "turn_inv env T d0 busy extra (advance_prompt_cursor a b d) = turn_inv env T d0 busy extra d"
  "kv_cache_manager (advance_prompt_cursor a b d) = kv_cache_manager d"
  by (simp_all add: advance_prompt_cursor_def)

lemma prompt_batch_cursor [simp]: "prompt_batch_ok (advance_prompt_cursor a b d) batch = prompt_batch_ok d batch"
  by (simp add: prompt_batch_ok_def advance_prompt_cursor_def cong: option.case_cong)

lemma recurrent_pick_total:
  assumes "\<And>k. k \<in> set ks \<Longrightarrow> k < length cands \<and> k < length plans \<and> plans ! k \<noteq> [] \<and>
      chunk_start (hd (plans ! k)) \<le> chunk_end (hd (plans ! k))"
  shows "\<exists>ks'. recurrent_pick env cands plans frontier budget ks (sched, chunks, tokens) =
      Inr (sched @ map (\<lambda>k. cands ! k) ks', chunks @ map (\<lambda>k. hd (plans ! k)) ks') \<and> subseq ks' ks \<and>
      (ks \<noteq> [] \<and> sched = [] \<and> (frontier = None \<or> frontier = Some (chunk_start (hd (plans ! hd ks)))) \<longrightarrow> ks' \<noteq> [])"
  using assms
proof (induction ks arbitrary: sched chunks tokens)
  case (Cons k ks)
  have k: "k < length cands" "k < length plans" "plans ! k \<noteq> []" "chunk_start (hd (plans ! k)) \<le> chunk_end (hd (plans ! k))"
    using Cons.prems by simp_all
  let ?c = "hd (plans ! k)"
  have c0: "plans ! k ! 0 = ?c" using k(3) by (simp add: hd_conv_nth)
  have ih: "\<exists>ks'. recurrent_pick env cands plans frontier budget ks (sched, chunks, tokens) =
      Inr (sched @ map (\<lambda>k. cands ! k) ks', chunks @ map (\<lambda>k. hd (plans ! k)) ks') \<and> subseq ks' ks" for sched chunks tokens
    using Cons.IH [of sched chunks tokens] Cons.prems by fastforce
  let ?skip = "case frontier of None \<Rightarrow> False | Some start \<Rightarrow> chunk_start ?c \<noteq> start"
  let ?total = "min (tokens + (chunk_end ?c - chunk_start ?c)) usize_max"
  have step: "recurrent_pick env cands plans frontier budget (k # ks) (sched, chunks, tokens) =
      (if ?skip then recurrent_pick env cands plans frontier budget ks (sched, chunks, tokens)
       else if sched \<noteq> [] \<and> budget < ?total then Inr (sched, chunks)
       else recurrent_pick env cands plans frontier budget ks (sched @ [cands ! k], chunks @ [?c], ?total))"
    using k c0 by (simp add: get_at_def chunk_query_len_def Let_def cong: option.case_cong)
  consider (skip) "?skip" | (stop) "\<not> ?skip" "sched \<noteq> [] \<and> budget < ?total" | (take) "\<not> ?skip" "\<not> (sched \<noteq> [] \<and> budget < ?total)" by blast
  then show ?case
  proof cases
    case skip
    obtain ks' where "recurrent_pick env cands plans frontier budget ks (sched, chunks, tokens) =
      Inr (sched @ map (\<lambda>k. cands ! k) ks', chunks @ map (\<lambda>k. hd (plans ! k)) ks')" "subseq ks' ks" using ih by blast
    then show ?thesis using skip unfolding step by (intro exI [of _ ks']) (auto split: option.splits)
  next
    case stop
    then show ?thesis unfolding step by (intro exI [of _ "[]"]) auto
  next
    case take
    obtain ks' where "recurrent_pick env cands plans frontier budget ks (sched @ [cands ! k], chunks @ [?c], ?total) =
      Inr ((sched @ [cands ! k]) @ map (\<lambda>k. cands ! k) ks', (chunks @ [?c]) @ map (\<lambda>k. hd (plans ! k)) ks')" "subseq ks' ks" using ih by blast
    then show ?thesis using take unfolding step by (intro exI [of _ "k # ks'"]) auto
  qed
qed simp

lemma rotate_to_cursor_props:
  "set (rotate_to_cursor cur xs) = set xs" "distinct xs \<Longrightarrow> distinct (rotate_to_cursor cur xs)"
  "rotate_to_cursor cur xs = [] \<longleftrightarrow> xs = []"
proof -
  have "mset (dropWhile P xs @ takeWhile P xs) = mset xs" for P
    by (metis add.commute mset_append takeWhile_dropWhile_id)
  then have "mset (rotate_to_cursor cur xs) = mset xs"
    by (cases cur) (simp_all add: rotate_to_cursor_def)
  from mset_eq_setD [OF this] mset_eq_imp_distinct_iff [OF this] mset_eq_length [OF this]
  show "set (rotate_to_cursor cur xs) = set xs" "distinct xs \<Longrightarrow> distinct (rotate_to_cursor cur xs)"
    "rotate_to_cursor cur xs = [] \<longleftrightarrow> xs = []" by auto
qed

lemma compatible_candidates_props:
  "set (compatible_candidates d (hd xs) xs) \<subseteq> set xs" "distinct xs \<Longrightarrow> distinct (compatible_candidates d (hd xs) xs)"
  "xs \<noteq> [] \<Longrightarrow> compatible_candidates d (hd xs) xs \<noteq> []"
  by (auto simp: compatible_candidates_def Let_def filter_empty_conv intro: hd_in_set)

lemma sched_list_sub: "sched_list d xs \<Longrightarrow> set ys \<subseteq> set xs \<Longrightarrow> distinct ys \<Longrightarrow> sched_list d ys"
  by (auto simp: sched_list_def)

lemma candidate_plans:
  assumes st: "start_ok env T d0" and inv: "turn_inv env T d0 [] [] d" and sch: "sched_list d cands"
    and cs: "0 < cs" "cs \<le> max_num_batched_tokens (ps_config d)"
  shows "returns (map_res (\<lambda>i. build_prompt_chunks env d (seqs d i) cs) cands) (list_all2 (\<lambda>i. plan_for (seqs d i)) cands)"
proof (rule returns_map_res, rule build_prompt_chunks_total)
  fix i assume i: "i \<in> set cands"
  note f = turn_facts [OF st inv]
  show "seq_fits T (seqs d i)" using i sch f(10) [of i] by (auto simp: sched_list_def)
  show "seq_computed (seqs d i) < seq_len (seqs d i)" using i sch by (simp add: sched_list_def)
  have "ps_config d = ps_config d0" using inv by (simp add: turn_inv_def same_setup_def)
  then show "T + cs \<le> usize_max" using f(11) cs(2) st by (simp add: start_ok_def)
qed (rule cs(1))

lemma turn_config:
  assumes "start_ok env T d0" and "turn_inv env T d0 busy extra d"
  shows "0 < max_num_batched_tokens (ps_config d)" and "0 < max_prefill_chunk_tokens (ps_config d)"
  using assms by (simp_all add: start_ok_def turn_inv_def same_setup_def)

lemma select_chunked_total:
  assumes st: "start_ok env T d0" and inv: "turn_inv env T d0 [] [] d" and sch: "sched_list d cands" and ne: "cands \<noteq> []"
  shows "returns (select_chunked_prompts env cands rot lb d) (\<lambda>(batch, d'). turn_inv env T d0 [] [] d' \<and> prompt_batch_ok d' batch)"
proof -
  obtain cs where cs: "batch_chunk_size d (length cands) lb = Some cs" "0 < cs" "cs \<le> max_num_batched_tokens (ps_config d)"
    using batch_chunk_size_bounds [OF turn_config [OF st inv], of "length cands"] ne by auto
  obtain plans where plans: "map_res (\<lambda>i. build_prompt_chunks env d (seqs d i) cs) cands = Inr plans"
    "list_all2 (\<lambda>i. plan_for (seqs d i)) cands plans"
    using candidate_plans [OF st inv sch cs(2,3)] by (auto simp: returns_iff)
  have len: "length plans = length cands" using list_all2_lengthD [OF plans(2)] by simp
  have good: "p \<noteq> [] \<and> (\<forall>c \<in> set p. chunk_start c < chunk_end c)" if "p \<in> set plans" for p
    using plans(2) that by (auto simp: list_all2_conv_all_nth in_set_conv_nth plan_for_def)
  let ?u = "requires_uniform_prompt_batch d \<or> \<not> supports_packed_prefill d \<or> prompt_chunks_use_block_alignment d"
  obtain active policy final
    where g: "next_prompt_chunk_group (debug_assertions env) (replicate (length plans) 0) plans ?u = Inr (Some (active, policy, final))"
      "active \<noteq> []" "sorted_wrt (<) active" "\<And>k. k \<in> set active \<Longrightarrow> k < length plans"
    using chunk_group_total [OF good, of plans] ne len by (metis length_0_conv)
  have pick: "map_res (get_at cands) active = Inr (map (\<lambda>k. cands ! k) active)"
    "map_res (\<lambda>k. and_then (get_at plans k) (\<lambda>p. get_at p 0)) active = Inr (map (\<lambda>k. hd (plans ! k)) active)"
    using g(4) len good by (auto intro!: map_res_pure simp: get_at_def hd_conv_nth)
  have "select_chunked_prompts env cands rot lb d =
      Inr (\<lparr>pb_scheduled = map (\<lambda>k. cands ! k) active, pb_chunk_size = Some cs, pb_chunks = Some (map (\<lambda>k. hd (plans ! k)) active)\<rparr>,
        advance_prompt_cursor rot (map (\<lambda>k. cands ! k) active) d)"
    unfolding select_chunked_prompts_def cs(1) Let_def expect_Some and_then_Inr plans(1) g(1) prod.case pick by simp
  then show ?thesis
    using inv picked_batch_ok [OF sch plans(2) g(2,3)] g(4) len by (simp add: advance_cursor_other)
qed

lemma subseq_props: "subseq xs ys \<Longrightarrow> set xs \<subseteq> set ys \<and> (sorted_wrt P ys \<longrightarrow> sorted_wrt P xs)"
  by (induction rule: list_emb.induct) auto

lemma select_recurrent_total:
  assumes st: "start_ok env T d0" and inv: "turn_inv env T d0 [] [] d" and sch: "sched_list d cands" and ne: "cands \<noteq> []"
  shows "returns (select_recurrent_prompt_batch env cands rot lb d) (\<lambda>(batch, d'). turn_inv env T d0 [] [] d' \<and> prompt_batch_ok d' batch)"
proof -
  note cfg = turn_config [OF st inv]
  let ?budget = "prefill_token_budget d lb"
  let ?cs = "min (max_prefill_chunk_tokens (ps_config d)) ?budget"
  have cs: "0 < ?cs" "?cs \<le> max_num_batched_tokens (ps_config d)"
    using prefill_token_budget_bounds [OF cfg, of lb] cfg by auto
  obtain plans where plans: "map_res (\<lambda>i. build_prompt_chunks env d (seqs d i) ?cs) cands = Inr plans"
    "list_all2 (\<lambda>i. plan_for (seqs d i)) cands plans"
    using candidate_plans [OF st inv sch cs] by (auto simp: returns_iff)
  have len: "length plans = length cands" using list_all2_lengthD [OF plans(2)] by simp
  have good: "p \<noteq> [] \<and> (\<forall>c \<in> set p. chunk_start c < chunk_end c)" if "p \<in> set plans" for p
    using plans(2) that by (auto simp: list_all2_conv_all_nth in_set_conv_nth plan_for_def)
  define u where "u = (requires_uniform_prompt_batch d \<or> \<not> supports_packed_prefill d \<or>
            prompt_chunks_use_block_alignment d \<and> \<not> (plans \<noteq> [] \<and> length (hd plans) = 1))"
  obtain active policy final
    where g: "next_prompt_chunk_group (debug_assertions env) (replicate (length plans) 0) plans u = Inr (Some (active, policy, final))"
      "active \<noteq> []" "hd active = 0" "sorted_wrt (<) active" "\<And>k. k \<in> set active \<Longrightarrow> k < length plans"
    using chunk_group_total [OF good, of plans] ne len by (metis length_0_conv)
  have hd0: "0 < length plans" "plans ! 0 \<noteq> []" "plans ! 0 ! 0 = hd (plans ! 0)"
    using ne len good [of "plans ! 0"] by (auto simp: hd_conv_nth)
  define frontier where "frontier = (if prompt_admission_epoch d then Some (chunk_start (hd (plans ! 0))) else None)"
  have fr: "(if prompt_admission_epoch d
      then and_then (get_at plans 0) (\<lambda>p. and_then (get_at p 0) (\<lambda>c. Inr (Some (chunk_start c)))) else Inr None) = Inr frontier"
    using hd0 by (simp add: frontier_def get_at_def)
  have rows: "k < length cands \<and> k < length plans \<and> plans ! k \<noteq> [] \<and> chunk_start (hd (plans ! k)) \<le> chunk_end (hd (plans ! k))"
    if "k \<in> set active" for k using g(5) [OF that] len good [of "plans ! k"] by (simp add: less_imp_le)
  obtain ks where ks: "recurrent_pick env cands plans frontier ?budget active ([], [], 0) =
      Inr (map (\<lambda>k. cands ! k) ks, map (\<lambda>k. hd (plans ! k)) ks)" "subseq ks active" "ks \<noteq> []"
    using recurrent_pick_total [OF rows, of active env frontier ?budget "[]" "[]" 0] g(2,3) by (auto simp: frontier_def split: if_splits)
  have sub: "set ks \<subseteq> set active" "sorted_wrt (<) ks"
    using subseq_props [OF ks(2), of "(<)"] g(4) by simp_all
  have "map_res (chunk_query_len (debug_assertions env)) (map (\<lambda>k. hd (plans ! k)) ks) =
      Inr (map (\<lambda>c. chunk_end c - chunk_start c) (map (\<lambda>k. hd (plans ! k)) ks))"
    using rows sub(1) by (intro map_res_pure) (auto simp: chunk_query_len_def)
  then have "\<exists>n. select_recurrent_prompt_batch env cands rot lb d =
      Inr (\<lparr>pb_scheduled = map (\<lambda>k. cands ! k) ks, pb_chunk_size = n, pb_chunks = Some (map (\<lambda>k. hd (plans ! k)) ks)\<rparr>,
        advance_prompt_cursor rot (map (\<lambda>k. cands ! k) ks) d)"
    unfolding select_recurrent_prompt_batch_def Let_def plans(1) and_then_Inr u_def [symmetric] g(1) expect_Some prod.case fr ks(1)
    by simp
  moreover have "k < length cands" if "k \<in> set ks" for k using that sub(1) rows by blast
  ultimately show ?thesis
    using inv picked_batch_ok [OF sch plans(2) ks(3) sub(2)] by (auto simp: advance_cursor_other)
qed

text \<open>Preemption neither reads nor writes the running queue, so rejected sequences can be taken out of it before or after.\<close>

lemma ensure_hashes_running:
  "ensure_hashes h i (d\<lparr>ps_running := r\<rparr>) = map_sum id (\<lambda>d. d\<lparr>ps_running := r\<rparr>) (ensure_hashes h i d)"
  by (auto simp: ensure_hashes_def ensure_block_hashes_def block_hash_update_def Let_def and_then_def div_res_def expect_def
      split: sum.splits option.splits BlockHashUpdate.splits)

lemma modify_seq_running: "modify_seq i f (d\<lparr>ps_running := r\<rparr>) = (modify_seq i f d)\<lparr>ps_running := r\<rparr>"
  by (simp add: modify_seq_def)

lemma preempt_running_commutes:
  "preempt env h i (d\<lparr>ps_running := r\<rparr>) = map_sum id (\<lambda>d. d\<lparr>ps_running := r\<rparr>) (preempt env h i d)"
proof (cases "is_finished_paged_attn (seqs d i)")
  case False
  define e where "e = (modify_seq i (\<lambda>s. clear_staged_speculative_tokens (set_prefix_cache_len 0 (set_state Waiting s))) d)
      \<lparr>preempted_sequence_ids := preempted_sequence_ids d @ [i]\<rparr>"
  define k where "k = (\<lambda>d. and_then (if prefix_caching_enabled d
      then cache_blocks env i (hashes_of d i) (seq_computed (seqs e i)) (kv_cache_manager d) else Inr (kv_cache_manager d)) (\<lambda>kv.
      and_then (free_request env i kv) (\<lambda>kv. Inr (d\<lparr>kv_cache_manager := kv, ps_waiting := i # ps_waiting d\<rparr>))))"
  have run: "preempt env h i d = and_then (ensure_hashes h i e) (\<lambda>d. k (modify_seq i (set_num_computed_tokens 0) d))"
    using False by (simp add: preempt_def Let_def e_def k_def cong: if_cong)
  have swap: "x\<lparr>ps_running := r, preempted_sequence_ids := y\<rparr> = x\<lparr>preempted_sequence_ids := y, ps_running := r\<rparr>" for x y by simp
  have "preempt env h i (d\<lparr>ps_running := r\<rparr>) =
      and_then (ensure_hashes h i (e\<lparr>ps_running := r\<rparr>)) (\<lambda>d. k (modify_seq i (set_num_computed_tokens 0) d))"
    using False by (simp add: preempt_def Let_def e_def k_def modify_seq_running swap cong: if_cong)
  moreover have "k (x\<lparr>ps_running := r\<rparr>) = map_sum id (\<lambda>d. d\<lparr>ps_running := r\<rparr>) (k x)" for x
    unfolding k_def and_then_def by (auto simp: hashes_of_def split: sum.splits)
  ultimately show ?thesis
    unfolding run ensure_hashes_running by (cases "ensure_hashes h i e") (simp_all add: modify_seq_running)
qed (simp add: preempt_def)

lemma fold_preempt_running:
  "fold_res (preempt env h) is (d\<lparr>ps_running := r\<rparr>) = map_sum id (\<lambda>d. d\<lparr>ps_running := r\<rparr>) (fold_res (preempt env h) is d)"
proof (induction "is" arbitrary: d)
  case (Cons i "is")
  then show ?case by (cases "preempt env h i d") (simp_all add: preempt_running_commutes)
qed simp

lemma fold_preempt_total:
  assumes st: "start_ok env T d0" and inv: "turn_inv env T d0 (rs @ busy) extra d"
  shows "returns (fold_res (preempt env h) rs d) (\<lambda>d'. turn_inv env T d0 busy extra d' \<and> ps_running d' = ps_running d \<and>
    (\<forall>j. j \<notin> set rs \<longrightarrow> seqs d' j = seqs d j \<and> tables (kv_cache_manager d') j = tables (kv_cache_manager d) j))"
  using inv
proof (induction rs arbitrary: d)
  case (Cons i rs)
  obtain d1 where d1: "preempt env h i d = Inr d1" "turn_inv env T d0 (rs @ busy) extra d1" "ps_running d1 = ps_running d"
    "tables (kv_cache_manager d1) = (tables (kv_cache_manager d))(i := None)" "\<forall>j. j \<noteq> i \<longrightarrow> seqs d1 j = seqs d j"
    using preempt_total [OF st, of i "rs @ busy" extra d h] Cons.prems by (auto simp: returns_iff)
  show ?case using Cons.IH [OF d1(2)] d1 by (auto elim!: returns_mono)
qed simp

lemma turn_inv_mset: "mset busy' = mset busy \<Longrightarrow> turn_inv env T d0 busy extra d \<Longrightarrow> turn_inv env T d0 busy' extra d"
  using mset_eq_setD [of busy' busy] by (simp add: turn_inv_def)

text \<open>
  Bucketing: the sequences that share the key of the first stay, the others are preempted. First for sequences that are off
  the queues, then for sequences of the running queue.
\<close>

lemma rejected_total:
  assumes st: "start_ok env T d0" and inv: "turn_inv env T d0 (xs @ busy) extra d"
  shows "returns (fold_res (preempt env h) (rev (filter (\<lambda>i. \<not> P i) xs)) d) (\<lambda>d'.
      turn_inv env T d0 (filter P xs @ busy) extra d' \<and> ps_running d' = ps_running d \<and>
      (\<forall>j. j \<notin> set (filter (\<lambda>i. \<not> P i) xs) \<longrightarrow> seqs d' j = seqs d j \<and>
        tables (kv_cache_manager d') j = tables (kv_cache_manager d) j))"
proof -
  have "mset (rev (filter (\<lambda>i. \<not> P i) xs) @ filter P xs @ busy) = mset (xs @ busy)"
    using multiset_partition [of "mset xs" P] by simp
  then have "turn_inv env T d0 (rev (filter (\<lambda>i. \<not> P i) xs) @ filter P xs @ busy) extra d"
    using inv by (rule turn_inv_mset)
  from fold_preempt_total [OF st this, of h] show ?thesis by simp
qed

definition same_bucket :: "PagedAttentionScheduler \<Rightarrow> BatchKind \<Rightarrow> bool \<Rightarrow> nat list \<Rightarrow> bool" where
  "same_bucket d bk u xs \<longleftrightarrow> (\<forall>i \<in> set xs. \<forall>j \<in> set xs. paged_key d bk u i = paged_key d bk u j)"

lemma bucket_off_queue:
  assumes st: "start_ok env T d0" and inv: "turn_inv env T d0 (xs @ busy) extra d"
  shows "returns (bucket_and_preempt_sequences env h xs bk u d) (\<lambda>(sel, d'). turn_inv env T d0 (sel @ busy) extra d' \<and>
    ps_running d' = ps_running d \<and> distinct sel \<and> set sel \<subseteq> set xs \<and> (xs \<noteq> [] \<longrightarrow> sel \<noteq> []) \<and>
    same_bucket d bk u sel \<and>
    (\<forall>j \<in> set (sel @ busy). seqs d' j = seqs d j \<and> tables (kv_cache_manager d') j = tables (kv_cache_manager d) j))"
proof (cases "length xs \<le> 1")
  case True
  then have "same_bucket d bk u xs" by (cases xs) (auto simp: same_bucket_def)
  then show ?thesis using True inv turn_facts(7) [OF st inv] by (auto simp: bucket_and_preempt_sequences_def)
next
  case False
  note f = turn_facts [OF st inv]
  define P where "P = (\<lambda>i. paged_key d bk u i = paged_key d bk u (hd xs))"
  let ?sel = "filter P xs" and ?rej = "filter (\<lambda>i. \<not> P i) xs"
  have dist: "distinct xs" "set xs \<inter> set (ps_running d) = {}" "set xs \<inter> set busy = {}" using f(7) by auto
  have ne: "?sel \<noteq> []" using False by (cases xs) (simp_all add: P_def)
  have run: "bucket_and_preempt_sequences env h xs bk u d =
      (if ?rej = [] then Inr (?sel, d) else and_then (fold_res (preempt env h) (rev ?rej) d) (\<lambda>d'.
        Inr (?sel, d'\<lparr>ps_running := filter (\<lambda>i. i \<notin> set ?rej) (ps_running d')\<rparr>)))"
    using False by (simp add: bucket_and_preempt_sequences_def Let_def P_def)
  have keys: "same_bucket d bk u ?sel" by (simp add: P_def same_bucket_def)
  show ?thesis
  proof (cases "?rej = []")
    case True
    then have "?sel = xs" by (simp add: filter_id_conv filter_empty_conv)
    then show ?thesis unfolding run using True inv dist keys ne by simp
  next
    case rej: False
    obtain d' where d': "fold_res (preempt env h) (rev ?rej) d = Inr d'" "turn_inv env T d0 (?sel @ busy) extra d'"
      "ps_running d' = ps_running d" "\<forall>j. j \<notin> set ?rej \<longrightarrow> seqs d' j = seqs d j \<and> tables (kv_cache_manager d') j = tables (kv_cache_manager d) j"
      using rejected_total [OF st inv, of h P] by (auto simp: returns_iff)
    have "filter (\<lambda>i. i \<notin> set ?rej) (ps_running d') = ps_running d'"
      using dist(2) d'(3) by (auto simp: filter_id_conv)
    then have "bucket_and_preempt_sequences env h xs bk u d = Inr (?sel, d')" unfolding run using rej d'(1) by simp
    then show ?thesis using d' dist keys ne by auto
  qed
qed

lemma bucket_in_queue:
  assumes st: "start_ok env T d0" and inv: "turn_inv env T d0 [] extra d" and xs: "distinct xs" "set xs \<subseteq> set (ps_running d)"
  shows "returns (bucket_and_preempt_sequences env h xs bk u d) (\<lambda>(sel, d'). turn_inv env T d0 [] extra d' \<and>
    distinct sel \<and> set sel \<subseteq> set xs \<and> set sel \<subseteq> set (ps_running d') \<and> (xs \<noteq> [] \<longrightarrow> sel \<noteq> []) \<and>
    (\<forall>j \<in> set sel. seqs d' j = seqs d j))"
proof (cases "length xs \<le> 1 \<or> filter (\<lambda>i. paged_key d bk u i \<noteq> paged_key d bk u (hd xs)) xs = []")
  case True
  then have "bucket_and_preempt_sequences env h xs bk u d = Inr (xs, d)"
    by (auto simp: bucket_and_preempt_sequences_def Let_def filter_empty_conv filter_id_conv)
  then show ?thesis using inv xs by simp
next
  case False
  define P where "P = (\<lambda>i. paged_key d bk u i = paged_key d bk u (hd xs))"
  let ?sel = "filter P xs" and ?rej = "filter (\<lambda>i. \<not> P i) xs"
  define R where "R = filter (\<lambda>i. i \<notin> set xs) (ps_running d)"
  let ?d = "d\<lparr>ps_running := R\<rparr>"
  have R: "set R = set (ps_running d) - set xs" by (auto simp: R_def)
  have m: "mset (ps_running d) = mset R + mset xs"
  proof -
    have "distinct (ps_running d)" using turn_facts(7) [OF st inv] by simp
    then have "mset (filter (\<lambda>i. i \<in> set xs) (ps_running d)) = mset xs"
      using xs by (intro set_eq_iff_mset_eq_distinct [THEN iffD1]) auto
    then show ?thesis
      using multiset_partition [of "mset (ps_running d)" "\<lambda>i. i \<in> set xs"] by (simp add: R_def add.commute)
  qed
  have inv': "turn_inv env T d0 (xs @ []) extra ?d"
  proof (rule turn_move [OF inv])
    show "mset (ps_running ?d @ ps_waiting ?d @ (xs @ []) @ extra) = mset (ps_running d @ ps_waiting d @ [] @ extra)"
      by (simp add: m ac_simps)
  qed (use inv st xs in \<open>auto simp: turn_inv_def start_ok_def same_setup_def covered_def R\<close>)
  obtain e where e: "fold_res (preempt env h) (rev ?rej) ?d = Inr e" "turn_inv env T d0 (?sel @ []) extra e" "ps_running e = ps_running ?d"
    "\<forall>j. j \<notin> set ?rej \<longrightarrow> seqs e j = seqs ?d j \<and> tables (kv_cache_manager e) j = tables (kv_cache_manager ?d) j"
    using rejected_total [OF st inv', of h P] by (auto simp: returns_iff)
  let ?run = "filter (\<lambda>i. i \<notin> set ?rej) (ps_running d)"
  have whole: "?d\<lparr>ps_running := ps_running d\<rparr> = d" by simp
  have "fold_res (preempt env h) (rev ?rej) d = Inr (e\<lparr>ps_running := ps_running d\<rparr>)"
    using fold_preempt_running [of env h "rev ?rej" "ps_running d" ?d] e(1) unfolding whole by simp
  then have run: "bucket_and_preempt_sequences env h xs bk u d = Inr (?sel, e\<lparr>ps_running := ?run\<rparr>)"
    using False by (simp add: bucket_and_preempt_sequences_def Let_def P_def)
  have m': "mset ?run = mset (ps_running e) + mset ?sel"
  proof -
    have d: "distinct (ps_running d)" using turn_facts(7) [OF st inv] by simp
    have run: "ps_running e = R" using e(3) by simp
    have "distinct R" "set R \<inter> set ?sel = {}" "distinct ?sel" using d xs R by (auto simp: R_def)
    then have "distinct (R @ ?sel)" by simp
    moreover have "set ?run = set (R @ ?sel)" using xs R by auto
    moreover have "distinct ?run" using d by simp
    ultimately have "mset ?run = mset (R @ ?sel)" using set_eq_iff_mset_eq_distinct by blast
    then show ?thesis unfolding run mset_append .
  qed
  have "turn_inv env T d0 [] extra (e\<lparr>ps_running := ?run\<rparr>)"
  proof (rule turn_move [OF e(2)])
    have "set ?run = set (ps_running e @ ?sel)" using m' mset_eq_setD [of ?run "ps_running e @ ?sel"] by simp
    then show "live (seqs (e\<lparr>ps_running := ?run\<rparr>) j) \<and> (is_prompt (seqs (e\<lparr>ps_running := ?run\<rparr>) j) \<longrightarrow> covered (e\<lparr>ps_running := ?run\<rparr>) j)"
      if "j \<in> set (ps_running (e\<lparr>ps_running := ?run\<rparr>) @ [])" for j
      using that e(2) by (auto simp: turn_inv_def covered_def)
    show "dom (tables (kv_cache_manager (e\<lparr>ps_running := ?run\<rparr>))) \<subseteq> set (ps_running (e\<lparr>ps_running := ?run\<rparr>) @ [])"
      using e(2) \<open>set ?run = _\<close> by (auto simp: turn_inv_def)
    show "mset (ps_running (e\<lparr>ps_running := ?run\<rparr>) @ ps_waiting (e\<lparr>ps_running := ?run\<rparr>) @ [] @ extra) =
        mset (ps_running e @ ps_waiting e @ (?sel @ []) @ extra)"
      using m' by (simp add: ac_simps)
  qed (use e(2) st in \<open>auto simp: turn_inv_def start_ok_def same_setup_def\<close>)
  moreover have "set ?sel \<subseteq> set ?run" using xs by auto
  moreover have "?sel \<noteq> []" using False by (cases xs) (simp_all add: P_def)
  ultimately show ?thesis unfolding run using xs(1) e(4) by auto
qed

lemma select_whole_total:
  assumes st: "start_ok env T d0" and inv: "turn_inv env T d0 [] [] d" and sch: "sched_list d cands" and ne: "cands \<noteq> []"
  shows "returns (select_whole_prompts env h cands rot d) (\<lambda>(batch, d'). turn_inv env T d0 [] [] d' \<and> prompt_batch_ok d' batch)"
proof -
  have c: "distinct cands" "set cands \<subseteq> set (ps_running d)" "\<forall>i \<in> set cands. is_prompt (seqs d i)"
    using sch by (auto simp: sched_list_def)
  have "turn_inv env T d0 [] [] (advance_prompt_cursor rot sel e) \<and>
      prompt_batch_ok (advance_prompt_cursor rot sel e) \<lparr>pb_scheduled = sel, pb_chunk_size = n, pb_chunks = None\<rparr>"
    if "turn_inv env T d0 [] [] e" "distinct sel" "set sel \<subseteq> set cands" "set sel \<subseteq> set (ps_running e)" "sel \<noteq> []"
      "\<forall>j \<in> set sel. seqs e j = seqs d j" for sel e n
    using that c(3) by (auto simp: prompt_batch_ok_def advance_cursor_other)
  then show ?thesis
    unfolding select_whole_prompts_def Let_def
    by (intro returns_bind [OF bucket_in_queue [OF st inv c(1,2)]]) (use ne in auto)
qed

lemma select_prompt_batch_total:
  assumes st: "start_ok env T d0" and inv: "turn_inv env T d0 [] [] d" and sch: "sched_list d cands" and ne: "cands \<noteq> []"
  shows "returns (select_prompt_batch env h cands d) (\<lambda>(batch, d'). turn_inv env T d0 [] [] d' \<and> prompt_batch_ok d' batch)"
proof -
  let ?rot = "rotate_to_cursor (next_prompt_sequence_id d) cands"
  let ?comp = "compatible_candidates d (hd ?rot) ?rot"
  let ?lb = "\<exists>i \<in> set (ps_running d). is_completion (seqs d i)"
  have rot: "?rot \<noteq> []" "distinct ?rot" "set ?rot = set cands"
    using rotate_to_cursor_props ne sch by (auto simp: sched_list_def)
  have comp: "?comp \<noteq> []" "distinct ?comp" "set ?comp \<subseteq> set cands"
    using compatible_candidates_props [where d = d and xs = ?rot] rot by auto
  then have s: "sched_list d ?comp" by (intro sched_list_sub [OF sch]) auto
  have "0 < prefill_token_budget d ?lb" using prefill_token_budget_bounds(1) [OF turn_config [OF st inv]] .
  then have tk: "take (prefill_token_budget d ?lb) ?comp \<noteq> []" "sched_list d (take (prefill_token_budget d ?lb) ?comp)"
    using comp(1,2) by (auto intro!: sched_list_sub [OF s] dest: in_set_takeD)
  show ?thesis
    using select_recurrent_total [OF st inv s comp(1)] select_chunked_total [OF st inv tk(2,1)] select_whole_total [OF st inv s comp(1)] ne
    by (simp add: select_prompt_batch_def Let_def)
qed

section \<open>Slots for the chunks\<close>

definition has_slots :: "PagedAttentionScheduler \<Rightarrow> nat \<Rightarrow> nat \<Rightarrow> bool" where
  "has_slots d i n \<longleftrightarrow> (\<exists>req. tables (kv_cache_manager d) i = Some req \<and> div_ceil n (ps_block_size d) \<le> length (block_ids req))"

text \<open>Growing the table of a sequence that may hold one.\<close>

lemma turn_extend:
  assumes inv: "turn_inv env T d0 busy extra d" and i: "i \<in> set (ps_running d @ busy)"
    and kv: "manager_ok env kv" "same_geometry (kv_cache_manager d) kv" "tables kv = (tables (kv_cache_manager d))(i \<mapsto> req)"
    and len: "length (block_ids req) \<le> T" and more: "\<And>old. tables (kv_cache_manager d) i = Some old \<Longrightarrow> reach old \<le> reach req"
  shows "turn_inv env T d0 busy extra (d\<lparr>kv_cache_manager := kv\<rparr>)"
proof -
  have cov: "covered (d\<lparr>kv_cache_manager := kv\<rparr>) j" if "covered d j" for j
    using that more unfolding covered_def by (cases "j = i") (auto simp: kv(3) intro: order_trans)
  have "same_setup d0 (d\<lparr>kv_cache_manager := kv\<rparr>)"
    using inv kv(2) by (auto simp: turn_inv_def same_setup_def intro: same_geometry_trans)
  moreover have "dom (tables kv) \<subseteq> set (ps_running d @ busy)" using inv i by (auto simp: turn_inv_def kv(3) split: if_splits)
  moreover have "\<forall>r req. tables kv r = Some req \<longrightarrow> length (block_ids req) \<le> T"
    using inv len by (auto simp: turn_inv_def kv(3))
  moreover have "\<forall>j \<in> set (ps_running d @ busy). live (seqs d j) \<and> (is_prompt (seqs d j) \<longrightarrow> covered (d\<lparr>kv_cache_manager := kv\<rparr>) j)"
    using inv cov unfolding turn_inv_def by blast
  ultimately show ?thesis using inv kv(1) unfolding turn_inv_def by simp
qed

lemma grow_table:
  assumes ok: "manager_ok env m" and dbg: "debug_assertions env" and old: "tables m r = Some old" and n: "n \<le> usize_max"
  obtains res m' where "allocate_slots env r n [] m = Inr (res, m')" and "manager_ok env m'" and "same_geometry m m'"
    and "res = None \<Longrightarrow> reach old < div_ceil n (block_size m) \<and> tables m' = tables m"
    and "res \<noteq> None \<Longrightarrow> \<exists>req. tables m' = (tables m)(r \<mapsto> req) \<and> div_ceil n (block_size m) \<le> length (block_ids req) \<and>
      length (block_ids req) = max (length (block_ids old)) (div_ceil n (block_size m)) \<and> reach old \<le> reach req"
proof -
  have "returns (allocate_slots env r n [] m) (\<lambda>(res, m'). manager_ok env m' \<and> same_geometry m m' \<and>
      (res = None \<longrightarrow> reach old < div_ceil n (block_size m) \<and> tables m' = tables m) \<and>
      (res \<noteq> None \<longrightarrow> (\<exists>req. tables m' = (tables m)(r \<mapsto> req) \<and> div_ceil n (block_size m) \<le> length (block_ids req) \<and>
        length (block_ids req) = max (length (block_ids old)) (div_ceil n (block_size m)) \<and> reach old \<le> reach req)))"
    by (rule returns_mono [OF allocate_slots_total [OF ok dbg _ n]]) (use old in \<open>auto split: option.splits\<close>)
  then show thesis using that unfolding returns_iff by blast
qed

lemma allocate_chunk_total:
  assumes st: "start_ok env T d0" and inv: "turn_inv env T d0 [] [] d" and i: "i \<in> set (ps_running d)" "is_prompt (seqs d i)"
    and n: "n \<le> length (get_toks (seqs d i))"
  shows "returns (allocate_chunk env (i, n) (kv_cache_manager d)) (\<lambda>kv. turn_inv env T d0 [] [] (d\<lparr>kv_cache_manager := kv\<rparr>) \<and>
    has_slots (d\<lparr>kv_cache_manager := kv\<rparr>) i n \<and> (\<forall>j m. has_slots d j m \<longrightarrow> has_slots (d\<lparr>kv_cache_manager := kv\<rparr>) j m))"
proof -
  note f = turn_facts [OF st inv]
  let ?kv = "kv_cache_manager d" and ?k = "div_ceil n (block_size (kv_cache_manager d))"
  have fits: "seq_fits T (seqs d i)" using f(10) i(1) by simp
  obtain old where old: "tables ?kv i = Some old" "prompt_blocks d i \<le> reach old"
    using inv i by (auto simp: turn_inv_def covered_def prompt_blocks_def)
  have k: "?k \<le> prompt_blocks d i" unfolding prompt_blocks_def f(2) by (rule div_ceil_mono) (use f(2,3) n in auto)
  have kT: "?k \<le> T" using k prompt_blocks_le [OF f(3) fits] by linarith
  have oldT: "length (block_ids old) \<le> T" using inv old(1) unfolding turn_inv_def by blast
  have "u32_max \<le> usize_max" by (simp add: int_max_defs)
  then have nn: "n \<le> usize_max" using n fits f(11) by (simp add: seq_fits_def)
  obtain res kv where r: "allocate_slots env i n [] ?kv = Inr (res, kv)" "manager_ok env kv" "same_geometry ?kv kv"
    "res = None \<Longrightarrow> reach old < ?k \<and> tables kv = tables ?kv"
    "res \<noteq> None \<Longrightarrow> \<exists>req. tables kv = (tables ?kv)(i \<mapsto> req) \<and> ?k \<le> length (block_ids req) \<and>
       length (block_ids req) = max (length (block_ids old)) ?k \<and> reach old \<le> reach req"
    using grow_table [OF f(1,12) old(1) nn] by metis
  then obtain ids req where req: "res = Some ids" "tables kv = (tables ?kv)(i \<mapsto> req)" "?k \<le> length (block_ids req)"
    "length (block_ids req) = max (length (block_ids old)) ?k" "reach old \<le> reach req"
    using old(2) k by (cases res) auto
  have "turn_inv env T d0 [] [] (d\<lparr>kv_cache_manager := kv\<rparr>)"
    by (rule turn_extend [OF inv _ r(2,3) req(2)]) (use i(1) req kT oldT old(1) in auto)
  moreover have "has_slots (d\<lparr>kv_cache_manager := kv\<rparr>) i n" using req f(2) by (simp add: has_slots_def)
  moreover have "has_slots (d\<lparr>kv_cache_manager := kv\<rparr>) j m" if "has_slots d j m" for j m
    using that req(2,4) old(1) by (auto simp: has_slots_def)
  ultimately show ?thesis using r(1) req(1) by (simp add: allocate_chunk_def)
qed

lemma materialize_total:
  assumes st: "start_ok env T d0" and inv: "turn_inv env T d0 [] [] d" and b: "prompt_batch_ok d batch"
  shows "returns (materialize_prompt_chunks env batch d) (\<lambda>d'. turn_inv env T d0 [] [] d' \<and> prompt_batch_ok d' batch \<and>
    (\<forall>cs. pb_chunks batch = Some cs \<longrightarrow> list_all2 (\<lambda>i c. has_slots d' i (chunk_end c)) (pb_scheduled batch) cs))"
proof (cases "pb_chunks batch")
  case None
  then show ?thesis using inv b by (simp add: materialize_prompt_chunks_def)
next
  case (Some cs)
  let ?rows = "zip (pb_scheduled batch) (map chunk_end cs)"
  have la: "list_all2 (\<lambda>i c. chunk_for (seqs d i) c) (pb_scheduled batch) cs" using b Some by (simp add: prompt_batch_ok_def)
  then have len: "length (pb_scheduled batch) = length cs" by (rule list_all2_lengthD)
  define I where "I = (\<lambda>done kv. turn_inv env T d0 [] [] (d\<lparr>kv_cache_manager := kv\<rparr>) \<and>
    (\<forall>(i, n) \<in> set done. has_slots (d\<lparr>kv_cache_manager := kv\<rparr>) i n))"
  have "returns (fold_res (allocate_chunk env) ?rows (kv_cache_manager d)) (I ?rows)"
  proof (rule returns_fold_res)
    show "I [] (kv_cache_manager d)" using inv by (simp add: I_def)
    fix pre x rest kv assume x: "?rows = pre @ x # rest" and I: "I pre kv"
    let ?d = "d\<lparr>kv_cache_manager := kv\<rparr>"
    obtain i n where xi: "x = (i, n)" by (cases x)
    have "x \<in> set ?rows" using x by simp
    then obtain k where k: "k < length cs" "i = pb_scheduled batch ! k" "n = chunk_end (cs ! k)"
      using len xi by (auto simp: in_set_conv_nth)
    have "n \<le> length (get_toks (seqs d i))" using list_all2_nthD [OF la, of k] k len by (simp add: chunk_for_def)
    moreover have "i \<in> set (ps_running d)" "is_prompt (seqs d i)"
      using b k len by (auto simp: prompt_batch_ok_def)
    ultimately show "returns (allocate_chunk env x kv) (I (pre @ [x]))"
      using allocate_chunk_total [OF st, of ?d i n] I xi by (auto simp: I_def elim!: returns_mono)
  qed
  then obtain kv where kv: "fold_res (allocate_chunk env) ?rows (kv_cache_manager d) = Inr kv" "I ?rows kv" by (auto simp: returns_iff)
  have "list_all2 (\<lambda>i c. has_slots (d\<lparr>kv_cache_manager := kv\<rparr>) i (chunk_end c)) (pb_scheduled batch) cs"
    using kv(2) len unfolding I_def list_all2_conv_all_nth by (auto simp: set_zip) (metis nth_map)
  moreover have "prompt_batch_ok (d\<lparr>kv_cache_manager := kv\<rparr>) batch" using b by (simp add: prompt_batch_ok_def cong: option.case_cong)
  ultimately show ?thesis
    using kv Some len by (simp add: materialize_prompt_chunks_def I_def)
qed

end
