(* ===== verification/Paged_Completions.thy ===== *)
theory Paged_Completions
  imports Paged_Batches
begin

text \<open>
  The completion branch of \<open>schedule\<close>: every running completion gets the slots of its next tokens or is preempted, the batch is a
  nonempty selection of running completions within the token budget, and the invariant is kept.
\<close>

section \<open>Slots\<close>

lemma more_slots:
  assumes st: "start_ok env T d0" and inv: "turn_inv env T d0 busy extra d" and i: "i \<in> set (ps_running d @ busy)" and n: "n \<le> T"
  obtains res kv where "allocate_slots env i n [] (kv_cache_manager d) = Inr (res, kv)"
    and "turn_inv env T d0 busy extra (d\<lparr>kv_cache_manager := kv\<rparr>)" and "res \<noteq> None \<Longrightarrow> has_slots (d\<lparr>kv_cache_manager := kv\<rparr>) i n"
    and "\<And>j. j \<noteq> i \<Longrightarrow> tables kv j = tables (kv_cache_manager d) j"
proof -
  note f = turn_facts [OF st inv]
  let ?kv = "kv_cache_manager d" and ?k = "div_ceil n (block_size (kv_cache_manager d))"
  have "?k \<le> n" by (rule div_ceil_least) (use f(2,3) in auto)
  then have kT: "?k \<le> T" using n by linarith
  have small: "u32_max \<le> usize_max" by (simp add: int_max_defs)
  have "length (block_ids old) \<le> T" if "tables ?kv i = Some old" for old using inv that unfolding turn_inv_def by blast
  then have "returns (allocate_slots env i n [] ?kv) (\<lambda>(res, kv). manager_ok env kv \<and> same_geometry ?kv kv \<and>
      (res = None \<longrightarrow> tables kv = tables ?kv) \<and>
      (res \<noteq> None \<longrightarrow> (\<exists>req. tables kv = (tables ?kv)(i \<mapsto> req) \<and> ?k \<le> length (block_ids req) \<and> length (block_ids req) \<le> T \<and>
        (\<forall>old. tables ?kv i = Some old \<longrightarrow> reach old \<le> reach req))))"
  proof (intro returns_mono [OF allocate_slots_total [OF f(1,12), of i "[]" n]])
    show "valid_prefix ?kv [] \<and> length ([] :: nat list) \<le> u32_max" by (simp add: valid_prefix_def)
    show "n \<le> usize_max" using n f(11) small by linarith
  qed (use kT in \<open>auto split: option.splits\<close>)
  then obtain res kv where r: "allocate_slots env i n [] ?kv = Inr (res, kv)" "manager_ok env kv" "same_geometry ?kv kv"
    "res = None \<longrightarrow> tables kv = tables ?kv"
    "res \<noteq> None \<longrightarrow> (\<exists>req. tables kv = (tables ?kv)(i \<mapsto> req) \<and> ?k \<le> length (block_ids req) \<and> length (block_ids req) \<le> T \<and>
        (\<forall>old. tables ?kv i = Some old \<longrightarrow> reach old \<le> reach req))"
    unfolding returns_iff by blast
  show thesis
  proof (cases res)
    case None
    then show ?thesis using that [OF r(1) turn_inv_kv [OF inv r(2,3)]] r(4) by simp
  next
    case (Some ids)
    then obtain req where req: "tables kv = (tables ?kv)(i \<mapsto> req)" "?k \<le> length (block_ids req)" "length (block_ids req) \<le> T"
      "\<forall>old. tables ?kv i = Some old \<longrightarrow> reach old \<le> reach req" using r(5) by blast
    have "turn_inv env T d0 busy extra (d\<lparr>kv_cache_manager := kv\<rparr>)"
      by (rule turn_extend [OF inv i r(2,3) req(1,3)]) (use req(4) in blast)
    then show ?thesis using that [OF r(1)] req(1,2) f(2) by (simp add: has_slots_def)
  qed
qed

text \<open>What a step leaves of the sequences it does not touch.\<close>

definition keeps :: "PagedAttentionScheduler \<Rightarrow> PagedAttentionScheduler \<Rightarrow> nat set \<Rightarrow> bool" where
  "keeps d d' js \<longleftrightarrow> (\<forall>j \<in> js. seqs d' j = seqs d j \<and> tables (kv_cache_manager d') j = tables (kv_cache_manager d) j)"

lemma keeps_trans: "keeps a b js \<Longrightarrow> keeps b c js \<Longrightarrow> keeps a c js"
  by (simp add: keeps_def)

lemma keeps_mono: "keeps a b js \<Longrightarrow> ks \<subseteq> js \<Longrightarrow> keeps a b ks"
  by (auto simp: keeps_def)

text \<open>Taking the last running sequence off the queue and preempting it.\<close>

lemma preempt_last:
  assumes st: "start_ok env T d0" and inv: "turn_inv env T d0 busy extra d" and p: "ps_running d = rest @ [p]"
  shows "returns (preempt env h p (d\<lparr>ps_running := rest\<rparr>)) (\<lambda>d'. turn_inv env T d0 busy extra d' \<and> ps_running d' = rest \<and>
    keeps d d' (- {p}))"
proof -
  have "turn_inv env T d0 (p # busy) extra (d\<lparr>ps_running := rest\<rparr>)"
    by (rule turn_move [OF inv]) (use inv p st in \<open>auto simp: turn_inv_def start_ok_def same_setup_def covered_def\<close>)
  from preempt_total [OF st this, of h] show ?thesis by (rule returns_mono) (auto simp: keeps_def)
qed

definition completion_slots :: "rt_env \<Rightarrow> nat \<Rightarrow> PagedAttentionScheduler \<Rightarrow> nat \<Rightarrow> nat \<Rightarrow> nat list \<Rightarrow> nat list \<Rightarrow>
    PagedAttentionScheduler \<Rightarrow> bool \<Rightarrow> PagedAttentionScheduler \<Rightarrow> bool" where
  "completion_slots env T d0 i n busy extra d ok d' \<longleftrightarrow>
     set (ps_running d') \<subseteq> set (ps_running d) \<and> keeps d d' (set busy) \<and> (\<forall>j \<in> set (ps_running d'). seqs d' j = seqs d j) \<and>
     (if ok then turn_inv env T d0 (i # busy) extra d' \<and> has_slots d' i n \<and> seqs d' i = seqs d i
      else turn_inv env T d0 busy extra d')"

lemma allocate_completion_total:
  assumes st: "start_ok env T d0" and inv: "turn_inv env T d0 (i # busy) extra d" and n: "n \<le> T"
  shows "returns (allocate_completion env h i n d) (\<lambda>(ok, d'). completion_slots env T d0 i n busy extra d ok d')"
  using inv
proof (induction "length (ps_running d)" arbitrary: d rule: less_induct)
  case less
  note f = turn_facts [OF st less.prems]
  obtain res kv where r: "allocate_slots env i n [] (kv_cache_manager d) = Inr (res, kv)"
    "turn_inv env T d0 (i # busy) extra (d\<lparr>kv_cache_manager := kv\<rparr>)" "res \<noteq> None \<Longrightarrow> has_slots (d\<lparr>kv_cache_manager := kv\<rparr>) i n"
    "\<And>j. j \<noteq> i \<Longrightarrow> tables kv j = tables (kv_cache_manager d) j"
    using more_slots [OF st less.prems _ n] by (metis in_set_conv_decomp set_append Un_iff list.set_intros(1))
  let ?d = "d\<lparr>kv_cache_manager := kv\<rparr>"
  have busy: "i \<notin> set busy" "i \<notin> set (ps_running d)" "set busy \<inter> set (ps_running d) = {}" using f(7) by auto
  have kd: "keeps d ?d (- {i})" using r(4) by (simp add: keeps_def)
  show ?case
  proof (cases "res = None")
    case False
    then have "allocate_completion env h i n d = Inr (True, ?d)" using r(1) by (subst allocate_completion.simps) simp
    moreover have "keeps d ?d (set busy)" by (rule keeps_mono [OF kd]) (use busy in auto)
    ultimately show ?thesis using r(2,3) False by (simp add: completion_slots_def)
  next
    case True
    show ?thesis
    proof (cases "ps_running d" rule: rev_cases)
      case Nil
      have run: "allocate_completion env h i n d = and_then (preempt env h i ?d) (\<lambda>d. Inr (False, d))"
        using r(1) True Nil by (subst allocate_completion.simps) (simp add: vec_pop_def)
      show ?thesis
        unfolding run
        by (rule returns_bind [OF preempt_total [OF st r(2)]])
          (use kd busy Nil in \<open>auto simp: completion_slots_def keeps_def\<close>)
    next
      case (snoc rest p)
      have run: "allocate_completion env h i n d = and_then (preempt env h p (?d\<lparr>ps_running := rest\<rparr>)) (\<lambda>d. allocate_completion env h i n d)"
        using r(1) True snoc by (subst allocate_completion.simps) (simp add: vec_pop_def)
      have p: "p \<noteq> i" "p \<notin> set busy" "p \<notin> set rest" using f(7) snoc by auto
      have pl: "returns (preempt env h p (?d\<lparr>ps_running := rest\<rparr>)) (\<lambda>d'. turn_inv env T d0 (i # busy) extra d' \<and> ps_running d' = rest \<and>
          keeps ?d d' (- {p}))" by (rule preempt_last [OF st r(2)]) (simp add: snoc)
      show ?thesis
        unfolding run
      proof (rule returns_bind [OF pl])
        fix d1 assume d1: "turn_inv env T d0 (i # busy) extra d1 \<and> ps_running d1 = rest \<and> keeps ?d d1 (- {p})"
        have "keeps ?d d1 (set busy)" "keeps d ?d (set busy)" using d1 kd p busy by (auto simp: keeps_def)
        then have kb: "keeps d d1 (set busy)" using keeps_trans by blast
        have same: "seqs d1 j = seqs d j" if "j \<in> set rest \<or> j = i" for j using that d1 p by (auto simp: keeps_def)
        show "returns (allocate_completion env h i n d1) (\<lambda>(ok, d'). completion_slots env T d0 i n busy extra d ok d')"
        proof (rule returns_mono [OF less.hyps [of d1]], safe)
          fix ok e assume e: "completion_slots env T d0 i n busy extra d1 ok e"
          then have sub: "set (ps_running e) \<subseteq> set rest" and ke: "keeps d1 e (set busy)" using d1 by (auto simp: completion_slots_def)
          then have "seqs d1 j = seqs d j" if "j \<in> set (ps_running e) \<or> j = i" for j using that same by blast
          then show "completion_slots env T d0 i n busy extra d ok e"
            using e sub snoc keeps_trans [OF kb ke] by (auto simp: completion_slots_def)
        qed (use d1 snoc in auto)
      qed
    qed
  qed
qed

section \<open>The completion loop\<close>

lemma completion_tokens_le: "seq_fits T s \<Longrightarrow> completion_tokens s \<le> T"
  by (auto simp: seq_fits_def completion_tokens_def)

definition ready :: "PagedAttentionScheduler \<Rightarrow> nat \<Rightarrow> bool" where
  "ready d i \<longleftrightarrow> is_completion (seqs d i) \<and> has_slots d i (completion_tokens (seqs d i))"

lemma ready_keeps:
  assumes "ready d i" and "keeps d d' js" and "i \<in> js" and "ps_block_size d' = ps_block_size d"
  shows "ready d' i"
  using assms by (auto simp: ready_def has_slots_def keeps_def)

definition completion_inv :: "rt_env \<Rightarrow> nat \<Rightarrow> PagedAttentionScheduler \<Rightarrow> nat list \<Rightarrow> nat list \<Rightarrow> PagedAttentionScheduler \<Rightarrow> bool" where
  "completion_inv env T d0 prompts kept d \<longleftrightarrow>
     turn_inv env T d0 (kept @ prompts) [] d \<and> (\<forall>i \<in> set (ps_running d). is_completion (seqs d i)) \<and> (\<forall>i \<in> set kept. ready d i)"

lemma completion_inv_after:
  assumes "completion_inv env T d0 prompts kept d" and "turn_inv env T d0 (kept @ prompts) [] d'" and "keeps d d' (set (kept @ prompts))"
    and "set (ps_running d') \<subseteq> set (ps_running d)" and "\<forall>j \<in> set (ps_running d'). seqs d' j = seqs d j"
    and "ps_block_size d' = ps_block_size d"
  shows "completion_inv env T d0 prompts kept d'"
  using assms ready_keeps [OF _ assms(3)] by (auto simp: completion_inv_def)

lemma completion_loop_total:
  assumes st: "start_ok env T d0" and inv: "completion_inv env T d0 prompts kept d"
  shows "returns (completion_loop env h kept d) (\<lambda>(kept', d'). completion_inv env T d0 prompts kept' d' \<and> ps_running d' = [] \<and>
    keeps d d' (set prompts))"
  using inv
proof (induction "length (ps_running d)" arbitrary: kept d rule: less_induct)
  case less
  let ?Q = "\<lambda>d. \<lambda>(kept', d'). completion_inv env T d0 prompts kept' d' \<and> ps_running d' = [] \<and> keeps d d' (set prompts)"
  have t: "turn_inv env T d0 (kept @ prompts) [] d" using less.prems by (simp add: completion_inv_def)
  show ?case
  proof (cases "ps_running d")
    case Nil
    then show ?thesis using less.prems by (subst completion_loop.simps) (simp add: keeps_def)
  next
    case (Cons i rest)
    note f = turn_facts [OF st t]
    let ?d = "d\<lparr>ps_running := rest\<rparr>" and ?n = "completion_tokens (seqs d i)"
    have i: "is_completion (seqs d i)" "i \<notin> set rest" "i \<notin> set (kept @ prompts)"
      using less.prems f(7) Cons by (auto simp: completion_inv_def)
    have td: "turn_inv env T d0 (i # (kept @ prompts)) [] ?d"
      by (rule turn_move [OF t]) (use t Cons st in \<open>auto simp: turn_inv_def start_ok_def same_setup_def covered_def\<close>)
    have n: "?n \<le> T" using f(10) [of i] Cons by (intro completion_tokens_le) simp
    have rec: "returns (completion_loop env h kept' e) (?Q d)"
      if "completion_inv env T d0 prompts kept' e" "length (ps_running e) \<le> length rest" "keeps d e (set prompts)" for kept' e
      by (rule returns_mono [OF less.hyps [of e kept']]) (use that Cons in \<open>auto intro: keeps_trans\<close>)
    have step: "returns (if \<not> ok then completion_loop env h kept e
        else if \<not> ps_requires_uniform_media_batch e \<or> kept = [] \<or> modality_signature (seqs e (hd kept)) = modality_signature (seqs e i)
        then completion_loop env h (kept @ [i]) e
        else and_then (preempt env h i e) (\<lambda>d. completion_loop env h kept d)) (?Q d)"
      if a: "completion_slots env T d0 i ?n (kept @ prompts) [] ?d ok e" "length (ps_running e) \<le> length rest" for ok e
    proof -
      have k: "keeps d e (set (kept @ prompts))" "set (ps_running e) \<subseteq> set rest" "\<forall>j \<in> set (ps_running e). seqs e j = seqs d j"
        using a(1) by (auto simp: completion_slots_def keeps_def)
      have kp: "keeps d e (set prompts)" by (rule keeps_mono [OF k(1)]) simp
      show ?thesis
      proof (cases ok)
        case False
        then have te: "turn_inv env T d0 (kept @ prompts) [] e" using a(1) by (simp add: completion_slots_def)
        have "completion_inv env T d0 prompts kept e"
          by (rule completion_inv_after [OF less.prems te k(1)]) (use k Cons turn_facts(14) [OF st te] f(14) in auto)
        then show ?thesis using rec [OF _ a(2) kp] False by simp
      next
        case True
        then have te: "turn_inv env T d0 (i # kept @ prompts) [] e" "has_slots e i ?n" "seqs e i = seqs d i"
          using a(1) by (simp_all add: completion_slots_def)
        have bs: "ps_block_size e = ps_block_size d" using turn_facts(14) [OF st te(1)] f(14) by simp
        have "turn_inv env T d0 ((kept @ [i]) @ prompts) [] e" by (rule turn_inv_mset [OF _ te(1)]) simp
        moreover have "ready e i" using te(2,3) i(1) by (simp add: ready_def)
        moreover have "ready e j" if "j \<in> set kept" for j
          using less.prems that by (intro ready_keeps [OF _ k(1) _ bs]) (auto simp: completion_inv_def)
        ultimately have ext: "completion_inv env T d0 prompts (kept @ [i]) e"
          using less.prems k Cons by (auto simp: completion_inv_def)
        have pre: "returns (preempt env h i e) (\<lambda>e'. completion_inv env T d0 prompts kept e' \<and>
            length (ps_running e') \<le> length rest \<and> keeps d e' (set prompts))"
        proof (rule returns_mono [OF preempt_total [OF st te(1)]], elim conjE)
          fix e' assume e': "turn_inv env T d0 (kept @ prompts) [] e'" "ps_running e' = ps_running e"
            "tables (kv_cache_manager e') = (tables (kv_cache_manager e))(i := None)" "\<forall>j. j \<noteq> i \<longrightarrow> seqs e' j = seqs e j"
          have k': "keeps d e' (set (kept @ prompts))" using k(1) e'(3,4) i(3) by (auto simp: keeps_def)
          have "completion_inv env T d0 prompts kept e'"
            by (rule completion_inv_after [OF less.prems e'(1) k'])
              (use k e' i Cons turn_facts(14) [OF st e'(1)] f(14) in auto)
          then show "completion_inv env T d0 prompts kept e' \<and> length (ps_running e') \<le> length rest \<and> keeps d e' (set prompts)"
            using a(2) e'(2) keeps_mono [OF k', of "set prompts"] by simp
        qed
        show ?thesis
          using True rec [OF ext a(2) kp] returns_bind [OF pre, of "completion_loop env h kept" "?Q d"] rec by (auto simp del: returns_and_then)
      qed
    qed
    have alloc: "returns (allocate_completion env h i ?n ?d) (\<lambda>(ok, e). completion_slots env T d0 i ?n (kept @ prompts) [] ?d ok e)"
      by (rule allocate_completion_total [OF st td n])
    have short: "yields (allocate_completion env h i ?n ?d) (\<lambda>(ok, e). length (ps_running e) \<le> length rest)"
      using allocate_completion_running [of env h i ?n ?d] by simp
    show ?thesis
      unfolding completion_loop.simps [of env h kept d] Cons list.case
      by (rule returns_bind [OF alloc]) (use short in \<open>auto intro!: step simp del: returns_and_then returns_if\<close>)
  qed
qed

end
