(* ===== verification/Paged_Turn.thy ===== *)
theory Paged_Turn
  imports Paged_Completions
begin

text \<open>
  A whole turn of the paged scheduler: the batch of completions is chosen, the blocks of the running sequences are
  published to the prefix cache, and \<open>paged_schedule\<close> as a whole returns and keeps the invariant.
\<close>

section \<open>Choosing completions\<close>

text \<open>What the loop of \<open>completion_batch_indices\<close> keeps: rows in order, of one staged width, within the budget unless a single row exceeds it.\<close>

definition pick_ok :: "(nat \<Rightarrow> Sequence) \<Rightarrow> nat list \<Rightarrow> nat \<Rightarrow> nat \<Rightarrow> nat \<times> nat list \<times> nat \<Rightarrow> bool" where
  "pick_ok store rows width budget = (\<lambda>(remaining, selected, latest).
     (\<forall>k \<in> set selected. active_staged_speculative_len (store (rows ! k)) = width) \<and>
     (length selected \<le> 1 \<or> sum_list (map (\<lambda>k. completion_token_cost (store (rows ! k))) selected) \<le> budget) \<and>
     (remaining = 0 \<or> sum_list (map (\<lambda>k. completion_token_cost (store (rows ! k))) selected) + remaining = budget))"

lemma completion_pick_spec:
  assumes "pick_ok store rows width budget (remaining, selected, latest)"
  shows "\<exists>remaining' ks' latest'. completion_pick store rows width ks (remaining, selected, latest) = (remaining', selected @ ks', latest') \<and>
    subseq ks' ks \<and> pick_ok store rows width budget (remaining', selected @ ks', latest') \<and>
    latest' = last (latest # ks') \<and>
    (selected = [] \<and> ks \<noteq> [] \<and> active_staged_speculative_len (store (rows ! hd ks)) = width \<longrightarrow> ks' \<noteq> [] \<and> hd ks' = hd ks)"
  using assms
proof (induction ks arbitrary: remaining selected latest)
  case (Cons k ks)
  let ?s = "store (rows ! k)" and ?c = "completion_token_cost (store (rows ! k))"
  show ?case
  proof (cases "active_staged_speculative_len ?s = width \<and> (?c \<le> remaining \<or> selected = [])")
    case True
    have pos: "0 < ?c" by (simp add: completion_token_cost_def)
    have "pick_ok store rows width budget (remaining - ?c, selected @ [k], k)"
    proof (cases "?c \<le> remaining")
      case False
      then have "selected = []" "remaining - ?c = 0" using True by auto
      then show ?thesis using True by (simp add: pick_ok_def)
    next
      case le: True
      then have "sum_list (map (\<lambda>k. completion_token_cost (store (rows ! k))) selected) + remaining = budget"
        using Cons.prems pos by (simp add: pick_ok_def)
      then show ?thesis using True Cons.prems le by (simp add: pick_ok_def)
    qed
    from Cons.IH [OF this] obtain r ks' l where
      "completion_pick store rows width ks (remaining - ?c, selected @ [k], k) = (r, selected @ k # ks', l)" "subseq ks' ks"
      "pick_ok store rows width budget (r, selected @ k # ks', l)" "l = last (k # ks')" by auto
    then show ?thesis using True
      by (intro exI [of _ r] exI [of _ "k # ks'"] exI [of _ l]) (auto simp: Let_def)
  next
    case False
    from Cons.IH [OF Cons.prems] obtain r ks' l where
      "completion_pick store rows width ks (remaining, selected, latest) = (r, selected @ ks', l)" "subseq ks' ks"
      "pick_ok store rows width budget (r, selected @ ks', l)" "l = last (latest # ks')" by blast
    then show ?thesis using False
      by (intro exI [of _ r] exI [of _ ks'] exI [of _ l]) (auto simp: Let_def)
  qed
qed auto

definition rotation :: "nat \<Rightarrow> nat \<Rightarrow> nat list" where
  "rotation start len = map (\<lambda>offset. (start + offset) mod len) [0..<len]"

lemma rotation_props:
  assumes "0 < len"
  shows "distinct (rotation start len)" and "set (rotation start len) = {..<len}" and "rotation start len \<noteq> []"
    and "hd (rotation start len) = start mod len" and "length (rotation start len) = len"
proof -
  have le: "b = a" if "(start + a) mod len = (start + b) mod len" "a \<le> b" "b < len" for a b
    using that mod_eq_dvd_iff_nat [of "start + a" "start + b" len] dvd_imp_le [of len "b - a"]
    by (cases "a < b") auto
  have "inj_on (\<lambda>offset. (start + offset) mod len) (set [0..<len])"
  proof (rule inj_onI)
    fix a b assume "a \<in> set [0..<len]" "b \<in> set [0..<len]" and eq: "(start + a) mod len = (start + b) mod len"
    then have "a < len" "b < len" by simp_all
    then show "a = b" using le [OF eq] le [OF eq [symmetric]] nat_le_linear by blast
  qed
  then show d: "distinct (rotation start len)" by (simp add: rotation_def distinct_map)
  have "set (rotation start len) \<subseteq> {..<len}" using assms by (auto simp: rotation_def)
  moreover have "card (set (rotation start len)) = len" using distinct_card [OF d] by (simp add: rotation_def)
  ultimately show "set (rotation start len) = {..<len}" by (intro card_subset_eq) simp_all
  show "rotation start len \<noteq> []" using assms by (simp add: rotation_def)
  then show "hd (rotation start len) = start mod len" by (simp add: rotation_def hd_map)
  show "length (rotation start len) = len" by (simp add: rotation_def)
qed

text \<open>The batch is nonempty, starts at the cursor, keeps the cyclic order, has one staged width and respects the budget.\<close>

definition batch_of_rows :: "(nat \<Rightarrow> Sequence) \<Rightarrow> nat list \<Rightarrow> nat \<Rightarrow> nat \<Rightarrow> nat list \<Rightarrow> bool" where
  "batch_of_rows store rows cursor budget selected \<longleftrightarrow>
     selected \<noteq> [] \<and> hd selected = cursor mod length rows \<and> subseq selected (rotation cursor (length rows)) \<and>
     (\<forall>k \<in> set selected. active_staged_speculative_len (store (rows ! k)) =
        active_staged_speculative_len (store (rows ! (cursor mod length rows)))) \<and>
     (length selected = 1 \<or> sum_list (map (\<lambda>k. completion_token_cost (store (rows ! k))) selected) \<le> budget)"

lemma rotation_mod: "rotation (start mod len) len = rotation start len"
  by (simp add: rotation_def mod_add_left_eq)

lemma completion_batch_indices_spec:
  assumes "rows \<noteq> []"
  obtains selected where "completion_batch_indices store rows cursor budget = (selected, (last selected + 1) mod length rows)"
    and "batch_of_rows store rows cursor budget selected"
proof -
  let ?start = "cursor mod length rows" and ?w = "active_staged_speculative_len (store (rows ! (cursor mod length rows)))"
  note rot = rotation_props [of "length rows" "?start"]
  have "pick_ok store rows ?w budget (budget, [], ?start)" by (simp add: pick_ok_def)
  from completion_pick_spec [OF this, of "rotation ?start (length rows)"]
  obtain r ks where ks: "completion_pick store rows ?w (rotation ?start (length rows)) (budget, [], ?start) = (r, ks, last (?start # ks))"
    "subseq ks (rotation ?start (length rows))" "pick_ok store rows ?w budget (r, ks, last (?start # ks))"
    "ks \<noteq> []" "hd ks = ?start"
    using rot assms by auto
  have "completion_batch_indices store rows cursor budget = (ks, (last ks + 1) mod length rows)"
    using ks(1,4) assms by (simp add: completion_batch_indices_def Let_def rotation_def [symmetric])
  moreover have "batch_of_rows store rows cursor budget ks"
    using ks by (cases ks) (auto simp: batch_of_rows_def pick_ok_def rotation_mod le_Suc_eq)
  ultimately show thesis by (rule that)
qed

section \<open>Publishing the blocks of running sequences\<close>

text \<open>The invariant sees of a table only the number of its blocks and its reservation.\<close>

definition shape :: "RequestBlocks \<Rightarrow> nat \<times> nat" where
  "shape req = (length (block_ids req), reserved_blocks req)"

definition same_shape :: "KVCacheManager \<Rightarrow> KVCacheManager \<Rightarrow> bool" where
  "same_shape m m' \<longleftrightarrow> (\<forall>j. map_option shape (tables m' j) = map_option shape (tables m j))"

lemma same_shape_some:
  assumes "same_shape m m'" and "tables m' j = Some req'"
  obtains req where "tables m j = Some req" and "length (block_ids req') = length (block_ids req)" and "reach req' = reach req"
proof -
  have "map_option shape (tables m j) = Some (shape req')" using assms unfolding same_shape_def by (metis option.map(2))
  then show thesis using that by (auto simp: shape_def reach_def)
qed

lemma same_shape_sym: "same_shape m m' \<Longrightarrow> same_shape m' m"
  by (simp add: same_shape_def)

lemma same_shape_slots:
  assumes "same_shape (kv_cache_manager d) kv"
  shows "has_slots (d\<lparr>kv_cache_manager := kv\<rparr>) i n = has_slots d i n" and "covered (d\<lparr>kv_cache_manager := kv\<rparr>) i = covered d i"
proof -
  have shapes: "has_slots e i n = (\<exists>l r. map_option shape (tables (kv_cache_manager e) i) = Some (l, r) \<and> div_ceil n (ps_block_size e) \<le> l)"
    "covered e i = (\<exists>l r. map_option shape (tables (kv_cache_manager e) i) = Some (l, r) \<and>
      div_ceil (length (get_toks (seqs e i))) (ps_block_size e) \<le> l + r)" for e
    by (auto simp: has_slots_def covered_def shape_def reach_def)
  show "has_slots (d\<lparr>kv_cache_manager := kv\<rparr>) i n = has_slots d i n" "covered (d\<lparr>kv_cache_manager := kv\<rparr>) i = covered d i"
    unfolding shapes using assms by (simp_all add: same_shape_def)
qed

lemma turn_inv_shape:
  assumes inv: "turn_inv env T d0 busy extra d" and kv: "manager_ok env kv" "same_geometry (kv_cache_manager d) kv"
    and sh: "same_shape (kv_cache_manager d) kv"
  shows "turn_inv env T d0 busy extra (d\<lparr>kv_cache_manager := kv\<rparr>)"
proof -
  have "tables kv j = None \<longleftrightarrow> tables (kv_cache_manager d) j = None" for j
    using sh unfolding same_shape_def by (metis map_option_is_None)
  then have "dom (tables kv) = dom (tables (kv_cache_manager d))" unfolding dom_def by simp
  moreover have "\<forall>r req. tables kv r = Some req \<longrightarrow> length (block_ids req) \<le> T"
    using same_shape_some [OF sh] inv unfolding turn_inv_def by metis
  moreover have "same_setup d0 (d\<lparr>kv_cache_manager := kv\<rparr>)"
    using inv kv(2) by (auto simp: turn_inv_def same_setup_def intro: same_geometry_trans)
  ultimately show ?thesis using inv kv(1) unfolding turn_inv_def same_shape_slots [OF sh] by auto
qed

lemma cache_running_total:
  assumes st: "start_ok env T d0" and inv: "turn_inv env T d0 busy extra d" and i: "i \<in> set (ps_running d)"
  shows "returns (cache_running env h i d) (\<lambda>d'. turn_inv env T d0 busy extra d' \<and> has_slots d' = has_slots d \<and>
    ps_running d' = ps_running d \<and> seqs d' = seqs d)"
proof -
  note f = turn_facts [OF st inv]
  have fits: "seq_fits T (seqs d i)" using f(10) i by simp
  then have n: "seq_computed (seqs d i) div ps_block_size d \<le> length (get_toks (seqs d i)) div ps_block_size d"
    using seq_computed_le [of "seqs d i"] by (intro div_le_mono) (simp add: seq_fits_def)
  obtain hs rs ns where e: "ensure_hashes h i d = Inr (d\<lparr>seq_block_hashes := hs, seq_block_hash_revisions := rs\<rparr>)"
    "hs i = Some ns" "seq_computed (seqs d i) div ps_block_size d \<le> length ns"
    using ensure_hashes_total [OF f(3), of h i] n by (fastforce simp: returns_iff)
  let ?d = "d\<lparr>seq_block_hashes := hs, seq_block_hash_revisions := rs\<rparr>" and ?kv = "kv_cache_manager d"
  obtain kv c where kv: "cache_blocks env i ns (seq_computed (seqs d i)) ?kv = Inr kv" "manager_ok env kv" "same_geometry ?kv kv"
    "tables kv = (tables ?kv)(i := map_option (\<lambda>req. req\<lparr>cached_count := c\<rparr>) (tables ?kv i))"
    using cache_blocks_total [OF f(1), of "seq_computed (seqs d i)" ns i] e(3) f(2) by (auto simp: returns_iff)
  have "same_shape ?kv kv" by (cases "tables ?kv i") (simp_all add: same_shape_def kv(4) shape_def)
  then have sh: "same_shape (kv_cache_manager ?d) kv" by simp
  have "turn_inv env T d0 busy extra (?d\<lparr>kv_cache_manager := kv\<rparr>)"
    by (rule turn_inv_shape [OF _ kv(2) _ sh]) (use inv kv(3) in simp_all)
  moreover have "has_slots (?d\<lparr>kv_cache_manager := kv\<rparr>) = has_slots d"
    unfolding fun_eq_iff same_shape_slots(1) [OF sh] by (simp add: has_slots_def)
  moreover have "cache_running env h i d = Inr (?d\<lparr>kv_cache_manager := kv\<rparr>)"
    using e(1,2) kv(1) by (simp add: cache_running_def Let_def)
  ultimately show ?thesis by simp
qed

lemma cache_all_total:
  assumes st: "start_ok env T d0" and inv: "turn_inv env T d0 busy extra d"
  shows "returns (if prefix_caching_enabled d then fold_res (cache_running env h) (ps_running d) d else Inr d)
    (\<lambda>d'. turn_inv env T d0 busy extra d' \<and> has_slots d' = has_slots d \<and> ps_running d' = ps_running d \<and> seqs d' = seqs d)"
proof -
  let ?I = "\<lambda>d'. turn_inv env T d0 busy extra d' \<and> has_slots d' = has_slots d \<and> ps_running d' = ps_running d \<and> seqs d' = seqs d"
  have "returns (fold_res (cache_running env h) (ps_running d) d) ?I"
  proof (rule returns_fold_res [where I = "\<lambda>_. ?I"])
    fix pre i rest e assume i: "ps_running d = pre @ i # rest" and e: "?I e"
    then have "i \<in> set (ps_running e)" by simp
    then show "returns (cache_running env h i e) ?I"
      using cache_running_total [OF st conjunct1 [OF e], of i h] e by (auto elim!: returns_mono)
  qed (use inv in simp)
  then show ?thesis using inv by simp
qed

section \<open>The completion branch\<close>

lemma modify_seqs_id: "(\<And>i. i \<in> set is \<Longrightarrow> f (seqs d i) = seqs d i) \<Longrightarrow> modify_seqs is f d = d"
  by (induction "is") (simp_all add: modify_seqs_def modify_seq_def)

lemma modify_seqs_running: "modify_seqs is f (d\<lparr>ps_running := r\<rparr>) = (modify_seqs is f d)\<lparr>ps_running := r\<rparr>"
  by (induction "is" arbitrary: d) (simp_all add: modify_seqs_def modify_seq_running)

lemma publish_total: "manager_ok env (kv_cache_manager d) \<Longrightarrow> publish_kv_block_metrics d = Inr ()"
  by (simp add: publish_kv_block_metrics_def)

text \<open>Moving sequences between the running queue and the hands of the scheduler.\<close>

lemma turn_hold:
  assumes st: "start_ok env T d0" and inv: "turn_inv env T d0 busy extra d"
    and ids: "mset run + mset busy' = mset (ps_running d) + mset busy"
  shows "turn_inv env T d0 busy' extra (d\<lparr>ps_running := run\<rparr>)"
proof (rule turn_move [OF inv])
  have set: "set run \<union> set busy' = set (ps_running d) \<union> set busy" using arg_cong [OF ids, of set_mset] by simp
  show "mset (ps_running (d\<lparr>ps_running := run\<rparr>) @ ps_waiting (d\<lparr>ps_running := run\<rparr>) @ busy' @ extra) =
      mset (ps_running d @ ps_waiting d @ busy @ extra)"
    using ids by (simp add: ac_simps)
  show "dom (tables (kv_cache_manager (d\<lparr>ps_running := run\<rparr>))) \<subseteq> set (ps_running (d\<lparr>ps_running := run\<rparr>) @ busy')"
    using inv set by (simp add: turn_inv_def)
  show "live (seqs (d\<lparr>ps_running := run\<rparr>) i) \<and> (is_prompt (seqs (d\<lparr>ps_running := run\<rparr>) i) \<longrightarrow> covered (d\<lparr>ps_running := run\<rparr>) i)"
    if "i \<in> set (ps_running (d\<lparr>ps_running := run\<rparr>) @ busy')" for i
    using that inv set by (auto simp: turn_inv_def covered_def)
qed (use inv st in \<open>auto simp: turn_inv_def start_ok_def same_setup_def\<close>)

text \<open>
  A batch of completions: running completions with the slots for their next tokens, at one offset, of one staged width, raw
  requests alone, within the token budget unless it is a single row; it is empty only when no completion is left running.
\<close>

definition steps_together :: "(nat \<Rightarrow> Sequence) \<Rightarrow> nat list \<Rightarrow> bool" where
  "steps_together store xs \<longleftrightarrow> (\<forall>i \<in> set xs. \<forall>j \<in> set xs. token_offset (store i) = token_offset (store j) \<and>
     (return_raw_logits (store i) \<longrightarrow> i = j))"

definition one_staged_width :: "(nat \<Rightarrow> Sequence) \<Rightarrow> nat list \<Rightarrow> bool" where
  "one_staged_width store xs \<longleftrightarrow> (\<exists>w. \<forall>i \<in> set xs. active_staged_speculative_len (store i) = w)"

definition completion_batch_ok :: "PagedAttentionScheduler \<Rightarrow> nat list \<Rightarrow> bool" where
  "completion_batch_ok d sched \<longleftrightarrow>
     distinct sched \<and> set sched \<subseteq> set (ps_running d) \<and> (\<forall>i \<in> set sched. ready d i) \<and>
     steps_together (seqs d) sched \<and> one_staged_width (seqs d) sched \<and>
     (length sched \<le> 1 \<or> sum_list (map (\<lambda>i. completion_token_cost (seqs d i)) sched) \<le> max_num_batched_tokens (ps_config d)) \<and>
     (sched = [] \<longrightarrow> (\<forall>i \<in> set (ps_running d). is_prompt (seqs d i)))"

lemma completion_batch_frame:
  assumes ok: "completion_batch_ok d sched" and same: "seqs d' = seqs d" "has_slots d' = has_slots d" "ps_config d' = ps_config d"
    and run: "set (ps_running d) \<subseteq> set (ps_running d')" "\<forall>i \<in> set (ps_running d') - set (ps_running d). is_prompt (seqs d i)"
  shows "completion_batch_ok d' sched"
proof -
  have "ready d' = ready d" by (simp add: fun_eq_iff ready_def same)
  then show ?thesis using ok run by (auto simp: completion_batch_ok_def same)
qed

lemma bucket_together:
  assumes "same_bucket d bk u xs" and "i \<in> set xs" and "j \<in> set xs"
  shows "token_offset (seqs d i) = token_offset (seqs d j)" and "return_raw_logits (seqs d i) \<Longrightarrow> i = j"
proof -
  have "paged_key d bk u i = paged_key d bk u j" using assms unfolding same_bucket_def by blast
  then show "token_offset (seqs d i) = token_offset (seqs d j)" "return_raw_logits (seqs d i) \<Longrightarrow> i = j"
    by (simp_all add: paged_key_def Let_def split: if_splits)
qed

definition decodable :: "PagedAttentionScheduler \<Rightarrow> nat list \<Rightarrow> bool" where
  "decodable d rows \<longleftrightarrow> distinct rows \<and> (\<forall>i \<in> set rows. ready d i) \<and>
     steps_together (seqs d) rows"

lemma steps_together_sub: "steps_together store xs \<Longrightarrow> set ys \<subseteq> set xs \<Longrightarrow> steps_together store ys"
  unfolding steps_together_def by blast

lemma distinct_subseq: "subseq xs ys \<Longrightarrow> distinct ys \<Longrightarrow> distinct xs"
  by (induction xs ys rule: list_emb.induct) (auto dest: subseq_props)

lemma select_completion_batch_spec:
  assumes dec: "decodable d (ps_running d)"
  obtains sched cur where "select_completion_batch d = (sched, d\<lparr>completion_cursor := cur\<rparr>)"
    and "completion_batch_ok d sched"
proof (cases "ps_running d = []")
  case True
  then have "select_completion_batch d = ([], d\<lparr>completion_cursor := completion_cursor d\<rparr>)"
    by (simp add: select_completion_batch_def completion_batch_indices_def)
  then show thesis by (rule that) (simp add: completion_batch_ok_def True steps_together_def one_staged_width_def)
next
  case False
  let ?rows = "ps_running d"
  obtain ks where ks: "completion_batch_indices (seqs d) ?rows (completion_cursor d) (max_num_batched_tokens (ps_config d)) =
      (ks, (last ks + 1) mod length ?rows)" "batch_of_rows (seqs d) ?rows (completion_cursor d) (max_num_batched_tokens (ps_config d)) ks"
    using completion_batch_indices_spec [OF False] by blast
  note rot = rotation_props [of "length ?rows" "completion_cursor d"]
  have sub: "subseq ks (rotation (completion_cursor d) (length ?rows))" using ks(2) by (simp add: batch_of_rows_def)
  have lt: "k < length ?rows" if "k \<in> set ks" for k using that subseq_props [OF sub] rot(2) False by auto
  have "distinct ks" using distinct_subseq [OF sub] rot(1) False by simp
  then have "distinct (map ((!) ?rows) ks)"
    using dec lt by (auto simp: distinct_map inj_on_def decodable_def nth_eq_iff_index_eq)
  moreover have tog: "steps_together (seqs d) (map ((!) ?rows) ks)"
    by (rule steps_together_sub [of _ ?rows]) (use dec lt in \<open>auto simp: decodable_def\<close>)
  ultimately have "completion_batch_ok d (map ((!) ?rows) ks)"
    using dec ks(2) lt tog
    by (auto simp: completion_batch_ok_def decodable_def batch_of_rows_def one_staged_width_def comp_def)
  moreover have "select_completion_batch d = (map ((!) ?rows) ks, d\<lparr>completion_cursor := (last ks + 1) mod length ?rows\<rparr>)"
    by (simp add: select_completion_batch_def ks(1))
  ultimately show thesis using that by blast
qed

text \<open>The rows that survive the completion loop and the bucketing.\<close>

lemma surviving_rows:
  assumes st: "start_ok env T d0" and inv: "turn_inv env T d0 [] [] d"
  shows "returns (and_then (completion_loop env h [] (sort_running_by_priority_fcfs
        (d\<lparr>ps_running := filter (\<lambda>i. \<not> is_prompt (seqs d i)) (ps_running d)\<rparr>))) (\<lambda>(kept, d).
      enforce_completion_compatibility env h (d\<lparr>ps_running := kept\<rparr>)))
    (\<lambda>e. turn_inv env T d0 (filter (\<lambda>i. is_prompt (seqs d i)) (ps_running d)) [] e \<and> decodable e (ps_running e) \<and>
      (\<forall>i \<in> set (filter (\<lambda>i. is_prompt (seqs d i)) (ps_running d)). is_prompt (seqs e i)))"
proof -
  let ?ps = "filter (\<lambda>i. is_prompt (seqs d i)) (ps_running d)" and ?cs = "filter (\<lambda>i. \<not> is_prompt (seqs d i)) (ps_running d)"
  let ?d = "d\<lparr>ps_running := sort_key (\<lambda>i. timestamp (seqs d i)) ?cs\<rparr>"
  have "turn_inv env T d0 ?ps [] ?d"
    by (rule turn_hold [OF st inv]) (simp add: add.commute multiset_partition [of "mset (ps_running d)" "\<lambda>i. is_prompt (seqs d i)", symmetric])
  moreover have "is_completion (seqs d i)" if "i \<in> set ?cs" for i using inv that by (auto simp: turn_inv_def live_def)
  ultimately have "completion_inv env T d0 ?ps [] ?d" by (auto simp: completion_inv_def)
  note loop = completion_loop_total [OF st this, of h]
  have rest: "returns (enforce_completion_compatibility env h (e\<lparr>ps_running := kept\<rparr>))
      (\<lambda>e'. turn_inv env T d0 ?ps [] e' \<and> decodable e' (ps_running e') \<and> (\<forall>i \<in> set ?ps. is_prompt (seqs e' i)))"
    if e: "completion_inv env T d0 ?ps kept e" "ps_running e = []" "keeps ?d e (set ?ps)" for kept e
  proof -
    have te: "turn_inv env T d0 (kept @ ?ps) [] e" using e(1) by (simp add: completion_inv_def)
    have run: "enforce_completion_compatibility env h (e\<lparr>ps_running := kept\<rparr>) =
        and_then (bucket_and_preempt_sequences env h kept BatchCompletion (requires_uniform_completion_batch e) e)
          (\<lambda>(selected, e). Inr (e\<lparr>ps_running := selected\<rparr>))"
    proof -
      have "e\<lparr>ps_running := []\<rparr> = e" using e(2) by (cases e) simp
      then show ?thesis by (simp add: enforce_completion_compatibility_def)
    qed
    have "turn_inv env T d0 ?ps [] (e'\<lparr>ps_running := sel\<rparr>) \<and> decodable (e'\<lparr>ps_running := sel\<rparr>) sel \<and>
        (\<forall>i \<in> set ?ps. is_prompt (seqs e' i))"
      if b: "turn_inv env T d0 (sel @ ?ps) [] e'" "ps_running e' = []" "distinct sel" "set sel \<subseteq> set kept" "same_bucket e bk u sel"
        "\<forall>j \<in> set (sel @ ?ps). seqs e' j = seqs e j \<and> tables (kv_cache_manager e') j = tables (kv_cache_manager e) j" for bk u sel e'
    proof (intro conjI ballI)
      show "turn_inv env T d0 ?ps [] (e'\<lparr>ps_running := sel\<rparr>)" by (rule turn_hold [OF st b(1)]) (simp add: b(2))
      have bs: "ps_block_size e' = ps_block_size e" using turn_facts(14) [OF st te] turn_facts(14) [OF st b(1)] by simp
      have rd: "ready (e'\<lparr>ps_running := sel\<rparr>) i" if "i \<in> set sel" for i
        using e(1) b(4,6) that bs by (auto simp: completion_inv_def ready_def has_slots_def)
      have sq: "seqs (e'\<lparr>ps_running := sel\<rparr>) = seqs e'" by simp
      have "token_offset (seqs e' i) = token_offset (seqs e' j) \<and> (return_raw_logits (seqs e' i) \<longrightarrow> i = j)"
        if "i \<in> set sel" "j \<in> set sel" for i j
        using bucket_together [OF b(5) that] b(6) that by simp
      then have "steps_together (seqs e') sel" unfolding steps_together_def by blast
      then show "decodable (e'\<lparr>ps_running := sel\<rparr>) sel" unfolding decodable_def sq using b(3) rd by blast
      fix i assume "i \<in> set ?ps"
      then show "is_prompt (seqs e' i)" using b(6) e(3) by (auto simp: keeps_def)
    qed
    note after = this
    show ?thesis
      unfolding run
    proof (rule returns_bind [OF bucket_off_queue [OF st te]], clarify)
      fix sel e'
      assume b: "turn_inv env T d0 (sel @ ?ps) [] e'" "ps_running e' = ps_running e" "distinct sel" "set sel \<subseteq> set kept"
        "same_bucket e BatchCompletion (requires_uniform_completion_batch e) sel"
        "\<forall>j \<in> set (sel @ ?ps). seqs e' j = seqs e j \<and> tables (kv_cache_manager e') j = tables (kv_cache_manager e) j"
      from after [OF b(1) b(2) [unfolded e(2)] b(3-6)]
      show "returns (Inr (e'\<lparr>ps_running := sel\<rparr>)) (\<lambda>e'. turn_inv env T d0 ?ps [] e' \<and> decodable e' (ps_running e') \<and>
          (\<forall>i \<in> set ?ps. is_prompt (seqs e' i)))" by simp
    qed
  qed
  show ?thesis
    unfolding sort_running_by_priority_fcfs_def
    by (rule returns_bind) (use loop rest in \<open>auto elim!: returns_mono\<close>)
qed

text \<open>The result of the branch. A pending request to stop cancels every running sequence and clears the flag.\<close>

definition completions_result ::
    "rt_env \<Rightarrow> nat \<Rightarrow> PagedAttentionScheduler \<Rightarrow> bool \<Rightarrow> PagedAttentionSchedulerOutput \<Rightarrow> PagedAttentionScheduler \<Rightarrow> bool \<Rightarrow> bool" where
  "completions_result env T d0 terminate_all out d terminate_all' \<longleftrightarrow>
     num_cached_tokens out = [] \<and> prompt_chunk_size out = None \<and> scheduled_prompt_chunks out = None \<and> \<not> terminate_all' \<and>
     (if terminate_all
      then out_scheduled out = [] \<and>
        (\<exists>e. turn_inv env T d0 [] [] e \<and> d = modify_seqs (ps_running e) (set_state (Done Canceled)) e)
      else turn_inv env T d0 [] [] d \<and> completion_batch_ok d (out_scheduled out))"

lemma modify_seqs_kv [simp]: "kv_cache_manager (modify_seqs is f d) = kv_cache_manager d"
  by (induction "is" arbitrary: d) (simp_all add: modify_seqs_def)

lemma modify_seqs_queue [simp]: "ps_running (modify_seqs is f d) = ps_running d"
  by (induction "is" arbitrary: d) (simp_all add: modify_seqs_def)

lemma record_decode_frame [simp]:
  "seqs (record_decode_step d) = seqs d" "ps_running (record_decode_step d) = ps_running d"
  "has_slots (record_decode_step d) = has_slots d"
  by (simp_all add: record_decode_step_def has_slots_def fun_eq_iff)

lemma and_then_assoc: "and_then (and_then m (\<lambda>(x, y). f x y)) g = and_then m (\<lambda>(x, y). and_then (f x y) g)"
  by (cases m) (simp_all split: prod.splits)

lemma schedule_completions_total:
  assumes st: "start_ok env T d0" and inv: "turn_inv env T d0 [] [] d"
  shows "returns (schedule_completions env h terminate_all d) (\<lambda>(out, d', terminate_all').
    completions_result env T d0 terminate_all out d' terminate_all')"
proof -
  let ?ps = "filter (\<lambda>i. is_prompt (seqs d i)) (ps_running d)"
  let ?rest = "\<lambda>d. let d = modify_seqs (ps_running d) (set_state RunningCompletion) d in
      if terminate_all then
        let d = modify_seqs (ps_running d @ ?ps) (set_state (Done Canceled)) d;
            d = d\<lparr>ps_running := ps_running d @ ?ps\<rparr> in
        and_then (publish_kv_block_metrics d) (\<lambda>_. Inr (completion_output [], d, False))
      else
        and_then (if prefix_caching_enabled d then fold_res (cache_running env h) (ps_running d) d else Inr d) (\<lambda>d.
        let (sched, d) = select_completion_batch (record_decode_step d);
            d = d\<lparr>ps_running := ps_running d @ ?ps\<rparr> in
        and_then (publish_kv_block_metrics d) (\<lambda>_. Inr (completion_output sched, d, terminate_all)))"
  let ?Q = "\<lambda>(out, d', terminate_all'). completions_result env T d0 terminate_all out d' terminate_all'"
  have "returns (?rest e) ?Q" if e: "turn_inv env T d0 ?ps [] e" "decodable e (ps_running e)" "\<forall>i \<in> set ?ps. is_prompt (seqs e i)" for e
  proof -
    have comp: "is_completion (seqs e i)" if "i \<in> set (ps_running e)" for i
      using e(2) that by (simp add: decodable_def ready_def)
    have id: "modify_seqs (ps_running e) (set_state RunningCompletion) e = e"
      using comp by (intro modify_seqs_id) (simp add: set_state_def is_completion_def)
    have join: "turn_inv env T d0 [] [] (x\<lparr>ps_running := ps_running x @ ?ps\<rparr>)" if "turn_inv env T d0 ?ps [] x" for x
      by (rule turn_hold [OF st that]) simp
    show ?thesis
    proof (cases terminate_all)
      case True
      let ?e = "e\<lparr>ps_running := ps_running e @ ?ps\<rparr>"
      have "modify_seqs (ps_running ?e) (set_state (Done Canceled)) ?e =
          (modify_seqs (ps_running e @ ?ps) (set_state (Done Canceled)) e)\<lparr>ps_running := ps_running e @ ?ps\<rparr>"
        by (simp add: modify_seqs_running)
      then show ?thesis
        using True join [OF e(1)] turn_facts(1) [OF st e(1)] unfolding id Let_def
        by (auto simp: publish_total completions_result_def completion_output_def intro!: exI [of _ ?e])
    next
      case False
      let ?last = "\<lambda>d. let (sched, d) = select_completion_batch (record_decode_step d);
            d = d\<lparr>ps_running := ps_running d @ ?ps\<rparr> in
          and_then (publish_kv_block_metrics d) (\<lambda>_. Inr (completion_output sched, d, terminate_all))"
      have fin: "returns (?last x) ?Q"
        if x: "turn_inv env T d0 ?ps [] x" "has_slots x = has_slots e" "ps_running x = ps_running e" "seqs x = seqs e" for x
      proof -
        let ?x = "record_decode_step x"
        have "has_slots ?x = has_slots e" using x(2) by simp
        then have "decodable ?x (ps_running ?x)" using e(2) x(3,4) by (simp add: decodable_def ready_def)
        from select_completion_batch_spec [OF this] obtain sched cur
          where s: "select_completion_batch ?x = (sched, ?x\<lparr>completion_cursor := cur\<rparr>)" "completion_batch_ok ?x sched" by blast
        let ?y = "?x\<lparr>completion_cursor := cur, ps_running := ps_running x @ ?ps\<rparr>"
        have "turn_inv env T d0 ?ps [] (?x\<lparr>completion_cursor := cur\<rparr>)" using x(1) by (simp add: record_decode_step_def)
        from join [OF this] have y: "turn_inv env T d0 [] [] ?y" by (simp add: record_decode_step_def)
        have "completion_batch_ok ?y sched"
          by (rule completion_batch_frame [OF s(2)])
            (use e(3) x(4) in \<open>auto simp: record_decode_step_def has_slots_def fun_eq_iff\<close>)
        then show ?thesis
          using False y turn_facts(1) [OF st y] unfolding s(1) Let_def prod.case
          by (simp add: publish_total completions_result_def completion_output_def record_decode_step_def)
      qed
      have run: "?rest e = and_then (if prefix_caching_enabled e then fold_res (cache_running env h) (ps_running e) e else Inr e) ?last"
        using False by (simp only: id Let_def if_False)
      show ?thesis
        unfolding run by (rule returns_bind [OF cache_all_total [OF st e(1)]], elim conjE, rule fin)
    qed
  qed
  then have "returns (and_then (and_then (completion_loop env h [] (sort_running_by_priority_fcfs
        (d\<lparr>ps_running := filter (\<lambda>i. \<not> is_prompt (seqs d i)) (ps_running d)\<rparr>))) (\<lambda>(kept, d).
      enforce_completion_compatibility env h (d\<lparr>ps_running := kept\<rparr>))) ?rest) ?Q"
    by (intro returns_bind [OF surviving_rows [OF st inv]]) blast
  then show ?thesis unfolding schedule_completions_def and_then_assoc by (simp only: Let_def)
qed

section \<open>The turn\<close>

lemma modify_seqs_frame [simp]:
  "ps_waiting (modify_seqs is f d) = ps_waiting d" "ps_config (modify_seqs is f d) = ps_config d"
  "ps_block_size (modify_seqs is f d) = ps_block_size d" "prefix_caching_enabled (modify_seqs is f d) = prefix_caching_enabled d"
  "responses (modify_seqs is f d) = responses d"
  by (induction "is" arbitrary: d) (simp_all add: modify_seqs_def)

lemma modify_seqs_seqs:
  "distinct is \<Longrightarrow> seqs (modify_seqs is f d) i = (if i \<in> set is then f (seqs d i) else seqs d i)"
  by (induction "is" arbitrary: d) (auto simp: modify_seqs_def)

lemma finish_computed_inv:
  assumes st: "start_ok env T d0" and inv: "turn_inv env T d0 [] [] d"
  shows "turn_inv env T d0 [] [] (finish_computed_prompts d)"
    and "sched_list (finish_computed_prompts d) (filter (\<lambda>i. is_prompt (seqs (finish_computed_prompts d) i)) (ps_running d))"
proof -
  note f = turn_facts [OF st inv]
  let ?g = "\<lambda>s. if is_prompt s \<and> seq_computed s = seq_len s then set_state RunningCompletion s else s"
  let ?d = "finish_computed_prompts d"
  have dist: "distinct (ps_running d)" using f(7) by simp
  have sq: "seqs ?d i = (if i \<in> set (ps_running d) then ?g (seqs d i) else seqs d i)" for i
    using modify_seqs_seqs [OF dist, of ?g d i] by (simp add: finish_computed_prompts_def)
  have tok: "same_tokens s (?g s)" for s by simp
  have g: "live s \<Longrightarrow> live (?g s)" "is_prompt (?g s) \<Longrightarrow> ?g s = s \<and> seq_computed s \<noteq> seq_len s" for s
    by (auto simp: live_def is_prompt_def is_completion_def set_state_def)
  have frame: "ps_running ?d = ps_running d" "ps_waiting ?d = ps_waiting d" "kv_cache_manager ?d = kv_cache_manager d"
    "responses ?d = responses d" "same_setup d ?d" "ps_block_size ?d = ps_block_size d"
    by (simp_all add: finish_computed_prompts_def same_setup_def)
  show "turn_inv env T d0 [] [] ?d"
  proof (rule turn_move [OF inv])
    show "live (seqs ?d i) \<and> (is_prompt (seqs ?d i) \<longrightarrow> covered ?d i)" if "i \<in> set (ps_running ?d @ [])" for i
    proof -
      have i: "i \<in> set (ps_running d)" using that by (simp add: frame)
      then have "live (seqs d i)" "is_prompt (seqs d i) \<longrightarrow> covered d i" using inv by (simp_all add: turn_inv_def)
      then show ?thesis using i g(1) [of "seqs d i"] g(2) [of "seqs d i"] by (auto simp: sq covered_def frame)
    qed
    show "is_waiting (seqs ?d i)" if "i \<in> set (ps_waiting ?d @ [])" for i
      using that inv f(7) by (auto simp: turn_inv_def frame sq)
    show "same_tokens (seqs d i) (seqs ?d i)" for i using tok by (simp add: sq)
  qed (use inv st frame in \<open>auto simp: turn_inv_def start_ok_def sq\<close>)
  show "sched_list ?d (filter (\<lambda>i. is_prompt (seqs ?d i)) (ps_running d))"
  proof -
    have "seq_computed (seqs ?d i) < seq_len (seqs ?d i)" if "i \<in> set (ps_running d)" "is_prompt (seqs ?d i)" for i
      using g(2) [of "seqs d i"] seq_computed_le [of "seqs d i"] that by (simp add: sq)
    then show ?thesis using dist by (auto simp: sched_list_def frame)
  qed
qed

lemma epoch_inv [simp]:
  "turn_inv env T d0 busy extra (update_prompt_admission_epoch d) = turn_inv env T d0 busy extra d"
  "sched_list (update_prompt_admission_epoch d) xs = sched_list d xs"
  "seqs (update_prompt_admission_epoch d) = seqs d" "ps_running (update_prompt_admission_epoch d) = ps_running d"
  by (simp_all add: update_prompt_admission_epoch_def Let_def sched_list_def)

lemma completion_is_due_total:
  assumes "start_ok env T d0" and "turn_inv env T d0 busy extra d"
  shows "returns (completion_is_due d) (\<lambda>_. True)"
  using turn_facts(1,3) [OF assms]
  by (auto simp: completion_is_due_def waiting_prompt_fits_free_blocks_def Let_def split: list.splits)

text \<open>The prompts of a batch, with the slots of their chunks.\<close>

definition prompts_result ::
    "rt_env \<Rightarrow> nat \<Rightarrow> PagedAttentionScheduler \<Rightarrow> PagedAttentionSchedulerOutput \<Rightarrow> PagedAttentionScheduler \<Rightarrow> bool" where
  "prompts_result env T d0 out d \<longleftrightarrow>
     turn_inv env T d0 [] [] d \<and>
     prompt_batch_ok d \<lparr>pb_scheduled = out_scheduled out, pb_chunk_size = prompt_chunk_size out, pb_chunks = scheduled_prompt_chunks out\<rparr> \<and>
     num_cached_tokens out = map (\<lambda>i. prefix_cache_len (seqs d i)) (out_scheduled out) \<and>
     (\<forall>cs. scheduled_prompt_chunks out = Some cs \<longrightarrow> list_all2 (\<lambda>i c. has_slots d i (chunk_end c)) (out_scheduled out) cs)"

lemma paged_schedule_total:
  assumes st: "start_ok env T d0" and inv: "turn_inv env T d0 [] [] d" and keep: "commits_keep_sequence pv"
  shows "returns (paged_schedule env h pv terminate_all d v) (\<lambda>(out, d', v', terminate_all').
    (prompts_result env T d0 out d' \<and> terminate_all' = terminate_all) \<or>
    completions_result env T d0 terminate_all out d' terminate_all')"
proof -
  let ?Q = "\<lambda>(out, d', v', terminate_all'). (prompts_result env T d0 out d' \<and> terminate_all' = terminate_all) \<or>
    completions_result env T d0 terminate_all out d' terminate_all'"
  let ?d = "update_prompt_admission_epoch (finish_computed_prompts d)"
  let ?ps = "filter (\<lambda>i. is_prompt (seqs ?d i)) (ps_running ?d)"
  let ?batch = "\<lambda>sched d. if sched = [] then Inr (\<lparr>pb_scheduled = [], pb_chunk_size = None, pb_chunks = None\<rparr>, d)
      else and_then (select_prompt_batch env h sched d) (\<lambda>(batch, d).
        and_then (materialize_prompt_chunks env batch d) (\<lambda>d. Inr (batch, d)))"
  let ?last = "\<lambda>v. \<lambda>(batch, d). if pb_scheduled batch \<noteq> [] then
        and_then (publish_kv_block_metrics d) (\<lambda>_.
        Inr (prompt_output batch d, d\<lparr>decode_steps_since_prefill := 0\<rparr>, v, terminate_all))
      else and_then (schedule_completions env h terminate_all d) (\<lambda>(out, d, terminate_all). Inr (out, d, v, terminate_all))"
  have run: "ps_running (finish_computed_prompts d) = ps_running d" by (simp add: finish_computed_prompts_def)
  have td: "turn_inv env T d0 [] [] ?d" "sched_list ?d ?ps"
    using finish_computed_inv [OF st inv] by (simp_all add: run)
  have last: "returns (?last v (batch, e)) ?Q"
    if e: "turn_inv env T d0 [] [] e" "pb_scheduled batch \<noteq> [] \<Longrightarrow> prompt_batch_ok e batch \<and>
      (\<forall>cs. pb_chunks batch = Some cs \<longrightarrow> list_all2 (\<lambda>i c. has_slots e i (chunk_end c)) (pb_scheduled batch) cs)" for v batch e
  proof (cases "pb_scheduled batch = []")
    case True
    have "returns (and_then (schedule_completions env h terminate_all e) (\<lambda>(out, d, terminate_all). Inr (out, d, v, terminate_all))) ?Q"
      by (rule returns_bind [OF schedule_completions_total [OF st e(1)]]) auto
    then show ?thesis using True by (simp del: returns_and_then)
  next
    case False
    have "prompts_result env T d0 (prompt_output batch e) (e\<lparr>decode_steps_since_prefill := 0\<rparr>)"
      using e(1) e(2) [OF False]
      by (simp add: prompts_result_def prompt_output_def prompt_batch_ok_def has_slots_def cong: option.case_cong)
    then show ?thesis using False publish_total [OF turn_facts(1) [OF st e(1)]] by simp
  qed
  let ?B = "\<lambda>(batch, e'). turn_inv env T d0 [] [] e' \<and> (pb_scheduled batch \<noteq> [] \<longrightarrow> prompt_batch_ok e' batch \<and>
      (\<forall>cs. pb_chunks batch = Some cs \<longrightarrow> list_all2 (\<lambda>i c. has_slots e' i (chunk_end c)) (pb_scheduled batch) cs))"
  have batch: "returns (?batch sched e) ?B" if e: "turn_inv env T d0 [] [] e" "sched_list e sched" for sched e
  proof (cases "sched = []")
    case False
    have mat: "returns (and_then (materialize_prompt_chunks env batch d) (\<lambda>d. Inr (batch, d))) ?B"
      if "turn_inv env T d0 [] [] d" "prompt_batch_ok d batch" for batch d
      by (rule returns_bind [OF materialize_total [OF st that]]) simp
    have "returns (and_then (select_prompt_batch env h sched e) (\<lambda>(batch, d).
        and_then (materialize_prompt_chunks env batch d) (\<lambda>d. Inr (batch, d)))) ?B"
      by (rule returns_bind [OF select_prompt_batch_total [OF st e False]]) (use mat in \<open>simp split: prod.splits del: returns_and_then\<close>)
    then show ?thesis unfolding if_not_P [OF False] .
  qed (use e in simp)
  have admit: "returns (if due then Inr (?d, v, [], []) else admission_loop env h pv (?d, v, ?ps, [])) (admission_inv env T d0)" for due
    using admission_loop_total [OF st keep, of ?d v ?ps "[]"] td by (simp add: admission_inv_def sched_list_def)
  have rest: "returns (and_then (?batch sched (e\<lparr>ps_waiting := ps_waiting e @ again\<rparr>)) (?last v)) ?Q"
    if "admission_inv env T d0 (e, v, sched, again)" for e v sched again
  proof -
    have "turn_inv env T d0 [] [] (e\<lparr>ps_waiting := ps_waiting e @ again\<rparr>)" "sched_list (e\<lparr>ps_waiting := ps_waiting e @ again\<rparr>) sched"
      using that by (auto simp: admission_inv_def turn_inv_def same_setup_def covered_def sched_list_def)
    note b = batch [OF this]
    show ?thesis
    proof (rule returns_bind [OF b])
      fix x assume "?B x"
      then show "returns (?last v x) ?Q" using last [of "snd x" "fst x" v] by (cases x) simp
    qed
  qed
  have "returns (and_then (completion_is_due ?d) (\<lambda>due.
      and_then (if due then Inr (?d, v, [], []) else admission_loop env h pv (?d, v, ?ps, [])) (\<lambda>(e, v, sched, again).
      and_then (?batch sched (e\<lparr>ps_waiting := ps_waiting e @ again\<rparr>)) (?last v)))) ?Q"
  proof (rule returns_bind [OF completion_is_due_total [OF st td(1)]], rule returns_bind [OF admit])
    fix x assume "admission_inv env T d0 x"
    then show "returns (case x of (e, v, sched, again) \<Rightarrow>
        and_then (?batch sched (e\<lparr>ps_waiting := ps_waiting e @ again\<rparr>)) (?last v)) ?Q"
      using rest by (cases x) (simp only: prod.case)
  qed
  then show ?thesis unfolding paged_schedule_def by (simp only: Let_def)
qed

end
