(* ===== verification/Paged_Theorems.thy ===== *)
theory Paged_Theorems
  imports Paged_Turn
begin

text \<open>
  The properties of the paged attention scheduler: a turn returns, keeps the invariant, loses no sequence and hands out a
  well-formed batch; a fresh scheduler and a new sequence satisfy the invariant; the round robin over completions.
\<close>

section \<open>From turn to turn\<close>

lemma turn_restart:
  assumes st: "start_ok env T d0" and inv: "turn_inv env T d0 [] [] d"
  shows "sched_ok env T d"
proof -
  note f = turn_facts [OF st inv]
  obtain sent :: "(nat \<times> Response) list" where sent: "mset (ps_running d @ ps_waiting d @ [] @ [] @ map fst sent) = mset (all_ids d0)"
    using inv unfolding turn_inv_def by blast
  have "length (all_ids d) \<le> length (all_ids d0)" using mset_eq_length [OF sent] by (simp add: all_ids_def)
  then have "(length (all_ids d) + 1) * T \<le> (length (all_ids d0) + 1) * T" by (intro mult_le_mono1) simp
  moreover have "(length (all_ids d0) + 1) * T \<le> u32_max" using st unfolding start_ok_def by blast
  ultimately have size: "(length (all_ids d) + 1) * T \<le> u32_max" by linarith
  have cfg: "ps_config d = ps_config d0" using inv by (simp add: turn_inv_def same_setup_def)
  have "start_ok env T d"
    unfolding start_ok_def cfg using f size st by (auto simp: all_ids_def start_ok_def)
  moreover have "turn_inv env T d [] [] d"
    using inv unfolding turn_inv_def by (auto simp: same_setup_def all_ids_def)
  ultimately show ?thesis by (simp add: sched_ok_def)
qed

lemma sched_ok_parts: "sched_ok env T d \<Longrightarrow> start_ok env T d" "sched_ok env T d \<Longrightarrow> turn_inv env T d [] [] d"
  by (simp_all add: sched_ok_def)

text \<open>What a turn leaves of the sequences and of the cache.\<close>

lemma turn_account:
  assumes "turn_inv env T d0 [] [] d"
  obtains sent where "responses d = responses d0 @ sent" and "mset (all_ids d) + mset (map fst sent) = mset (all_ids d0)"
    and "\<And>x. x \<in> set sent \<Longrightarrow> refusal_ok d0 x \<and> seq_state (seqs d (fst x)) = FinishedIgnored"
proof -
  obtain sent where "responses d = responses d0 @ sent" "mset (ps_running d @ ps_waiting d @ [] @ [] @ map fst sent) = mset (all_ids d0)"
    "\<forall>x \<in> set sent. refusal_ok d0 x \<and> seq_state (seqs d (fst x)) = FinishedIgnored"
    using assms unfolding turn_inv_def by blast
  then show thesis by (intro that [of sent]) (auto simp: all_ids_def add.assoc)
qed

section \<open>A new scheduler\<close>

lemma new_scheduler:
  assumes cfg: "0 < max_num_seqs cfg" "0 < max_num_batched_tokens cfg" "0 < max_prefill_chunk_tokens cfg"
      "0 < max_decode_steps_before_prefill cfg" "u32_max + max_num_batched_tokens cfg \<le> usize_max"
    and n: "0 < n" "n + 2 \<le> usize_max" "0 < bsz" "n * bsz \<le> usize_max" and gs: "gs \<noteq> []"
    and env: "env_ok env" "debug_assertions env" and T: "T \<le> u32_max"
  shows "returns (PagedAttentionScheduler_new env store cfg n bsz gs) (\<lambda>d. sched_ok env T d \<and> all_ids d = [] \<and> seqs d = store \<and>
    num_usable_blocks (kv_cache_manager d) = n - 1 \<and> ps_block_size d = bsz \<and> responses d = [] \<and> ps_config d = cfg)"
proof -
  obtain m where m: "KVCacheManager_new env n bsz True gs = Inr m" "manager_ok env m" "req_to_blocks m = []" "block_size m = bsz"
    "caching_enabled m" "kv_cache_group_ids m = gs" "num_gpu_blocks (block_pool m) = n"
    using KVCacheManager_new_effect [OF n(1-3) env(1), of True gs] by (auto simp: returns_iff)
  have use: "num_usable_blocks m = n - 1" using m(7) by (simp add: num_usable_blocks_def)
  have "(n - 1) * bsz \<le> n * bsz" by (intro mult_le_mono1) simp
  then have cap: "num_usable_blocks m * bsz \<le> usize_max" using n(4) unfolding use by linarith
  obtain d where d: "PagedAttentionScheduler_new env store cfg n bsz gs = Inr d" "ps_running d = []" "ps_waiting d = []" "seqs d = store"
    "kv_cache_manager d = m" "ps_block_size d = bsz" "responses d = []" "ps_config d = cfg"
    using m(1) cfg by (simp add: PagedAttentionScheduler_new_def assert_that_def)
  have "start_ok env T d" unfolding start_ok_def using d m cfg env gs T cap by (simp add: all_ids_def)
  moreover have "turn_inv env T d [] [] d"
    unfolding turn_inv_def using d m by (simp add: same_setup_def all_ids_def)
  ultimately show ?thesis using d use by (simp add: sched_ok_def all_ids_def)
qed

lemma start_ok_add:
  assumes st: "start_ok env T d" and i: "i \<notin> set (all_ids d)" and s: "seq_fits T s" and size: "(length (all_ids d) + 2) * T \<le> u32_max"
  shows "start_ok env T (paged_add_seq i s d)"
proof -
  let ?d = "paged_add_seq i s d"
  have ids: "all_ids ?d = all_ids d @ [i]" by (simp add: all_ids_def paged_add_seq_def)
  have same: "seqs ?d j = seqs d j" if "j \<in> set (all_ids d)" for j using that i by (auto simp: paged_add_seq_def)
  show ?thesis
    using st i s same size unfolding start_ok_def ids
    by (auto simp: paged_add_seq_def all_ids_def num_usable_blocks_def)
qed

lemma add_seq_ok:
  assumes ok: "sched_ok env T d" and i: "i \<notin> set (all_ids d)" and s: "is_waiting s" "seq_fits T s"
    and size: "(length (all_ids d) + 2) * T \<le> u32_max"
  shows "sched_ok env T (paged_add_seq i s d)"
proof -
  let ?d = "paged_add_seq i s d"
  have "turn_inv env T ?d [] [] ?d"
    using sched_ok_parts(2) [OF ok] s(1) i unfolding turn_inv_def
    by (auto simp: paged_add_seq_def all_ids_def same_setup_def covered_def)
  then show ?thesis using start_ok_add [OF sched_ok_parts(1) [OF ok] i s(2) size] by (simp add: sched_ok_def)
qed

section \<open>The turn\<close>

text \<open>The state at the end of a turn, before a pending request to stop marks the running sequences.\<close>

definition turn_end :: "bool \<Rightarrow> PagedAttentionScheduler \<Rightarrow> PagedAttentionScheduler \<Rightarrow> bool" where
  "turn_end stopped e d \<longleftrightarrow> d = (if stopped then modify_seqs (ps_running e) (set_state (Done Canceled)) e else e)"

lemma turn_outcome:
  assumes ok: "sched_ok env T d" and keep: "commits_keep_sequence pv"
  obtains out d' v' stop' stopped e where "paged_schedule env h pv stop d v = Inr (out, d', v', stop')"
    and "turn_inv env T d [] [] e" and "turn_end stopped e d'" and "stop' = (stop \<and> \<not> stopped)" and "stopped \<Longrightarrow> stop"
    and "stopped \<Longrightarrow> out_scheduled out = []"
    and "\<not> stopped \<Longrightarrow> prompts_result env T d out d' \<or>
      (\<not> stop \<and> completion_batch_ok d' (out_scheduled out) \<and> num_cached_tokens out = [] \<and> scheduled_prompt_chunks out = None)"
proof -
  obtain out d' v' stop' where r: "paged_schedule env h pv stop d v = Inr (out, d', v', stop')"
    "(prompts_result env T d out d' \<and> stop' = stop) \<or> completions_result env T d stop out d' stop'"
    using paged_schedule_total [OF sched_ok_parts [OF ok] keep, of h stop v] by (auto simp: returns_iff)
  show thesis
  proof (cases "prompts_result env T d out d' \<and> stop' = stop")
    case True
    then show thesis using that [OF r(1), of d' False] by (simp add: turn_end_def prompts_result_def)
  next
    case False
    then have c: "completions_result env T d stop out d' stop'" using r(2) by blast
    show thesis
    proof (cases stop)
      case True
      then obtain e where "turn_inv env T d [] [] e" "d' = modify_seqs (ps_running e) (set_state (Done Canceled)) e"
        using c by (auto simp: completions_result_def)
      then show thesis using that [OF r(1), of e True] c True by (simp add: turn_end_def completions_result_def)
    next
      case False
      then show thesis using that [OF r(1), of d' False] c by (simp add: turn_end_def completions_result_def)
    qed
  qed
qed

lemma turn_end_fields:
  assumes "turn_end stopped e d"
  shows "ps_running d = ps_running e" and "ps_waiting d = ps_waiting e" and "all_ids d = all_ids e" and "responses d = responses e"
    and "kv_cache_manager d = kv_cache_manager e"
    and "distinct (ps_running e) \<Longrightarrow> seqs d i = (if stopped \<and> i \<in> set (ps_running e) then set_state (Done Canceled) (seqs e i) else seqs e i)"
  using assms by (auto simp: turn_end_def all_ids_def modify_seqs_seqs)




section \<open>A concrete scheduler\<close>

definition sample_config :: PagedAttentionSchedulerConfig where
  "sample_config = \<lparr>max_num_seqs = 4, max_num_batched_tokens = 64, max_prefill_chunk_tokens = 32, max_decode_steps_before_prefill = 2\<rparr>"

definition sample_prompt :: "nat \<Rightarrow> token list \<Rightarrow> Sequence" where
  "sample_prompt i toks = \<lparr>sid = i, timestamp = i, seq_state = Waiting, scheduling_urgency = 0, token_offset = 0,
     return_raw_logits = False, stepping_type = PromptAndDecode, seq_adapter = None, images_given = False, has_images = False,
     has_audios = False, has_videos = False, mm_features = [], response_closed = False, recurrent_state_idx = None,
     staged_speculative_tokens = [], prefill_prompt_toks = None, prefix_cache_len = 0, prefix_cache_hit_recorded = False,
     block_hash_revision = 0, computed_tokens = 0, xlora_cache = None, layer_cache = None, seq_tokens = toks\<rparr>"

text \<open>A validator that accepts every hit and commits nothing.\<close>

definition accepting :: "unit PagedPrefixCacheValidator" where
  "accepting = \<lparr>validate_prefix_cache_hit = \<lambda>s hs n bs v. (Inr \<lparr>valid_tokens = n, commit_fn = None\<rparr>, v),
     release_recurrent_state = \<lambda>i slot v. (Inr False, v)\<rparr>"

lemma accepting_keeps: "commits_keep_sequence (Some accepting)"
  by (auto simp: commits_keep_sequence_def accepting_def commit_validation_def)

definition sample_scheduler :: "PagedAttentionScheduler \<Rightarrow> bool" where
  "sample_scheduler d \<longleftrightarrow> (\<exists>d0. PagedAttentionScheduler_new debug_env (\<lambda>i. sample_prompt i []) sample_config 8 16 [0] = Inr d0 \<and>
     d = paged_add_seq 2 (sample_prompt 2 (replicate 200 7)) (paged_add_seq 1 (sample_prompt 1 (replicate 20 7)) d0))"

lemma sample_scheduler_ok:
  obtains d where "sample_scheduler d" and "sched_ok debug_env 256 d" and "all_ids d = [1, 2]"
proof -
  have cfg: "0 < max_num_seqs sample_config" "0 < max_num_batched_tokens sample_config" "0 < max_prefill_chunk_tokens sample_config"
    "0 < max_decode_steps_before_prefill sample_config" "u32_max + max_num_batched_tokens sample_config \<le> usize_max"
    by (simp_all add: sample_config_def int_max_defs)
  have n: "(0::nat) < 8" "8 + 2 \<le> usize_max" "(0::nat) < 16" "8 * 16 \<le> usize_max" by (simp_all add: int_max_defs)
  have env: "env_ok debug_env" "debug_assertions debug_env" by (simp_all add: debug_env_def env_ok_def)
  have T: "256 \<le> u32_max" by (simp add: int_max_defs)
  obtain d0 where d0: "PagedAttentionScheduler_new debug_env (\<lambda>i. sample_prompt i []) sample_config 8 16 [0] = Inr d0"
    "sched_ok debug_env 256 d0" "all_ids d0 = []"
    using new_scheduler [OF cfg n _ env T, of "[0]" "\<lambda>i. sample_prompt i []"] by (auto simp: returns_iff)
  have fits: "is_waiting (sample_prompt i (replicate k 7))" "0 < k \<Longrightarrow> k < 256 \<Longrightarrow> seq_fits 256 (sample_prompt i (replicate k 7))" for i k
    by (simp_all add: is_waiting_def seq_fits_def sample_prompt_def get_toks_def seq_len_def active_staged_speculative_len_def)
  let ?d1 = "paged_add_seq 1 (sample_prompt 1 (replicate 20 7)) d0"
  have ids: "all_ids ?d1 = [1]" using d0(3) by (simp add: all_ids_def paged_add_seq_def)
  have d1: "sched_ok debug_env 256 ?d1"
    by (rule add_seq_ok [OF d0(2)]) (use d0(3) fits in \<open>simp_all add: int_max_defs\<close>)
  have "sched_ok debug_env 256 (paged_add_seq 2 (sample_prompt 2 (replicate 200 7)) ?d1)"
    by (rule add_seq_ok [OF d1]) (use ids fits in \<open>simp_all add: int_max_defs\<close>)
  moreover have "all_ids (paged_add_seq 2 (sample_prompt 2 (replicate 200 7)) ?d1) = [1, 2]"
    using ids by (simp add: all_ids_def paged_add_seq_def)
  ultimately show thesis using d0(1) by (intro that) (auto simp: sample_scheduler_def)
qed




end
