(* ===== verification/Paged_Hashes.thy ===== *)
theory Paged_Hashes
  imports Paged_Theorems
begin

text \<open>
  The block hashes the scheduler keeps per sequence: extending them as tokens arrive gives the hashes of the whole sequence.
\<close>

definition adapter_key :: "Sequence \<Rightarrow> ExtraHashKey list" where
  "adapter_key s = (case adapter_generation_key (seq_adapter s) of None \<Rightarrow> [] | Some k \<Rightarrow> [k])"

definition full_hashes :: "hasher \<Rightarrow> nat \<Rightarrow> Sequence \<Rightarrow> token list \<Rightarrow> BlockHash list res" where
  "full_hashes h bs s toks = compute_block_hashes h toks bs (mm_features s) (adapter_key s)"

text \<open>What the scheduler relies on: hashes kept under the current revision are those of a prefix of the tokens.\<close>

definition hashes_current :: "hasher \<Rightarrow> nat \<Rightarrow> PagedAttentionScheduler \<Rightarrow> bool" where
  "hashes_current h i d \<longleftrightarrow>
     (\<forall>hs. seq_block_hash_revisions d i = Some (block_hash_revision (seqs d i)) \<longrightarrow> seq_block_hashes d i = Some hs \<longrightarrow>
        (\<exists>m \<le> length (get_toks (seqs d i)). full_hashes h (ps_block_size d) (seqs d i) (take m (get_toks (seqs d i))) = Inr hs))"

text \<open>The result of \<open>ensure_block_hashes\<close>: the hashes of all tokens, and nothing else changed.\<close>

definition hashed :: "hasher \<Rightarrow> nat \<Rightarrow> PagedAttentionScheduler \<Rightarrow> PagedAttentionScheduler \<Rightarrow> BlockHash list \<Rightarrow> bool" where
  "hashed h i d d' hs \<longleftrightarrow> seq_block_hashes d' i = Some hs \<and> full_hashes h (ps_block_size d) (seqs d i) (get_toks (seqs d i)) = Inr hs \<and>
     (\<forall>j. j \<noteq> i \<longrightarrow> seq_block_hashes d' j = seq_block_hashes d j) \<and> seqs d' = seqs d \<and> ps_block_size d' = ps_block_size d"

lemma hashed_current: "hashed h i d d' hs \<Longrightarrow> hashes_current h i d'"
  unfolding hashed_def hashes_current_def by (metis option.inject order_refl take_all)

lemma known_hashes:
  assumes bs: "0 < ps_block_size d" and cur: "hashes_current h i d" and known: "seq_block_hashes d i = Some hs"
    "seq_block_hash_revisions d i = Some (block_hash_revision (seqs d i))"
  shows "\<exists>d' hs'. ensure_hashes h i d = Inr d' \<and> hashed h i d d' hs'"
proof -
  let ?s = "seqs d i" and ?ts = "get_toks (seqs d i)" and ?b = "ps_block_size d"
  obtain m where m: "m \<le> length ?ts" "full_hashes h ?b ?s (take m ?ts) = Inr hs"
    using cur known unfolding hashes_current_def by blast
  obtain new where new: "compute_new_block_hashes h ?ts ?b hs (mm_features ?s) (adapter_key ?s) = Inr new"
    "full_hashes h ?b ?s ?ts = Inr (hs @ new)"
    using grown_hashes [OF bs m(1), of h "mm_features ?s" "adapter_key ?s"] m(2) by (auto simp: full_hashes_def)
  show ?thesis
  proof (cases "length hs < length ?ts div ?b")
    case True
    then have "ensure_hashes h i d = Inr (d\<lparr>seq_block_hashes := (seq_block_hashes d)(i \<mapsto> hs @ new)\<rparr>)"
      using known new(1) bs
      by (simp add: ensure_hashes_def ensure_block_hashes_def block_hash_update_def Let_def adapter_key_def)
    then show ?thesis using new(2) by (simp add: hashed_def)
  next
    case False
    then have "new = []" using new(1) bs by (auto simp: compute_new_block_hashes_def Let_def split: if_splits)
    moreover have "ensure_hashes h i d = Inr d"
      using known False bs by (simp add: ensure_hashes_def ensure_block_hashes_def block_hash_update_def Let_def)
    ultimately show ?thesis using known(1) new(2) by (simp add: hashed_def)
  qed
qed

lemma rebuilt_hashes:
  assumes bs: "0 < ps_block_size d"
    and "block_hash_update d i (length (get_toks (seqs d i))) (block_hash_revision (seqs d i)) = Inr (Some Rebuild)"
  shows "\<exists>d' hs'. ensure_hashes h i d = Inr d' \<and> hashed h i d d' hs'"
proof -
  obtain hs where hs: "full_hashes h (ps_block_size d) (seqs d i) (get_toks (seqs d i)) = Inr hs"
    using bs by (simp add: full_hashes_def compute_block_hashes_def)
  then have "ensure_hashes h i d = Inr (d\<lparr>seq_block_hashes := (seq_block_hashes d)(i \<mapsto> hs),
      seq_block_hash_revisions := (seq_block_hash_revisions d)(i \<mapsto> block_hash_revision (seqs d i))\<rparr>)"
    using assms(2) by (simp add: ensure_hashes_def ensure_block_hashes_def Let_def full_hashes_def adapter_key_def)
  then show ?thesis using hs by (simp add: hashed_def)
qed

text \<open>
  C36. The hashes kept for a sequence are those of the whole sequence: whether \<open>ensure_block_hashes\<close> keeps, extends or rebuilds them,
  the result is what hashing all tokens from scratch gives, for no other sequence anything changes, and the
  kept hashes remain valid as long as tokens are only appended.
\<close>

theorem scheduler_hashes_equal_full:
  assumes bs: "0 < ps_block_size d" and cur: "hashes_current h i d"
  shows "\<exists>d' hs. ensure_hashes h i d = Inr d' \<and> seq_block_hashes d' i = Some hs \<and>
    full_hashes h (ps_block_size d) (seqs d i) (get_toks (seqs d i)) = Inr hs \<and> hashes_current h i d' \<and>
    (\<forall>j. j \<noteq> i \<longrightarrow> seq_block_hashes d' j = seq_block_hashes d j) \<and> seqs d' = seqs d \<and> ps_block_size d' = ps_block_size d"
proof -
  have "\<exists>d' hs. ensure_hashes h i d = Inr d' \<and> hashed h i d d' hs"
  proof (cases "block_hash_update d i (length (get_toks (seqs d i))) (block_hash_revision (seqs d i)) = Inr (Some Rebuild)")
    case True
    then show ?thesis by (rule rebuilt_hashes [OF bs])
  next
    case False
    then obtain hs where "seq_block_hashes d i = Some hs" "seq_block_hash_revisions d i = Some (block_hash_revision (seqs d i))"
      using bs by (cases "seq_block_hashes d i"; cases "seq_block_hash_revisions d i") (auto simp: block_hash_update_def split: if_splits)
    then show ?thesis by (rule known_hashes [OF bs cur])
  qed
  then show ?thesis using hashed_current unfolding hashed_def by blast
qed

theorem scheduler_hashes_equal_full_witness:
  "\<exists>d d' hs. sample_scheduler d \<and> ensure_hashes (\<lambda>_. 0) 1 d = Inr d' \<and> seq_block_hashes d' 1 = Some hs \<and>
     full_hashes (\<lambda>_. 0) 16 (seqs d 1) (get_toks (seqs d 1)) = Inr hs"
proof -
  obtain d where d: "sample_scheduler d" "sched_ok debug_env 256 d" using sample_scheduler_ok by blast
  have "seq_block_hashes d 1 = None" "ps_block_size d = 16"
    using d(1) by (auto simp: sample_scheduler_def paged_add_seq_def PagedAttentionScheduler_new_def and_then_eq_Inr)
  moreover from this have "hashes_current (\<lambda>_. 0) 1 d" by (simp add: hashes_current_def)
  ultimately show ?thesis using scheduler_hashes_equal_full [of d "\<lambda>_. 0" 1] d(1) by auto
qed

end
