(* ===== verification/Paged_Release.thy ===== *)
theory Paged_Release
  imports Paged_Theorems
begin

text \<open>
  Between two turns: sequences finish or are cancelled, and \<open>free_finished_sequence_groups\<close> releases them before the next turn.
  The weaker invariant \<open>between_ok\<close> holds whenever the scheduler is idle; releasing turns it into the invariant a turn
  starts from.
\<close>

section \<open>The invariant between turns\<close>

definition between_ok :: "rt_env \<Rightarrow> nat \<Rightarrow> PagedAttentionScheduler \<Rightarrow> bool" where
  "between_ok env T d \<longleftrightarrow>
     start_ok env T d \<and> dom (tables (kv_cache_manager d)) \<subseteq> set (ps_running d) \<and>
     (\<forall>r req. tables (kv_cache_manager d) r = Some req \<longrightarrow> length (block_ids req) \<le> T) \<and>
     (\<forall>i \<in> set (ps_running d). (live (seqs d i) \<or> is_finished_paged_attn (seqs d i)) \<and> (is_prompt (seqs d i) \<longrightarrow> covered d i)) \<and>
     (\<forall>i \<in> set (ps_waiting d). is_waiting (seqs d i) \<or> is_finished_paged_attn (seqs d i))"

lemma sched_between: "sched_ok env T d \<Longrightarrow> between_ok env T d"
  by (auto simp: sched_ok_def between_ok_def turn_inv_def)

lemma between_sched:
  assumes "between_ok env T d" and "\<And>i. i \<in> set (all_ids d) \<Longrightarrow> \<not> is_finished_paged_attn (seqs d i)"
  shows "sched_ok env T d"
proof -
  have "manager_ok env (kv_cache_manager d)" using assms(1) by (simp add: between_ok_def start_ok_def)
  then show ?thesis using assms by (auto simp: sched_ok_def between_ok_def turn_inv_def same_setup_def all_ids_def)
qed

lemma start_ok_frame:
  assumes st: "start_ok env T d" and su: "same_setup d d'" and ok: "manager_ok env (kv_cache_manager d')"
    and ids: "distinct (all_ids d')" "length (all_ids d') \<le> length (all_ids d)"
    and fits: "\<And>i. i \<in> set (all_ids d') \<Longrightarrow> seq_fits T (seqs d' i)"
  shows "start_ok env T d'"
proof -
  have ok0: "manager_ok env (kv_cache_manager d)" using st by (simp add: start_ok_def)
  have g: "same_geometry (kv_cache_manager d) (kv_cache_manager d')" using su by (simp add: same_setup_def)
  note gf = geometry_fields(1,2) [OF g] geometry_fields(4,5) [OF g ok0 ok]
  have "(length (all_ids d') + 1) * T \<le> (length (all_ids d) + 1) * T" using ids(2) by (intro mult_le_mono1) simp
  moreover have "(length (all_ids d) + 1) * T \<le> u32_max" using st unfolding start_ok_def by blast
  ultimately have size: "(length (all_ids d') + 1) * T \<le> u32_max" by linarith
  have su': "ps_block_size d' = ps_block_size d" "ps_config d' = ps_config d" using su by (simp_all add: same_setup_def)
  show ?thesis
    using st ok ids(1) fits size unfolding start_ok_def su' gf by blast
qed

text \<open>A change of states only, as by cancellation.\<close>

lemma between_states:
  assumes ok: "between_ok env T d" and f: "\<And>s. f s = s \<or> (\<exists>r. f s = set_state (Done r) s)"
    and "is": "set is \<subseteq> set (all_ids d)" "distinct is"
  shows "between_ok env T (modify_seqs is f d)"
proof -
  let ?d = "modify_seqs is f d"
  have sq: "seqs ?d i = (if i \<in> set is then f (seqs d i) else seqs d i)" for i by (rule modify_seqs_seqs [OF "is"(2)])
  have fin: "is_finished_paged_attn (set_state (Done r) s)" "\<not> is_prompt (set_state (Done r) s)" for r s
    by (simp_all add: is_finished_paged_attn_def is_prompt_def set_state_def)
  have st: "seqs ?d i = seqs d i \<or> (\<exists>r. seqs ?d i = set_state (Done r) (seqs d i))" for i using f sq by metis
  have fits: "seq_fits T (seqs ?d i)" if "seq_fits T (seqs d i)" for i
    using st [of i] that seq_fits_same [OF that, of "seqs ?d i"] by auto
  have ids: "all_ids ?d = all_ids d" by (simp add: all_ids_def)
  have st0: "start_ok env T d" using ok by (simp add: between_ok_def)
  have "start_ok env T ?d"
  proof (rule start_ok_frame [OF st0])
    show "same_setup d ?d" by (simp add: same_setup_def)
    show "seq_fits T (seqs ?d i)" if "i \<in> set (all_ids ?d)" for i
      using fits that st0 unfolding ids start_ok_def by blast
  qed (use st0 in \<open>simp_all add: ids start_ok_def\<close>)
  moreover have "(live (seqs ?d i) \<or> is_finished_paged_attn (seqs ?d i)) \<and> (is_prompt (seqs ?d i) \<longrightarrow> covered ?d i)"
    if "i \<in> set (ps_running d)" for i
    using st [of i] ok that fin by (auto simp: between_ok_def covered_def)
  moreover have "is_waiting (seqs ?d i) \<or> is_finished_paged_attn (seqs ?d i)" if "i \<in> set (ps_waiting d)" for i
    using st [of i] ok that fin by (auto simp: between_ok_def)
  ultimately show ?thesis using ok by (simp add: between_ok_def)
qed

section \<open>Releasing finished sequences\<close>

text \<open>Publishing the blocks of finished sequences leaves every table as it is, up to its count of cached blocks.\<close>

definition same_blocks :: "KVCacheManager \<Rightarrow> KVCacheManager \<Rightarrow> bool" where
  "same_blocks m m' \<longleftrightarrow> same_shape m m' \<and> (\<forall>r. get_block_ids m' r = get_block_ids m r)"

definition blocks_published :: "rt_env \<Rightarrow> PagedAttentionScheduler \<Rightarrow> PagedAttentionScheduler \<Rightarrow> bool" where
  "blocks_published env d e \<longleftrightarrow> manager_ok env (kv_cache_manager e) \<and> same_geometry (kv_cache_manager d) (kv_cache_manager e) \<and>
     same_blocks (kv_cache_manager d) (kv_cache_manager e) \<and>
     (\<exists>kv hs rs. e = d\<lparr>kv_cache_manager := kv, seq_block_hashes := hs, seq_block_hash_revisions := rs\<rparr>)"

lemma same_blocks_cached:
  assumes "tables m' = (tables m)(i := map_option (\<lambda>req. req\<lparr>cached_count := c\<rparr>) (tables m i))"
  shows "same_blocks m m'"
  using assms by (cases "tables m i") (auto simp: same_blocks_def same_shape_def shape_def get_block_ids_def)

lemma same_blocks_trans: "same_blocks a b \<Longrightarrow> same_blocks b c \<Longrightarrow> same_blocks a c"
  by (simp add: same_blocks_def same_shape_def)

lemma cache_finished_total:
  assumes p: "blocks_published env d e" and bs: "ps_block_size d = block_size (kv_cache_manager d)" "0 < ps_block_size d"
    and n: "n \<le> length (get_toks (seqs d i))"
  shows "returns (cache_finished env h (i, n) e) (blocks_published env d)"
proof -
  obtain kv hs rs where e: "e = d\<lparr>kv_cache_manager := kv, seq_block_hashes := hs, seq_block_hash_revisions := rs\<rparr>"
    using p by (auto simp: blocks_published_def)
  then have kv: "kv_cache_manager e = kv" by simp
  have bse: "0 < ps_block_size e" "ps_block_size e = ps_block_size d" "seqs e = seqs d" using bs by (simp_all add: e)
  obtain hs' rs' ns where h: "ensure_hashes h i e = Inr (e\<lparr>seq_block_hashes := hs', seq_block_hash_revisions := rs'\<rparr>)"
    "hs' i = Some ns" "length (get_toks (seqs d i)) div ps_block_size d \<le> length ns"
    using ensure_hashes_total [OF bse(1), of h i] bse(2,3) by (auto simp: returns_iff)
  have bk: "block_size kv = ps_block_size d" using p bs by (simp add: blocks_published_def same_geometry_def kv)
  have "n div block_size kv \<le> length ns" using div_le_mono [OF n, of "ps_block_size d"] h(3) bk by simp
  then obtain kv' c where kv': "cache_blocks env i ns n kv = Inr kv'" "manager_ok env kv'" "same_geometry kv kv'"
    "tables kv' = (tables kv)(i := map_option (\<lambda>req. req\<lparr>cached_count := c\<rparr>) (tables kv i))"
    using cache_blocks_total [of env kv n ns i] p by (auto simp: returns_iff blocks_published_def kv)
  have "cache_finished env h (i, n) e = Inr (d\<lparr>kv_cache_manager := kv', seq_block_hashes := hs', seq_block_hash_revisions := rs'\<rparr>)"
    using h(1,2) kv'(1) by (simp add: cache_finished_def hashes_of_def kv) (simp add: e)
  moreover have "same_blocks (kv_cache_manager d) kv'" "same_geometry (kv_cache_manager d) kv'"
    using p same_blocks_cached [OF kv'(4)] kv'(3) by (auto simp: blocks_published_def kv intro: same_blocks_trans same_geometry_trans)
  ultimately show ?thesis using kv'(2) by (auto simp: blocks_published_def)
qed

text \<open>Forgetting the finished sequences removes their tables and their hashes and nothing else.\<close>

definition forgotten :: "rt_env \<Rightarrow> PagedAttentionScheduler \<Rightarrow> nat list \<Rightarrow> PagedAttentionScheduler \<Rightarrow> bool" where
  "forgotten env d gone e \<longleftrightarrow> manager_ok env (kv_cache_manager e) \<and> same_geometry (kv_cache_manager d) (kv_cache_manager e) \<and>
     tables (kv_cache_manager e) = (tables (kv_cache_manager d)) |` (- set gone) \<and>
     seq_block_hashes e = (seq_block_hashes d) |` (- set gone) \<and>
     (\<exists>kv hs rs wc. e = d\<lparr>kv_cache_manager := kv, seq_block_hashes := hs, seq_block_hash_revisions := rs, waiting_counts := wc\<rparr>)"

lemma restrict_snoc: "(f |` (- set xs))(i := None) = f |` (- set (xs @ [i]))"
  by (auto simp: fun_eq_iff restrict_map_def)

lemma forget_all_total:
  assumes ok: "manager_ok env (kv_cache_manager d)"
    and len: "\<And>r req. tables (kv_cache_manager d) r = Some req \<Longrightarrow> length (block_ids req) \<le> u32_max"
  shows "returns (fold_res (forget_finished env) gone d) (forgotten env d gone)"
proof (rule returns_fold_res)
  show "forgotten env d [] d"
    using ok by (auto simp: forgotten_def intro!: exI [of _ "kv_cache_manager d"] exI [of _ "seq_block_hashes d"]
        exI [of _ "seq_block_hash_revisions d"] exI [of _ "waiting_counts d"])
  fix pre i rest e assume e: "forgotten env d pre e"
  then have m: "manager_ok env (kv_cache_manager e)" by (simp add: forgotten_def)
  have "length (block_ids req) \<le> u32_max" if "tables (kv_cache_manager e) i = Some req" for req
    using that e len by (auto simp: forgotten_def restrict_map_def split: if_splits)
  then obtain kv where kv: "free_request env i (kv_cache_manager e) = Inr kv" "manager_ok env kv" "same_geometry (kv_cache_manager e) kv"
    "tables kv = (tables (kv_cache_manager e))(i := None)"
    using free_request_total [OF m, of i] by (auto simp: returns_iff)
  let ?e = "e\<lparr>kv_cache_manager := kv, seq_block_hashes := (seq_block_hashes e)(i := None),
      seq_block_hash_revisions := (seq_block_hash_revisions e)(i := None), waiting_counts := AList.delete i (waiting_counts e)\<rparr>"
  have "forget_finished env i e = Inr ?e" by (simp add: forget_finished_def kv(1))
  moreover have "\<exists>kv hs rs wc. ?e = d\<lparr>kv_cache_manager := kv, seq_block_hashes := hs, seq_block_hash_revisions := rs, waiting_counts := wc\<rparr>"
  proof -
    obtain kv0 hs rs wc where "e = d\<lparr>kv_cache_manager := kv0, seq_block_hashes := hs, seq_block_hash_revisions := rs, waiting_counts := wc\<rparr>"
      using e unfolding forgotten_def by blast
    then have "?e = d\<lparr>kv_cache_manager := kv, seq_block_hashes := hs(i := None), seq_block_hash_revisions := rs(i := None),
        waiting_counts := AList.delete i wc\<rparr>" by simp
    then show ?thesis by blast
  qed
  moreover have "same_geometry (kv_cache_manager d) kv" using e kv(3) by (auto simp: forgotten_def intro: same_geometry_trans)
  moreover have "tables kv = tables (kv_cache_manager d) |` (- set (pre @ [i]))"
    using e kv(4) unfolding forgotten_def restrict_snoc [symmetric] by metis
  moreover have "seq_block_hashes ?e = seq_block_hashes d |` (- set (pre @ [i]))"
  proof -
    have "seq_block_hashes ?e = (seq_block_hashes e)(i := None)" by simp
    then show ?thesis using e unfolding forgotten_def restrict_snoc [symmetric] by metis
  qed
  ultimately show "returns (forget_finished env i e) (forgotten env d (pre @ [i]))"
    using kv(2) unfolding forgotten_def by simp
qed

text \<open>The release as a whole.\<close>

definition released :: "PagedAttentionScheduler \<Rightarrow> PagedAttentionScheduler \<Rightarrow> bool" where
  "released d d' \<longleftrightarrow>
     (let gone = {i \<in> set (all_ids d). is_finished_paged_attn (seqs d i)} in
      ps_running d' = filter (\<lambda>i. i \<notin> gone) (ps_running d) \<and> ps_waiting d' = filter (\<lambda>i. i \<notin> gone) (ps_waiting d) \<and>
      seqs d' = seqs d \<and> responses d' = responses d \<and> finished_recurrent_slots d' = [] \<and>
      (\<forall>i. get_block_ids (kv_cache_manager d') i = (if i \<in> gone then None else get_block_ids (kv_cache_manager d) i)) \<and>
      (\<forall>i \<in> gone. seq_block_hashes d' i = None))"

lemma after_release:
  assumes ok: "between_ok env T d"
    and e: "blocks_published env (d\<lparr>ps_running := filter (\<lambda>i. \<not> is_finished_paged_attn (seqs d i)) (ps_running d),
        ps_waiting := filter (\<lambda>i. \<not> is_finished_paged_attn (seqs d i)) (ps_waiting d)\<rparr>) e"
    and x: "forgotten env e (filter (\<lambda>i. is_finished_paged_attn (seqs d i)) (all_ids d)) x"
  shows "sched_ok env T (x\<lparr>finished_recurrent_slots := []\<rparr>) \<and> released d (x\<lparr>finished_recurrent_slots := []\<rparr>)"
proof -
  let ?fin = "\<lambda>i. is_finished_paged_attn (seqs d i)" and ?x = "x\<lparr>finished_recurrent_slots := []\<rparr>"
  let ?gone = "{i \<in> set (all_ids d). is_finished_paged_attn (seqs d i)}" and ?kv = "kv_cache_manager d"
  have st: "start_ok env T d" using ok by (simp add: between_ok_def)
  have blocks: "same_shape ?kv (kv_cache_manager e)" "\<And>r. get_block_ids (kv_cache_manager e) r = get_block_ids ?kv r"
    using e by (simp_all add: blocks_published_def same_blocks_def)
  have tab: "tables (kv_cache_manager ?x) = (tables (kv_cache_manager e)) |` (- ?gone)" using x by (simp add: forgotten_def)
  have fld: "ps_running ?x = filter (\<lambda>i. \<not> ?fin i) (ps_running d)" "ps_waiting ?x = filter (\<lambda>i. \<not> ?fin i) (ps_waiting d)"
    "seqs ?x = seqs d" "responses ?x = responses d" "finished_recurrent_slots ?x = []" "ps_block_size ?x = ps_block_size d"
    using e x by (auto simp: blocks_published_def forgotten_def)
  have su: "same_setup d ?x" using e x by (auto simp: blocks_published_def forgotten_def same_setup_def intro: same_geometry_trans)
  have ids: "all_ids ?x = filter (\<lambda>i. \<not> ?fin i) (all_ids d)" using fld(1,2) by (simp add: all_ids_def)
  have start: "start_ok env T ?x"
    by (rule start_ok_frame [OF st su]) (use st x in \<open>auto simp: ids fld(3) start_ok_def forgotten_def\<close>)
  have cov: "covered ?x i" if c: "covered d i" and alive: "\<not> ?fin i" for i
  proof -
    obtain req where "tables ?kv i = Some req" "div_ceil (length (get_toks (seqs d i))) (ps_block_size d) \<le> reach req"
      using c unfolding covered_def by blast
    moreover obtain req' where "tables (kv_cache_manager e) i = Some req'" "reach req' = reach req"
      using same_shape_some [OF same_shape_sym [OF blocks(1)] calculation(1)] by metis
    ultimately show ?thesis using alive unfolding covered_def tab fld(3,6) by simp
  qed
  have small: "\<forall>r req. tables ?kv r = Some req \<longrightarrow> length (block_ids req) \<le> T" using ok by (simp add: between_ok_def)
  have len: "length (block_ids req) \<le> T" if x: "tables (kv_cache_manager ?x) r = Some req" for r req
  proof -
    have "tables (kv_cache_manager e) r = Some req" using x unfolding tab by (auto simp: restrict_map_def split: if_splits)
    then obtain req' where "tables ?kv r = Some req'" "length (block_ids req) = length (block_ids req')"
      using same_shape_some [OF blocks(1)] by metis
    then show ?thesis using small by simp
  qed
  have dom: "dom (tables (kv_cache_manager ?x)) \<subseteq> set (ps_running ?x)"
  proof
    fix r assume "r \<in> dom (tables (kv_cache_manager ?x))"
    then obtain req where "tables (kv_cache_manager e) r = Some req" and r: "r \<notin> ?gone"
      unfolding tab by (auto simp: restrict_map_def split: if_splits)
    then obtain req' where "tables ?kv r = Some req'" using same_shape_some [OF blocks(1)] by metis
    then have "r \<in> set (ps_running d)" using ok by (auto simp: between_ok_def)
    then show "r \<in> set (ps_running ?x)" using r by (simp add: fld all_ids_def)
  qed
  have "between_ok env T ?x"
    unfolding between_ok_def using start dom len ok cov by (auto simp: fld(1-3) between_ok_def)
  then have "sched_ok env T ?x" by (rule between_sched) (simp add: ids fld(3))
  moreover have "released d ?x"
  proof -
    have "seq_block_hashes ?x i = None" if "i \<in> ?gone" for i using x that by (simp add: forgotten_def)
    moreover have "get_block_ids (kv_cache_manager ?x) i = (if i \<in> ?gone then None else get_block_ids ?kv i)" for i
      using blocks(2) [of i] unfolding get_block_ids_def tab by (simp add: restrict_map_def)
    moreover have "filter (\<lambda>i. i \<notin> ?gone) (ps_running d) = ps_running ?x" "filter (\<lambda>i. i \<notin> ?gone) (ps_waiting d) = ps_waiting ?x"
      by (auto simp: fld all_ids_def intro: filter_cong)
    ultimately show ?thesis using fld(3-5) unfolding released_def Let_def by simp
  qed
  ultimately show ?thesis by blast
qed

lemma free_finished_total:
  assumes ok: "between_ok env T d"
  shows "returns (paged_free_finished env h d) (\<lambda>d'. sched_ok env T d' \<and> released d d')"
proof -
  note st = ok [unfolded between_ok_def, THEN conjunct1]
  have m: "manager_ok env (kv_cache_manager d)" and bs: "ps_block_size d = block_size (kv_cache_manager d)"
    and dist: "distinct (all_ids d)" using st by (simp_all add: start_ok_def)
  have bpos: "0 < ps_block_size d" using manager_parts(3) [OF m] bs by simp
  have T: "T \<le> u32_max" using st by (auto simp: start_ok_def)
  let ?fin = "\<lambda>i. is_finished_paged_attn (seqs d i)"
  let ?gone = "filter ?fin (all_ids d)"
  let ?d = "d\<lparr>ps_running := filter (\<lambda>i. \<not> ?fin i) (ps_running d), ps_waiting := filter (\<lambda>i. \<not> ?fin i) (ps_waiting d)\<rparr>"
  let ?cacheable = "map (\<lambda>i. (i, seq_computed (seqs d i)))
      (filter (\<lambda>i. prefix_caching_enabled d \<and> seq_state (seqs d i) \<noteq> Error \<and> ps_block_size d \<le> seq_computed (seqs d i)) ?gone)"
  have p0: "blocks_published env ?d ?d"
    using m by (auto simp: blocks_published_def same_blocks_def same_shape_def intro!: exI [of _ "kv_cache_manager d"]
        exI [of _ "seq_block_hashes d"] exI [of _ "seq_block_hash_revisions d"])
  have pub: "returns (if prefix_caching_enabled ?d then fold_res (cache_finished env h) ?cacheable ?d else Inr ?d) (blocks_published env ?d)"
  proof -
    have "returns (fold_res (cache_finished env h) ?cacheable ?d) (blocks_published env ?d)"
    proof (rule returns_fold_res [where I = "\<lambda>_. blocks_published env ?d"])
      fix pre x rest e assume x: "?cacheable = pre @ x # rest" and e: "blocks_published env ?d e"
      have "x \<in> set ?cacheable" unfolding x by simp
      then obtain i where i: "x = (i, seq_computed (seqs d i))" "i \<in> set (all_ids d)" by auto
      have "seq_fits T (seqs d i)" using st i(2) by (simp add: start_ok_def)
      then have "seq_computed (seqs d i) \<le> length (get_toks (seqs ?d i))"
        using seq_computed_le [of "seqs d i"] by (simp add: seq_fits_def)
      then show "returns (cache_finished env h x e) (blocks_published env ?d)"
        unfolding i(1) by (intro cache_finished_total [OF e]) (use bs bpos in simp_all)
    qed (rule p0)
    note pub = this
    show ?thesis
    proof (cases "prefix_caching_enabled ?d")
      case True
      show ?thesis unfolding if_P [OF True] by (rule pub)
    next
      case False
      show ?thesis unfolding if_not_P [OF False] using p0 by (simp only: returns_Inr)
    qed
  qed
  have last: "returns (and_then (fold_res (forget_finished env) ?gone e) (\<lambda>d.
      let d = d\<lparr>finished_recurrent_slots := []\<rparr> in and_then (publish_kv_block_metrics d) (\<lambda>_. Inr d)))
      (\<lambda>d'. sched_ok env T d' \<and> released d d')" if e: "blocks_published env ?d e" for e
  proof -
    note e' = e [unfolded blocks_published_def]
    have len: "length (block_ids req) \<le> T" if "tables (kv_cache_manager e) r = Some req" for r req
      using that e' ok same_shape_some [of "kv_cache_manager ?d" "kv_cache_manager e" r req]
      by (simp add: same_blocks_def between_ok_def) metis
    have me: "manager_ok env (kv_cache_manager e)" using e' by blast
    show ?thesis
    proof (rule returns_bind [OF forget_all_total [OF me]])
      show "length (block_ids req) \<le> u32_max" if "tables (kv_cache_manager e) r = Some req" for r req using len [OF that] T by linarith
      fix x assume x: "forgotten env e ?gone x"
      show "returns (let d = x\<lparr>finished_recurrent_slots := []\<rparr> in and_then (publish_kv_block_metrics d) (\<lambda>_. Inr d))
          (\<lambda>d'. sched_ok env T d' \<and> released d d')"
        using after_release [OF ok e x] publish_total [of env "x\<lparr>finished_recurrent_slots := []\<rparr>"] x
        by (simp add: Let_def forgotten_def)
    qed
  qed
  show ?thesis
    unfolding paged_free_finished_def Let_def [of "filter ?fin (all_ids d)"] by (simp only: Let_def) (rule returns_bind [OF pub], rule last [unfolded Let_def])
qed

end
