(* ===== verification/Paged_System.thy ===== *)
theory Paged_System
  imports Paged_Release
begin

text \<open>
  The scheduler in its surroundings: requests arrive, clients disconnect, the engine runs the batch and moves sequences on,
  and every turn first releases the finished sequences and then schedules. Whatever the interleaving, the
  scheduler does not panic and its state is consistent.
\<close>

section \<open>Steps\<close>

datatype paged_op = AddSequence | CancelClosed | RunBatch | Turn

text \<open>
  What the engine does to the sequences between two turns: it appends tokens, computes prompts and finishes sequences, within
  the bound on their length. A running prompt keeps its tokens; a waiting sequence stays
  waiting unless it is finished.
\<close>

definition engine_update :: "nat \<Rightarrow> PagedAttentionScheduler \<Rightarrow> PagedAttentionScheduler \<Rightarrow> bool" where
  "engine_update T d d' \<longleftrightarrow> (\<exists>store. d' = d\<lparr>seqs := store\<rparr> \<and> (\<forall>i \<in> set (all_ids d). seq_fits T (store i)) \<and>
     (\<forall>i \<in> set (ps_running d). (live (store i) \<or> is_finished_paged_attn (store i)) \<and>
       (is_prompt (store i) \<longrightarrow> is_prompt (seqs d i) \<and> get_toks (store i) = get_toks (seqs d i))) \<and>
     (\<forall>i \<in> set (ps_waiting d). is_waiting (store i) \<or> is_finished_paged_attn (store i)))"

text \<open>A turn as the engine calls it.\<close>

definition paged_turn ::
    "rt_env \<Rightarrow> hasher \<Rightarrow> 'v PagedPrefixCacheValidator option \<Rightarrow> bool \<Rightarrow> PagedAttentionScheduler \<Rightarrow> 'v \<Rightarrow>
     (PagedAttentionSchedulerOutput \<times> nat list \<times> PagedAttentionScheduler \<times> 'v \<times> bool) res" where
  "paged_turn env h pv stop d v = and_then (paged_free_finished env h d) (\<lambda>d. scheduler_schedule env h pv stop d v)"

inductive paged_step ::
    "rt_env \<Rightarrow> nat \<Rightarrow> 'v PagedPrefixCacheValidator option \<Rightarrow> PagedAttentionScheduler \<times> 'v \<Rightarrow> paged_op \<Rightarrow>
     PagedAttentionScheduler \<times> 'v \<Rightarrow> bool" for env T pv where
  p_add: "i \<notin> set (all_ids d) \<Longrightarrow> is_waiting s \<Longrightarrow> seq_fits T s \<Longrightarrow> (length (all_ids d) + 2) * T \<le> u32_max \<Longrightarrow>
    paged_step env T pv (d, v) AddSequence (paged_add_seq i s d, v)"
| p_cancel: "paged_step env T pv (d, v) CancelClosed (paged_cancel_closed d, v)"
| p_run: "engine_update T d d' \<Longrightarrow> paged_step env T pv (d, v) RunBatch (d', v')"
| p_turn: "paged_turn env h pv stop d v = Inr (out, gone, d', v', stop') \<Longrightarrow> paged_step env T pv (d, v) Turn (d', v')"

section \<open>Every step keeps the invariant\<close>

lemma add_between:
  assumes ok: "between_ok env T d" and i: "i \<notin> set (all_ids d)" and s: "is_waiting s" "seq_fits T s"
    and size: "(length (all_ids d) + 2) * T \<le> u32_max"
  shows "between_ok env T (paged_add_seq i s d)"
proof -
  have "start_ok env T d" using ok by (simp add: between_ok_def)
  from start_ok_add [OF this i s(2) size] show ?thesis
    using ok i s(1) unfolding between_ok_def by (auto simp: paged_add_seq_def all_ids_def covered_def)
qed

lemma cancel_between:
  assumes "between_ok env T d"
  shows "between_ok env T (paged_cancel_closed d)"
  unfolding paged_cancel_closed_def
  by (rule between_states [OF assms]) (use assms in \<open>auto simp: between_ok_def start_ok_def\<close>)

lemma engine_between:
  assumes ok: "between_ok env T d" and up: "engine_update T d d'"
  shows "between_ok env T d'"
proof -
  obtain store where d': "d' = d\<lparr>seqs := store\<rparr>" and fits: "\<forall>i \<in> set (all_ids d). seq_fits T (store i)"
    and run: "\<forall>i \<in> set (ps_running d). (live (store i) \<or> is_finished_paged_attn (store i)) \<and>
       (is_prompt (store i) \<longrightarrow> is_prompt (seqs d i) \<and> get_toks (store i) = get_toks (seqs d i))"
    and wait: "\<forall>i \<in> set (ps_waiting d). is_waiting (store i) \<or> is_finished_paged_attn (store i)"
    using up unfolding engine_update_def by blast
  have st: "start_ok env T d" using ok by (simp add: between_ok_def)
  have "start_ok env T d'"
    by (rule start_ok_frame [OF st]) (use st fits in \<open>auto simp: d' same_setup_def all_ids_def start_ok_def\<close>)
  then show ?thesis using ok run wait unfolding between_ok_def by (auto simp: d' covered_def)
qed

text \<open>The released ids of a turn are those preempted and not running again.\<close>

definition deferred_ok :: "PagedAttentionScheduler \<Rightarrow> nat list \<Rightarrow> bool" where
  "deferred_ok d gone \<longleftrightarrow> distinct gone \<and> set gone \<inter> set (ps_running d) = {} \<and> preempted_sequence_ids d = []"

lemma take_deferred_spec:
  assumes "take_deferred_speculative_releases d = (gone, d')"
  shows "deferred_ok d' gone" and "d' = d\<lparr>preempted_sequence_ids := []\<rparr>"
proof -
  let ?f = "\<lambda>i released. if i \<notin> set (ps_running d) \<and> i \<notin> set released then released @ [i] else released"
  have "distinct acc \<Longrightarrow> distinct (fold ?f xs acc) \<and> set (fold ?f xs acc) = set acc \<union> (set xs - set (ps_running d))" for xs acc
    by (induction xs arbitrary: acc) auto
  from this [of "[]" "preempted_sequence_ids d"] show "deferred_ok d' gone"
    using assms by (auto simp: take_deferred_speculative_releases_def deferred_ok_def)
  show "d' = d\<lparr>preempted_sequence_ids := []\<rparr>" using assms by (simp add: take_deferred_speculative_releases_def)
qed

lemma between_deferred [simp]: "between_ok env T (d\<lparr>preempted_sequence_ids := xs\<rparr>) = between_ok env T d"
  by (simp add: between_ok_def start_ok_def all_ids_def covered_def)

lemma turn_end_between:
  assumes st: "start_ok env T d0" and inv: "turn_inv env T d0 [] [] e" and "end": "turn_end stopped e d"
  shows "between_ok env T d"
proof -
  have ok: "between_ok env T e" by (rule sched_between [OF turn_restart [OF st inv]])
  have dist: "distinct (ps_running e)" using turn_facts(7) [OF st inv] by simp
  show ?thesis
  proof (cases stopped)
    case True
    then show ?thesis
      using "end" between_states [OF ok, of "set_state (Done Canceled)" "ps_running e"] dist
      by (auto simp: turn_end_def all_ids_def)
  qed (use ok "end" in \<open>simp add: turn_end_def\<close>)
qed

text \<open>A turn from any state between turns.\<close>

lemma paged_turn_total:
  assumes ok: "between_ok env T d" and keep: "commits_keep_sequence pv"
  shows "returns (paged_turn env h pv stop d v) (\<lambda>(out, gone, d', v', stop'). between_ok env T d' \<and> deferred_ok d' gone \<and>
    distinct (out_scheduled out) \<and> set (out_scheduled out) \<subseteq> set (ps_running d') \<and> (stop' \<longrightarrow> stop))"
  unfolding paged_turn_def
proof (rule returns_bind [OF free_finished_total [OF ok]], elim conjE)
  fix d1 assume d1: "sched_ok env T d1"
  obtain out d2 v' stop' stopped e where r: "paged_schedule env h pv stop d1 v = Inr (out, d2, v', stop')"
    "turn_inv env T d1 [] [] e" "turn_end stopped e d2" "stop' = (stop \<and> \<not> stopped)" "stopped \<Longrightarrow> out_scheduled out = []"
    "\<not> stopped \<Longrightarrow> prompts_result env T d1 out d2 \<or>
      (\<not> stop \<and> completion_batch_ok d2 (out_scheduled out) \<and> num_cached_tokens out = [] \<and> scheduled_prompt_chunks out = None)"
    using turn_outcome [OF d1 keep] by metis
  have b: "between_ok env T d2" by (rule turn_end_between [OF sched_ok_parts(1) [OF d1] r(2,3)])
  have batch: "distinct (out_scheduled out)" "set (out_scheduled out) \<subseteq> set (ps_running d2)"
    using r(5,6) by (cases stopped; auto simp: prompts_result_def prompt_batch_ok_def completion_batch_ok_def)+
  obtain gone d3 where t: "take_deferred_speculative_releases d2 = (gone, d3)" by force
  note d3 = take_deferred_spec [OF t]
  have "scheduler_schedule env h pv stop d1 v = Inr (out, gone, d3, v', stop')" using r(1) t by (simp add: scheduler_schedule_def)
  moreover have "between_ok env T d3" "ps_running d3 = ps_running d2" using b by (simp_all add: d3(2))
  ultimately show "returns (scheduler_schedule env h pv stop d1 v) (\<lambda>(out, gone, d', v', stop'). between_ok env T d' \<and> deferred_ok d' gone \<and>
    distinct (out_scheduled out) \<and> set (out_scheduled out) \<subseteq> set (ps_running d') \<and> (stop' \<longrightarrow> stop))"
    using batch d3(1) r(4) by simp
qed

lemma paged_step_ok:
  assumes "paged_step env T pv (d, v) l (d', v')" and "between_ok env T d" and "commits_keep_sequence pv"
  shows "between_ok env T d'"
  using assms
proof (cases rule: paged_step.cases)
  case (p_turn h stop out gone stop')
  then show ?thesis using paged_turn_total [OF assms(2,3), of h stop v] by simp
qed (auto intro: add_between cancel_between engine_between)

section \<open>Reachable schedulers\<close>

definition fresh_scheduler :: "rt_env \<Rightarrow> PagedAttentionScheduler \<Rightarrow> bool" where
  "fresh_scheduler env d \<longleftrightarrow> (\<exists>store cfg n bsz gs. PagedAttentionScheduler_new env store cfg n bsz gs = Inr d \<and>
     u32_max + max_num_batched_tokens cfg \<le> usize_max \<and> n + 2 \<le> usize_max \<and> 0 < bsz \<and> n * bsz \<le> usize_max \<and> gs \<noteq> [])"

lemma fresh_between:
  assumes fresh: "fresh_scheduler env d" and env: "env_ok env" "debug_assertions env" and T: "T \<le> u32_max"
  shows "between_ok env T d"
proof -
  obtain store cfg n bsz gs where new: "PagedAttentionScheduler_new env store cfg n bsz gs = Inr d"
    and big: "u32_max + max_num_batched_tokens cfg \<le> usize_max" "n + 2 \<le> usize_max" "0 < bsz" "n * bsz \<le> usize_max" "gs \<noteq> []"
    using fresh unfolding fresh_scheduler_def by blast
  have pos: "0 < max_num_seqs cfg" "0 < max_num_batched_tokens cfg" "0 < max_prefill_chunk_tokens cfg"
    "0 < max_decode_steps_before_prefill cfg" "0 < n"
    using new by (auto simp: PagedAttentionScheduler_new_def KVCacheManager_new_def BlockPool_new_def and_then_eq_Inr assert_that_def
        split: if_splits)
  show ?thesis
    using new_scheduler [OF pos(1-4) big(1) pos(5) big(2-5) env T, of store] new by (simp add: sched_between)
qed

definition paged_init :: "rt_env \<times> nat \<times> 'v PagedPrefixCacheValidator option \<times> PagedAttentionScheduler \<times> 'v \<Rightarrow> bool" where
  "paged_init = (\<lambda>(env, T, pv, d, v). env_ok env \<and> debug_assertions env \<and> T \<le> u32_max \<and> commits_keep_sequence pv \<and> fresh_scheduler env d)"

definition paged_next ::
    "rt_env \<times> nat \<times> 'v PagedPrefixCacheValidator option \<times> PagedAttentionScheduler \<times> 'v \<Rightarrow> paged_op \<Rightarrow>
     rt_env \<times> nat \<times> 'v PagedPrefixCacheValidator option \<times> PagedAttentionScheduler \<times> 'v \<Rightarrow> bool" where
  "paged_next = (\<lambda>(env, T, pv, d, v) l (env', T', pv', d', v'). env' = env \<and> T' = T \<and> pv' = pv \<and> paged_step env T pv (d, v) l (d', v'))"

interpretation pts: transition_system paged_init paged_next
  "\<lambda>(env, T, pv, d, v). commits_keep_sequence pv \<and> between_ok env T d"
  by unfold_locales (auto simp: paged_init_def paged_next_def intro: fresh_between paged_step_ok)



section \<open>A concrete run\<close>

definition sample_state :: "PagedAttentionScheduler \<Rightarrow> bool" where
  "sample_state d \<longleftrightarrow> (\<exists>d0. PagedAttentionScheduler_new debug_env (\<lambda>i. sample_prompt i []) sample_config 8 16 [0] = Inr d0 \<and>
     d = paged_add_seq 1 (sample_prompt 1 (replicate 20 7)) d0)"

lemma sample_state_reachable:
  obtains d where "sample_state d" and "all_ids d = [1]" and "reachable_from paged_init paged_next (debug_env, 256, Some accepting, d, ())"
proof -
  have cfg: "0 < max_num_seqs sample_config" "0 < max_num_batched_tokens sample_config" "0 < max_prefill_chunk_tokens sample_config"
    "0 < max_decode_steps_before_prefill sample_config" "u32_max + max_num_batched_tokens sample_config \<le> usize_max"
    by (simp_all add: sample_config_def int_max_defs)
  have n: "(0::nat) < 8" "8 + 2 \<le> usize_max" "(0::nat) < 16" "8 * 16 \<le> usize_max" by (simp_all add: int_max_defs)
  have env: "env_ok debug_env" "debug_assertions debug_env" by (simp_all add: debug_env_def env_ok_def)
  have T: "256 \<le> u32_max" by (simp add: int_max_defs)
  obtain d0 where d0: "PagedAttentionScheduler_new debug_env (\<lambda>i. sample_prompt i []) sample_config 8 16 [0] = Inr d0" "all_ids d0 = []"
    using new_scheduler [OF cfg n _ env T, of "[0]" "\<lambda>i. sample_prompt i []"] by (auto simp: returns_iff)
  have "fresh_scheduler debug_env d0" unfolding fresh_scheduler_def using d0(1) cfg(5) n by blast
  then have start: "reachable_from paged_init paged_next (debug_env, 256, Some accepting, d0, ())"
    using env T accepting_keeps by (intro reach_init) (simp add: paged_init_def)
  have "paged_step debug_env 256 (Some accepting) (d0, ()) AddSequence (paged_add_seq 1 (sample_prompt 1 (replicate 20 7)) d0, ())"
    by (rule p_add) (simp_all add: d0(2) is_waiting_def seq_fits_def sample_prompt_def get_toks_def seq_len_def
        active_staged_speculative_len_def int_max_defs)
  then have "paged_next (debug_env, 256, Some accepting, d0, ()) AddSequence
      (debug_env, 256, Some accepting, paged_add_seq 1 (sample_prompt 1 (replicate 20 7)) d0, ())" by (simp only: paged_next_def prod.case simp_thms)
  note reach_step [OF start this]
  moreover have "all_ids (paged_add_seq 1 (sample_prompt 1 (replicate 20 7)) d0) = [1]"
    using d0(2) by (simp add: all_ids_def paged_add_seq_def)
  moreover have "sample_state (paged_add_seq 1 (sample_prompt 1 (replicate 20 7)) d0)" unfolding sample_state_def using d0(1) by blast
  ultimately show thesis using that by blast
qed



end
