(* ===== verification/Paged_Rotation.thy ===== *)
theory Paged_Rotation
  imports Paged_Turn
begin

text \<open>
  The round robin over running completions (\<open>completion_batch_indices\<close> with its cursor): among rows of one staged width and one cost it
  is fair, and with rows of different staged widths a row can be passed over for ever.
\<close>

section \<open>Rows of one width and one cost\<close>

definition uniform_rows :: "(nat \<Rightarrow> Sequence) \<Rightarrow> nat list \<Rightarrow> nat \<Rightarrow> nat \<Rightarrow> bool" where
  "uniform_rows store rows w c \<longleftrightarrow>
     rows \<noteq> [] \<and> (\<forall>i \<in> set rows. active_staged_speculative_len (store i) = w \<and> completion_token_cost (store i) = c)"

definition batch_width :: "nat \<Rightarrow> nat \<Rightarrow> nat \<Rightarrow> nat" where
  "batch_width n budget c = min n (max 1 (budget div c))"

lemma pick_uniform:
  assumes "0 < c" and "selected \<noteq> []"
    and "\<And>k. k \<in> set ks \<Longrightarrow> active_staged_speculative_len (store (rows ! k)) = w \<and> completion_token_cost (store (rows ! k)) = c"
  shows "\<exists>r. completion_pick store rows w ks (remaining, selected, latest) =
    (r, selected @ take (remaining div c) ks, last (latest # take (remaining div c) ks))"
  using assms(2,3)
proof (induction ks arbitrary: remaining selected latest)
  case (Cons k ks)
  show ?case
  proof (cases "c \<le> remaining")
    case True
    then have q: "remaining div c = Suc ((remaining - c) div c)" using assms(1) by (simp add: le_div_geq)
    show ?thesis
      using Cons.IH [of "selected @ [k]" "remaining - c" k] Cons.prems True by (auto simp: q Let_def)
  next
    case False
    then have q: "remaining div c = 0" by simp
    show ?thesis using Cons.IH [of selected remaining latest] Cons.prems False by (simp add: q Let_def)
  qed
qed simp

lemma rotation_take: "k \<le> len \<Longrightarrow> take k (rotation start len) = map (\<lambda>offset. (start + offset) mod len) [0..<k]"
  by (simp add: rotation_def take_map)

lemma batch_indices_uniform:
  assumes uni: "uniform_rows store rows w c" and c: "0 < c" and n_def: "n = length rows" and m_def: "m = batch_width n budget c"
  shows "completion_batch_indices store rows cursor budget = (map (\<lambda>offset. (cursor + offset) mod n) [0..<m], (cursor + m) mod n)"
proof -
  have n: "0 < n" using uni by (simp add: uniform_rows_def n_def)
  note rot = rotation_props [OF n, of cursor]
  have row: "active_staged_speculative_len (store (rows ! k)) = w \<and> completion_token_cost (store (rows ! k)) = c" if "k < n" for k
    using uni that by (simp add: uniform_rows_def n_def)
  obtain ks where ks: "rotation cursor n = cursor mod n # ks" using rot(3,4) by (cases "rotation cursor n") auto
  have kn: "cursor mod n < n" "\<And>k. k \<in> set ks \<Longrightarrow> k < n" "length ks = n - 1" using n rot(2,5) ks by auto
  let ?t = "(budget - c) div c"
  have m: "m = min n (Suc ?t)"
    using c by (cases "c \<le> budget") (simp_all add: m_def batch_width_def le_div_geq)
  have "m \<le> n" "0 < m" using m n by auto
  have sel: "cursor mod n # take ?t ks = map (\<lambda>offset. (cursor + offset) mod n) [0..<m]"
  proof -
    have "take m (rotation cursor n) = take (Suc ?t) (rotation cursor n)" using rot(5) by (simp add: m min_def)
    then show ?thesis using rotation_take [OF \<open>m \<le> n\<close>, of cursor] ks by simp
  qed
  obtain r where r: "completion_pick store rows w ks (budget - c, [cursor mod n], cursor mod n) =
      (r, [cursor mod n] @ take ?t ks, last (cursor mod n # take ?t ks))"
    using pick_uniform [OF c, of "[cursor mod n]" ks store rows w "budget - c" "cursor mod n"] row kn by auto
  have pick: "completion_pick store rows w (rotation cursor n) (budget, [], cursor mod n) = (r, cursor mod n # take ?t ks, last (cursor mod n # take ?t ks))"
    using r row [OF kn(1)] by (simp add: ks Let_def)
  have "completion_batch_indices store rows cursor budget =
      (cursor mod n # take ?t ks, (last (cursor mod n # take ?t ks) + 1) mod n)"
  proof -
    have "map (\<lambda>offset. (cursor mod n + offset) mod n) [0..<n] = rotation cursor n" by (simp add: rotation_def mod_add_left_eq)
    moreover have "rows \<noteq> []" using uni by (simp add: uniform_rows_def)
    ultimately show ?thesis
      using row [OF kn(1)] pick unfolding completion_batch_indices_def Let_def n_def [symmetric] by simp
  qed
  moreover have "last (map (\<lambda>offset. (cursor + offset) mod n) [0..<m]) = (cursor + (m - 1)) mod n"
    using \<open>0 < m\<close> by (simp add: last_map)
  moreover have "((cursor + (m - 1)) mod n + 1) mod n = (cursor + m) mod n"
    unfolding mod_add_left_eq using \<open>0 < m\<close> by simp
  ultimately show ?thesis unfolding sel by simp
qed

section \<open>Successive batches\<close>

fun cursor_after :: "(nat \<Rightarrow> Sequence) \<Rightarrow> nat list \<Rightarrow> nat \<Rightarrow> nat \<Rightarrow> nat \<Rightarrow> nat" where
  "cursor_after store rows budget cursor 0 = cursor"
| "cursor_after store rows budget cursor (Suc t) =
     snd (completion_batch_indices store rows (cursor_after store rows budget cursor t) budget)"

lemma cursor_after_uniform:
  assumes "uniform_rows store rows w c" and "0 < c"
  shows "cursor_after store rows budget cursor t mod length rows =
    (cursor + t * batch_width (length rows) budget c) mod length rows"
proof (induction t)
  case (Suc t)
  let ?n = "length rows" and ?m = "batch_width (length rows) budget c"
  have "cursor_after store rows budget cursor (Suc t) mod ?n = (cursor_after store rows budget cursor t mod ?n + ?m) mod ?n"
    by (simp add: batch_indices_uniform [OF assms refl refl] mod_add_left_eq)
  also have "\<dots> = (cursor + Suc t * ?m) mod ?n" unfolding Suc.IH mod_add_left_eq by (simp add: ac_simps)
  finally show ?case .
qed simp

text \<open>
  C37. The rotation is fair: while the running completions have one staged width and one token cost, every row is scheduled within as many
  turns as batches are needed to go once around, whatever the budget and the position of the cursor.
\<close>

theorem completion_rotation_fair:
  assumes "uniform_rows store rows w c" and "0 < c" and "k < length rows"
  shows "\<exists>t \<le> (length rows - 1) div batch_width (length rows) budget c.
    k \<in> set (fst (completion_batch_indices store rows (cursor_after store rows budget cursor t) budget))"
proof -
  let ?n = "length rows" and ?m = "batch_width (length rows) budget c"
  have n: "0 < ?n" using assms(3) by linarith
  have m: "0 < ?m" using n by (simp add: batch_width_def)
  define z where "z = (k + (?n - cursor mod ?n)) mod ?n"
  have z: "z < ?n" "(cursor + z) mod ?n = k"
  proof -
    show "z < ?n" using n by (simp add: z_def)
    have lt: "cursor mod ?n < ?n" using n by simp
    have "(cursor + z) mod ?n = (cursor mod ?n + (k + (?n - cursor mod ?n))) mod ?n"
      unfolding z_def by (simp add: mod_add_left_eq mod_add_right_eq)
    also have "cursor mod ?n + (k + (?n - cursor mod ?n)) = k + ?n" using lt by linarith
    finally show "(cursor + z) mod ?n = k" using assms(3) by simp
  qed
  let ?t = "z div ?m" and ?r = "z mod ?m"
  have "?t \<le> (?n - 1) div ?m" using z(1) by (intro div_le_mono) simp
  moreover have "(cursor_after store rows budget cursor ?t + ?r) mod ?n = k"
  proof -
    have "(cursor_after store rows budget cursor ?t + ?r) mod ?n = (cursor_after store rows budget cursor ?t mod ?n + ?r) mod ?n"
      by (simp add: mod_add_left_eq)
    also have "\<dots> = (cursor + (?t * ?m + ?r)) mod ?n"
      unfolding cursor_after_uniform [OF assms(1,2)] by (simp add: mod_add_left_eq add.assoc)
    finally show ?thesis using z(2) by simp
  qed
  then have "k \<in> set (fst (completion_batch_indices store rows (cursor_after store rows budget cursor ?t) budget))"
    using m by (auto simp: batch_indices_uniform [OF assms(1,2) refl refl] image_iff intro!: bexI [of _ ?r])
  ultimately show ?thesis by blast
qed

section \<open>Rows of different widths\<close>

text \<open>A running completion with its last token to compute and a number of staged speculative tokens.\<close>

definition decoding_row :: "nat \<Rightarrow> nat \<Rightarrow> Sequence" where
  "decoding_row i staged = \<lparr>sid = i, timestamp = i, seq_state = RunningCompletion, scheduling_urgency = 0, token_offset = 0,
     return_raw_logits = False, stepping_type = PromptAndDecode, seq_adapter = None, images_given = False, has_images = False,
     has_audios = False, has_videos = False, mm_features = [], response_closed = False, recurrent_state_idx = None,
     staged_speculative_tokens = replicate staged 0, prefill_prompt_toks = None, prefix_cache_len = 0, prefix_cache_hit_recorded = False,
     block_hash_revision = 0, computed_tokens = 4, xlora_cache = None, layer_cache = None, seq_tokens = [1, 2, 3, 4, 5]\<rparr>"

lemma decoding_row_fields:
  "active_staged_speculative_len (decoding_row i n) = n" "completion_token_cost (decoding_row i n) = max (min (1 + n) usize_max) 1"
  "is_completion (decoding_row i n)"
  by (simp_all add: decoding_row_def active_staged_speculative_len_def completion_token_cost_def num_uncomputed_tokens_def
      seq_computed_def seq_len_def is_completion_def)

theorem completion_rotation_fair_witness:
  "\<exists>t \<le> 2. 2 \<in> set (fst (completion_batch_indices (\<lambda>i. decoding_row i 0) [4, 6, 8] (cursor_after (\<lambda>i. decoding_row i 0) [4, 6, 8] 1 0 t) 1))"
proof -
  have "uniform_rows (\<lambda>i. decoding_row i 0) [4, 6, 8] 0 1"
    by (simp add: uniform_rows_def decoding_row_fields usize_max_def)
  from completion_rotation_fair [OF this, of 2 1 0] show ?thesis by (simp add: batch_width_def numeral_2_eq_2)
qed

text \<open>
  C38. The rotation is not fair across staged widths: of three running completions the second has staged speculative tokens and the others have
  none. With any budget for both of the others every batch consists of them, the cursor returns to the first row, and
  the second row is never scheduled, however many turns follow.
\<close>

theorem mixed_widths_starve_row:
  "is_completion (decoding_row 1 3) \<and>
   (\<forall>t. fst (completion_batch_indices (\<lambda>i. decoding_row i (if i = 1 then 3 else 0)) [0, 1, 2]
      (cursor_after (\<lambda>i. decoding_row i (if i = 1 then 3 else 0)) [0, 1, 2] (b + 2) 0 t) (b + 2)) = [0, 2])"
proof -
  let ?store = "\<lambda>i. decoding_row i (if i = 1 then 3 else 0)"
  have one: "max (min (1 + 0) usize_max) 1 = 1" by (simp add: usize_max_def)
  have batch: "completion_batch_indices ?store [0, 1, 2] 0 (b + 2) = ([0, 2], 0)"
    by (simp add: completion_batch_indices_def Let_def upt_rec decoding_row_fields one [simplified] numeral_2_eq_2)
  have "cursor_after ?store [0, 1, 2] (b + 2) 0 t = 0" for t
    by (induction t) (simp_all only: cursor_after.simps batch snd_conv)
  then show ?thesis by (simp only: batch fst_conv decoding_row_fields simp_thms)
qed

end
