(* ===== verification/Spec2Isabelle.thy ===== *)
theory Spec2Isabelle
  imports Manager_Theorems Windowed_Theorems Prompt_Chunk_Theorems Default_Scheduler_Theorems Encoder_Theorems Admission_Queue Paged_Hashes Paged_System Paged_Rotation
begin

text \<open>
  A verification of the memory and scheduling core of mistral.rs, the Rust inference engine under
  \<open>src/mistralrs-core/src\<close>. What a served request depends on beside the numerics is bookkeeping: which
  physical block holds which tokens, when a block may be reused, which cached prefix a request
  may share, how a prompt is cut into forwards, and which sequences run together. This library models
  that bookkeeping from the source and proves it correct.

  \<^bold>\<open>The parts and how they interact.\<close> A prompt is hashed block by block (\<open>block_hash.rs\<close>). The block pool
  (\<open>block_pool.rs\<close>) owns the physical blocks: a free queue threaded through the block array, an
  index from hashes to cached blocks, and leases by which holders outside the scheduler retain prefixes. The KV
  cache manager (\<open>kv_cache_manager.rs\<close>) gives requests their block tables on top of the pool, with
  reservations for prompts. The sliding-window pool (\<open>windowed_pool.rs\<close>) is a second, independent store: a
  ring of pages per sequence with checkpoints. The encoder cache (\<open>encoder_cache.rs\<close>) keeps encoded media. The chunk planner
  (\<open>pipeline/prompt_chunks.rs\<close>) cuts prompts for prefill. Two schedulers decide which sequences run: the default one
  (\<open>scheduler/default_scheduler.rs\<close>), and the one of paged attention (\<open>paged_attention/scheduler.rs\<close>), which calls the hashes, the manager and
  the chunk planner in every turn. Requests reach them through the engine's admission queue (\<open>engine/admission.rs\<close>).

  \<^bold>\<open>Theories.\<close>

  \<^item> \<open>Rust_Prelude\<close>: panics and results as sum types, machine integers with their overflow behaviour, indexing,
  loops, the locale \<open>transition_system\<close> (invariants over reachable states) and its extension
  \<open>stamped_system\<close> (claims stamped with a clock never come back).
  \<^item> \<open>Block_Hash\<close>: \<open>block_hash.rs\<close>. \<open>DefaultHasher\<close> is a parameter; a hash is modelled by the sequence of
  \<open>Hasher\<close> writes it is fed. Equal hashes mean equal prefixes up to collisions; incremental and full hashing agree;
  the clamp finds the greatest admissible hit.
  \<^item> \<open>Free_Queue\<close>: \<open>FreeKVCacheBlockQueue\<close> with its links stored in the blocks. The locale \<open>lru_queue\<close> is its
  contract; every run refines the run on a list.
  \<^item> \<open>Hash_Index\<close>: \<open>BlockHashToBlockMap\<close>; the locale \<open>block_index\<close> is its contract. The build profile and the
  iteration order of hash sets are the environment \<open>rt_env\<close>.
  \<^item> \<open>Retention\<close>: the lease registry \<open>PrefixBlockRetention\<close>; lease counts are exact in every reachable registry.
  \<^item> \<open>Block_Pool\<close>, \<open>Pool_Invariant\<close>, \<open>Pool_Allocation\<close>, \<open>Pool_References\<close>, \<open>Pool_Caching\<close>,
  \<open>Pool_Theorems\<close>: \<open>BlockPool\<close> with every mutating method; its invariant, the effect of each operation, and the properties
  over all interleavings of pool operations and lease holders.
  \<^item> \<open>KV_Cache_Manager\<close>, \<open>Manager_Invariant\<close>, \<open>Manager_Theorems\<close>: \<open>KVCacheManager\<close>. The locale
  \<open>block_allocator\<close> is what the manager relies on of the pool, interpreted on the pool's model. Reference counts equal table
  occurrences, reservations are always honoured, prefix hits are the longest cached ones.
  \<^item> \<open>Windowed_Pool\<close>, \<open>Windowed_Ring\<close>, \<open>Windowed_Invariant\<close>, \<open>Windowed_System\<close>, \<open>Windowed_Theorems\<close>:
  \<open>windowed_pool.rs\<close>. candle's tensors are a parameter with two laws (\<open>candle_laws\<close>); handles, plans and kernel launches are part of
  the step relation. Ring addresses never collide, slots are exclusive, snapshot and restore is a round trip, stale
  plans are refused, scratch rows cover the window.
  \<^item> \<open>Prompt_Chunks\<close>, \<open>Prompt_Chunk_Theorems\<close>: \<open>prompt_chunks.rs\<close> and the replay clamp of
  \<open>speculative/target.rs\<close>. The chunk loop is a partial function, since it does not end for a chunk size of zero; for
  every other size it returns a partition of the prompt that cuts no noncausal span.
  \<^item> \<open>Sequences\<close>: the fields, states and lengths of \<open>sequence.rs\<close> that the schedulers use.
  \<^item> \<open>Default_Scheduler\<close>, \<open>Default_Scheduler_Theorems\<close>: \<open>default_scheduler.rs\<close>. \<open>f64\<close> priorities and hash map orders are parameters. No
  sequence is lost, batches are uniform, something always runs.
  \<^item> \<open>Encoder_Cache\<close>, \<open>Encoder_Invariant\<close>, \<open>Encoder_Batch\<close>, \<open>Encoder_Encode\<close>, \<open>Encoder_Theorems\<close>: \<open>encoder_cache.rs\<close>. Tensors are a
  type parameter with laws (\<open>tensor_laws\<close>). The process-wide residency is exact over any number of caches, eviction is least
  recently used and minimal, cached encoding returns what direct encoding returns.
  \<^item> \<open>Admission_Queue\<close>: \<open>engine/admission.rs\<close>, the queue in front of the engine. First come, first served in every lane; an idle engine always gets work.
  \<^item> \<open>Paged_Scheduler\<close>, \<open>Paged_Schedule\<close>: \<open>paged_attention/scheduler.rs\<close>. A shared sequence is an id into the store
  \<open>seqs\<close>; the prefix validator is a parameter with a state of its own. The admission loop ends because a turn of it either shortens the
  waiting queue or lowers the number of starving sequences; preemption and the completion loop shorten the running queue.
  \<^item> \<open>Paged_Invariant\<close>: \<open>turn_inv\<close>, the invariant inside a turn, relates the state to the one the turn started from: every sequence in
  one place, blocks only for running sequences, prompts backed by blocks or reservations. The bound \<open>T\<close> on the tokens of a sequence keeps
  counters inside their width: with at most \<open>n\<close> sequences, \<open>(n + 1) * T\<close> fits into 32 bits.
  \<^item> \<open>Paged_Admission\<close>, \<open>Paged_Admission_Loop\<close>, \<open>Paged_Batches\<close>, \<open>Paged_Completions\<close>, \<open>Paged_Turn\<close>: each step of a turn returns and keeps the
  invariant; after full preemption a prompt within the capacity always fits, so the branch for an exhausted cache is dead.
  \<^item> \<open>Paged_Theorems\<close>, \<open>Paged_Release\<close>, \<open>Paged_System\<close>: the turn as a whole, the release of finished sequences, and the scheduler
  in its surroundings as a transition system of requests, cancellations, engine progress and turns.
  \<^item> \<open>Paged_Hashes\<close>, \<open>Paged_Rotation\<close>: the kept block hashes are those of the whole sequence; the rotation over completions is fair for
  rows of one width and cost, and is not in general.

  \<^bold>\<open>Correspondence.\<close> A struct is a record, an enum a datatype, a method a definition of the same name (prefixed where
  the name is taken); a mutating method returns the new state. Panics are values of \<open>panic\<close>, \<open>Result\<close> errors values
  of the component's error type, and a method that has changed its state before it fails returns that state. Loops are
  recursive functions with a termination proof, folds, or the partial function above, whose missing result becomes the outcome
  \<open>NoReturn\<close> for its callers, which never occurs there; there is no fuel. Integers are natural numbers with their width written out at every operation that can overflow.

  \<^bold>\<open>Findings.\<close> \<open>release_retained_hashes\<close> does its work inside \<open>debug_assert!\<close>, so a release build
  leaks a pinned block (\<open>pressure_loop_leaks_in_release\<close>). The default scheduler does not apply its limit when
  nothing is running (\<open>fixed_limit_only_beside_running\<close>). The paged scheduler's rotation passes over a completion whose staged
  width differs from its neighbours' (\<open>mixed_widths_starve_row\<close>), and the comment of \<open>set_prefix_caching_enabled_sync\<close> promises an
  update of the manager that the code does not make.

  \<^bold>\<open>Not modelled.\<close> The numerics (models, kernels, quantization, sampling), device and tensor code, which go through
  candle; metrics and logging; the asynchronous request loop; servers and bindings. Mutexes and atomics
  are modelled as atomic steps of one state, which is how the code uses them (each method holds its lock). The engine's part of a paged turn
  is the relation \<open>engine_update\<close>, what the scheduler relies on of it; the cache sizing, the prefix cacher of the contiguous caches and the
  parsers are further candidates.
\<close>

end
